(* ===== verification/Prelude.thy ===== *)
theory Prelude
  imports Main "HOL-Library.Word"
begin

text \<open>
  Shared ground of the development: the byte type, windows of byte lists, the little-endian
  memory representation of machine words with its round trips, the byte swap behind
  \<^verbatim>\<open>htobe64\<close> and \<^verbatim>\<open>htobe32\<close>, and the theorem collections the component theories feed.
\<close>

unbundle bit_operations_syntax

type_synonym byte = "8 word"
type_synonym bytes = "byte list"
type_synonym uint64 = "64 word"
type_synonym uint32 = "32 word"
type_synonym int32 = "32 word"

named_theorems file_simps "rewriting with positioned reads and writes"
named_theorems size_simps "sizes of on-disk structures"

section \<open>Slices\<close>

definition window :: "'a list \<Rightarrow> nat \<Rightarrow> nat \<Rightarrow> 'a list" where
  "window xs off n = take n (drop off xs)"

lemma length_window [simp]: "length (window xs off n) = min n (length xs - off)"
  by (simp add: window_def)

lemma nth_window: "i < n \<Longrightarrow> off + i < length xs \<Longrightarrow> window xs off n ! i = xs ! (off + i)"
  by (simp add: window_def)

lemma window_append_left: "off + n \<le> length xs \<Longrightarrow> window (xs @ ys) off n = window xs off n"
  by (simp add: window_def)

lemma window_append_right:
  "length xs \<le> off \<Longrightarrow> window (xs @ ys) off n = window ys (off - length xs) n"
  by (simp add: window_def)

lemma window_0_all: "length xs \<le> n \<Longrightarrow> window xs 0 n = xs"
  by (simp add: window_def)

lemma window_at: "length xs = off \<Longrightarrow> length ys = n \<Longrightarrow> window (xs @ ys @ zs) off n = ys"
  by (simp add: window_def)

lemma slice_window:
  "a + m \<le> n \<Longrightarrow> window (window xs off n) a m = window xs (off + a) m"
  by (simp add: window_def drop_take min_def add.commute)

lemma window_0 [simp]: "window xs off 0 = []"
  by (simp add: window_def)

section \<open>Signed counters\<close>

text \<open>
  A C \<^verbatim>\<open>int\<close> is a 32-bit word read by \<^term>\<open>sint\<close>. Its addition is undefined, \<^term>\<open>None\<close>, when the
  sum is not an \<^verbatim>\<open>int\<close>.
\<close>

definition int_add :: "int32 \<Rightarrow> int32 \<Rightarrow> int32 option" where
  "int_add a b =
     (let s = sint a + sint b in if - (2 ^ 31) \<le> s \<and> s < 2 ^ 31 then Some (word_of_int s) else None)"

lemma sint_word_of_int32: "- (2 ^ 31) \<le> s \<Longrightarrow> s < 2 ^ 31 \<Longrightarrow> sint (word_of_int s :: int32) = s"
  by (simp add: int_word_sint)

lemma int_add_nonneg:
  assumes "0 \<le> sint a" and "0 \<le> sint b" and "sint a + sint b < 2 ^ 31"
  shows "\<exists>c. int_add a b = Some c \<and> sint c = sint a + sint b"
  using assms sint_word_of_int32 [of "sint a + sint b"] by (auto simp: int_add_def)

lemma sint_of_nat32: "n < 2 ^ 31 \<Longrightarrow> sint (of_nat n :: int32) = int n"
  using sint_word_of_int32 [of "int n"] by simp

section \<open>Blocks of a list\<close>

fun chunks :: "nat \<Rightarrow> 'a list \<Rightarrow> 'a list list" where
  "chunks B xs = (if B = 0 \<or> xs = [] then [] else take B xs # chunks B (drop B xs))"

declare chunks.simps [simp del]

lemma chunks_Nil [simp]: "chunks B [] = []"
  by (simp add: chunks.simps)

lemma chunks_step: "0 < B \<Longrightarrow> xs \<noteq> [] \<Longrightarrow> chunks B xs = take B xs # chunks B (drop B xs)"
  by (subst chunks.simps) simp

lemma concat_chunks: "0 < B \<Longrightarrow> concat (chunks B xs) = xs"
  by (induction B xs rule: chunks.induct) (subst chunks.simps, simp)

lemma chunks_length: "c \<in> set (chunks m xs) \<Longrightarrow> 0 < length c \<and> length c \<le> m"
proof (induction m xs rule: chunks.induct)
  case (1 m xs)
  show ?case
  proof (cases "m = 0 \<or> xs = []")
    case False
    then show ?thesis using 1 by (auto simp: chunks_step)
  qed (use 1 in \<open>auto simp: chunks.simps\<close>)
qed

section \<open>Loops over an index range\<close>

text \<open>Loops whose steps may fail.\<close>

primrec fold_opt :: "('i \<Rightarrow> 's \<Rightarrow> 's option) \<Rightarrow> 'i list \<Rightarrow> 's \<Rightarrow> 's option" where
  "fold_opt f [] s = Some s"
| "fold_opt f (i # is) s = Option.bind (f i s) (fold_opt f is)"

lemma fold_opt_append: "fold_opt f (xs @ ys) s = Option.bind (fold_opt f xs s) (fold_opt f ys)"
  by (induction xs arbitrary: s) (simp_all split: Option.bind_split)

lemma length_concat_const: "(\<And>x. x \<in> set xs \<Longrightarrow> length (f x) = l) \<Longrightarrow> length (concat (map f xs)) = length xs * l"
  by (induction xs) simp_all

text \<open>A loop, or a conjunction, that is left at the first failure.\<close>

primrec all_opt :: "('i \<Rightarrow> bool option) \<Rightarrow> 'i list \<Rightarrow> bool option" where
  "all_opt f [] = Some True"
| "all_opt f (i # is) = Option.bind (f i) (\<lambda>ok. if ok then all_opt f is else Some False)"

lemma all_opt_True: "list_all (\<lambda>i. f i = Some True) is \<Longrightarrow> all_opt f is = Some True"
  by (induction "is") simp_all

lemma fold_upt_invariant:
  assumes "P m s" and "\<And>i s. m \<le> i \<Longrightarrow> i < n \<Longrightarrow> P i s \<Longrightarrow> P (Suc i) (f i s)" and "m \<le> n"
  shows "P n (fold f [m..<n] s)"
proof -
  have "m + k \<le> n \<Longrightarrow> P (m + k) (fold f [m..<m + k] s)" for k
  proof (induction k)
    case 0
    then show ?case using assms(1) by simp
  next
    case (Suc k)
    then have "P (Suc (m + k)) (f (m + k) (fold f [m..<m + k] s))" by (intro assms(2)) auto
    then show ?case by simp
  qed
  from this [of "n - m"] assms(3) show ?thesis by simp
qed

lemma fold_down_invariant:
  assumes "P n s" and "\<And>i s. i < n \<Longrightarrow> P (Suc i) s \<Longrightarrow> P i (f i s)"
  shows "P 0 (fold f (rev [0..<n]) s)"
  using assms
proof (induction n arbitrary: s)
  case (Suc n)
  then have "P n (f n s)" by blast
  then have "P 0 (fold f (rev [0..<n]) (f n s))" by (rule Suc.IH) (use Suc.prems(2) in auto)
  then show ?case by simp
qed simp

section \<open>Machine words in memory\<close>

lemma unat_of_nat_small: "k < 2 ^ 63 \<Longrightarrow> unat (of_nat k :: uint64) = k"
  by (simp add: unat_of_nat take_bit_nat_eq_self_iff)

definition le_bytes :: "nat \<Rightarrow> 'a::len word \<Rightarrow> bytes" where
  "le_bytes n w = map (\<lambda>i. ucast (drop_bit (8 * i) w)) [0..<n]"

primrec from_le :: "bytes \<Rightarrow> 'a::len word" where
  "from_le [] = 0"
| "from_le (b # bs) = ucast b OR push_bit 8 (from_le bs)"

lemma length_le_bytes [simp]: "length (le_bytes n w) = n"
  by (simp add: le_bytes_def)

lemma bit_from_le:
  "bit (from_le bs :: 'a::len word) i \<longleftrightarrow>
     i < LENGTH('a) \<and> i div 8 < length bs \<and> bit (bs ! (i div 8)) (i mod 8)"
proof (induction bs arbitrary: i)
  case Nil
  then show ?case by simp
next
  case (Cons b bs)
  show ?case
  proof (cases "i < 8")
    case True
    then show ?thesis by (auto simp: bit_simps)
  next
    case False
    then obtain j where j: "i = j + 8" by (metis add.commute le_Suc_ex not_less)
    have "\<not> bit b (j + 8)" by (simp add: bit_word.rep_eq)
    moreover have "(j + 8) div 8 = Suc (j div 8)" and "(j + 8) mod 8 = j mod 8" by simp_all
    ultimately show ?thesis using Cons.IH [of j] by (auto simp: j bit_simps)
  qed
qed

lemma from_le_le_bytes:
  fixes w :: "'a::len word"
  assumes "LENGTH('a) = 8 * n"
  shows "from_le (le_bytes n w) = w"
proof (rule bit_word_eqI)
  fix i assume "i < LENGTH('a)"
  with assms show "bit (from_le (le_bytes n w) :: 'a word) i \<longleftrightarrow> bit w i"
    by (simp add: bit_from_le le_bytes_def bit_simps less_mult_imp_div_less mult.commute)
qed

lemma le_bytes_from_le:
  assumes "LENGTH('a) = 8 * length bs"
  shows "le_bytes (length bs) (from_le bs :: 'a::len word) = bs"
proof (rule nth_equalityI)
  fix i assume "i < length (le_bytes (length bs) (from_le bs :: 'a word))"
  then have i: "i < length bs" by simp
  show "le_bytes (length bs) (from_le bs :: 'a word) ! i = bs ! i"
  proof (rule bit_word_eqI)
    fix j assume j: "j < LENGTH(8)"
    have "8 * i + j < 8 * length bs" using i j by simp
    with i j assms show "bit (le_bytes (length bs) (from_le bs :: 'a word) ! i) j \<longleftrightarrow> bit (bs ! i) j"
      by (simp add: le_bytes_def bit_from_le bit_simps)
  qed
qed simp

text \<open>
  The hosts the program is built for are little-endian: \<^verbatim>\<open>htobe64\<close> and \<^verbatim>\<open>htobe32\<close> of
  \<^verbatim>\<open>endian.h\<close> swap the bytes of their argument, and \<^verbatim>\<open>fwrite\<close>/\<^verbatim>\<open>fread\<close> of a variable
  move its little-endian memory image.
\<close>

definition htobe64 :: "uint64 \<Rightarrow> uint64" where
  "htobe64 w = from_le (rev (le_bytes 8 w))"

definition htobe32 :: "uint32 \<Rightarrow> uint32" where
  "htobe32 w = from_le (rev (le_bytes 4 w))"

text \<open>The big-endian byte strings the on-disk format is specified with.\<close>

definition be64 :: "uint64 \<Rightarrow> bytes" where
  "be64 w = rev (le_bytes 8 w)"

definition be32 :: "uint32 \<Rightarrow> bytes" where
  "be32 w = rev (le_bytes 4 w)"

lemma length_be64 [simp, size_simps]: "length (be64 w) = 8"
  by (simp add: be64_def)

lemma length_be32 [simp, size_simps]: "length (be32 w) = 4"
  by (simp add: be32_def)

lemma le_bytes_htobe64 [simp]: "le_bytes 8 (htobe64 w) = be64 w"
  using le_bytes_from_le [where 'a = 64, of "rev (le_bytes 8 w)"]
  by (simp add: htobe64_def be64_def)

lemma le_bytes_htobe32 [simp]: "le_bytes 4 (htobe32 w) = be32 w"
  using le_bytes_from_le [where 'a = 32, of "rev (le_bytes 4 w)"]
  by (simp add: htobe32_def be32_def)

lemma htobe64_involutive [simp]: "htobe64 (htobe64 w) = w"
  using from_le_le_bytes [where 'a = 64, of 8 w]
  by (simp add: htobe64_def [of "htobe64 w"] be64_def)

lemma htobe32_involutive [simp]: "htobe32 (htobe32 w) = w"
  using from_le_le_bytes [where 'a = 32, of 4 w]
  by (simp add: htobe32_def [of "htobe32 w"] be32_def)

lemma htobe64_from_be64 [simp]: "htobe64 (from_le (be64 w)) = w"
  by (metis be64_def htobe64_def htobe64_involutive)

lemma htobe32_from_be32 [simp]: "htobe32 (from_le (be32 w)) = w"
  by (metis be32_def htobe32_def htobe32_involutive)

section \<open>C strings\<close>

text \<open>The bytes of a string literal.\<close>

abbreviation chars :: "string \<Rightarrow> bytes" where "chars s \<equiv> map of_char s"

text \<open>The decimal digits of a number, most significant first.\<close>

fun decimal :: "nat \<Rightarrow> bytes" where
  "decimal n = (if n < 10 then [of_nat (48 + n)] else decimal (n div 10) @ [of_nat (48 + n mod 10)])"

declare decimal.simps [simp del]

abbreviation space :: byte where "space \<equiv> 32"

text \<open>
  A C string in an array: the bytes before the first NUL. An array without NUL is not a
  string; using it as one reads past its end, which the model reports as \<^term>\<open>None\<close>.
\<close>

definition c_str :: "bytes \<Rightarrow> bytes option" where
  "c_str bs = (if 0 \<in> set bs then Some (takeWhile (\<lambda>b. b \<noteq> 0) bs) else None)"

text \<open>\<^verbatim>\<open>strncpy(dst, src, n)\<close>: the bytes it leaves in the first \<open>n\<close> positions of \<open>dst\<close>.\<close>

definition strncpy :: "bytes \<Rightarrow> nat \<Rightarrow> bytes" where
  "strncpy src n =
     (let s = take n (takeWhile (\<lambda>b. b \<noteq> 0) src) in s @ replicate (n - length s) 0)"

lemma length_strncpy [simp]: "length (strncpy src n) = n"
  by (simp add: strncpy_def Let_def)

lemma takeWhile_nul_append:
  "0 \<notin> set s \<Longrightarrow> takeWhile (\<lambda>b. b \<noteq> (0::byte)) (s @ 0 # r) = s"
  by (induction s) auto

lemma c_str_nul [simp]: "0 \<notin> set s \<Longrightarrow> c_str (s @ 0 # r) = Some s"
  by (simp add: c_str_def takeWhile_nul_append)

lemma c_str_strncpy:
  assumes "0 \<notin> set s" and "length s < n"
  shows "c_str (strncpy (s @ 0 # r) n) = Some s"
proof -
  obtain k where k: "n - length s = Suc k"
    using assms(2) by (metis Suc_diff_Suc)
  have "take n s = s" using assms(2) by simp
  then have "strncpy (s @ 0 # r) n = s @ 0 # replicate k 0"
    by (simp add: strncpy_def Let_def takeWhile_nul_append [OF assms(1)] k)
  then show ?thesis using assms by simp
qed

end
