(* ===== verification/CStdio.thy ===== *)
theory CStdio
  imports Prelude "HOL-Library.Monad_Syntax"
begin

text \<open>
  The part of C's standard I/O the program uses, as pure functions on a stream record: a
  regular file's contents, the stream position and whether it was opened in append mode.
  A write past the end fills the gap with zero bytes, as POSIX specifies; an append-mode
  write always goes to the end of the file. A result \<^term>\<open>None\<close> means the C program reads
  an indeterminate value or otherwise has undefined behaviour from there on.
\<close>

record FILE =
  contents :: bytes
  pos :: nat
  append_mode :: bool

section \<open>Positioned overwriting of a byte list\<close>

definition overwrite :: "bytes \<Rightarrow> nat \<Rightarrow> bytes \<Rightarrow> bytes" where
  "overwrite c p bs =
     (if bs = [] then c
      else take p c @ replicate (p - length c) 0 @ bs @ drop (p + length bs) c)"

definition byte_at :: "bytes \<Rightarrow> nat \<Rightarrow> byte" where
  "byte_at c i = (if i < length c then c ! i else 0)"

lemma length_overwrite [file_simps]:
  "length (overwrite c p bs) = (if bs = [] then length c else max (length c) (p + length bs))"
  by (auto simp: overwrite_def)

lemma byte_at_overwrite [file_simps]:
  "byte_at (overwrite c p bs) i =
     (if p \<le> i \<and> i < p + length bs then bs ! (i - p) else byte_at c i)"
proof (cases "bs = []")
  case True
  then show ?thesis by (auto simp: overwrite_def)
next
  case False
  define h where "h = take p c @ replicate (p - length c) (0::byte)"
  have h: "length h = p" by (simp add: h_def)
  have eq: "overwrite c p bs = h @ bs @ drop (p + length bs) c"
    using False by (simp add: overwrite_def h_def)
  consider "i < p" | "p \<le> i" "i < p + length bs" | "p + length bs \<le> i" by linarith
  then show ?thesis
  proof cases
    case 1
    then show ?thesis
      by (simp add: eq byte_at_def nth_append h) (auto simp: h_def nth_append)
  next
    case 2
    then have "i - p < length bs" by linarith
    with 2 show ?thesis by (simp add: eq byte_at_def nth_append h)
  next
    case 3
    then show ?thesis by (auto simp: eq byte_at_def nth_append h)
  qed
qed

lemma byte_at_list_eqI:
  assumes "length c = length d" and "\<And>i. i < length d \<Longrightarrow> byte_at c i = byte_at d i"
  shows "c = d"
proof (rule nth_equalityI)
  fix i assume "i < length c"
  with assms show "c ! i = d ! i" by (metis byte_at_def)
qed (rule assms(1))

lemma overwrite_append [file_simps]:
  "overwrite (overwrite c p xs) (p + length xs) ys = overwrite c p (xs @ ys)"
proof (rule byte_at_list_eqI)
  show "length (overwrite (overwrite c p xs) (p + length xs) ys) = length (overwrite c p (xs @ ys))"
    by (auto simp: length_overwrite)
  fix i
  show "byte_at (overwrite (overwrite c p xs) (p + length xs) ys) i = byte_at (overwrite c p (xs @ ys)) i"
    by (auto simp: byte_at_overwrite nth_append intro!: arg_cong2 [where f = nth])
qed

lemma overwrite_Nil [simp]: "overwrite c p [] = c"
  by (simp add: overwrite_def)

lemma overwrite_end: "overwrite c (length c) bs = c @ bs"
  by (simp add: overwrite_def)

lemma window_overwrite_same: "window (overwrite c p bs) p (length bs) = bs"
proof (cases "bs = []")
  case False
  have "length (take p c @ replicate (p - length c) (0::byte)) = p" by simp
  then show ?thesis
    using window_at [of "take p c @ replicate (p - length c) 0" p bs]
    by (simp add: overwrite_def False)
qed simp

section \<open>Stream operations\<close>

text \<open>
  \<^verbatim>\<open>fseek(fp, off, SEEK_SET)\<close>: the offset is a signed 64-bit \<^verbatim>\<open>long\<close>; a negative one is an
  error and leaves the position alone.
\<close>

definition fseek :: "uint64 \<Rightarrow> FILE \<Rightarrow> FILE" where
  "fseek off f = (if unat off < 2 ^ 63 then f\<lparr>pos := unat off\<rparr> else f)"

definition fwrite :: "bytes \<Rightarrow> FILE \<Rightarrow> FILE" where
  "fwrite bs f =
     (if bs = [] then f
      else let p = (if append_mode f then length (contents f) else pos f)
           in f\<lparr>contents := overwrite (contents f) p bs, pos := p + length bs\<rparr>)"

text \<open>\<^verbatim>\<open>fread\<close> of up to \<open>n\<close> bytes: what was read, and the stream after it.\<close>

definition fread :: "nat \<Rightarrow> FILE \<Rightarrow> bytes \<times> FILE" where
  "fread n f = (let bs = window (contents f) (pos f) n in (bs, f\<lparr>pos := pos f + length bs\<rparr>))"

text \<open>
  \<^verbatim>\<open>fread\<close> into an uninitialised object of \<open>n\<close> bytes that is then used: a short read leaves
  part of it indeterminate.
\<close>

definition fread_obj :: "nat \<Rightarrow> FILE \<Rightarrow> (bytes \<times> FILE) option" where
  "fread_obj n f = (let (bs, f') = fread n f in if length bs = n then Some (bs, f') else None)"

lemma fread_obj_eq:
  "fread_obj n f =
     (if pos f + n \<le> length (contents f) \<or> n = 0
      then Some (window (contents f) (pos f) n, f\<lparr>pos := pos f + n\<rparr>) else None)"
  by (auto simp: fread_obj_def fread_def Let_def min_def)

lemma contents_fseek [simp]: "contents (fseek off f) = contents f"
  by (simp add: fseek_def)

lemma append_mode_fseek [simp]: "append_mode (fseek off f) = append_mode f"
  by (simp add: fseek_def)

lemma pos_fseek: "unat off < 2 ^ 63 \<Longrightarrow> pos (fseek off f) = unat off"
  by (simp add: fseek_def)

lemma contents_fread [simp]: "contents (snd (fread n f)) = contents f"
  by (simp add: fread_def Let_def)

lemma fread_obj_contents: "fread_obj n f = Some (bs, f') \<Longrightarrow> contents f' = contents f"
  by (auto simp: fread_obj_eq split: if_splits)

lemma append_mode_fwrite [simp]: "append_mode (fwrite bs f) = append_mode f"
  by (simp add: fwrite_def Let_def)

lemma fwrite_Nil [simp]: "fwrite [] f = f"
  by (simp add: fwrite_def)

lemma fwrite_fwrite [file_simps]: "fwrite ys (fwrite xs f) = fwrite (xs @ ys) f"
proof (cases "append_mode f")
  case True
  have "length (overwrite (contents f) (length (contents f)) xs) = length (contents f) + length xs"
    by (auto simp: length_overwrite)
  then show ?thesis using True overwrite_append [of "contents f" "length (contents f)" xs ys]
    by (simp add: fwrite_def Let_def)
next
  case False
  then show ?thesis using overwrite_append [of "contents f" "pos f" xs ys]
    by (simp add: fwrite_def Let_def)
qed

lemma contents_fwrite [file_simps]:
  "\<not> append_mode f \<Longrightarrow> contents (fwrite bs f) = overwrite (contents f) (pos f) bs"
  by (simp add: fwrite_def Let_def)

lemma contents_fwrite_append [file_simps]:
  "append_mode f \<Longrightarrow> contents (fwrite bs f) = contents f @ bs"
  by (simp add: fwrite_def Let_def overwrite_end)

text \<open>The stream a newly opened file gives: \<^verbatim>\<open>fopen(_, "wb")\<close> truncates it.\<close>

definition fopen_w :: FILE where
  "fopen_w = \<lparr>contents = [], pos = 0, append_mode = False\<rparr>"

definition fopen_r :: "bytes \<Rightarrow> FILE" where
  "fopen_r c = \<lparr>contents = c, pos = 0, append_mode = False\<rparr>"

definition fopen_a :: "bytes \<Rightarrow> FILE" where
  "fopen_a c = \<lparr>contents = c, pos = 0, append_mode = True\<rparr>"

end
