(* ===== verification/OnDisk.thy ===== *)
theory OnDisk
  imports CStdio
begin

text \<open>
  The image format shared by the programs: the structures of \<^verbatim>\<open>OnDiskStructure.h\<close>, the
  big-endian writers of \<^verbatim>\<open>master.cpp\<close> and the readers of \<^verbatim>\<open>readFunctions.cpp\<close>, with the
  round trips between them.
\<close>

section \<open>OnDiskStructure.h\<close>

text \<open>
  \<^verbatim>\<open>enum file_type : uint32_t\<close> has a fixed underlying type and is filled by a cast from any
  32-bit value, so it is the word itself with the three named values.
\<close>

type_synonym file_type = uint32

definition DIRECTORY :: file_type where "DIRECTORY = 0"
definition PLAIN_FILE :: file_type where "PLAIN_FILE = 1"
definition SYM_LINK :: file_type where "SYM_LINK = 2"

text \<open>
  The in-memory metadata of the traversal. \<open>prs_name\<close> is \<^verbatim>\<open>char name[255]\<close> together with the
  padding byte that follows it: the code copies 256 bytes into it and reads it back as a
  C string that may end in that byte.
\<close>

record m_prs =
  prs_name :: bytes
  prs_type :: file_type
  prs_length :: uint64
  prs_time :: uint64
  prs_p :: bytes

record m_hdr =
  hdr_name :: bytes
  hdr_length :: uint64
  hdr_time :: uint64
  hdr_offset :: uint64
  hdr_type :: file_type

text \<open>\<^verbatim>\<open>struct tree_node\<close>, with the nodes reachable through \<^verbatim>\<open>children\<close> as a list.\<close>

datatype tree_node = Node (nd_data: m_prs) (nd_children: "tree_node list") (nd_fill: uint32)

definition M_HDR_SIZE :: nat where
  "M_HDR_SIZE = 256 + 4 + 8 + 8 + 8"

lemma M_HDR_SIZE_eq [simp, size_simps]: "M_HDR_SIZE = 284"
  by (simp add: M_HDR_SIZE_def)

section \<open>Writing and reading integers\<close>

definition write64 :: "uint64 \<Rightarrow> FILE \<Rightarrow> FILE" where
  "write64 item output = fwrite (le_bytes 8 (htobe64 item)) output"

definition write32 :: "uint32 \<Rightarrow> FILE \<Rightarrow> FILE" where
  "write32 item output = fwrite (le_bytes 4 (htobe32 item)) output"

definition read64_pure :: "FILE \<Rightarrow> (uint64 \<times> FILE) option" where
  "read64_pure fp = do {
     (bs, fp) \<leftarrow> fread_obj 8 fp;
     Some (htobe64 (from_le bs), fp)
   }"

definition read64 :: "FILE \<Rightarrow> uint64 \<Rightarrow> (uint64 \<times> FILE) option" where
  "read64 fp offset = read64_pure (fseek offset fp)"

definition read32_pure :: "FILE \<Rightarrow> (uint32 \<times> FILE) option" where
  "read32_pure fp = do {
     (bs, fp) \<leftarrow> fread_obj 4 fp;
     Some (htobe32 (from_le bs), fp)
   }"

definition read32 :: "FILE \<Rightarrow> uint64 \<Rightarrow> (uint32 \<times> FILE) option" where
  "read32 fp offset = read32_pure (fseek offset fp)"

text \<open>
  \<^verbatim>\<open>readHeader\<close>: the name is read as 256 bytes (one more than the buffer was allocated for)
  and copied with \<^verbatim>\<open>strncpy\<close>; the other fields follow in the order of the image.
\<close>

definition readHeader :: "FILE \<Rightarrow> uint64 \<Rightarrow> (m_hdr \<times> FILE) option" where
  "readHeader fp curr_offset = do {
     let name_length = 255;
     (root_name, fp) \<leftarrow> fread_obj (name_length + 1) (fseek curr_offset fp);
     let fp = fseek (curr_offset + of_nat name_length + 1) fp;
     (len, fp) \<leftarrow> read64_pure fp;
     (tm, fp) \<leftarrow> read64_pure fp;
     (off, fp) \<leftarrow> read64_pure fp;
     (ty, fp) \<leftarrow> read32_pure fp;
     Some (\<lparr>hdr_name = strncpy root_name (name_length + 1), hdr_length = len, hdr_time = tm,
            hdr_offset = off, hdr_type = ty\<rparr>, fp)
   }"

lemma write64_eq [file_simps]: "write64 item f = fwrite (be64 item) f"
  by (simp add: write64_def)

lemma write32_eq [file_simps]: "write32 item f = fwrite (be32 item) f"
  by (simp add: write32_def)

section \<open>Round trips\<close>

lemma read64_pure_at:
  assumes "window (contents f) (pos f) 8 = be64 v"
  shows "read64_pure f = Some (v, f\<lparr>pos := pos f + 8\<rparr>)"
proof -
  have "length (window (contents f) (pos f) 8) = 8" using assms by simp
  then have "pos f + 8 \<le> length (contents f)" by simp
  with assms show ?thesis by (simp add: read64_pure_def fread_obj_eq)
qed

lemma read32_pure_at:
  assumes "window (contents f) (pos f) 4 = be32 v"
  shows "read32_pure f = Some (v, f\<lparr>pos := pos f + 4\<rparr>)"
proof -
  have "length (window (contents f) (pos f) 4) = 4" using assms by simp
  then have "pos f + 4 \<le> length (contents f)" by simp
  with assms show ?thesis by (simp add: read32_pure_def fread_obj_eq)
qed

lemma read64_at:
  assumes "unat off < 2 ^ 63" and "window (contents f) (unat off) 8 = be64 v"
  shows "read64 f off = Some (v, f\<lparr>pos := unat off + 8\<rparr>)"
  using read64_pure_at [of "fseek off f" v] assms by (simp add: read64_def fseek_def)

lemma read32_at:
  assumes "unat off < 2 ^ 63" and "window (contents f) (unat off) 4 = be32 v"
  shows "read32 f off = Some (v, f\<lparr>pos := unat off + 4\<rparr>)"
  using read32_pure_at [of "fseek off f" v] assms by (simp add: read32_def fseek_def)

text \<open>The bytes of one header, in the order of the image.\<close>

definition hdr_bytes :: "bytes \<Rightarrow> uint64 \<Rightarrow> uint64 \<Rightarrow> uint64 \<Rightarrow> file_type \<Rightarrow> bytes" where
  "hdr_bytes nm len tm off ty = nm @ be64 len @ be64 tm @ be64 off @ be32 ty"

lemma length_hdr_bytes [simp, size_simps]:
  "length (hdr_bytes nm len tm off ty) = length nm + 28"
  by (simp add: hdr_bytes_def)

lemma window_split:
  assumes "window c p n = xs @ ys" and "length xs = a" and "length ys = b" and "n = a + b"
  shows "window c p a = xs" and "window c (p + a) b = ys"
proof -
  have "window (window c p n) 0 a = window c p a" using assms(4) by (simp add: slice_window)
  with assms show "window c p a = xs" by (simp add: window_def)
  have "window (window c p n) a b = window c (p + a) b" using assms(4) by (simp add: slice_window)
  with assms show "window c (p + a) b = ys" by (simp add: window_def)
qed

lemma window_hdr_bytes:
  assumes "window c p 284 = hdr_bytes nm len tm off ty" and nm: "length nm = 256"
  shows "window c p 256 = nm" "window c (256 + p) 8 = be64 len" "window c (264 + p) 8 = be64 tm"
    "window c (272 + p) 8 = be64 off" "window c (280 + p) 4 = be32 ty"
proof -
  have h: "window c p 284 = nm @ be64 len @ be64 tm @ be64 off @ be32 ty"
    using assms(1) by (simp add: hdr_bytes_def)
  have h1: "window c (p + 256) 28 = be64 len @ be64 tm @ be64 off @ be32 ty"
    by (rule window_split(2) [OF h nm]) simp_all
  have h2: "window c (p + 256 + 8) 20 = be64 tm @ be64 off @ be32 ty"
    by (rule window_split(2) [OF h1]) simp_all
  have h3: "window c (p + 256 + 8 + 8) 12 = be64 off @ be32 ty"
    by (rule window_split(2) [OF h2]) simp_all
  show "window c p 256 = nm" by (rule window_split(1) [OF h nm, of 28]) simp_all
  have "window c (p + 256) 8 = be64 len" by (rule window_split(1) [OF h1, of _ 20]) simp_all
  then show "window c (256 + p) 8 = be64 len" by (simp add: add.commute)
  have "window c (p + 256 + 8) 8 = be64 tm" by (rule window_split(1) [OF h2, of _ 12]) simp_all
  then show "window c (264 + p) 8 = be64 tm" by (simp add: add.commute)
  have "window c (p + 256 + 8 + 8) 8 = be64 off" by (rule window_split(1) [OF h3, of _ 4]) simp_all
  then show "window c (272 + p) 8 = be64 off" by (simp add: add.commute)
  have "window c (p + 256 + 8 + 8 + 8) 4 = be32 ty" by (rule window_split(2) [OF h3]) simp_all
  then show "window c (280 + p) 4 = be32 ty" by (simp add: add.commute)
qed

lemma unat_add_small:
  fixes off :: uint64
  assumes "unat off + k < 2 ^ 63"
  shows "unat (off + of_nat k) = unat off + k"
proof -
  have k: "unat (of_nat k :: uint64) = k" using assms by (simp add: unat_of_nat take_bit_nat_eq_self_iff)
  have "unat off + unat (of_nat k :: uint64) < 2 ^ LENGTH(64)" using assms by (simp add: k)
  then show ?thesis by (simp add: unat_plus_if' k)
qed

lemma readHeader_at:
  assumes hdr: "window (contents f) (unat off) 284 = hdr_bytes nm len tm o' ty"
    and nm: "length nm = 256" and small: "unat off + 284 < 2 ^ 63"
  shows "readHeader f off =
     Some (\<lparr>hdr_name = strncpy nm 256, hdr_length = len, hdr_time = tm, hdr_offset = o',
            hdr_type = ty\<rparr>, f\<lparr>pos := unat off + 284\<rparr>)"
proof -
  note s = window_hdr_bytes [OF hdr nm]
  have "length (window (contents f) (unat off) 284) = 284" using hdr nm by simp
  then have len: "unat off + 284 \<le> length (contents f)" by simp
  have off: "unat (256 + off) = 256 + unat off"
    using unat_add_small [of off 256] small by (simp add: add.commute)
  have r: "read64_pure (f\<lparr>pos := 256 + unat off\<rparr>) = Some (len, f\<lparr>pos := 264 + unat off\<rparr>)"
    "read64_pure (f\<lparr>pos := 264 + unat off\<rparr>) = Some (tm, f\<lparr>pos := 272 + unat off\<rparr>)"
    "read64_pure (f\<lparr>pos := 272 + unat off\<rparr>) = Some (o', f\<lparr>pos := 280 + unat off\<rparr>)"
    "read32_pure (f\<lparr>pos := 280 + unat off\<rparr>) = Some (ty, f\<lparr>pos := 284 + unat off\<rparr>)"
    using s(2-) by (simp_all add: read64_pure_at read32_pure_at)
  show ?thesis
    using len small s(1) off r by (simp add: readHeader_def fread_obj_eq fseek_def add.commute)
qed

end
