(* ===== verification/ImageWriter.thy ===== *)
theory ImageWriter
  imports OnDisk
begin

text \<open>
  The imaging stage of \<^verbatim>\<open>master.cpp\<close>: name helpers, the copy loop for file data and the
  depth-first writer \<^verbatim>\<open>writeDFS\<close> with its global offsets, against the reference layout
  \<open>image_of\<close> of a directory tree: all headers in depth-first order, then all file data.
\<close>

section \<open>Names\<close>

text \<open>\<^verbatim>\<open>std::string::find_last_of\<close>: the last position holding one of the given characters.\<close>

definition find_last_of :: "bytes \<Rightarrow> bytes \<Rightarrow> nat option" where
  "find_last_of cs s =
     (let is = filter (\<lambda>i. s ! i \<in> set cs) [0..<length s] in if is = [] then None else Some (last is))"

abbreviation slash :: byte where "slash \<equiv> 47"
abbreviation backslash :: byte where "backslash \<equiv> 92"

definition parse_name :: "bytes \<Rightarrow> bytes" where
  "parse_name path =
     (case find_last_of [backslash, slash] path of
        None \<Rightarrow> path
      | Some p \<Rightarrow> drop (p + 1) path)"

text \<open>
  \<^verbatim>\<open>space_pad\<close> copies the string over 256 spaces and terminates it in place. A string of
  256 bytes or more makes it write outside the buffer.
\<close>

definition space_pad :: "bytes \<Rightarrow> bytes option" where
  "space_pad s =
     (if length s < 256
      then let buffer = replicate 256 space; copied = s @ drop (length s) buffer
           in Some (copied[length s := 0])
      else None)"

definition padded :: "bytes \<Rightarrow> bytes" where
  "padded s = s @ 0 # replicate (255 - length s) space"

lemma space_pad_eq: "length s < 256 \<Longrightarrow> space_pad s = Some (padded s)"
proof -
  assume "length s < 256"
  then have "256 - length s = Suc (255 - length s)" by simp
  then have "(s @ replicate (256 - length s) space)[length s := 0] = padded s"
    by (simp add: padded_def list_update_append)
  with \<open>length s < 256\<close> show ?thesis by (simp add: space_pad_def Let_def)
qed

lemma length_padded [size_simps]: "length s < 256 \<Longrightarrow> length (padded s) = 256"
  by (simp add: padded_def)

section \<open>Copying a file into the image\<close>

text \<open>The inner loop: read up to the buffer's size until nothing is left.\<close>

function copy_chunks :: "nat \<Rightarrow> FILE \<Rightarrow> FILE \<Rightarrow> FILE \<times> FILE" where
  "copy_chunks bufsize open_file output =
     (let (file_buffer, open_file') = fread bufsize open_file
      in if file_buffer = [] then (open_file', output)
         else copy_chunks bufsize open_file' (fwrite file_buffer output))"
  by pat_completeness auto
termination
  by (relation "measure (\<lambda>(n, f, g). length (contents f) - pos f)")
    (auto simp: fread_def Let_def window_def)

declare copy_chunks.simps [simp del]

text \<open>
  The outer loop over \<^verbatim>\<open>remaining\<close> and \<^verbatim>\<open>blockSize\<close>, both C \<^verbatim>\<open>int\<close>s. With data remaining
  and a block size that is not positive it would never end, which is the result \<^term>\<open>None\<close>.
\<close>

function copy_rounds :: "nat \<Rightarrow> int \<Rightarrow> int \<Rightarrow> FILE \<Rightarrow> FILE \<Rightarrow> FILE option" where
  "copy_rounds bufsize remaining blockSize open_file output =
     (if remaining > 0 then
        if blockSize \<le> 0 then None
        else
          let (open_file, output) = copy_chunks bufsize open_file output;
              remaining = remaining - blockSize;
              blockSize = (if blockSize > remaining then remaining else blockSize)
          in copy_rounds bufsize remaining blockSize open_file output
      else Some output)"
  by pat_completeness auto
termination
  by (relation "measure (\<lambda>(n, r, b, f, g). nat r)") auto

declare copy_rounds.simps [simp del]

text \<open>
  The data part of \<^verbatim>\<open>writeDFS\<close>: \<^verbatim>\<open>int remaining = fileSize\<close> keeps the low 32 bits as a signed
  value, the comparison of \<^verbatim>\<open>blockSize\<close> with \<^verbatim>\<open>fileSize\<close> is unsigned, and the buffer is an
  array of \<^verbatim>\<open>blockSize\<close> pointers of 8 bytes.
\<close>

definition copy_file :: "uint64 \<Rightarrow> bytes \<Rightarrow> FILE \<Rightarrow> FILE option" where
  "copy_file fileSize data output =
     (let remaining = sint (ucast fileSize :: 32 word);
          blockSize = (if unat fileSize < 1024 then int (unat fileSize) else 1024)
      in copy_rounds (8 * nat blockSize) remaining blockSize (fopen_r data) output)"

lemma copy_chunks_eq:
  assumes "0 < n" and "pos f \<le> length (contents f)"
  shows "copy_chunks n f g =
     (f\<lparr>pos := length (contents f)\<rparr>, fwrite (drop (pos f) (contents f)) g)"
  using assms
proof (induction n f g rule: copy_chunks.induct)
  case (1 n f g)
  define bs where "bs = window (contents f) (pos f) n"
  define f' where "f' = f\<lparr>pos := pos f + length bs\<rparr>"
  have fr: "fread n f = (bs, f')" by (simp add: fread_def bs_def f'_def Let_def)
  show ?case
  proof (cases "bs = []")
    case True
    then have p: "pos f = length (contents f)" using "1.prems" by (simp add: bs_def window_def)
    then have "f' = f\<lparr>pos := length (contents f)\<rparr>" using True by (simp add: f'_def)
    then show ?thesis using True p by (simp add: copy_chunks.simps [of n f g] fr)
  next
    case False
    have split: "drop (pos f) (contents f) = bs @ drop (pos f') (contents f)"
      by (cases "n \<le> length (contents f) - pos f")
        (simp_all add: bs_def f'_def window_def add.commute append_take_drop_id flip: drop_drop)
    have "copy_chunks n f' (fwrite bs g) =
        (f'\<lparr>pos := length (contents f')\<rparr>, fwrite (drop (pos f') (contents f')) (fwrite bs g))"
      using False "1.prems" "1.IH" [OF fr [symmetric] refl] by (simp add: f'_def bs_def)
    then show ?thesis using False
      by (simp add: copy_chunks.simps [of n f g] fr fwrite_fwrite split) (simp add: f'_def)
  qed
qed

lemma copy_rounds_done:
  assumes "0 < n" and "pos f = length (contents f)" and "0 < b \<or> r \<le> 0"
  shows "copy_rounds n r b f g = Some g"
  using assms(3)
proof (induction "nat r" arbitrary: r b rule: less_induct)
  case less
  have "f\<lparr>pos := length (contents f)\<rparr> = f" using assms(2) by simp
  then have c: "copy_chunks n f g = (f, g)" using copy_chunks_eq [of n f g] assms by simp
  show ?case
  proof (cases "r > 0")
    case True
    define b' where "b' = (if b > r - b then r - b else b)"
    have "copy_rounds n (r - b) b' f g = Some g"
      using less.prems True by (intro less.hyps) (auto simp: b'_def)
    then show ?thesis using True less.prems
      by (subst copy_rounds.simps) (simp add: c Let_def b'_def)
  qed (simp add: copy_rounds.simps)
qed

lemma sint_ucast_small:
  assumes "k < 2 ^ 31" and "unat (w :: uint64) = k"
  shows "sint (ucast w :: 32 word) = int k"
proof -
  have "uint w = int (unat w)" by simp
  then have "uint w = int k" by (simp only: assms(2))
  then have "uint (ucast w :: 32 word) = int k"
    using assms(1) by (simp add: unsigned_ucast_eq take_bit_int_eq_self_iff)
  then show ?thesis using assms(1)
    by (simp add: sint_uint signed_take_bit_int_eq_self_iff)
qed

lemma copy_file_small:
  assumes "length data < 2 ^ 31" and "fileSize = of_nat (length data)"
  shows "copy_file fileSize data g = Some (fwrite data g)"
proof -
  have u: "unat fileSize = length data"
    using assms by (simp add: unat_of_nat take_bit_nat_eq_self_iff)
  note r = sint_ucast_small [OF assms(1) u]
  define b where "b = (if length data < 1024 then int (length data) else 1024)"
  define f where "f = (fopen_r data)\<lparr>pos := length data\<rparr>"
  have eq: "copy_file fileSize data g =
      copy_rounds (8 * nat b) (int (length data)) b (fopen_r data) g"
    by (simp add: copy_file_def r u b_def Let_def)
  show ?thesis
  proof (cases "data = []")
    case True
    then show ?thesis using eq by (simp add: copy_rounds.simps)
  next
    case False
    then have pos: "0 < b" "b \<le> int (length data)" "0 < 8 * nat b" by (auto simp: b_def)
    have c: "copy_chunks (8 * nat b) (fopen_r data) g = (f, fwrite data g)"
      using copy_chunks_eq [OF pos(3), of "fopen_r data" g] by (simp add: fopen_r_def f_def)
    define r' where "r' = int (length data) - b"
    define b' where "b' = (if b > r' then r' else b)"
    have "copy_rounds (8 * nat b) r' b' f (fwrite data g) = Some (fwrite data g)"
      using pos by (intro copy_rounds_done) (auto simp: f_def fopen_r_def b'_def r'_def)
    then show ?thesis unfolding eq using pos False
      by (subst copy_rounds.simps) (auto simp: Let_def c r'_def b'_def split: if_splits)
  qed
qed

section \<open>writeDFS\<close>

text \<open>The writer's state: the output stream and the global offsets \<^verbatim>\<open>header_off\<close>, \<^verbatim>\<open>file_off\<close>.\<close>

record wstate =
  w_out :: FILE
  header_off :: uint64
  file_off :: uint64

text \<open>
  The source files are an environment from paths to contents, \<^term>\<open>None\<close> for a path
  \<^verbatim>\<open>fopen\<close> cannot open (the code then passes a null stream on). The children loop runs over
  the node's array; \<^verbatim>\<open>int i\<close> cannot overflow because \<^verbatim>\<open>length\<close> came from an \<^verbatim>\<open>int\<close>.
\<close>

fun writeDFS :: "(bytes \<rightharpoonup> bytes) \<Rightarrow> tree_node \<Rightarrow> wstate \<Rightarrow> (uint64 \<times> wstate) option"
  and writeChildren ::
    "(bytes \<rightharpoonup> bytes) \<Rightarrow> tree_node list \<Rightarrow> uint64 \<Rightarrow> nat \<Rightarrow> nat \<Rightarrow> wstate \<Rightarrow> wstate option" where
  "writeDFS fs (Node d children fill) st = do {
     let currentOffset = header_off st;
     let output = fseek currentOffset (w_out st);
     node_name \<leftarrow> c_str (prs_name d);
     padded_name \<leftarrow> space_pad node_name;
     let output = fwrite padded_name output;
     if fill = - 1 then do {
       let output = write64 (prs_length d) output;
       let output = write64 (prs_time d) output;
       let output = write64 (file_off st) output;
       let output = write32 (prs_type d) output;
       let output = fseek (file_off st) output;
       let fileSize = prs_length d;
       data \<leftarrow> fs (prs_p d);
       output \<leftarrow> copy_file fileSize data output;
       Some (currentOffset, st\<lparr>w_out := output, file_off := file_off st + fileSize,
                               header_off := header_off st + of_nat M_HDR_SIZE\<rparr>)
     } else if fill = 0 then do {
       let output = write64 (prs_length d) output;
       let output = write64 (prs_time d) output;
       let endOffset = currentOffset + of_nat M_HDR_SIZE;
       let output = write64 endOffset output;
       let output = write32 (prs_type d) output;
       let numChildren = prs_length d;
       let st = st\<lparr>w_out := output, header_off := endOffset + 8 * numChildren\<rparr>;
       st \<leftarrow> writeChildren fs children endOffset 0 (unat numChildren) st;
       Some (currentOffset, st)
     } else Some (currentOffset, st\<lparr>w_out := output\<rparr>)
   }"
| "writeChildren fs [] endOffset i numChildren st = (if i < numChildren then None else Some st)"
| "writeChildren fs (child # children) endOffset i numChildren st =
     (if i < numChildren then do {
        (childOffset, st) \<leftarrow> writeDFS fs child st;
        let desiredSeekLoc = endOffset + of_nat i * 8;
        let output = write64 childOffset (fseek desiredSeekLoc (w_out st));
        writeChildren fs children endOffset (i + 1) numChildren (st\<lparr>w_out := output\<rparr>)
      } else Some st)"

declare writeDFS.simps [simp del] writeChildren.simps [simp del]

text \<open>The two \<^verbatim>\<open>int\<close> counters are sign-extended to \<^verbatim>\<open>size_t\<close>, and the sum wraps in 64 bits.\<close>

definition find_header_size :: "int32 \<Rightarrow> int32 \<Rightarrow> uint64" where
  "find_header_size header_count subitems_count =
     scast header_count * of_nat M_HDR_SIZE + scast subitems_count * 8"

definition imageDFS ::
  "(bytes \<rightharpoonup> bytes) \<Rightarrow> int32 \<Rightarrow> int32 \<Rightarrow> tree_node \<Rightarrow> bytes option" where
  "imageDFS fs header_count subitems_count root = do {
     let st = \<lparr>w_out = fopen_w, header_off = 0,
               file_off = find_header_size header_count subitems_count\<rparr>;
     (_, st) \<leftarrow> writeDFS fs root st;
     Some (contents (w_out st))
   }"

section \<open>The reference layout\<close>

datatype fsnode = FileN (fn_name: bytes) (fn_time: uint64) (fn_data: bytes)
  | DirN (fn_name: bytes) (fn_time: uint64) (fn_entries: "fsnode list")

fun hsize :: "fsnode \<Rightarrow> nat" where
  "hsize (FileN n tm c) = M_HDR_SIZE"
| "hsize (DirN n tm ts) = M_HDR_SIZE + 8 * length ts + sum_list (map hsize ts)"

fun dbytes :: "fsnode \<Rightarrow> bytes" where
  "dbytes (FileN n tm c) = c"
| "dbytes (DirN n tm ts) = concat (map dbytes ts)"

fun offs_table :: "nat \<Rightarrow> fsnode list \<Rightarrow> bytes" where
  "offs_table h [] = []"
| "offs_table h (t # ts) = be64 (of_nat h) @ offs_table (h + hsize t) ts"

fun hdrs :: "nat \<Rightarrow> nat \<Rightarrow> fsnode \<Rightarrow> bytes"
  and hdrs_list :: "nat \<Rightarrow> nat \<Rightarrow> fsnode list \<Rightarrow> bytes" where
  "hdrs h f (FileN n tm c) =
     hdr_bytes (padded n) (of_nat (length c)) tm (of_nat f) PLAIN_FILE"
| "hdrs h f (DirN n tm ts) =
     hdr_bytes (padded n) (of_nat (length ts)) tm (of_nat (h + M_HDR_SIZE)) DIRECTORY @
     offs_table (h + M_HDR_SIZE + 8 * length ts) ts @
     hdrs_list (h + M_HDR_SIZE + 8 * length ts) f ts"
| "hdrs_list h f [] = []"
| "hdrs_list h f (t # ts) = hdrs h f t @ hdrs_list (h + hsize t) (f + length (dbytes t)) ts"

definition image_of :: "fsnode \<Rightarrow> bytes" where
  "image_of t = hdrs 0 (hsize t) t @ dbytes t"

text \<open>
  What the traversal hands to the writer for a tree found at a path, and the condition that
  the environment holds the files' contents there.
\<close>

definition prs_of :: "bytes \<Rightarrow> file_type \<Rightarrow> nat \<Rightarrow> uint64 \<Rightarrow> bytes \<Rightarrow> m_prs" where
  "prs_of n ty len tm path =
     \<lparr>prs_name = strncpy (padded n) 256, prs_type = ty, prs_length = of_nat len, prs_time = tm,
      prs_p = path\<rparr>"

fun node_of :: "bytes \<Rightarrow> fsnode \<Rightarrow> tree_node" where
  "node_of path (FileN n tm c) = Node (prs_of n PLAIN_FILE (length c) tm path) [] (- 1)"
| "node_of path (DirN n tm ts) =
     Node (prs_of n DIRECTORY (length ts) tm path)
       (map (\<lambda>t. node_of (path @ slash # fn_name t) t) ts) 0"

fun holds_at :: "(bytes \<rightharpoonup> bytes) \<Rightarrow> bytes \<Rightarrow> fsnode \<Rightarrow> bool" where
  "holds_at fs path (FileN n tm c) \<longleftrightarrow> fs path = Some c"
| "holds_at fs path (DirN n tm ts) \<longleftrightarrow> list_all (\<lambda>t. holds_at fs (path @ slash # fn_name t) t) ts"

text \<open>
  The trees the format can carry: names are C strings of at most 255 bytes, and file sizes
  stay below the 2 GiB at which \<^verbatim>\<open>int remaining\<close> turns negative.
\<close>

definition ok_name :: "bytes \<Rightarrow> bool" where
  "ok_name n \<longleftrightarrow> length n < 256 \<and> 0 \<notin> set n"

fun ok_tree :: "fsnode \<Rightarrow> bool" where
  "ok_tree (FileN n tm c) \<longleftrightarrow> ok_name n \<and> length c < 2 ^ 31"
| "ok_tree (DirN n tm ts) \<longleftrightarrow> ok_name n \<and> length ts < 2 ^ 31 \<and> list_all ok_tree ts"

section \<open>The writer produces the reference layout\<close>

lemma overwrite_commute:
  assumes "p + length xs \<le> q"
  shows "overwrite (overwrite c q ys) p xs = overwrite (overwrite c p xs) q ys"
  using assms by (intro byte_at_list_eqI) (auto simp: file_simps)

lemma length_offs_table [size_simps]: "length (offs_table h ts) = 8 * length ts"
  by (induction h ts rule: offs_table.induct) (auto simp: size_simps)

lemma length_hdrs [size_simps]:
  "ok_tree t \<Longrightarrow> length (hdrs h f t) = hsize t"
  "list_all ok_tree ts \<Longrightarrow> length (hdrs_list h f ts) = sum_list (map hsize ts)"
  by (induction h f t and h f ts rule: hdrs_hdrs_list.induct)
    (auto simp: size_simps ok_name_def)

lemma c_str_prs_name: "ok_name n \<Longrightarrow> c_str (prs_name (prs_of n ty len tm path)) = Some n"
  by (simp add: prs_of_def ok_name_def padded_def c_str_strncpy)

lemma fill_not_reg: "(0 :: uint32) \<noteq> - 1"
  by simp

text \<open>Contents of a stream after a run of writes that started with a seek.\<close>

lemma contents_seek_write:
  assumes "\<not> append_mode f" and "p < 2 ^ 63"
  shows "contents (fwrite bs (fseek (of_nat p) f)) = overwrite (contents f) p bs"
  using assms by (simp add: contents_fwrite fseek_def unat_of_nat take_bit_nat_eq_self_iff)

lemma prs_of_sel [simp]:
  "prs_type (prs_of n ty len tm path) = ty" "prs_length (prs_of n ty len tm path) = of_nat len"
  "prs_time (prs_of n ty len tm path) = tm" "prs_p (prs_of n ty len tm path) = path"
  by (simp_all add: prs_of_def)

text \<open>
  The result of writing one subtree: the returned offset, the advanced offsets, and an output
  in which exactly the header region and the data region were overwritten.
\<close>

definition wrote :: "wstate \<Rightarrow> nat \<Rightarrow> bytes \<Rightarrow> nat \<Rightarrow> bytes \<Rightarrow> wstate \<Rightarrow> bool" where
  "wrote st h hb f db st' \<longleftrightarrow>
     header_off st' = of_nat (h + length hb) \<and> file_off st' = of_nat (f + length db) \<and>
     \<not> append_mode (w_out st') \<and>
     contents (w_out st') = overwrite (overwrite (contents (w_out st)) h hb) f db"

definition ready :: "wstate \<Rightarrow> nat \<Rightarrow> nat \<Rightarrow> bool" where
  "ready st h f \<longleftrightarrow>
     \<not> append_mode (w_out st) \<and> header_off st = of_nat h \<and> file_off st = of_nat f"

lemma writeDFS_FileN:
  assumes "ok_tree (FileN n tm c)" and "fs path = Some c" and "ready st h f"
    and "h < 2 ^ 63" and "f < 2 ^ 63"
  shows "\<exists>st'. writeDFS fs (node_of path (FileN n tm c)) st = Some (of_nat h, st') \<and>
     wrote st h (hdrs h f (FileN n tm c)) f c st'"
proof -
  define out1 where "out1 = fwrite (hdrs h f (FileN n tm c)) (fseek (of_nat h) (w_out st))"
  define out where "out = fwrite c (fseek (of_nat f) out1)"
  have n: "ok_name n" "length n < 256" "length c < 2 ^ 31" using assms(1) by (auto simp: ok_name_def)
  have hdr: "fwrite (be32 PLAIN_FILE) (fwrite (be64 (of_nat f)) (fwrite (be64 tm)
      (fwrite (be64 (of_nat (length c))) (fwrite (padded n) (fseek (of_nat h) (w_out st)))))) = out1"
    by (simp add: out1_def fwrite_fwrite hdr_bytes_def)
  have eq: "writeDFS fs (node_of path (FileN n tm c)) st =
      Some (of_nat h, st\<lparr>w_out := out, file_off := of_nat f + of_nat (length c),
                        header_off := of_nat h + of_nat 284\<rparr>)"
    using assms(2,3) n hdr copy_file_small [OF n(3) refl, of "fseek (of_nat f) out1"]
    by (simp add: writeDFS.simps c_str_prs_name space_pad_eq write64_eq write32_eq out_def
        ready_def Let_def)
  have "contents out = overwrite (overwrite (contents (w_out st)) h (hdrs h f (FileN n tm c))) f c"
    and "\<not> append_mode out"
    using assms(3-) by (simp_all add: out_def out1_def contents_seek_write ready_def del: hdrs.simps)
  moreover have "length (hdrs h f (FileN n tm c)) = 284"
    using n by (simp add: length_padded)
  ultimately show ?thesis unfolding eq by (simp add: wrote_def del: hdrs.simps)
qed

lemma writeDFS_DirN:
  assumes ok: "ok_tree (DirN n tm ts)" and rdy: "ready st h f" and lim: "h + 284 < 2 ^ 63"
    and len: "length ts < 2 ^ 63"
    and body: "\<And>st1. ready st1 (h + 284 + 8 * length ts) f \<Longrightarrow>
      \<exists>st'. writeChildren fs (map (\<lambda>t. node_of (path @ slash # fn_name t) t) ts)
          (of_nat (h + 284)) 0 (length ts) st1 = Some st' \<and>
        wrote (st1\<lparr>w_out := (w_out st1)\<lparr>contents :=
            overwrite (contents (w_out st1)) (h + 284) (offs_table (h + 284 + 8 * length ts) ts)\<rparr>\<rparr>)
          (h + 284 + 8 * length ts) (hdrs_list (h + 284 + 8 * length ts) f ts) f
          (concat (map dbytes ts)) st'"
  shows "\<exists>st'. writeDFS fs (node_of path (DirN n tm ts)) st = Some (of_nat h, st') \<and>
     wrote st h (hdrs h f (DirN n tm ts)) f (dbytes (DirN n tm ts)) st'"
proof -
  define hb where "hb = hdr_bytes (padded n) (of_nat (length ts)) tm (of_nat (h + 284)) DIRECTORY"
  define st1 where "st1 = st\<lparr>w_out := fwrite hb (fseek (of_nat h) (w_out st)),
     header_off := of_nat (h + 284 + 8 * length ts)\<rparr>"
  have n: "ok_name n" "length n < 256" using ok by (auto simp: ok_name_def)
  have lhb: "length hb = 284" using n by (simp add: hb_def length_padded)
  have c1: "contents (w_out st1) = overwrite (contents (w_out st)) h hb"
    using rdy lim by (simp add: st1_def contents_seek_write ready_def)
  have r1: "ready st1 (h + 284 + 8 * length ts) f" using rdy by (simp add: st1_def ready_def)
  from body [OF r1] obtain st' where
    w: "writeChildren fs (map (\<lambda>t. node_of (path @ slash # fn_name t) t) ts)
          (of_nat (h + 284)) 0 (length ts) st1 = Some st'"
    and wr: "wrote (st1\<lparr>w_out := (w_out st1)\<lparr>contents :=
            overwrite (contents (w_out st1)) (h + 284) (offs_table (h + 284 + 8 * length ts) ts)\<rparr>\<rparr>)
          (h + 284 + 8 * length ts) (hdrs_list (h + 284 + 8 * length ts) f ts) f
          (concat (map dbytes ts)) st'" by blast
  have "unat (of_nat (length ts) :: uint64) = length ts"
    using len by (simp add: unat_of_nat take_bit_nat_eq_self_iff)
  then have "writeDFS fs (node_of path (DirN n tm ts)) st = Some (of_nat h, st')"
    using rdy n w
    by (simp add: writeDFS.simps c_str_prs_name space_pad_eq write64_eq write32_eq ready_def Let_def
        fwrite_fwrite hb_def hdr_bytes_def st1_def fill_not_reg algebra_simps)
  moreover have "wrote st h (hdrs h f (DirN n tm ts)) f (dbytes (DirN n tm ts)) st'"
  proof -
    let ?T = "offs_table (h + 284 + 8 * length ts) ts"
    let ?H = "hdrs_list (h + 284 + 8 * length ts) f ts"
    have "overwrite (overwrite (overwrite (contents (w_out st)) h hb) (h + 284) ?T)
          (h + 284 + 8 * length ts) ?H = overwrite (contents (w_out st)) h (hb @ ?T @ ?H)"
      using overwrite_append [of "contents (w_out st)" h hb ?T]
        overwrite_append [of "contents (w_out st)" h "hb @ ?T" ?H]
      by (simp add: lhb length_offs_table add.assoc)
    moreover have "hdrs h f (DirN n tm ts) = hb @ ?T @ ?H" by (simp add: hb_def)
    ultimately show ?thesis using wr
      by (simp add: wrote_def c1 lhb length_offs_table add.assoc del: hdrs.simps)
  qed
  ultimately show ?thesis by blast
qed

lemma writeChildren_step:
  assumes tbl: "e + 8 * (i + 1) \<le> h" and lim: "f + length db < 2 ^ 63"
    and hf: "h + length hb + length hbs \<le> f" and i: "i < n"
    and one: "writeDFS fs child st = Some (of_nat h, st1)" and w1: "wrote st h hb f db st1"
    and rest: "\<And>st2. ready st2 (h + length hb) (f + length db) \<Longrightarrow>
      \<exists>st'. writeChildren fs cs (of_nat e) (i + 1) n st2 = Some st' \<and>
        wrote (st2\<lparr>w_out := (w_out st2)\<lparr>contents :=
            overwrite (contents (w_out st2)) (e + 8 * (i + 1)) tb\<rparr>\<rparr>)
          (h + length hb) hbs (f + length db) dbs st'"
    and tb: "e + 8 * (i + 1) + length tb \<le> h"
  shows "\<exists>st'. writeChildren fs (child # cs) (of_nat e) i n st = Some st' \<and>
     wrote (st\<lparr>w_out := (w_out st)\<lparr>contents :=
         overwrite (contents (w_out st)) (e + 8 * i) (be64 (of_nat h) @ tb)\<rparr>\<rparr>)
       h (hb @ hbs) f (db @ dbs) st'"
proof -
  define p where "p = e + 8 * i"
  define c where "c = contents (w_out st)"
  let ?T1 = "be64 (of_nat h)"
  have p: "p < 2 ^ 63" using tbl lim hf by (simp add: p_def)
  define st2 where "st2 = st1\<lparr>w_out := write64 (of_nat h) (fseek (of_nat p) (w_out st1))\<rparr>"
  have am: "\<not> append_mode (w_out st1)" and c1: "contents (w_out st1) = overwrite (overwrite c h hb) f db"
    using w1 by (simp_all add: wrote_def c_def)
  have c2: "contents (w_out st2) = overwrite (overwrite (overwrite c h hb) f db) p ?T1"
    using am c1 p by (simp add: st2_def write64_eq contents_seek_write)
  have "ready st2 (h + length hb) (f + length db)"
    using w1 by (simp add: st2_def ready_def wrote_def write64_eq)
  from rest [OF this] obtain st' where w: "writeChildren fs cs (of_nat e) (i + 1) n st2 = Some st'"
    and wr: "wrote (st2\<lparr>w_out := (w_out st2)\<lparr>contents :=
            overwrite (contents (w_out st2)) (e + 8 * (i + 1)) tb\<rparr>\<rparr>)
          (h + length hb) hbs (f + length db) dbs st'" by blast
  have "of_nat e + of_nat i * 8 = (of_nat p :: uint64)" by (simp add: p_def)
  then have "writeChildren fs (child # cs) (of_nat e) i n st = Some st'"
    using i one w by (simp add: writeChildren.simps st2_def Let_def)
  moreover have "overwrite (overwrite (overwrite (overwrite (overwrite (overwrite c h hb) f db) p ?T1)
        (p + 8) tb) (h + length hb) hbs) (f + length db) dbs =
      overwrite (overwrite (overwrite c p (?T1 @ tb)) h (hb @ hbs)) f (db @ dbs)"
  proof -
    have t: "overwrite (overwrite x p ?T1) (p + 8) tb = overwrite x p (?T1 @ tb)" for x
      using overwrite_append [of x p ?T1 tb] by simp
    have len: "p + length (?T1 @ tb) \<le> h" using tb by (simp add: p_def)
    have "overwrite (overwrite (overwrite c h hb) f db) p (?T1 @ tb) =
        overwrite (overwrite (overwrite c p (?T1 @ tb)) h hb) f db"
      using len hf by (simp add: overwrite_commute [where q = f] overwrite_commute [where q = h])
    moreover have "overwrite (overwrite (overwrite (overwrite y h hb) f db) (h + length hb) hbs)
          (f + length db) dbs = overwrite (overwrite y h (hb @ hbs)) f (db @ dbs)"
      for y
      using hf overwrite_append [of y h hb hbs] overwrite_append [of _ f db dbs]
      by (simp add: overwrite_commute [where q = f])
    ultimately show ?thesis by (simp only: t)
  qed
  moreover have e8: "e + 8 * (i + 1) = p + 8" by (simp add: p_def)
  ultimately show ?thesis using wr [unfolded e8] c2
    by (simp add: wrote_def c_def p_def [symmetric] add.assoc)
qed

lemma hsize_pos: "284 \<le> hsize t"
  by (cases t) auto

lemma length_le_sum_hsize: "length ts \<le> sum_list (map hsize ts)"
proof (induction ts)
  case (Cons t ts)
  then show ?case using hsize_pos [of t] by simp
qed simp

lemma writeDFS_layout_aux:
  "ok_tree t \<Longrightarrow> holds_at fs path t \<Longrightarrow> ready st h f \<Longrightarrow> h + hsize t \<le> f \<Longrightarrow>
     f + length (dbytes t) < 2 ^ 63 \<Longrightarrow>
     \<exists>st'. writeDFS fs (node_of path t) st = Some (of_nat h, st') \<and>
       wrote st h (hdrs h f t) f (dbytes t) st'"
  "list_all ok_tree ts \<Longrightarrow> list_all (\<lambda>t. holds_at fs (path @ slash # fn_name t) t) ts \<Longrightarrow>
     ready st h f \<Longrightarrow> h + sum_list (map hsize ts) \<le> f \<Longrightarrow>
     f + length (concat (map dbytes ts)) < 2 ^ 63 \<Longrightarrow> e + 8 * (i + length ts) \<le> h \<Longrightarrow>
     \<exists>st'. writeChildren fs (map (\<lambda>t. node_of (path @ slash # fn_name t) t) ts) (of_nat e) i
         (i + length ts) st = Some st' \<and>
       wrote (st\<lparr>w_out := (w_out st)\<lparr>contents :=
           overwrite (contents (w_out st)) (e + 8 * i) (offs_table h ts)\<rparr>\<rparr>)
         h (hdrs_list h f ts) f (concat (map dbytes ts)) st'"
proof (induction h f t and h f ts arbitrary: path st and path st e i rule: hdrs_hdrs_list.induct)
  case (1 h f n tm c)
  then show ?case using writeDFS_FileN [of n tm c fs path st h f] by simp
next
  case (2 h f n tm ts)
  show ?case
  proof (rule writeDFS_DirN)
    show "length ts < 2 ^ 63" using 2 length_le_sum_hsize [of ts] by simp
    fix st1 assume "ready st1 (h + 284 + 8 * length ts) f"
    then show "\<exists>st'. writeChildren fs (map (\<lambda>t. node_of (path @ slash # fn_name t) t) ts)
          (of_nat (h + 284)) 0 (length ts) st1 = Some st' \<and>
        wrote (st1\<lparr>w_out := (w_out st1)\<lparr>contents :=
            overwrite (contents (w_out st1)) (h + 284) (offs_table (h + 284 + 8 * length ts) ts)\<rparr>\<rparr>)
          (h + 284 + 8 * length ts) (hdrs_list (h + 284 + 8 * length ts) f ts) f
          (concat (map dbytes ts)) st'"
      using "2.IH" [of path st1 "h + 284" 0] "2.prems" by (simp add: add.assoc)
  qed (use 2 in auto)
next
  case (3 h f)
  then show ?case
    by (auto simp: writeChildren.simps wrote_def ready_def)
next
  case (4 h f t ts)
  have len: "length (hdrs h f t) = hsize t"
    "length (hdrs_list (h + hsize t) (f + length (dbytes t)) ts) = sum_list (map hsize ts)"
    using "4.prems"(1) by (simp_all add: length_hdrs)
  from "4.IH"(1) [of "path @ slash # fn_name t" st] obtain st1 where
    one: "writeDFS fs (node_of (path @ slash # fn_name t) t) st = Some (of_nat h, st1)"
    and w1: "wrote st h (hdrs h f t) f (dbytes t) st1"
    using "4.prems" by auto
  have "\<exists>st'. writeChildren fs (node_of (path @ slash # fn_name t) t #
        map (\<lambda>t. node_of (path @ slash # fn_name t) t) ts) (of_nat e) i (i + length (t # ts)) st = Some st' \<and>
      wrote (st\<lparr>w_out := (w_out st)\<lparr>contents := overwrite (contents (w_out st)) (e + 8 * i)
          (be64 (of_nat h) @ offs_table (h + hsize t) ts)\<rparr>\<rparr>)
        h (hdrs h f t @ hdrs_list (h + hsize t) (f + length (dbytes t)) ts) f
        (dbytes t @ concat (map dbytes ts)) st'"
  proof (rule writeChildren_step [OF _ _ _ _ one w1])
    fix st2 assume "ready st2 (h + length (hdrs h f t)) (f + length (dbytes t))"
    then show "\<exists>st'. writeChildren fs (map (\<lambda>t. node_of (path @ slash # fn_name t) t) ts)
          (of_nat e) (i + 1) (i + length (t # ts)) st2 = Some st' \<and>
        wrote (st2\<lparr>w_out := (w_out st2)\<lparr>contents :=
            overwrite (contents (w_out st2)) (e + 8 * (i + 1)) (offs_table (h + hsize t) ts)\<rparr>\<rparr>)
          (h + length (hdrs h f t)) (hdrs_list (h + hsize t) (f + length (dbytes t)) ts)
          (f + length (dbytes t)) (concat (map dbytes ts)) st'"
      using "4.IH"(2) [of path st2 e "i + 1"] "4.prems" by (simp add: len add.assoc)
  qed (use "4.prems" in \<open>simp_all add: len length_offs_table\<close>)
  then show ?case by simp
qed

section \<open>The whole image\<close>

fun nnodes :: "fsnode \<Rightarrow> nat" where
  "nnodes (FileN n tm c) = 1"
| "nnodes (DirN n tm ts) = 1 + sum_list (map nnodes ts)"

fun nsubs :: "fsnode \<Rightarrow> nat" where
  "nsubs (FileN n tm c) = 0"
| "nsubs (DirN n tm ts) = length ts + sum_list (map nsubs ts)"

lemma hsize_counts: "hsize t = 284 * nnodes t + 8 * nsubs t"
proof (induction t)
  case (DirN n tm ts)
  have "sum_list (map hsize ts) = 284 * sum_list (map nnodes ts) + 8 * sum_list (map nsubs ts)"
    using DirN by (induction ts) (simp_all add: algebra_simps)
  then show ?case by simp
qed simp

lemma find_header_size_eq:
  assumes "sint hc = int (nnodes t)" and "sint sc = int (nsubs t)"
  shows "find_header_size hc sc = of_nat (hsize t)"
proof -
  have "(scast hc :: uint64) = of_nat (nnodes t)" "(scast sc :: uint64) = of_nat (nsubs t)"
    using assms by (simp_all add: scast_eq)
  then show ?thesis by (simp add: find_header_size_def hsize_counts)
qed

lemma length_image_of: "ok_tree t \<Longrightarrow> length (image_of t) = hsize t + length (dbytes t)"
  by (simp add: image_of_def length_hdrs)

lemma imageDFS_image_of_aux:
  assumes ok: "ok_tree t" and fs: "holds_at fs path t"
    and lim: "hsize t + length (dbytes t) < 2 ^ 63"
    and cnt: "sint hc = int (nnodes t)" "sint sc = int (nsubs t)"
  shows "imageDFS fs hc sc (node_of path t) = Some (image_of t)"
proof -
  define st where "st = \<lparr>w_out = fopen_w, header_off = 0 :: uint64, file_off = of_nat (hsize t) :: uint64\<rparr>"
  have "ready st 0 (hsize t)" by (simp add: ready_def st_def fopen_w_def)
  from writeDFS_layout_aux(1) [OF ok fs this] lim obtain st' where
    w: "writeDFS fs (node_of path t) st = Some (0, st')"
    and c: "wrote st 0 (hdrs 0 (hsize t) t) (hsize t) (dbytes t) st'" by auto
  have "overwrite [] 0 (hdrs 0 (hsize t) t) = hdrs 0 (hsize t) t" by (simp add: overwrite_def)
  then have "contents (w_out st') = image_of t"
    using c ok overwrite_end [of "hdrs 0 (hsize t) t" "dbytes t"]
    by (simp add: wrote_def st_def fopen_w_def image_of_def length_hdrs)
  with w show ?thesis by (simp add: imageDFS_def find_header_size_eq [OF cnt] st_def)
qed

text \<open>A file of 2 to 4 GiB leaves the copy loop before the first round.\<close>

lemma sint_ucast_large:
  assumes "2 ^ 31 \<le> k" and "k < 2 ^ 32"
  shows "sint (ucast (of_nat k :: uint64) :: 32 word) < 0"
proof -
  have "uint (ucast (of_nat k :: uint64) :: 32 word) = int k"
    using assms by (simp add: unsigned_ucast_eq unsigned_of_nat take_bit_nat_eq_self_iff)
  moreover have "int k div 2 ^ 31 = 1" using assms by (intro int_div_pos_eq [where r = "int k - 2 ^ 31"]) auto
  ultimately show ?thesis by (simp add: sint_uint signed_take_bit_negative_iff bit_iff_odd)
qed

section \<open>Properties\<close>

text \<open>
  C5: the imaging stage writes the reference layout. For every directory tree with names below
  256 bytes and files below 2 GiB, \<^verbatim>\<open>imageDFS\<close> with the two \<^verbatim>\<open>int\<close> counters at the numbers of nodes and entries of that tree returns and leaves
  exactly the image in which all headers stand in depth-first order, each directory followed by
  the offsets of its entries, and then all file contents, at the offsets the headers name.
\<close>

theorem imageDFS_layout:
  assumes "ok_tree t" and "holds_at fs path t" and "hsize t + length (dbytes t) < 2 ^ 63"
    and "sint hc = int (nnodes t)" and "sint sc = int (nsubs t)"
  shows "imageDFS fs hc sc (node_of path t) = Some (image_of t) \<and>
     length (image_of t) = hsize t + length (dbytes t)"
  using imageDFS_image_of_aux [OF assms] length_image_of [OF assms(1)] by simp

theorem imageDFS_layout_witness:
  "imageDFS [chars ''/r/f'' \<mapsto> [1, 2, 3]] 2 1
     (node_of (chars ''/r'') (DirN (chars ''r'') 5 [FileN (chars ''f'') 7 [1, 2, 3]])) =
     Some (image_of (DirN (chars ''r'') 5 [FileN (chars ''f'') 7 [1, 2, 3]]))"
  using imageDFS_layout [of "DirN (chars ''r'') 5 [FileN (chars ''f'') 7 [1, 2, 3]]"
      "[chars ''/r/f'' \<mapsto> [1, 2, 3]]" "chars ''/r''" 2 1]
  by (simp add: ok_name_def)

text \<open>
  A file from 2 GiB up to 4 GiB is not copied at all: its size becomes a negative \<^verbatim>\<open>int\<close> and
  the loop ends before it starts, with the output unchanged, although the header of the file
  announces the full size.
\<close>

lemma copy_file_large:
  assumes "2 ^ 31 \<le> length data" and "length data < 2 ^ 32"
  shows "copy_file (of_nat (length data)) data output = Some output"
  using sint_ucast_large [OF assms] by (simp add: copy_file_def Let_def copy_rounds.simps)

end
