(* ===== verification/Traversal.thy ===== *)
theory Traversal
  imports ImageWriter
begin

text \<open>
  The directory traversal of \<^verbatim>\<open>master.cpp\<close>: the callback \<^verbatim>\<open>s_builder\<close> that \<^verbatim>\<open>nftw\<close> calls for
  every file and directory, and the part of \<^verbatim>\<open>run\<close> that sets it up. The code keeps copies of
  nodes on a stack whose \<^verbatim>\<open>children\<close> pointers alias heap arrays, so the model has an explicit
  heap of node arrays. The main lemma: after the traversal of a directory tree, the array of
  the dummy head holds the tree.
\<close>

section \<open>State\<close>

text \<open>
  A \<^verbatim>\<open>struct tree_node\<close> value: its metadata, the address of its children array and the fill
  count. Array cells are \<^term>\<open>None\<close> until they are written (\<^verbatim>\<open>new node[n]\<close> leaves them
  uninitialised). An address is the index of an array in the list of allocated arrays.
\<close>

record ncell =
  c_data :: m_prs
  c_children :: "nat option"
  c_fill :: uint32

record trav =
  heap :: "ncell option list list"
  directories :: "ncell list"
  header_count :: int32
  subitems_count :: int32
  metadataPointer :: int32

definition new_nodes :: "nat \<Rightarrow> trav \<Rightarrow> nat \<times> trav" where
  "new_nodes n st = (length (heap st), st\<lparr>heap := heap st @ [replicate n None]\<rparr>)"

text \<open>\<^verbatim>\<open>parent.children[i] = c\<close>; a null array or an index out of range is undefined.\<close>

definition set_child :: "ncell \<Rightarrow> nat \<Rightarrow> ncell \<Rightarrow> trav \<Rightarrow> trav option" where
  "set_child parent i c st =
     (case c_children parent of
        None \<Rightarrow> None
      | Some a \<Rightarrow>
          if a < length (heap st) \<and> i < length (heap st ! a)
          then Some (st\<lparr>heap := (heap st)[a := (heap st ! a)[i := Some c]]\<rparr>)
          else None)"

section \<open>s_builder\<close>

datatype ftw_flag = FTW_F | FTW_D | FTW_DNR | FTW_NS | FTW_SL | FTW_DP | FTW_SLN

text \<open>
  What one call of the callback observes: the path and flag \<^verbatim>\<open>nftw\<close> passes, size and
  modification time from its \<^verbatim>\<open>struct stat\<close>, the entries \<^verbatim>\<open>readdir\<close> lists for a directory with
  whether \<^verbatim>\<open>fstatat\<close> succeeds on each, and whether the file can be opened.
\<close>

record ftw_event =
  ev_path :: bytes
  ev_flag :: ftw_flag
  ev_size :: uint64
  ev_mtime :: uint64
  ev_dirents :: "(bytes \<times> bool) list"
  ev_openable :: bool

abbreviation dot :: bytes where "dot \<equiv> [46]"
abbreviation dotdot :: bytes where "dotdot \<equiv> [46, 46]"

text \<open>The entries counted for a directory; \<^verbatim>\<open>s_builder\<close> counts them in an \<^verbatim>\<open>int\<close>.\<close>

definition dir_length :: "(bytes \<times> bool) list \<Rightarrow> nat" where
  "dir_length entries =
     length (filter (\<lambda>(d_name, stat_ok). stat_ok \<and> \<not> (d_name = dot \<or> d_name = dotdot)) entries)"

definition add_directory :: "m_prs \<Rightarrow> trav \<Rightarrow> trav option" where
  "add_directory h st =
     (case directories st of
        [] \<Rightarrow> Some st
      | parent # rest \<Rightarrow> do {
          let st = st\<lparr>directories := rest\<rparr>;
          let (a, st) = new_nodes (unat (prs_length h)) st;
          let child = \<lparr>c_data = h, c_children = Some a, c_fill = 0\<rparr>;
          st \<leftarrow> set_child parent (unat (c_fill parent)) child st;
          let parent = parent\<lparr>c_fill := c_fill parent + 1\<rparr>;
          let st = (if ucast (c_fill parent) \<noteq> prs_length (c_data parent)
                    then st\<lparr>directories := parent # directories st\<rparr> else st);
          Some (if prs_length (c_data child) \<noteq> 0
                then st\<lparr>directories := child # directories st\<rparr> else st)
        })"

definition add_file :: "m_prs \<Rightarrow> trav \<Rightarrow> trav option" where
  "add_file h st =
     (case directories st of
        [] \<Rightarrow> Some st
      | parent # rest \<Rightarrow> do {
          let st = st\<lparr>directories := rest\<rparr>;
          let child = \<lparr>c_data = h, c_children = None, c_fill = - 1\<rparr>;
          st \<leftarrow> set_child parent (unat (c_fill parent)) child st;
          let parent = parent\<lparr>c_fill := c_fill parent + 1\<rparr>;
          Some (if ucast (c_fill parent) \<noteq> prs_length (c_data parent)
                then st\<lparr>directories := parent # directories st\<rparr> else st)
        })"

text \<open>
  The callback returns 0 to go on and 7 for a flag it does not handle. \<^term>\<open>None\<close> is undefined
  behaviour, such as an \<^verbatim>\<open>int\<close> counter past its range, or the retry loop around \<^verbatim>\<open>fopen\<close> that never ends when a file cannot be opened.
\<close>

definition s_builder :: "ftw_event \<Rightarrow> trav \<Rightarrow> (int \<times> trav) option" where
  "s_builder ev st =
     (let name = parse_name (ev_path ev) in
      if name = dot \<or> name = dotdot then Some (0, st)
      else do {
        count \<leftarrow> int_add (header_count st) 1;
        let st = st\<lparr>header_count := count\<rparr>;
        if ev_flag ev = FTW_D then do {
          padded_name \<leftarrow> space_pad name;
          let len = dir_length (ev_dirents ev);
          count \<leftarrow> (if len < 2 ^ 31 then int_add (subitems_count st) (of_nat len) else None);
          let st = st\<lparr>subitems_count := count\<rparr>;
          let h = \<lparr>prs_name = strncpy padded_name 256, prs_type = DIRECTORY,
                   prs_length = of_nat len, prs_time = ev_mtime ev, prs_p = ev_path ev\<rparr>;
          st \<leftarrow> add_directory h st;
          pointer \<leftarrow> int_add (metadataPointer st) 1;
          Some (0, st\<lparr>metadataPointer := pointer\<rparr>)
        } else if ev_flag ev = FTW_F \<or> ev_flag ev = FTW_SL then do {
          padded_name \<leftarrow> space_pad name;
          let h = \<lparr>prs_name = strncpy padded_name 256, prs_type = PLAIN_FILE,
                   prs_length = ev_size ev, prs_time = ev_mtime ev, prs_p = ev_path ev\<rparr>;
          if \<not> ev_openable ev then None else do {
            st \<leftarrow> add_file h st;
            pointer \<leftarrow> int_add (metadataPointer st) 1;
            Some (0, st\<lparr>metadataPointer := pointer\<rparr>)
          }
        } else Some (7, st)
      })"

text \<open>\<^verbatim>\<open>nftw\<close> calls the function for each object and stops at the first non-zero result.\<close>

fun nftw :: "ftw_event list \<Rightarrow> trav \<Rightarrow> (int \<times> trav) option" where
  "nftw [] st = Some (0, st)"
| "nftw (ev # evs) st = do {
     (r, st) \<leftarrow> s_builder ev st;
     if r \<noteq> 0 then Some (r, st) else nftw evs st
   }"

text \<open>The dummy head of \<^verbatim>\<open>run\<close>: a directory of length 1 whose array will hold the root.\<close>

definition init_trav :: trav where
  "init_trav =
     (let h = \<lparr>prs_name = [], prs_type = DIRECTORY, prs_length = 1, prs_time = 0, prs_p = []\<rparr>;
          st = \<lparr>heap = [], directories = [], header_count = 0, subitems_count = 0, metadataPointer = 0\<rparr>;
          (a, st) = new_nodes 1 st;
          head = \<lparr>c_data = h, c_children = Some a, c_fill = 0\<rparr>
      in st\<lparr>directories := [head]\<rparr>)"

text \<open>
  The tree reachable from a node value. The fuel bounds the depth; a missing or uninitialised
  array gives \<^term>\<open>None\<close>.
\<close>

fun reify :: "nat \<Rightarrow> ncell option list list \<Rightarrow> ncell option \<Rightarrow> tree_node option" where
  "reify 0 hp x = None"
| "reify (Suc n) hp None = None"
| "reify (Suc n) hp (Some c) =
     (case c_children c of
        None \<Rightarrow> Some (Node (c_data c) [] (c_fill c))
      | Some a \<Rightarrow>
          if a < length hp
          then map_option (\<lambda>cs. Node (c_data c) cs (c_fill c)) (those (map (reify n hp) (hp ! a)))
          else None)"

text \<open>
  \<^verbatim>\<open>run\<close> up to the imaging: traverse and take the root from the dummy head's array. The
  status of \<^verbatim>\<open>nftw\<close> is stored and never looked at.
\<close>

definition traverse :: "ftw_event list \<Rightarrow> (tree_node \<times> trav) option" where
  "traverse evs = do {
     (_, st) \<leftarrow> nftw evs init_trav;
     root \<leftarrow> reify (Suc (length (heap st))) (heap st) (heap st ! 0 ! 0);
     Some (root, st)
   }"

section \<open>Traversing a tree\<close>

text \<open>
  The calls \<^verbatim>\<open>nftw\<close> makes for a tree found at a path: a directory before its entries, entries
  in the order of the directory.
\<close>

fun events :: "bytes \<Rightarrow> fsnode \<Rightarrow> ftw_event list" where
  "events path (FileN n tm c) =
     [\<lparr>ev_path = path, ev_flag = FTW_F, ev_size = of_nat (length c), ev_mtime = tm,
       ev_dirents = [], ev_openable = True\<rparr>]"
| "events path (DirN n tm ts) =
     \<lparr>ev_path = path, ev_flag = FTW_D, ev_size = 4096, ev_mtime = tm,
      ev_dirents = (dot, True) # (dotdot, True) # map (\<lambda>t. (fn_name t, True)) ts,
      ev_openable = True\<rparr> #
     concat (map (\<lambda>t. events (path @ slash # fn_name t) t) ts)"

text \<open>
  Names \<^verbatim>\<open>parse_name\<close> recovers from a path: no separator of either kind, and not one of the
  two names the callback skips.
\<close>

definition plain_name :: "bytes \<Rightarrow> bool" where
  "plain_name n \<longleftrightarrow> ok_name n \<and> slash \<notin> set n \<and> backslash \<notin> set n \<and> n \<noteq> dot \<and> n \<noteq> dotdot"

fun plain_tree :: "fsnode \<Rightarrow> bool" where
  "plain_tree (FileN n tm c) \<longleftrightarrow> plain_name n"
| "plain_tree (DirN n tm ts) \<longleftrightarrow> plain_name n \<and> length ts < 2 ^ 31 \<and> list_all plain_tree ts"

lemma plain_tree_name: "plain_tree t \<Longrightarrow> plain_name (fn_name t)"
  by (cases t) auto

lemma filter_upt_Suc_append:
  "filter P [0..<length (xs @ y # ys)] = filter P [0..<length xs] @
     filter P (length xs # [Suc (length xs)..<length (xs @ y # ys)])"
proof -
  have "[0..<length (xs @ y # ys)] = [0..<length xs] @ [length xs..<length (xs @ y # ys)]"
    by (metis le_add1 length_append upt_add_eq_append zero_order(1) add_0)
  moreover have "[length xs..<length (xs @ y # ys)] = length xs # [Suc (length xs)..<length (xs @ y # ys)]"
    by (rule upt_conv_Cons) simp
  ultimately show ?thesis by simp
qed

lemma find_last_of_append:
  assumes "y \<in> set cs" and "\<And>z. z \<in> set ys \<Longrightarrow> z \<notin> set cs"
  shows "find_last_of cs (xs @ y # ys) = Some (length xs)"
proof -
  let ?s = "xs @ y # ys"
  have "filter (\<lambda>i. ?s ! i \<in> set cs) [Suc (length xs)..<length ?s] = []"
    using assms(2) by (auto simp: filter_empty_conv nth_append nth_Cons')
  then show ?thesis using assms(1)
    by (simp add: find_last_of_def Let_def filter_upt_Suc_append del: length_append upt_Suc)
qed

lemma parse_name_child:
  assumes "plain_name n"
  shows "parse_name (path @ slash # n) = n"
proof -
  have "find_last_of [backslash, slash] (path @ slash # n) = Some (length path)"
    using assms by (intro find_last_of_append) (auto simp: plain_name_def)
  then show ?thesis by (simp add: parse_name_def)
qed

lemma dir_length_events:
  assumes "list_all plain_tree ts"
  shows "dir_length ((dot, True) # (dotdot, True) # map (\<lambda>t. (fn_name t, True)) ts) = length ts"
proof -
  have "filter (\<lambda>(d, ok). ok \<and> \<not> (d = dot \<or> d = dotdot)) (map (\<lambda>t. (fn_name t, True)) ts) =
      map (\<lambda>t. (fn_name t, True)) ts"
    using assms plain_tree_name by (auto simp: filter_id_conv list_all_iff plain_name_def)
  then show ?thesis by (simp add: dir_length_def)
qed

text \<open>
  The tree held by a node value whose arrays lie at addresses from \<open>lo\<close> on.
\<close>

fun built :: "ncell option list list \<Rightarrow> nat \<Rightarrow> bytes \<Rightarrow> fsnode \<Rightarrow> ncell option \<Rightarrow> bool"
  and built_list ::
    "ncell option list list \<Rightarrow> nat \<Rightarrow> bytes \<Rightarrow> fsnode list \<Rightarrow> ncell option list \<Rightarrow> bool" where
  "built hp lo path (FileN n tm c) x \<longleftrightarrow>
     x = Some \<lparr>c_data = prs_of n PLAIN_FILE (length c) tm path, c_children = None, c_fill = - 1\<rparr>"
| "built hp lo path (DirN n tm ts) x \<longleftrightarrow>
     (\<exists>a. lo \<le> a \<and> a < length hp \<and>
        x = Some \<lparr>c_data = prs_of n DIRECTORY (length ts) tm path, c_children = Some a, c_fill = 0\<rparr> \<and>
        built_list hp (Suc a) path ts (hp ! a))"
| "built_list hp lo path [] xs \<longleftrightarrow> xs = []"
| "built_list hp lo path (t # ts) xs \<longleftrightarrow>
     (\<exists>y ys. xs = y # ys \<and> built hp lo (path @ slash # fn_name t) t y \<and> built_list hp lo path ts ys)"

lemma built_frame:
  "built hp lo path t x \<Longrightarrow> (\<And>b. lo \<le> b \<Longrightarrow> b < length hp \<Longrightarrow> hp' ! b = hp ! b) \<Longrightarrow>
     length hp \<le> length hp' \<Longrightarrow> built hp' lo path t x"
  "built_list hp lo path ts xs \<Longrightarrow> (\<And>b. lo \<le> b \<Longrightarrow> b < length hp \<Longrightarrow> hp' ! b = hp ! b) \<Longrightarrow>
     length hp \<le> length hp' \<Longrightarrow> built_list hp' lo path ts xs"
proof (induction hp lo path t x and hp lo path ts xs rule: built_built_list.induct)
  case (2 hp lo path n tm ts x)
  from "2.prems"(1) obtain a where a: "lo \<le> a" "a < length hp"
    "x = Some \<lparr>c_data = prs_of n DIRECTORY (length ts) tm path, c_children = Some a, c_fill = 0\<rparr>"
    "built_list hp (Suc a) path ts (hp ! a)" by auto
  have "built_list hp' (Suc a) path ts (hp' ! a)"
    using "2.IH" [OF a(4)] "2.prems"(2,3) a(1,2) by simp
  then show ?case using a "2.prems"(3) by auto
next
  case (4 hp lo path t ts xs)
  then obtain y ys where "xs = y # ys" "built hp lo (path @ slash # fn_name t) t y"
    "built_list hp lo path ts ys" by auto
  with 4 show ?case by simp
qed auto

lemma built_mono:
  "built hp lo path t x \<Longrightarrow> lo' \<le> lo \<Longrightarrow> built hp lo' path t x"
  "built_list hp lo path ts xs \<Longrightarrow> lo' \<le> lo \<Longrightarrow> built_list hp lo' path ts xs"
proof (induction hp lo path t x and hp lo path ts xs rule: built_built_list.induct)
  case (2 hp lo path n tm ts x)
  then show ?case by (auto intro: le_trans)
next
  case (4 hp lo path t ts xs)
  then obtain y ys where "xs = y # ys" "built hp lo (path @ slash # fn_name t) t y"
    "built_list hp lo path ts ys" by auto
  with 4 show ?case by simp
qed auto

lemma built_list_length: "built_list hp lo path ts xs \<Longrightarrow> length xs = length ts"
  by (induction ts arbitrary: xs) auto

text \<open>Reading back a built tree: fuel for every address above the lowest one is enough.\<close>

lemma reify_built:
  "built hp lo path t x \<Longrightarrow> length hp - lo < n \<Longrightarrow> reify n hp x = Some (node_of path t)"
  "built_list hp lo path ts xs \<Longrightarrow> length hp - lo < n \<Longrightarrow>
     those (map (reify n hp) xs) = Some (map (\<lambda>t. node_of (path @ slash # fn_name t) t) ts)"
proof (induction hp lo path t x and hp lo path ts xs arbitrary: n and n rule: built_built_list.induct)
  case (1 hp lo path nm tm c x)
  then show ?case by (cases n) auto
next
  case (2 hp lo path nm tm ts x)
  from "2.prems"(1) obtain a where a: "lo \<le> a" "a < length hp"
    "x = Some \<lparr>c_data = prs_of nm DIRECTORY (length ts) tm path, c_children = Some a, c_fill = 0\<rparr>"
    "built_list hp (Suc a) path ts (hp ! a)" by auto
  obtain m where m: "n = Suc m" using "2.prems"(2) by (cases n) auto
  have "length hp - Suc a < m" using a m "2.prems"(2) by linarith
  then show ?case using "2.IH" [OF a(4)] a by (simp add: m)
qed auto

subsection \<open>One call\<close>

text \<open>
  A stack whose top is a directory with a free slot \<open>k\<close> of \<open>n\<close> in the array at address \<open>a\<close>,
  and what a completed subtree leaves behind.
\<close>

definition slot :: "ncell \<Rightarrow> nat \<Rightarrow> nat \<Rightarrow> nat \<Rightarrow> trav \<Rightarrow> bool" where
  "slot par k a n st \<longleftrightarrow>
     c_children par = Some a \<and> prs_length (c_data par) = of_nat n \<and> n < 2 ^ 31 \<and>
     a < length (heap st) \<and> length (heap st ! a) = n"

abbreviation filled :: "ncell \<Rightarrow> nat \<Rightarrow> ncell" where
  "filled par k \<equiv> par\<lparr>c_fill := of_nat k\<rparr>"

definition after_slot :: "ncell \<Rightarrow> nat \<Rightarrow> nat \<Rightarrow> ncell list \<Rightarrow> ncell list" where
  "after_slot par k n rest = (if k + 1 = n then rest else filled par (k + 1) # rest)"

lemma nftw_append:
  "nftw xs st = Some (0, st') \<Longrightarrow> nftw (xs @ ys) st = nftw ys st'"
  by (induction xs arbitrary: st) (auto simp: Option.bind_eq_Some_conv split: if_splits)

lemma fill_full_iff:
  assumes "k < n" and "n < 2 ^ 31"
  shows "(ucast (of_nat k + 1 :: uint32) = (of_nat n :: uint64)) \<longleftrightarrow> k + 1 = n"
proof -
  have "(of_nat k + 1 :: uint32) = of_nat (k + 1)" by simp
  then have "unat (ucast (of_nat k + 1 :: uint32) :: uint64) = k + 1"
    using assms by (simp add: unsigned_ucast_eq unsigned_of_nat take_bit_nat_eq_self_iff del: of_nat_Suc)
  moreover have "unat (of_nat n :: uint64) = n"
    using assms by (simp add: unat_of_nat take_bit_nat_eq_self_iff)
  ultimately show ?thesis by (metis word_unat_eq_iff)
qed

lemma unat_fill: "k < n \<Longrightarrow> n < 2 ^ 31 \<Longrightarrow> unat (of_nat k :: uint32) = k"
  by (simp add: unat_of_nat take_bit_nat_eq_self_iff)

lemma set_child_slot:
  assumes "slot par k a n st" and "k < n"
  shows "set_child (filled par k) (unat (of_nat k :: uint32)) c st =
     Some (st\<lparr>heap := (heap st)[a := (heap st ! a)[k := Some c]]\<rparr>)"
  using assms by (simp add: slot_def set_child_def unat_fill)

lemma add_file_slot:
  assumes "slot par k a n st" and "k < n" and "directories st = filled par k # rest"
  shows "add_file h st = Some (st\<lparr>
     heap := (heap st)[a := (heap st ! a)[k := Some \<lparr>c_data = h, c_children = None, c_fill = - 1\<rparr>]],
     directories := after_slot par k n rest\<rparr>)"
proof -
  have "slot par k a n (st\<lparr>directories := rest\<rparr>)" using assms(1) by (simp add: slot_def)
  note sc = set_child_slot [OF this assms(2)]
  have "prs_length (c_data par) = of_nat n" "n < 2 ^ 31" using assms(1) by (auto simp: slot_def)
  then show ?thesis using assms(2,3) sc fill_full_iff [of k n]
    by (auto simp: add_file_def after_slot_def add.commute)
qed

lemma add_directory_slot:
  assumes "slot par k a n st" and "k < n" and "directories st = filled par k # rest"
    and "prs_length h = of_nat m" and "m < 2 ^ 31"
  defines "child \<equiv> \<lparr>c_data = h, c_children = Some (length (heap st)), c_fill = 0\<rparr>"
  shows "add_directory h st = Some (st\<lparr>
     heap := (heap st @ [replicate m None])[a := (heap st ! a)[k := Some child]],
     directories := (if m = 0 then after_slot par k n rest else child # after_slot par k n rest)\<rparr>)"
proof -
  define st1 where "st1 = st\<lparr>directories := rest, heap := heap st @ [replicate m None]\<rparr>"
  have um: "unat (of_nat m :: uint64) = m" "(of_nat m :: uint64) = 0 \<longleftrightarrow> m = 0"
    using assms(5) by (simp_all add: unat_of_nat take_bit_nat_eq_self_iff word_unat_eq_iff)
  have a: "a < length (heap st)" "prs_length (c_data par) = of_nat n" "n < 2 ^ 31"
    using assms(1) by (auto simp: slot_def)
  have "slot par k a n st1" using assms(1) by (simp add: slot_def st1_def nth_append)
  then have sc: "set_child (filled par k) (unat (of_nat k :: uint32)) child st1 =
      Some (st1\<lparr>heap := (heap st @ [replicate m None])[a := (heap st ! a)[k := Some child]]\<rparr>)"
    using set_child_slot [of par k a n st1 child] assms(2) a by (simp add: st1_def nth_append)
  have nn: "new_nodes m (st\<lparr>directories := rest\<rparr>) = (length (heap st), st1)"
    by (simp add: new_nodes_def st1_def)
  show ?thesis using assms(2,3,4) um a sc nn fill_full_iff [of k n]
    by (auto simp: add_directory_def after_slot_def child_def st1_def add.commute Let_def)
qed

subsection \<open>A whole subtree\<close>

definition counted :: "nat \<Rightarrow> nat \<Rightarrow> trav \<Rightarrow> trav \<Rightarrow> bool" where
  "counted nn ns st st' \<longleftrightarrow>
     sint (header_count st') = sint (header_count st) + int nn \<and>
     sint (subitems_count st') = sint (subitems_count st) + int ns \<and>
     sint (metadataPointer st') = sint (metadataPointer st) + int nn"

text \<open>The counters have room for a tree of \<open>nn\<close> nodes and \<open>ns\<close> entries.\<close>

definition room :: "nat \<Rightarrow> nat \<Rightarrow> trav \<Rightarrow> bool" where
  "room nn ns st \<longleftrightarrow>
     0 \<le> sint (header_count st) \<and> sint (header_count st) + int nn < 2 ^ 31 \<and>
     0 \<le> sint (subitems_count st) \<and> sint (subitems_count st) + int ns < 2 ^ 31 \<and>
     0 \<le> sint (metadataPointer st) \<and> sint (metadataPointer st) + int nn < 2 ^ 31"

lemma room_after:
  "room (nn + nn') (ns + ns') st \<Longrightarrow> counted nn ns st st' \<Longrightarrow> room nn' ns' st'"
  by (simp add: room_def counted_def)

lemma room_le: "room (nn + nn') (ns + ns') st \<Longrightarrow> room nn ns st"
  by (simp add: room_def)

definition kept :: "nat \<Rightarrow> trav \<Rightarrow> trav \<Rightarrow> bool" where
  "kept a st st' \<longleftrightarrow>
     length (heap st) \<le> length (heap st') \<and>
     (\<forall>b. b < length (heap st) \<longrightarrow> b \<noteq> a \<longrightarrow> heap st' ! b = heap st ! b)"

lemma nftw_file:
  assumes "plain_name n" and "parse_name path = n"
    and "slot par k a m st" and "k < m" and "directories st = filled par k # rest" and "room 1 0 st"
  shows "\<exists>st' x. nftw (events path (FileN n tm c)) st = Some (0, st') \<and>
     directories st' = after_slot par k m rest \<and> counted 1 0 st st' \<and> kept a st st' \<and>
     heap st' ! a = (heap st ! a)[k := x] \<and> built (heap st') (length (heap st)) path (FileN n tm c) x"
proof -
  have n: "n \<noteq> dot" "n \<noteq> dotdot" "length n < 256" using assms(1) by (auto simp: plain_name_def ok_name_def)
  obtain count where hc: "int_add (header_count st) 1 = Some count" "sint count = sint (header_count st) + 1"
    using int_add_nonneg [of "header_count st" 1] assms(6) by (auto simp: room_def)
  obtain pointer where mp: "int_add (metadataPointer st) 1 = Some pointer" "sint pointer = sint (metadataPointer st) + 1"
    using int_add_nonneg [of "metadataPointer st" 1] assms(6) by (auto simp: room_def)
  define st0 where "st0 = st\<lparr>header_count := count\<rparr>"
  have p0: "metadataPointer st0 = metadataPointer st" by (simp add: st0_def)
  have s0: "slot par k a m st0" and d0: "directories st0 = filled par k # rest"
    and h0: "heap st0 = heap st"
    using assms(3,5) by (simp_all add: slot_def st0_def)
  note af = add_file_slot [OF s0 assms(4) d0]
  have "a < length (heap st)" using assms(3) by (simp add: slot_def)
  then show ?thesis using n assms(2) af
    by (simp add: s_builder_def Let_def space_pad_eq prs_of_def hc(1) mp(1) p0 st0_def [symmetric] h0)
      (auto simp: counted_def kept_def st0_def hc(2) mp(2))
qed

lemma nftw_dir:
  assumes "plain_name n" and "parse_name path = n" and "list_all plain_tree ts"
    and "length ts < 2 ^ 31"
    and "slot par k a m st" and "k < m" and "directories st = filled par k # rest"
    and room: "room (nnodes (DirN n tm ts)) (nsubs (DirN n tm ts)) st"
    and entries: "\<And>child st1. room (sum_list (map nnodes ts)) (sum_list (map nsubs ts)) st1 \<Longrightarrow>
      slot child 0 (length (heap st)) (length ts) st1 \<Longrightarrow> length (heap st1) = Suc (length (heap st)) \<Longrightarrow>
      directories st1 = (if ts = [] then after_slot par k m rest
                         else filled child 0 # after_slot par k m rest) \<Longrightarrow>
      \<exists>st' ys. nftw (concat (map (\<lambda>t. events (path @ slash # fn_name t) t) ts)) st1 = Some (0, st') \<and>
        directories st' = after_slot par k m rest \<and>
        counted (sum_list (map nnodes ts)) (sum_list (map nsubs ts)) st1 st' \<and>
        kept (length (heap st)) st1 st' \<and>
        heap st' ! length (heap st) = ys \<and> built_list (heap st') (length (heap st1)) path ts ys"
  shows "\<exists>st' x. nftw (events path (DirN n tm ts)) st = Some (0, st') \<and>
     directories st' = after_slot par k m rest \<and>
     counted (nnodes (DirN n tm ts)) (nsubs (DirN n tm ts)) st st' \<and> kept a st st' \<and>
     heap st' ! a = (heap st ! a)[k := x] \<and>
     built (heap st') (length (heap st)) path (DirN n tm ts) x"
proof -
  have n: "n \<noteq> dot" "n \<noteq> dotdot" "length n < 256" using assms(1) by (auto simp: plain_name_def ok_name_def)
  define h where "h = prs_of n DIRECTORY (length ts) tm path"
  define child where "child = \<lparr>c_data = h, c_children = Some (length (heap st)), c_fill = 0\<rparr>"
  obtain count where hc: "int_add (header_count st) 1 = Some count" "sint count = sint (header_count st) + 1"
    using int_add_nonneg [of "header_count st" 1] room by (auto simp: room_def)
  obtain subs where sc: "int_add (subitems_count st) (of_nat (length ts)) = Some subs"
    "sint subs = sint (subitems_count st) + int (length ts)"
    using int_add_nonneg [of "subitems_count st" "of_nat (length ts)"] room assms(4)
    by (auto simp: room_def sint_of_nat32)
  obtain pointer where mp: "int_add (metadataPointer st) 1 = Some pointer" "sint pointer = sint (metadataPointer st) + 1"
    using int_add_nonneg [of "metadataPointer st" 1] room by (auto simp: room_def)
  define st0 where "st0 = st\<lparr>header_count := count, subitems_count := subs\<rparr>"
  have s0: "slot par k a m st0" and d0: "directories st0 = filled par k # rest"
    and h0: "heap st0 = heap st"
    using assms(5,7) by (simp_all add: slot_def st0_def)
  have a: "a < length (heap st)" using assms(5) by (simp add: slot_def)
  define st1 where "st1 = st0\<lparr>
     heap := (heap st @ [replicate (length ts) None])[a := (heap st ! a)[k := Some child]],
     directories := (if ts = [] then after_slot par k m rest else child # after_slot par k m rest),
     metadataPointer := pointer\<rparr>"
  have "prs_length h = of_nat (length ts)" by (simp add: h_def)
  from add_directory_slot [OF s0 assms(6) d0 this assms(4)]
  have ad: "add_directory h st0 = Some (st0\<lparr>
     heap := (heap st @ [replicate (length ts) None])[a := (heap st ! a)[k := Some child]],
     directories := (if ts = [] then after_slot par k m rest else child # after_slot par k m rest)\<rparr>)"
    by (simp add: h0 child_def)
  have call: "s_builder \<lparr>ev_path = path, ev_flag = FTW_D, ev_size = 4096, ev_mtime = tm,
      ev_dirents = (dot, True) # (dotdot, True) # map (\<lambda>t. (fn_name t, True)) ts,
      ev_openable = True\<rparr> st = Some (0, st1)"
    using n assms(2,4) ad dir_length_events [OF assms(3)]
    by (simp add: s_builder_def Let_def space_pad_eq st1_def h_def prs_of_def st0_def hc(1) sc(1) mp(1))
  have c1: "counted 1 (length ts) st st1" by (simp add: counted_def st1_def st0_def hc(2) sc(2) mp(2))
  have room1: "room (sum_list (map nnodes ts)) (sum_list (map nsubs ts)) st1"
    using room c1 by (intro room_after [of 1 _ "length ts" _ st st1]) simp_all
  have heap1: "heap st1 = (heap st)[a := (heap st ! a)[k := Some child]] @ [replicate (length ts) None]"
    using a by (simp add: st1_def list_update_append)
  have "slot child 0 (length (heap st)) (length ts) st1"
    using assms(4) by (simp add: slot_def heap1 nth_append child_def h_def)
  moreover have "directories st1 = (if ts = [] then after_slot par k m rest
      else filled child 0 # after_slot par k m rest)" by (simp add: st1_def child_def)
  ultimately obtain st' where
    r: "nftw (concat (map (\<lambda>t. events (path @ slash # fn_name t) t) ts)) st1 = Some (0, st')"
       "directories st' = after_slot par k m rest"
       "counted (sum_list (map nnodes ts)) (sum_list (map nsubs ts)) st1 st'"
       "kept (length (heap st)) st1 st'"
       "built_list (heap st') (length (heap st1)) path ts (heap st' ! length (heap st))"
    using entries [of st1 child] room1 by (auto simp: heap1)
  have "heap st' ! a = (heap st ! a)[k := Some child]"
    using r(4) a by (simp add: kept_def heap1 nth_append)
  moreover have "kept a st st'" using r(4) by (auto simp: kept_def heap1 nth_append)
  moreover have "built (heap st') (length (heap st)) path (DirN n tm ts) (Some child)"
    using r(4,5) by (auto simp: kept_def heap1 child_def h_def)
  moreover have "counted (nnodes (DirN n tm ts)) (nsubs (DirN n tm ts)) st st'"
    using r(3) c1 by (simp add: counted_def)
  ultimately show ?thesis using call r(1,2) by auto
qed

lemma nftw_entries:
  assumes one: "\<And>t par k a m rest st. t \<in> set ts \<Longrightarrow> room (nnodes t) (nsubs t) st \<Longrightarrow> slot par k a m st \<Longrightarrow> k < m \<Longrightarrow>
      directories st = filled par k # rest \<Longrightarrow>
      \<exists>st' x. nftw (events (path @ slash # fn_name t) t) st = Some (0, st') \<and>
        directories st' = after_slot par k m rest \<and> counted (nnodes t) (nsubs t) st st' \<and>
        kept a st st' \<and> heap st' ! a = (heap st ! a)[k := x] \<and>
        built (heap st') (length (heap st)) (path @ slash # fn_name t) t x"
    and "slot par k a (k + length ts) st"
    and "directories st = (if ts = [] then rest else filled par k # rest)"
    and "room (sum_list (map nnodes ts)) (sum_list (map nsubs ts)) st"
  shows "\<exists>st' ys. nftw (concat (map (\<lambda>t. events (path @ slash # fn_name t) t) ts)) st = Some (0, st') \<and>
     directories st' = rest \<and>
     counted (sum_list (map nnodes ts)) (sum_list (map nsubs ts)) st st' \<and> kept a st st' \<and>
     heap st' ! a = take k (heap st ! a) @ ys \<and>
     built_list (heap st') (length (heap st)) path ts ys"
  using assms
proof (induction ts arbitrary: k st)
  case Nil
  then show ?case by (auto simp: counted_def kept_def slot_def)
next
  case (Cons t ts)
  let ?n = "k + length (t # ts)"
  have a: "a < length (heap st)" "length (heap st ! a) = ?n" using Cons.prems(2) by (auto simp: slot_def)
  have rm: "room (nnodes t + sum_list (map nnodes ts)) (nsubs t + sum_list (map nsubs ts)) st"
    using Cons.prems(4) by simp
  from Cons.prems(1) [of t st par k a ?n rest] Cons.prems(2,3) room_le [OF rm] obtain st1 x where
    r1: "nftw (events (path @ slash # fn_name t) t) st = Some (0, st1)"
        "directories st1 = after_slot par k ?n rest" "counted (nnodes t) (nsubs t) st st1"
        "kept a st st1" "heap st1 ! a = (heap st ! a)[k := x]"
        "built (heap st1) (length (heap st)) (path @ slash # fn_name t) t x" by auto
  have s1: "slot par (k + 1) a (k + 1 + length ts) st1"
    using Cons.prems(2) r1(4,5) by (auto simp: slot_def kept_def)
  have d1: "directories st1 = (if ts = [] then rest else filled par (k + 1) # rest)"
    using r1(2) by (auto simp: after_slot_def)
  have "\<exists>st' ys. nftw (concat (map (\<lambda>t. events (path @ slash # fn_name t) t) ts)) st1 = Some (0, st') \<and>
     directories st' = rest \<and>
     counted (sum_list (map nnodes ts)) (sum_list (map nsubs ts)) st1 st' \<and> kept a st1 st' \<and>
     heap st' ! a = take (k + 1) (heap st1 ! a) @ ys \<and>
     built_list (heap st') (length (heap st1)) path ts ys"
    by (rule Cons.IH [OF Cons.prems(1) s1 d1 room_after [OF rm r1(3)]]) simp_all
  then obtain st2 ys where
    r2: "nftw (concat (map (\<lambda>t. events (path @ slash # fn_name t) t) ts)) st1 = Some (0, st2)"
        "directories st2 = rest" "counted (sum_list (map nnodes ts)) (sum_list (map nsubs ts)) st1 st2"
        "kept a st1 st2" "heap st2 ! a = take (k + 1) (heap st1 ! a) @ ys"
        "built_list (heap st2) (length (heap st1)) path ts ys"
    by blast
  have "take (k + 1) (heap st1 ! a) = take k (heap st ! a) @ [x]"
    using a by (simp add: r1(5) take_Suc_conv_app_nth)
  then have "heap st2 ! a = take k (heap st ! a) @ x # ys" using r2(5) by simp
  moreover have "built (heap st2) (length (heap st)) (path @ slash # fn_name t) t x"
    using r1(6) r2(4) a by (intro built_frame(1) [OF r1(6)]) (auto simp: kept_def)
  moreover have "built_list (heap st2) (length (heap st)) path ts ys"
    using r1(4) by (intro built_mono(2) [OF r2(6)]) (simp add: kept_def)
  moreover have "counted (sum_list (map nnodes (t # ts))) (sum_list (map nsubs (t # ts))) st st2"
    using r1(3) r2(3) by (simp add: counted_def)
  moreover have "kept a st st2" using r1(4) r2(4) by (auto simp: kept_def)
  ultimately show ?case using nftw_append [OF r1(1)] r2(1,2) by auto
qed

lemma nftw_tree:
  assumes "plain_tree t" and "parse_name path = fn_name t"
    and "slot par k a m st" and "k < m" and "directories st = filled par k # rest"
    and "room (nnodes t) (nsubs t) st"
  shows "\<exists>st' x. nftw (events path t) st = Some (0, st') \<and>
     directories st' = after_slot par k m rest \<and> counted (nnodes t) (nsubs t) st st' \<and>
     kept a st st' \<and> heap st' ! a = (heap st ! a)[k := x] \<and>
     built (heap st') (length (heap st)) path t x"
  using assms
proof (induction path t arbitrary: par k a m st rest rule: events.induct)
  case (1 path n tm c)
  then show ?case using nftw_file [of n path par k a m st rest tm c] by simp
next
  case (2 path n tm ts)
  show ?case
  proof (rule nftw_dir [OF _ _ _ _ "2.prems"(3-6)])
    show "plain_name n" "parse_name path = n" "list_all plain_tree ts" "length ts < 2 ^ 31"
      using "2.prems" by simp_all
    have one: "\<exists>st' x. nftw (events (path @ slash # fn_name t) t) st = Some (0, st') \<and>
        directories st' = after_slot par k m rest \<and> counted (nnodes t) (nsubs t) st st' \<and>
        kept a st st' \<and> heap st' ! a = (heap st ! a)[k := x] \<and>
        built (heap st') (length (heap st)) (path @ slash # fn_name t) t x"
      if "t \<in> set ts" "room (nnodes t) (nsubs t) st" "slot par k a m st" "k < m" "directories st = filled par k # rest"
      for t st par k a m rest
    proof -
      have t: "plain_tree t" using that "2.prems"(1) by (simp add: list_all_iff)
      have "parse_name (path @ slash # fn_name t) = fn_name t"
        using t by (intro parse_name_child plain_tree_name)
      then show ?thesis by (rule "2.IH" [OF that(1) t _ that(3-5,2)])
    qed
    fix child st1
    assume room1: "room (sum_list (map nnodes ts)) (sum_list (map nsubs ts)) st1"
    assume c: "slot child 0 (length (heap st)) (length ts) st1"
      "directories st1 = (if ts = [] then after_slot par k m rest
                         else filled child 0 # after_slot par k m rest)"
    have s1: "slot child 0 (length (heap st)) (0 + length ts) st1" using c(1) by simp
    have "\<exists>st' ys. nftw (concat (map (\<lambda>t. events (path @ slash # fn_name t) t) ts)) st1 = Some (0, st') \<and>
        directories st' = after_slot par k m rest \<and>
        counted (sum_list (map nnodes ts)) (sum_list (map nsubs ts)) st1 st' \<and>
        kept (length (heap st)) st1 st' \<and>
        heap st' ! length (heap st) = take 0 (heap st1 ! length (heap st)) @ ys \<and>
        built_list (heap st') (length (heap st1)) path ts ys"
      by (rule nftw_entries [OF one s1 c(2) room1])
    then show "\<exists>st' ys. nftw (concat (map (\<lambda>t. events (path @ slash # fn_name t) t) ts)) st1 = Some (0, st') \<and>
        directories st' = after_slot par k m rest \<and>
        counted (sum_list (map nnodes ts)) (sum_list (map nsubs ts)) st1 st' \<and>
        kept (length (heap st)) st1 st' \<and>
        heap st' ! length (heap st) = ys \<and> built_list (heap st') (length (heap st1)) path ts ys"
      by simp
  qed
qed

text \<open>From the dummy head: the root is in its array, and the counters are the tree's.\<close>

lemma traverse_tree_aux:
  assumes "plain_tree t" and "parse_name path = fn_name t" and "nnodes t < 2 ^ 31" and "nsubs t < 2 ^ 31"
  shows "\<exists>st. traverse (events path t) = Some (node_of path t, st) \<and>
     sint (header_count st) = int (nnodes t) \<and> sint (subitems_count st) = int (nsubs t) \<and> directories st = []"
proof -
  define h where "h = \<lparr>prs_name = [], prs_type = DIRECTORY, prs_length = 1, prs_time = 0, prs_p = []\<rparr>"
  define head where "head = \<lparr>c_data = h, c_children = Some 0, c_fill = 0\<rparr>"
  have init: "init_trav = \<lparr>heap = [[None]], directories = [filled head 0], header_count = 0,
      subitems_count = 0, metadataPointer = 0\<rparr>"
    by (simp add: init_trav_def new_nodes_def h_def head_def)
  have "slot head 0 0 1 init_trav" by (simp add: slot_def init head_def h_def)
  moreover have "room (nnodes t) (nsubs t) init_trav" using assms(3,4) by (simp add: room_def init)
  ultimately obtain st' x where
    r: "nftw (events path t) init_trav = Some (0, st')" "directories st' = []"
       "counted (nnodes t) (nsubs t) init_trav st'" "kept 0 init_trav st'"
       "heap st' ! 0 = (heap init_trav ! 0)[0 := x]"
       "built (heap st') (length (heap init_trav)) path t x"
    using nftw_tree [OF assms(1,2), of head 0 0 1 init_trav "[]"] by (auto simp: init after_slot_def)
  have x: "heap st' ! 0 ! 0 = x" using r(5) by (simp add: init)
  have "reify (Suc (length (heap st'))) (heap st') x = Some (node_of path t)"
    using reify_built(1) [OF r(6)] by simp
  then show ?thesis using r x by (simp add: traverse_def counted_def init)
qed

section \<open>Properties\<close>

text \<open>
  C6: the traversal rebuilds the tree. For the calls \<^verbatim>\<open>nftw\<close> makes on a directory tree whose
  names have no separator, with fewer than 2^31 nodes and entries in all, which the \<^verbatim>\<open>int\<close> counters
  hold without overflow, \<^verbatim>\<open>s_builder\<close> ends with an empty stack, the array of the dummy head
  holds exactly the tree with every child in its slot, and the two counters are the numbers of
  nodes and of directory entries.
\<close>

theorem traverse_rebuilds_tree:
  assumes "plain_tree t" and "parse_name path = fn_name t" and "nnodes t < 2 ^ 31" and "nsubs t < 2 ^ 31"
  shows "\<exists>st. traverse (events path t) = Some (node_of path t, st) \<and>
     sint (header_count st) = int (nnodes t) \<and> sint (subitems_count st) = int (nsubs t) \<and> directories st = []"
  by (rule traverse_tree_aux [OF assms])

theorem traverse_rebuilds_tree_witness:
  "\<exists>st. traverse (events (chars ''/r'') (DirN (chars ''r'') 5 [DirN (chars ''d'') 6 [], FileN (chars ''f'') 7 [1]])) =
     Some (node_of (chars ''/r'') (DirN (chars ''r'') 5 [DirN (chars ''d'') 6 [], FileN (chars ''f'') 7 [1]]), st) \<and>
     sint (header_count st) = 3 \<and> sint (subitems_count st) = 2 \<and> directories st = []"
proof -
  have "parse_name (chars ''/r'') = chars ''r''"
    using parse_name_child [of "chars ''r''" "[]"] by (simp add: plain_name_def ok_name_def)
  with traverse_rebuilds_tree [of "DirN (chars ''r'') 5 [DirN (chars ''d'') 6 [], FileN (chars ''f'') 7 [1]]" "chars ''/r''"]
  show ?thesis by (simp add: plain_name_def ok_name_def)
qed

text \<open>
  An entry the callback does not handle, such as a directory that cannot be read or a
  dangling link, stops \<^verbatim>\<open>nftw\<close> with status 7, which \<^verbatim>\<open>run\<close> ignores. When it is met as the first
  entry of the directory to master, the slots of that directory are still uninitialised and
  the program has no tree to write.
\<close>

lemma traverse_unhandled_entry:
  assumes n: "plain_name n" "parse_name path = n" and d: "ev_path d = path" "ev_flag d = FTW_D"
    and e: "0 < dir_length (ev_dirents d)" "dir_length (ev_dirents d) < 2 ^ 31"
    and b: "ev_flag b \<notin> {FTW_D, FTW_F, FTW_SL}" "parse_name (ev_path b) \<notin> {dot, dotdot}"
  shows "(\<exists>st. nftw (d # b # evs) init_trav = Some (7, st)) \<and> traverse (d # b # evs) = None"
proof -
  let ?m = "dir_length (ev_dirents d)"
  define h where "h = \<lparr>prs_name = [], prs_type = DIRECTORY, prs_length = 1, prs_time = 0, prs_p = []\<rparr>"
  define head where "head = \<lparr>c_data = h, c_children = Some 0, c_fill = 0\<rparr>"
  have init: "init_trav = \<lparr>heap = [[None]], directories = [filled head 0], header_count = 0,
      subitems_count = 0, metadataPointer = 0\<rparr>"
    by (simp add: init_trav_def new_nodes_def h_def head_def)
  have inc: "int_add 0 1 = Some 1" "int_add 1 1 = Some 2" "int_add 0 (of_nat ?m) = Some (of_nat ?m)"
    using e(2) by (simp_all add: int_add_def sint_of_nat32)
  define st0 where "st0 = init_trav\<lparr>header_count := 1, subitems_count := of_nat ?m\<rparr>"
  define r where "r = \<lparr>prs_name = strncpy (padded n) 256, prs_type = DIRECTORY, prs_length = of_nat ?m,
    prs_time = ev_mtime d, prs_p = path\<rparr>"
  have sl: "slot head 0 0 1 st0" by (simp add: slot_def st0_def init head_def h_def)
  have "directories st0 = filled head 0 # []" by (simp add: st0_def init)
  note ad = add_directory_slot [OF sl _ this, of r ?m]
  define st1 where "st1 = the (add_directory r st0)\<lparr>metadataPointer := 1\<rparr>"
  have s1: "s_builder d init_trav = Some (0, st1)"
    using n d e ad space_pad_eq [of n]
    by (simp add: s_builder_def plain_name_def ok_name_def r_def st1_def st0_def init Let_def inc)
  have h1: "heap st1 = [[Some \<lparr>c_data = r, c_children = Some 1, c_fill = 0\<rparr>], replicate ?m None]"
    using ad e by (simp add: st1_def r_def st0_def init)
  define st2 where "st2 = st1\<lparr>header_count := 2\<rparr>"
  have hc1: "header_count st1 = 1" using ad e by (simp add: st1_def r_def st0_def)
  have s2: "s_builder b st1 = Some (7, st2)" using b by (simp add: s_builder_def Let_def st2_def hc1 inc)
  have nf: "nftw (d # b # evs) init_trav = Some (7, st2)" using s1 s2 by simp
  have "those (map (reify 2 (heap st2)) (replicate ?m None)) = None"
    using e(1) by (cases ?m) (simp_all add: numeral_2_eq_2)
  then have "traverse (d # b # evs) = None"
    unfolding traverse_def nf by (simp add: st2_def h1 numeral_2_eq_2)
  with nf show ?thesis by blast
qed

end
