(* ===== verification/ImageFormat.thy ===== *)
theory ImageFormat
  imports ImageWriter
begin

text \<open>
  What it means for an image to hold a directory tree, the contract a reader of headers and
  child offsets has to satisfy, and the consequences both reading programs share: the FUSE
  mounter and the tree printer follow the same pointers with different reading code.
\<close>

section \<open>Images that hold a tree\<close>

definition header_at :: "bytes \<Rightarrow> uint64 \<Rightarrow> m_hdr \<Rightarrow> bool" where
  "header_at img q hr \<longleftrightarrow>
     window img (unat q) 284 =
       hdr_bytes (hdr_name hr) (hdr_length hr) (hdr_time hr) (hdr_offset hr) (hdr_type hr) \<and>
     length (hdr_name hr) = 256 \<and> 0 \<in> set (hdr_name hr) \<and>
     unat q + 288 \<le> length img \<and> length img < 2 ^ 63"

fun node_ok :: "bytes \<Rightarrow> m_hdr \<Rightarrow> fsnode \<Rightarrow> bool"
  and entries_ok :: "bytes \<Rightarrow> nat \<Rightarrow> fsnode list \<Rightarrow> bool" where
  "node_ok img hr (FileN n tm c) \<longleftrightarrow>
     c_str (hdr_name hr) = Some n \<and> hdr_time hr = tm \<and> hdr_type hr = PLAIN_FILE \<and>
     hdr_length hr = of_nat (length c) \<and>
     unat (hdr_offset hr) + length c \<le> length img \<and> length img < 2 ^ 63 \<and>
     window img (unat (hdr_offset hr)) (length c) = c"
| "node_ok img hr (DirN n tm ts) \<longleftrightarrow>
     c_str (hdr_name hr) = Some n \<and> hdr_time hr = tm \<and> hdr_type hr = DIRECTORY \<and>
     hdr_length hr = of_nat (length ts) \<and> length ts < 2 ^ 32 \<and>
     unat (hdr_offset hr) + 8 * length ts < 2 ^ 63 \<and>
     entries_ok img (unat (hdr_offset hr)) ts"
| "entries_ok img p [] \<longleftrightarrow> True"
| "entries_ok img p (t # ts) \<longleftrightarrow>
     (\<exists>q hr. window img p 8 = be64 q \<and> header_at img q hr \<and> node_ok img hr t) \<and>
     entries_ok img (p + 8) ts"

definition holds_tree :: "bytes \<Rightarrow> fsnode \<Rightarrow> bool" where
  "holds_tree img t \<longleftrightarrow> (\<exists>hr. header_at img 0 hr \<and> node_ok img hr t)"

text \<open>Two headers a reader may not tell apart: the same string as name, the same fields.\<close>

definition same_hdr :: "m_hdr \<Rightarrow> m_hdr \<Rightarrow> bool" where
  "same_hdr hr hr' \<longleftrightarrow>
     c_str (hdr_name hr') = c_str (hdr_name hr) \<and> hdr_length hr' = hdr_length hr \<and>
     hdr_time hr' = hdr_time hr \<and> hdr_offset hr' = hdr_offset hr \<and> hdr_type hr' = hdr_type hr"

lemma node_ok_same: "same_hdr hr hr' \<Longrightarrow> node_ok img hr t \<Longrightarrow> node_ok img hr' t"
  by (cases t) (auto simp: same_hdr_def)

lemma node_ok_name: "node_ok img hr t \<Longrightarrow> c_str (hdr_name hr) = Some (fn_name t)"
  by (cases t) auto

lemma entries_ok_nth:
  "entries_ok img p ts \<Longrightarrow> i < length ts \<Longrightarrow>
     \<exists>q hr. window img (p + 8 * i) 8 = be64 q \<and> header_at img q hr \<and> node_ok img hr (ts ! i)"
proof (induction ts arbitrary: p i)
  case (Cons t ts)
  show ?case
  proof (cases i)
    case 0
    with Cons.prems show ?thesis by auto
  next
    case (Suc j)
    with Cons.prems Cons.IH [of "p + 8" j] show ?thesis by (simp add: add.assoc)
  qed
qed simp

section \<open>The reader contract\<close>

locale image_reader =
  fixes rd_hdr :: "'s \<Rightarrow> uint64 \<Rightarrow> (m_hdr \<times> 's) option"
    and rd_off :: "'s \<Rightarrow> uint64 \<Rightarrow> (uint64 \<times> 's) option"
    and img :: "'s \<Rightarrow> bytes"
    and good :: "'s \<Rightarrow> bool"
  assumes rd_hdr_law: "good s \<Longrightarrow> header_at (img s) q hr \<Longrightarrow>
      \<exists>hr' s'. rd_hdr s q = Some (hr', s') \<and> same_hdr hr hr' \<and> img s' = img s \<and> good s'"
    and rd_off_law: "good s \<Longrightarrow> unat q + 8 \<le> length (img s) \<Longrightarrow> length (img s) < 2 ^ 63 \<Longrightarrow>
      window (img s) (unat q) 8 = be64 v \<Longrightarrow>
      \<exists>s'. rd_off s q = Some (v, s') \<and> img s' = img s \<and> good s'"
begin

lemma root_header:
  assumes "good s" and "holds_tree (img s) t"
  shows "\<exists>hr s'. rd_hdr s 0 = Some (hr, s') \<and> node_ok (img s) hr t \<and> img s' = img s \<and> good s'"
  using assms rd_hdr_law node_ok_same unfolding holds_tree_def by blast

lemma child_header:
  assumes g: "good s" and d: "node_ok (img s) hr (DirN n tm ts)" and i: "i < length ts"
  shows "\<exists>q s1 cr s2. rd_off s (hdr_offset hr + of_nat i * 8) = Some (q, s1) \<and>
     rd_hdr s1 q = Some (cr, s2) \<and> node_ok (img s) cr (ts ! i) \<and> img s2 = img s \<and> good s2"
proof -
  let ?p = "unat (hdr_offset hr)"
  have lim: "?p + 8 * length ts < 2 ^ 63" using d by simp
  have u: "unat (hdr_offset hr + of_nat i * 8) = ?p + 8 * i"
    using unat_add_small [of "hdr_offset hr" "8 * i"] lim i by (simp add: mult.commute)
  from d i entries_ok_nth [of "img s" ?p ts i] obtain q cr where
    q: "window (img s) (?p + 8 * i) 8 = be64 q" "header_at (img s) q cr" "node_ok (img s) cr (ts ! i)"
    by auto
  have "length (window (img s) (?p + 8 * i) 8) = 8" using q(1) by simp
  then have "?p + 8 * i + 8 \<le> length (img s)" by simp
  with rd_off_law [OF g, of "hdr_offset hr + of_nat i * 8" q] q u obtain s1 where
    s1: "rd_off s (hdr_offset hr + of_nat i * 8) = Some (q, s1)" "img s1 = img s" "good s1"
    by (auto simp: header_at_def)
  with rd_hdr_law [of s1 q cr] q obtain cr' s2 where
    "rd_hdr s1 q = Some (cr', s2)" "same_hdr cr cr'" "img s2 = img s" "good s2" by auto
  with s1 q(3) show ?thesis using node_ok_same by blast
qed

end

section \<open>The reader of readFunctions.cpp\<close>

lemma c_str_strncpy_full:
  assumes "0 \<in> set nm" and "length nm = n"
  shows "c_str (strncpy nm n) = c_str nm"
proof -
  obtain s r where s: "nm = s @ 0 # r" "0 \<notin> set s"
    using assms(1) by (meson split_list_first)
  then have "length s < n" using assms(2) by simp
  then show ?thesis using s by (simp add: c_str_strncpy)
qed

interpretation file_reader: image_reader readHeader read64 contents "\<lambda>_. True"
proof unfold_locales
  fix s :: FILE and q hr
  assume h: "header_at (contents s) q hr"
  then have "unat q + 284 < 2 ^ 63" by (simp add: header_at_def)
  with h readHeader_at [of s q "hdr_name hr" "hdr_length hr" "hdr_time hr" "hdr_offset hr" "hdr_type hr"]
  show "\<exists>hr' s'. readHeader s q = Some (hr', s') \<and> same_hdr hr hr' \<and> contents s' = contents s \<and> True"
    by (simp add: header_at_def same_hdr_def c_str_strncpy_full)
next
  fix s :: FILE and q v :: uint64
  assume "unat q + 8 \<le> length (contents s)" "length (contents s) < 2 ^ 63"
    "window (contents s) (unat q) 8 = be64 v"
  with read64_at [of q s v]
  show "\<exists>s'. read64 s q = Some (v, s') \<and> contents s' = contents s \<and> True" by simp
qed

section \<open>The reference layout holds its tree\<close>

lemma c_str_padded: "ok_name n \<Longrightarrow> c_str (padded n) = Some n"
  by (simp add: padded_def ok_name_def)

lemma nul_in_padded: "0 \<in> set (padded n)"
  by (simp add: padded_def)

lemma window_append_split:
  assumes "window img p n = xs @ ys" and "length xs = a" and "n = a + length ys"
  shows "window img p a = xs" "window img (p + a) (length ys) = ys"
  using window_split [OF assms(1,2) refl assms(3)] by auto

lemma layout_holds:
  "ok_tree t \<Longrightarrow> window img h (hsize t) = hdrs h f t \<Longrightarrow>
     window img f (length (dbytes t)) = dbytes t \<Longrightarrow> h + hsize t + 4 \<le> length img \<Longrightarrow>
     f + length (dbytes t) \<le> length img \<Longrightarrow> length img < 2 ^ 63 \<Longrightarrow>
     \<exists>hr. header_at img (of_nat h) hr \<and> node_ok img hr t"
  "list_all ok_tree ts \<Longrightarrow> window img h (sum_list (map hsize ts)) = hdrs_list h f ts \<Longrightarrow>
     window img f (length (concat (map dbytes ts))) = concat (map dbytes ts) \<Longrightarrow>
     h + sum_list (map hsize ts) + 4 \<le> length img \<Longrightarrow>
     f + length (concat (map dbytes ts)) \<le> length img \<Longrightarrow> length img < 2 ^ 63 \<Longrightarrow>
     window img p (8 * length ts) = offs_table h ts \<Longrightarrow> entries_ok img p ts"
proof (induction h f t and h f ts arbitrary: and p rule: hdrs_hdrs_list.induct)
  case (1 h f n tm c)
  define hr where "hr = \<lparr>hdr_name = padded n, hdr_length = of_nat (length c), hdr_time = tm,
      hdr_offset = of_nat f, hdr_type = PLAIN_FILE\<rparr>"
  have n: "ok_name n" "length (padded n) = 256" using "1.prems"(1)
    by (auto simp: ok_name_def length_padded)
  have u: "unat (of_nat h :: uint64) = h" "unat (of_nat f :: uint64) = f"
    using "1.prems"(4-6) by (simp_all add: unat_of_nat_small)
  have "header_at img (of_nat h) hr" "node_ok img hr (FileN n tm c)"
    using 1 n u by (simp_all add: header_at_def hr_def nul_in_padded c_str_padded)
  then show ?case by blast
next
  case (2 h f n tm ts)
  let ?h = "h + 284 + 8 * length ts"
  define hr where "hr = \<lparr>hdr_name = padded n, hdr_length = of_nat (length ts), hdr_time = tm,
      hdr_offset = of_nat (h + 284), hdr_type = DIRECTORY\<rparr>"
  define hb where "hb = hdr_bytes (padded n) (of_nat (length ts)) tm (of_nat (h + 284)) DIRECTORY"
  have n: "ok_name n" "length (padded n) = 256" "list_all ok_tree ts" "length ts < 2 ^ 31"
    using "2.prems"(1) by (auto simp: ok_name_def length_padded)
  have u: "unat (of_nat h :: uint64) = h" "unat (of_nat (h + 284) :: uint64) = h + 284"
    using "2.prems"(4,6) by (simp_all only: unat_of_nat_small hsize.simps M_HDR_SIZE_eq)
  have w: "window img h (284 + (8 * length ts + sum_list (map hsize ts))) =
      hb @ offs_table ?h ts @ hdrs_list ?h f ts"
    using "2.prems"(2) by (simp add: hb_def add.assoc)
  have lhb: "length hb = 284" using n by (simp add: hb_def)
  have lh: "length (hdrs_list ?h f ts) = sum_list (map hsize ts)" by (rule length_hdrs(2) [OF n(3)])
  have w1: "window img h 284 = hb"
    by (rule window_append_split(1) [OF w lhb]) (simp add: lh length_offs_table)
  have w2: "window img (h + 284) (8 * length ts + sum_list (map hsize ts)) =
      offs_table ?h ts @ hdrs_list ?h f ts"
    using window_append_split(2) [OF w lhb] by (simp add: lh length_offs_table)
  have w3: "window img (h + 284) (8 * length ts) = offs_table ?h ts"
    by (rule window_append_split(1) [OF w2 length_offs_table]) (simp add: lh)
  have w4: "window img ?h (sum_list (map hsize ts)) = hdrs_list ?h f ts"
    using window_append_split(2) [OF w2 length_offs_table] by (simp add: lh)
  have "entries_ok img (h + 284) ts"
    using "2.IH" [of "h + 284"] "2.prems" n(3) w3 w4 by (simp add: add.assoc)
  moreover have "header_at img (of_nat h) hr"
    using "2.prems"(4,6) n w1 u(1) by (simp add: header_at_def hr_def nul_in_padded hb_def)
  moreover have "h + 284 + 8 * length ts < 2 ^ 63" using "2.prems"(4,6) by simp
  ultimately have "node_ok img hr (DirN n tm ts)"
    using n u(2) by (simp add: hr_def c_str_padded del: of_nat_add)
  with \<open>header_at img (of_nat h) hr\<close> show ?case by blast
next
  case (3 h f)
  show ?case by simp
next
  case (4 h f t ts)
  have ok: "ok_tree t" "list_all ok_tree ts" using "4.prems"(1) by simp_all
  note len = length_hdrs(1) [OF ok(1), of h f]
    length_hdrs(2) [OF ok(2), of "h + hsize t" "f + length (dbytes t)"]
  have w: "window img h (hsize t + sum_list (map hsize ts)) =
      hdrs h f t @ hdrs_list (h + hsize t) (f + length (dbytes t)) ts"
    using "4.prems"(2) by simp
  have d: "window img f (length (dbytes t) + length (concat (map dbytes ts))) =
      dbytes t @ concat (map dbytes ts)"
    using "4.prems"(3) by simp
  have o: "window img p (8 + 8 * length ts) = be64 (of_nat h) @ offs_table (h + hsize t) ts"
    using "4.prems"(7) by simp
  have w1: "window img h (hsize t) = hdrs h f t"
    "window img (h + hsize t) (sum_list (map hsize ts)) =
      hdrs_list (h + hsize t) (f + length (dbytes t)) ts"
    using window_append_split [OF w len(1)] by (simp_all add: len)
  have d1: "window img f (length (dbytes t)) = dbytes t"
    "window img (f + length (dbytes t)) (length (concat (map dbytes ts))) = concat (map dbytes ts)"
    using window_append_split [OF d refl] by simp_all
  have o1: "window img p 8 = be64 (of_nat h)"
    "window img (p + 8) (8 * length ts) = offs_table (h + hsize t) ts"
    using window_append_split [OF o length_be64] by (simp_all add: length_offs_table)
  have "\<exists>hr. header_at img (of_nat h) hr \<and> node_ok img hr t"
    using "4.IH"(1) ok w1 d1 "4.prems"(4-6) by simp
  moreover have "entries_ok img (p + 8) ts"
    using "4.IH"(2) [of "p + 8"] ok w1 d1 o1 "4.prems"(4-6) by (simp add: add.assoc)
  ultimately show ?case using o1(1) by auto
qed

lemma image_of_holds:
  assumes "ok_tree t" and "length (image_of t @ trailer) < 2 ^ 63" and "4 \<le> length trailer"
  shows "holds_tree (image_of t @ trailer) t"
proof -
  let ?img = "image_of t @ trailer"
  have len: "length (hdrs 0 (hsize t) t) = hsize t" by (rule length_hdrs(1) [OF assms(1)])
  have "window ?img 0 (hsize t) = hdrs 0 (hsize t) t"
    using len by (simp add: image_of_def window_def)
  moreover have "window ?img (hsize t) (length (dbytes t)) = dbytes t"
    using len by (simp add: image_of_def window_def)
  ultimately show ?thesis using layout_holds(1) [OF assms(1), of ?img 0 "hsize t"] assms(2,3)
    by (simp add: holds_tree_def length_image_of [OF assms(1)])
qed

section \<open>Properties\<close>

text \<open>
  C7: the image the master writes holds the tree for every reader. For a tree with names below
  256 bytes and files below 2 GiB, counters at its numbers of nodes and entries, and any trailer
  of at least four bytes behind the image (the hashes and their count; a reader takes 288 bytes
  where a header has 284), all of it below 2^63 bytes, following the pointers from offset 0 finds every
  node of the tree with its name, time, kind, length and contents.
\<close>

theorem imaged_tree_is_held:
  assumes "ok_tree t" and "holds_at fs path t" and "4 \<le> length trailer"
    and "hsize t + length (dbytes t) + length trailer < 2 ^ 63"
    and "sint hc = int (nnodes t)" and "sint sc = int (nsubs t)"
  shows "\<exists>img. imageDFS fs hc sc (node_of path t) = Some img \<and>
     holds_tree (img @ trailer) t"
  using imageDFS_image_of_aux [OF assms(1,2) _ assms(5,6)] image_of_holds [OF assms(1), of trailer] assms(3,4)
    length_image_of [OF assms(1)] by simp

theorem imaged_tree_is_held_witness:
  "\<exists>img. imageDFS [chars ''/r/f'' \<mapsto> [1, 2, 3]] 2 1
      (node_of (chars ''/r'') (DirN (chars ''r'') 5 [FileN (chars ''f'') 7 [1, 2, 3]])) = Some img \<and>
     holds_tree (img @ [0, 0, 0, 0]) (DirN (chars ''r'') 5 [FileN (chars ''f'') 7 [1, 2, 3]])"
  using imaged_tree_is_held [of "DirN (chars ''r'') 5 [FileN (chars ''f'') 7 [1, 2, 3]]"
      "[chars ''/r/f'' \<mapsto> [1, 2, 3]]" "chars ''/r''" "[0, 0, 0, 0]" 2 1]
  by (simp add: ok_name_def)

end
