(* ===== verification/Mounter.thy ===== *)
theory Mounter
  imports ImageFormat
begin

text \<open>
  The FUSE operations of \<^verbatim>\<open>mounter.c\<close> on a mounted image: path lookup, attributes, directory
  listing, open and read. The state is the image stream with its position, the recorded image
  size and \<^verbatim>\<open>prev_offset\<close>. Each operation is shown to answer as the tree the image holds.
\<close>

section \<open>State and path lookup\<close>

record mnt =
  fp :: FILE
  image_file_size :: uint64
  prev_offset :: uint64

text \<open>The tokens \<^verbatim>\<open>strtok(path, "/")\<close> yields one after the other.\<close>

function strtok_all :: "bytes \<Rightarrow> bytes list" where
  "strtok_all s =
     (let s' = dropWhile (\<lambda>b. b = slash) s in
      if s' = [] then []
      else takeWhile (\<lambda>b. b \<noteq> slash) s' # strtok_all (dropWhile (\<lambda>b. b \<noteq> slash) s'))"
  by pat_completeness auto
termination
proof (relation "measure length", simp)
  fix s s' :: bytes
  assume s': "s' = dropWhile (\<lambda>b. b = slash) s" and ne: "s' \<noteq> []"
  have "length (dropWhile (\<lambda>b. b \<noteq> slash) s') < length s'"
    using ne hd_dropWhile [of "\<lambda>b. b = slash" s] unfolding s' [symmetric]
    by (cases s') (auto simp: less_Suc_eq_le length_dropWhile_le)
  also have "\<dots> \<le> length s" unfolding s' by (rule length_dropWhile_le)
  finally show "(dropWhile (\<lambda>b. b \<noteq> slash) s', s) \<in> measure length" by (simp only: in_measure)
qed

declare strtok_all.simps [simp del]

text \<open>
  The children loop of \<^verbatim>\<open>find\<close>: \<open>n\<close> more children from index \<open>i\<close>. The warning for an offset
  beyond the image only prints.
\<close>

fun find_child :: "FILE \<Rightarrow> uint64 \<Rightarrow> bytes \<Rightarrow> nat \<Rightarrow> nat \<Rightarrow> (m_hdr option \<times> FILE) option" where
  "find_child f initOffset token i 0 = Some (None, f)"
| "find_child f initOffset token i (Suc n) = do {
     let nextOffset = initOffset + of_nat i * 8;
     (next_header_block, f) \<leftarrow> read64 f nextOffset;
     (child, f) \<leftarrow> readHeader f next_header_block;
     child_name \<leftarrow> c_str (hdr_name child);
     if child_name = token then Some (Some child, f)
     else find_child f initOffset token (i + 1) n
   }"

text \<open>
  The index is a 32-bit \<^verbatim>\<open>unsigned int\<close> compared with the 64-bit length: with \<open>2 ^ 32\<close> children
  or more an unsuccessful search wraps around for ever.
\<close>

definition find_children :: "FILE \<Rightarrow> m_hdr \<Rightarrow> bytes \<Rightarrow> (m_hdr option \<times> FILE) option" where
  "find_children f current token =
     (if unat (hdr_length current) < 2 ^ 32
      then find_child f (hdr_offset current) token 0 (unat (hdr_length current))
      else do {
        (r, f) \<leftarrow> find_child f (hdr_offset current) token 0 (2 ^ 32);
        (case r of None \<Rightarrow> None | Some child \<Rightarrow> Some (Some child, f))
      })"

fun find_loop :: "FILE \<Rightarrow> m_hdr \<Rightarrow> bytes list \<Rightarrow> (m_hdr option \<times> FILE) option" where
  "find_loop f current [] = Some (Some current, f)"
| "find_loop f current (token # tokens) = do {
     current_name \<leftarrow> c_str (hdr_name current);
     if current_name \<noteq> token then Some (None, f)
     else case tokens of
       [] \<Rightarrow> Some (Some current, f)
     | next_token # _ \<Rightarrow>
         if hdr_type current = 1 then Some (Some current, f)
         else do {
           (r, f) \<leftarrow> find_children f current next_token;
           (case r of
              None \<Rightarrow> Some (None, f)
            | Some child \<Rightarrow> find_loop f child tokens)
         }
   }"

text \<open>\<^verbatim>\<open>find\<close>: a null path, or no header for the path, is the result \<^term>\<open>None\<close> inside.\<close>

definition mount_find :: "bytes option \<Rightarrow> mnt \<Rightarrow> (m_hdr option \<times> mnt) option" where
  "mount_find path st =
     (case path of
        None \<Rightarrow> Some (None, st)
      | Some p \<Rightarrow> do {
          let tokens = strtok_all p;
          (root, f) \<leftarrow> readHeader (fp st) 0;
          (r, f) \<leftarrow> find_loop f root tokens;
          Some (r, st\<lparr>fp := f\<rparr>)
        })"

section \<open>FUSE operations\<close>

definition ENOENT :: int where "ENOENT = 2"
definition EACCES :: int where "EACCES = 13"
definition S_IFDIR :: nat where "S_IFDIR = 16384"
definition S_IFREG :: nat where "S_IFREG = 32768"

text \<open>The \<^verbatim>\<open>struct stat\<close> fields the code sets; \<^verbatim>\<open>0444\<close> is 292.\<close>

record stat =
  st_mode :: nat
  st_nlink :: uint64
  st_size :: uint64
  st_blksize :: nat
  st_blocks :: nat
  st_mtime :: uint64

definition zero_stat :: stat where
  "zero_stat = \<lparr>st_mode = 0, st_nlink = 0, st_size = 0, st_blksize = 0, st_blocks = 0, st_mtime = 0\<rparr>"

text \<open>
  \<^verbatim>\<open>int num_blocks = ceil(file_size / block_size)\<close> in double precision: exact up to \<open>2 ^ 53\<close>
  bytes, and the conversion to \<^verbatim>\<open>int\<close> is undefined from \<open>2 ^ 31\<close> blocks on.
\<close>

definition num_blocks :: "uint64 \<Rightarrow> nat option" where
  "num_blocks len = (let n = (unat len + 4095) div 4096 in if n < 2 ^ 31 then Some n else None)"

definition mount_getattr :: "bytes option \<Rightarrow> stat \<Rightarrow> mnt \<Rightarrow> (int \<times> stat \<times> mnt) option" where
  "mount_getattr path stbuf st =
     (case path of
        None \<Rightarrow> Some (- ENOENT, stbuf, st)
      | Some p \<Rightarrow>
          let stbuf = zero_stat in
          if p = [slash] then Some (0, stbuf\<lparr>st_mode := S_IFDIR + 292, st_nlink := 2\<rparr>, st)
          else do {
            (r, st) \<leftarrow> mount_find path st;
            (case r of
               None \<Rightarrow> Some (- ENOENT, stbuf, st)
             | Some head \<Rightarrow>
                 if hdr_type head = 0 then
                   Some (0, stbuf\<lparr>st_mode := S_IFDIR + 292, st_nlink := hdr_length head,
                                  st_mtime := hdr_time head\<rparr>, st)
                 else if hdr_type head = 1 then do {
                   n \<leftarrow> num_blocks (hdr_length head);
                   Some (0, stbuf\<lparr>st_mode := S_IFREG + 292, st_size := hdr_length head,
                                  st_blksize := 4096, st_blocks := n,
                                  st_mtime := hdr_time head\<rparr>, st)
                 }
                 else Some (- ENOENT, stbuf\<lparr>st_mtime := hdr_time head\<rparr>, st))
          })"

text \<open>The directory listing: the names passed to \<^verbatim>\<open>filler\<close>, in order.\<close>

abbreviation dot_entry :: bytes where "dot_entry \<equiv> [46]"
abbreviation dotdot_entry :: bytes where "dotdot_entry \<equiv> [46, 46]"

fun fill_children :: "FILE \<Rightarrow> uint64 \<Rightarrow> nat \<Rightarrow> nat \<Rightarrow> (bytes list \<times> FILE) option" where
  "fill_children f initOffset i 0 = Some ([], f)"
| "fill_children f initOffset i (Suc n) = do {
     let nextOffset = initOffset + of_nat i * 8;
     (next_header_block, f) \<leftarrow> read64 f nextOffset;
     (child, f) \<leftarrow> readHeader f next_header_block;
     child_name \<leftarrow> c_str (hdr_name child);
     (names, f) \<leftarrow> fill_children f initOffset (i + 1) n;
     Some (child_name # names, f)
   }"

definition mount_readdir :: "bytes \<Rightarrow> mnt \<Rightarrow> (int \<times> bytes list \<times> mnt) option" where
  "mount_readdir path st =
     (if path = [slash] then do {
        (dir_header, f) \<leftarrow> readHeader (fp st) 0;
        root_name \<leftarrow> c_str (hdr_name dir_header);
        Some (0, [dot_entry, dotdot_entry, root_name], st\<lparr>fp := f\<rparr>)
      } else do {
        (r, st) \<leftarrow> mount_find (Some path) st;
        (case r of
           None \<Rightarrow> Some (- ENOENT, [], st)
         | Some dir_header \<Rightarrow>
             if hdr_type dir_header \<noteq> 0 then Some (- ENOENT, [], st)
             else if unat (hdr_length dir_header) < 2 ^ 32 then do {
               (names, f) \<leftarrow> fill_children (fp st) (hdr_offset dir_header) 0 (unat (hdr_length dir_header));
               Some (0, dot_entry # dotdot_entry # names, st\<lparr>fp := f\<rparr>)
             } else None)
      })"

text \<open>\<^verbatim>\<open>O_ACCMODE\<close> is 3 and \<^verbatim>\<open>O_RDONLY\<close> 0.\<close>

definition mount_open :: "bytes option \<Rightarrow> uint32 \<Rightarrow> mnt \<Rightarrow> (int \<times> mnt) option" where
  "mount_open path flags st = do {
     (r, st) \<leftarrow> mount_find path st;
     (case r of
        None \<Rightarrow> Some (- ENOENT, st)
      | Some file_header \<Rightarrow>
          if hdr_type file_header \<noteq> 1 then Some (- ENOENT, st)
          else if flags AND 3 \<noteq> 0 then Some (- EACCES, st)
          else Some (0, st))
   }"

text \<open>
  \<^verbatim>\<open>read\<close> loads the whole file and copies the requested part; \<^verbatim>\<open>offset + size\<close> is computed in
  64 unsigned bits. The result is the returned \<^verbatim>\<open>int\<close> with the bytes stored in the buffer.
\<close>

definition mount_read :: "bytes option \<Rightarrow> uint64 \<Rightarrow> uint64 \<Rightarrow> mnt \<Rightarrow> (int \<times> bytes \<times> mnt) option" where
  "mount_read path sz offset st = do {
     (r, st) \<leftarrow> mount_find path st;
     (case r of
        None \<Rightarrow> Some (- ENOENT, [], st)
      | Some file_header \<Rightarrow>
          if hdr_type file_header \<noteq> 1 then Some (- ENOENT, [], st)
          else do {
            let len = hdr_length file_header;
            let (data_buffer, f) = fread (unat len) (fseek (hdr_offset file_header) (fp st));
            let st = st\<lparr>fp := f, prev_offset := offset\<rparr>;
            if offset < len then do {
              let sz = (if offset + sz > len then len - offset else sz);
              if unat offset + unat sz \<le> length data_buffer
              then Some (sint (ucast sz :: 32 word), window data_buffer (unat offset) (unat sz), st)
              else None
            } else Some (0, [], st)
          })
   }"

section \<open>Lookup in the tree\<close>

text \<open>
  The reference for \<^verbatim>\<open>find\<close>. A path that continues below a plain file resolves to that file:
  the code returns the header as soon as it meets a file.
\<close>

fun resolve :: "fsnode \<Rightarrow> bytes list \<Rightarrow> fsnode option" where
  "resolve t [] = Some t"
| "resolve t (token # tokens) =
     (if fn_name t \<noteq> token then None
      else case tokens of
        [] \<Rightarrow> Some t
      | next_token # _ \<Rightarrow>
          (case t of
             FileN _ _ _ \<Rightarrow> Some t
           | DirN _ _ ts \<Rightarrow>
               (case List.find (\<lambda>c. fn_name c = next_token) ts of
                  None \<Rightarrow> None
                | Some c \<Rightarrow> resolve c tokens)))"

text \<open>How a lookup result stands for a node of the tree.\<close>

definition stands_for :: "bytes \<Rightarrow> m_hdr option \<Rightarrow> fsnode option \<Rightarrow> bool" where
  "stands_for img r t =
     (case t of None \<Rightarrow> r = None | Some u \<Rightarrow> (\<exists>hr. r = Some hr \<and> node_ok img hr u))"

lemma find_child_correct:
  assumes "node_ok (contents f) hr (DirN nm tm ts)" and "i + n = length ts"
  shows "\<exists>r f'. find_child f (hdr_offset hr) token i n = Some (r, f') \<and> contents f' = contents f \<and>
     stands_for (contents f) r (List.find (\<lambda>c. fn_name c = token) (drop i ts))"
  using assms
proof (induction n arbitrary: f i)
  case 0
  then show ?case by (simp add: stands_for_def)
next
  case (Suc n)
  then have i: "i < length ts" by simp
  then obtain q f1 cr f2 where
    rd: "read64 f (hdr_offset hr + of_nat i * 8) = Some (q, f1)" "readHeader f1 q = Some (cr, f2)"
    and cr: "node_ok (contents f) cr (ts ! i)" "contents f2 = contents f"
    using file_reader.child_header [OF TrueI Suc.prems(1)] by blast
  have dr: "drop i ts = ts ! i # drop (Suc i) ts" using i by (simp add: Cons_nth_drop_Suc)
  have nm: "c_str (hdr_name cr) = Some (fn_name (ts ! i))" by (rule node_ok_name [OF cr(1)])
  show ?case
  proof (cases "fn_name (ts ! i) = token")
    case True
    then show ?thesis using rd cr nm by (simp add: dr stands_for_def)
  next
    case False
    have "node_ok (contents f2) hr (DirN nm tm ts)" using Suc.prems(1) cr(2) by simp
    from Suc.IH [OF this, of "Suc i"] Suc.prems(2) cr(2) show ?thesis
      using rd nm False by (simp add: dr)
  qed
qed

lemma find_children_correct:
  assumes "node_ok (contents f) hr (DirN nm tm ts)"
  shows "\<exists>r f'. find_children f hr token = Some (r, f') \<and> contents f' = contents f \<and>
     stands_for (contents f) r (List.find (\<lambda>c. fn_name c = token) ts)"
proof -
  have "unat (hdr_length hr) = length ts" "length ts < 2 ^ 32"
    using assms by (auto simp: unat_of_nat take_bit_nat_eq_self_iff)
  then show ?thesis using find_child_correct [OF assms, of 0 "length ts" token]
    by (simp add: find_children_def)
qed

lemma find_loop_correct:
  assumes "node_ok (contents f) hr t"
  shows "\<exists>r f'. find_loop f hr toks = Some (r, f') \<and> contents f' = contents f \<and>
     stands_for (contents f) r (resolve t toks)"
  using assms
proof (induction toks arbitrary: f hr t)
  case Nil
  then show ?case by (simp add: stands_for_def)
next
  case (Cons tok toks)
  note nm = node_ok_name [OF Cons.prems]
  show ?case
  proof (cases "fn_name t = tok \<and> toks \<noteq> []")
    case False
    then show ?thesis using nm Cons.prems by (auto simp: stands_for_def split: list.splits)
  next
    case True
    then obtain tok' rest where toks: "toks = tok' # rest" by (cases toks) auto
    show ?thesis
    proof (cases t)
      case (FileN n tm c)
      then show ?thesis using True toks nm Cons.prems
        by (auto simp: stands_for_def PLAIN_FILE_def)
    next
      case (DirN n tm ts)
      have d: "node_ok (contents f) hr (DirN n tm ts)" using Cons.prems DirN by simp
      then have ty: "hdr_type hr \<noteq> 1" by (simp add: DIRECTORY_def)
      from find_children_correct [OF d, of tok'] obtain r f1 where
        fc: "find_children f hr tok' = Some (r, f1)" "contents f1 = contents f"
        "stands_for (contents f) r (List.find (\<lambda>c. fn_name c = tok') ts)" by blast
      show ?thesis
      proof (cases "List.find (\<lambda>c. fn_name c = tok') ts")
        case None
        then show ?thesis using fc True toks nm ty DirN by (simp add: stands_for_def)
      next
        case (Some u)
        then obtain cr where cr: "r = Some cr" "node_ok (contents f) cr u"
          using fc(3) by (auto simp: stands_for_def)
        have "node_ok (contents f1) cr u" using cr(2) fc(2) by simp
        from Cons.IH [OF this] fc(2) show ?thesis
          using fc(1) True toks nm ty DirN Some cr(1) by simp
      qed
    qed
  qed
qed

lemma mount_find_correct:
  assumes "holds_tree (contents (fp st)) t"
  shows "\<exists>r f'. mount_find (Some path) st = Some (r, st\<lparr>fp := f'\<rparr>) \<and>
     contents f' = contents (fp st) \<and>
     stands_for (contents (fp st)) r (resolve t (strtok_all path))"
proof -
  from file_reader.root_header [OF TrueI assms] obtain hr f1 where
    h: "readHeader (fp st) 0 = Some (hr, f1)" "node_ok (contents (fp st)) hr t"
       "contents f1 = contents (fp st)" by blast
  have "node_ok (contents f1) hr t" using h by simp
  from find_loop_correct [OF this, of "strtok_all path"] h show ?thesis
    by (auto simp: mount_find_def)
qed

section \<open>Paths\<close>

definition join_path :: "bytes list \<Rightarrow> bytes" where
  "join_path names = concat (map (\<lambda>n. slash # n) names)"

definition path_name :: "bytes \<Rightarrow> bool" where
  "path_name n \<longleftrightarrow> n \<noteq> [] \<and> slash \<notin> set n"

lemma dropWhile_no_slash: "slash \<notin> set n \<Longrightarrow> dropWhile (\<lambda>b. b \<noteq> slash) (n @ r) = dropWhile (\<lambda>b. b \<noteq> slash) r"
  by (induction n) auto

lemma takeWhile_no_slash: "slash \<notin> set n \<Longrightarrow> takeWhile (\<lambda>b. b \<noteq> slash) (n @ r) = n @ takeWhile (\<lambda>b. b \<noteq> slash) r"
  by (induction n) auto

lemma strtok_all_slash:
  assumes "path_name n" and "r = [] \<or> (\<exists>q. r = slash # q)"
  shows "strtok_all (slash # n @ r) = n # strtok_all r"
proof -
  obtain b m where n: "n = b # m" "b \<noteq> slash" using assms(1) by (cases n) (auto simp: path_name_def)
  have "dropWhile (\<lambda>b. b = slash) (slash # n @ r) = n @ r" using n by simp
  moreover have "takeWhile (\<lambda>b. b \<noteq> slash) (n @ r) = n" "dropWhile (\<lambda>b. b \<noteq> slash) (n @ r) = r"
    using assms by (auto simp: path_name_def takeWhile_no_slash dropWhile_no_slash)
  ultimately show ?thesis using n by (subst strtok_all.simps) (simp add: Let_def)
qed

lemma strtok_all_join: "list_all path_name names \<Longrightarrow> strtok_all (join_path names) = names"
proof (induction names)
  case Nil
  show ?case by (simp add: join_path_def strtok_all.simps)
next
  case (Cons n names)
  then have "strtok_all (slash # n @ join_path names) = n # strtok_all (join_path names)"
    by (intro strtok_all_slash) (cases names; simp add: join_path_def)+
  then show ?case using Cons by (simp add: join_path_def)
qed

section \<open>Reading never changes the image\<close>

lemma read64_contents: "read64 f q = Some (v, f') \<Longrightarrow> contents f' = contents f"
  by (auto simp: read64_def read64_pure_def Option.bind_eq_Some_conv dest: fread_obj_contents)

lemma readHeader_contents: "readHeader f q = Some (h, f') \<Longrightarrow> contents f' = contents f"
  by (auto simp: readHeader_def read64_pure_def read32_pure_def Let_def Option.bind_eq_Some_conv
      dest!: fread_obj_contents)

lemma find_child_contents:
  "find_child f o' tok i n = Some (r, f') \<Longrightarrow> contents f' = contents f"
  by (induction n arbitrary: f i)
    (auto simp: Let_def Option.bind_eq_Some_conv split: if_splits dest!: read64_contents readHeader_contents)

lemma find_children_contents:
  "find_children f hr tok = Some (r, f') \<Longrightarrow> contents f' = contents f"
  by (auto simp: find_children_def Option.bind_eq_Some_conv split: if_splits option.splits
      dest: find_child_contents)

lemma find_loop_contents:
  "find_loop f hr toks = Some (r, f') \<Longrightarrow> contents f' = contents f"
proof (induction toks arbitrary: f hr)
  case (Cons tok toks)
  obtain nm where nm: "c_str (hdr_name hr) = Some nm" using Cons.prems by (cases "c_str (hdr_name hr)") auto
  show ?case
  proof (cases "nm \<noteq> tok \<or> toks = [] \<or> hdr_type hr = 1")
    case True
    then show ?thesis using Cons.prems nm by (cases toks) (auto split: if_splits)
  next
    case False
    then obtain tok' rest where toks: "toks = tok' # rest" by (cases toks) auto
    obtain q f1 where q: "find_children f hr tok' = Some (q, f1)"
      using Cons.prems nm False toks by (cases "find_children f hr tok'") auto
    have f1: "contents f1 = contents f" by (rule find_children_contents [OF q])
    show ?thesis
    proof (cases q)
      case None
      then show ?thesis using Cons.prems nm False toks q f1 by simp
    next
      case (Some child)
      then have "find_loop f1 child toks = Some (r, f')" using Cons.prems nm False toks q by simp
      from Cons.IH [OF this] f1 show ?thesis by simp
    qed
  qed
qed simp

lemma mount_find_contents:
  "mount_find p st = Some (r, st') \<Longrightarrow> contents (fp st') = contents (fp st)"
  by (auto simp: mount_find_def Let_def Option.bind_eq_Some_conv split: option.splits
      dest!: readHeader_contents find_loop_contents)

lemma fill_children_contents:
  "fill_children f o' i n = Some (ns, f') \<Longrightarrow> contents f' = contents f"
  by (induction n arbitrary: f i ns)
    (auto simp: Let_def Option.bind_eq_Some_conv dest!: read64_contents readHeader_contents)

datatype fuse_op =
    Getattr "bytes option" stat
  | Readdir bytes
  | Open "bytes option" uint32
  | Read "bytes option" uint64 uint64

text \<open>One FUSE request; the answer is dropped, the state is kept.\<close>

fun fuse_step :: "fuse_op \<Rightarrow> mnt \<Rightarrow> mnt option" where
  "fuse_step (Getattr p sb) st = map_option (\<lambda>(_, _, st). st) (mount_getattr p sb st)"
| "fuse_step (Readdir p) st = map_option (\<lambda>(_, _, st). st) (mount_readdir p st)"
| "fuse_step (Open p fl) st = map_option snd (mount_open p fl st)"
| "fuse_step (Read p sz off) st = map_option (\<lambda>(_, _, st). st) (mount_read p sz off st)"

inductive fuse_run :: "mnt \<Rightarrow> mnt \<Rightarrow> bool" where
  fuse_refl: "fuse_run st st"
| fuse_trans: "fuse_step op st = Some st1 \<Longrightarrow> fuse_run st1 st2 \<Longrightarrow> fuse_run st st2"

lemma mount_getattr_contents:
  assumes "mount_getattr p sb st = Some (rc, sb', st')"
  shows "contents (fp st') = contents (fp st)"
proof (cases p)
  case (Some q)
  show ?thesis
  proof (cases "q = [slash]")
    case False
    then obtain r st1 where r: "mount_find p st = Some (r, st1)"
      using assms Some by (cases "mount_find p st") (auto simp: mount_getattr_def Let_def)
    have "st' = st1"
    proof (cases r)
      case None
      then show ?thesis using assms Some False r by (simp add: mount_getattr_def Let_def)
    next
      case h: (Some head)
      then show ?thesis using assms Some False r
        by (cases "num_blocks (hdr_length head)") (auto simp: mount_getattr_def Let_def split: if_splits)
    qed
    then show ?thesis using mount_find_contents [OF r] by simp
  qed (use assms Some in \<open>auto simp: mount_getattr_def Let_def\<close>)
qed (use assms in \<open>auto simp: mount_getattr_def\<close>)

lemma mount_readdir_contents:
  assumes "mount_readdir p st = Some (rc, ns, st')"
  shows "contents (fp st') = contents (fp st)"
proof (cases "p = [slash]")
  case True
  then show ?thesis using assms
    by (auto simp: mount_readdir_def Option.bind_eq_Some_conv dest!: readHeader_contents)
next
  case False
  then obtain r st1 where r: "mount_find (Some p) st = Some (r, st1)"
    using assms by (cases "mount_find (Some p) st") (auto simp: mount_readdir_def)
  have "contents (fp st') = contents (fp st1)"
  proof (cases r)
    case None
    then show ?thesis using assms False r by (simp add: mount_readdir_def)
  next
    case (Some d)
    then show ?thesis using assms False r
      by (auto simp: mount_readdir_def Option.bind_eq_Some_conv split: if_splits dest!: fill_children_contents)
  qed
  then show ?thesis using mount_find_contents [OF r] by simp
qed

lemma mount_open_contents:
  assumes "mount_open p fl st = Some (rc, st')"
  shows "contents (fp st') = contents (fp st)"
proof -
  obtain r st1 where r: "mount_find p st = Some (r, st1)"
    using assms by (cases "mount_find p st") (auto simp: mount_open_def)
  have "st' = st1" using assms r by (cases r) (auto simp: mount_open_def split: if_splits)
  then show ?thesis using mount_find_contents [OF r] by simp
qed

lemma mount_read_contents:
  assumes "mount_read p sz off st = Some (rc, bs, st')"
  shows "contents (fp st') = contents (fp st)"
proof -
  obtain r st1 where r: "mount_find p st = Some (r, st1)"
    using assms by (cases "mount_find p st") (auto simp: mount_read_def)
  have "contents (fp st') = contents (fp st1)" using assms r
    by (cases r) (auto simp: mount_read_def Let_def fread_def split: if_splits)
  then show ?thesis using mount_find_contents [OF r] by simp
qed

lemmas fuse_op_contents =
  mount_getattr_contents mount_readdir_contents mount_open_contents mount_read_contents

lemma fuse_step_contents: "fuse_step op st = Some st' \<Longrightarrow> contents (fp st') = contents (fp st)"
  by (cases op) (auto dest: fuse_op_contents)

lemma fuse_run_contents: "fuse_run st st' \<Longrightarrow> contents (fp st') = contents (fp st)"
  by (induction rule: fuse_run.induct) (auto dest: fuse_step_contents)

section \<open>Answers of the operations\<close>

text \<open>Every node of a tree with its path from the root, the root's name first.\<close>

fun paths :: "fsnode \<Rightarrow> (bytes list \<times> fsnode) list" where
  "paths (FileN n tm c) = [([n], FileN n tm c)]"
| "paths (DirN n tm ts) =
     ([n], DirN n tm ts) # map (\<lambda>(p, u). (n # p, u)) (concat (map paths ts))"

fun distinct_names :: "fsnode \<Rightarrow> bool" where
  "distinct_names (FileN n tm c) = True"
| "distinct_names (DirN n tm ts) = (distinct (map fn_name ts) \<and> list_all distinct_names ts)"

lemma paths_hd: "(p, u) \<in> set (paths t) \<Longrightarrow> p \<noteq> [] \<and> hd p = fn_name t"
  by (cases t) auto

lemma find_distinct:
  "distinct (map f ts) \<Longrightarrow> t \<in> set ts \<Longrightarrow> List.find (\<lambda>c. f c = f t) ts = Some t"
  by (induction ts) (auto simp: image_iff)

lemma resolve_paths_aux:
  "distinct_names t \<Longrightarrow> (p, u) \<in> set (paths t) \<Longrightarrow> resolve t p = Some u"
proof (induction t arbitrary: p)
  case (DirN n tm ts)
  show ?case
  proof (cases "p = [n] \<and> u = DirN n tm ts")
    case False
    with DirN.prems(2) obtain c q where c: "c \<in> set ts" "(q, u) \<in> set (paths c)" "p = n # q" by auto
    then have q: "q \<noteq> []" "hd q = fn_name c" using paths_hd by auto
    have "resolve c q = Some u" using DirN.IH [OF c(1)] DirN.prems(1) c by (auto simp: list_all_iff)
    moreover have "List.find (\<lambda>x. fn_name x = fn_name c) ts = Some c"
      using find_distinct DirN.prems(1) c(1) by auto
    ultimately show ?thesis using c q by (cases q) auto
  qed simp
qed auto

lemma mount_find_Some:
  assumes "holds_tree (contents (fp st)) t" and "resolve t (strtok_all p) = Some u"
  obtains hr f where "mount_find (Some p) st = Some (Some hr, st\<lparr>fp := f\<rparr>)"
    and "contents f = contents (fp st)" and "node_ok (contents (fp st)) hr u"
  using mount_find_correct [OF assms(1), of p] assms(2) by (auto simp: stands_for_def)

lemma mount_find_None:
  assumes "holds_tree (contents (fp st)) t" and "resolve t (strtok_all p) = None"
  obtains f where "mount_find (Some p) st = Some (None, st\<lparr>fp := f\<rparr>)"
    and "contents f = contents (fp st)"
  using mount_find_correct [OF assms(1), of p] assms(2) by (auto simp: stands_for_def)

lemma mount_read_file_aux:
  assumes img: "holds_tree (contents (fp st)) t" and u: "resolve t (strtok_all p) = Some (FileN n tm c)"
    and sz: "unat sz < 2 ^ 31" and off: "unat off < 2 ^ 63"
  shows "\<exists>st'. mount_read (Some p) sz off st =
      Some (int (length (window c (unat off) (unat sz))), window c (unat off) (unat sz), st') \<and>
     contents (fp st') = contents (fp st)"
proof -
  from mount_find_Some [OF img u] obtain hr f where
    r: "mount_find (Some p) st = Some (Some hr, st\<lparr>fp := f\<rparr>)" "contents f = contents (fp st)"
    and ok: "node_ok (contents (fp st)) hr (FileN n tm c)" by blast
  have lim: "unat (hdr_offset hr) < 2 ^ 63" "length c < 2 ^ 63" using ok by auto
  have ul: "unat (hdr_length hr) = length c" using ok lim by (simp add: unat_of_nat take_bit_nat_eq_self_iff)
  have ty: "hdr_type hr = 1" using ok by (simp add: PLAIN_FILE_def)
  have buf: "fread (length c) (fseek (hdr_offset hr) f) =
      (c, (fseek (hdr_offset hr) f)\<lparr>pos := unat (hdr_offset hr) + length c\<rparr>)"
    using ok r(2) lim by (simp add: fread_def pos_fseek Let_def)
  have sum: "unat (off + sz) = unat off + unat sz"
    using sz off by (simp add: unat_word_ariths)
  define sz' where "sz' = (if off + sz > hdr_length hr then hdr_length hr - off else sz)"
  show ?thesis
  proof (cases "off < hdr_length hr")
    case False
    then have "length c \<le> unat off" using ul by (simp add: word_less_nat_alt)
    then show ?thesis using r ok buf ul False
      by (simp add: mount_read_def Let_def PLAIN_FILE_def window_def)
  next
    case True
    then have lt: "unat off < length c" using ul by (simp add: word_less_nat_alt)
    have s': "unat sz' = min (unat sz) (length c - unat off)"
      using lt sum ul True by (auto simp: sz'_def word_less_nat_alt unat_sub min_def word_le_nat_alt)
    have sm: "unat sz' < 2 ^ 31" using s' sz by linarith
    have si: "sint (ucast sz' :: 32 word) = int (unat sz')"
      using sm by (simp add: sint_ucast_small)
    have w: "window c (unat off) (unat sz') = window c (unat off) (unat sz)"
      unfolding s' by (auto simp: window_def min_def)
    have l: "unat sz' = length (window c (unat off) (unat sz))" using s' by simp
    have "mount_read (Some p) sz off st =
        Some (int (unat sz'), window c (unat off) (unat sz'),
          st\<lparr>fp := (fseek (hdr_offset hr) f)\<lparr>pos := unat (hdr_offset hr) + length c\<rparr>, prev_offset := off\<rparr>)"
      using r ty buf ul True lt s' si
      by (simp add: mount_read_def Let_def sz'_def [symmetric])
    then show ?thesis using w l r(2) by simp
  qed
qed

lemma fill_children_correct:
  assumes "node_ok (contents f) hr (DirN nm tm ts)" and "i + n = length ts"
  shows "\<exists>f'. fill_children f (hdr_offset hr) i n = Some (map fn_name (drop i ts), f') \<and>
     contents f' = contents f"
  using assms
proof (induction n arbitrary: f i)
  case (Suc n)
  then have i: "i < length ts" by simp
  then obtain q f1 cr f2 where
    rd: "read64 f (hdr_offset hr + of_nat i * 8) = Some (q, f1)" "readHeader f1 q = Some (cr, f2)"
    and cr: "node_ok (contents f) cr (ts ! i)" "contents f2 = contents f"
    using file_reader.child_header [OF TrueI Suc.prems(1)] by blast
  have "node_ok (contents f2) hr (DirN nm tm ts)" using Suc.prems(1) cr(2) by simp
  from Suc.IH [OF this, of "Suc i"] Suc.prems(2) obtain f3 where
    "fill_children f2 (hdr_offset hr) (Suc i) n = Some (map fn_name (drop (Suc i) ts), f3)"
    "contents f3 = contents f2" by auto
  moreover have "drop i ts = ts ! i # drop (Suc i) ts" using i by (simp add: Cons_nth_drop_Suc)
  ultimately show ?case using rd cr node_ok_name [OF cr(1)] by simp
qed simp

lemma mount_readdir_dir_aux:
  assumes img: "holds_tree (contents (fp st)) t" and u: "resolve t (strtok_all p) = Some (DirN n tm ts)"
    and p: "p \<noteq> [slash]"
  shows "\<exists>st'. mount_readdir p st = Some (0, dot_entry # dotdot_entry # map fn_name ts, st') \<and>
     contents (fp st') = contents (fp st)"
proof -
  from mount_find_Some [OF img u] obtain hr f where
    r: "mount_find (Some p) st = Some (Some hr, st\<lparr>fp := f\<rparr>)" "contents f = contents (fp st)"
    and ok: "node_ok (contents (fp st)) hr (DirN n tm ts)" by blast
  have l: "unat (hdr_length hr) = length ts" "length ts < 2 ^ 32"
    using ok by (auto simp: unat_of_nat take_bit_nat_eq_self_iff)
  have ty: "hdr_type hr = 0" using ok by (simp add: DIRECTORY_def)
  have "node_ok (contents f) hr (DirN n tm ts)" using ok r(2) by simp
  from fill_children_correct [OF this, of 0 "length ts"] r l ty p show ?thesis
    by (auto simp: mount_readdir_def)
qed

lemma mount_readdir_root_aux:
  assumes img: "holds_tree (contents (fp st)) t"
  shows "\<exists>st'. mount_readdir [slash] st = Some (0, [dot_entry, dotdot_entry, fn_name t], st') \<and>
     contents (fp st') = contents (fp st)"
proof -
  from file_reader.root_header [OF TrueI img] obtain hr f1 where
    h: "readHeader (fp st) 0 = Some (hr, f1)" "node_ok (contents (fp st)) hr t"
       "contents f1 = contents (fp st)" by blast
  with node_ok_name [OF h(2)] show ?thesis by (simp add: mount_readdir_def)
qed

text \<open>The attributes of a node as the tree gives them.\<close>

fun stat_of :: "fsnode \<Rightarrow> stat" where
  "stat_of (FileN n tm c) = zero_stat\<lparr>st_mode := S_IFREG + 292, st_size := of_nat (length c),
     st_blksize := 4096, st_blocks := (length c + 4095) div 4096, st_mtime := tm\<rparr>"
| "stat_of (DirN n tm ts) = zero_stat\<lparr>st_mode := S_IFDIR + 292, st_nlink := of_nat (length ts),
     st_mtime := tm\<rparr>"

fun small_file :: "fsnode \<Rightarrow> bool" where
  "small_file (FileN n tm c) = (length c \<le> 4096 * (2 ^ 31 - 1))"
| "small_file (DirN n tm ts) = True"

lemma mount_getattr_node_aux:
  assumes img: "holds_tree (contents (fp st)) t" and u: "resolve t (strtok_all p) = Some u"
    and p: "p \<noteq> [slash]" and sm: "small_file u"
  shows "\<exists>st'. mount_getattr (Some p) sb st = Some (0, stat_of u, st') \<and>
     contents (fp st') = contents (fp st)"
proof -
  from mount_find_Some [OF img u] obtain hr f where
    r: "mount_find (Some p) st = Some (Some hr, st\<lparr>fp := f\<rparr>)" "contents f = contents (fp st)"
    and ok: "node_ok (contents (fp st)) hr u" by blast
  show ?thesis
  proof (cases u)
    case (DirN n tm ts)
    then show ?thesis using r ok p by (simp add: mount_getattr_def DIRECTORY_def)
  next
    case (FileN n tm c)
    have "unat (hdr_length hr) = length c" "hdr_type hr = 1" "hdr_time hr = tm"
      "hdr_length hr = of_nat (length c)"
      using ok FileN by (auto simp: unat_of_nat take_bit_nat_eq_self_iff PLAIN_FILE_def)
    moreover have "num_blocks (hdr_length hr) = Some ((length c + 4095) div 4096)"
      using sm FileN calculation by (simp add: num_blocks_def Let_def)
    ultimately show ?thesis using r p FileN by (simp add: mount_getattr_def)
  qed
qed

lemma mount_open_file_aux:
  assumes img: "holds_tree (contents (fp st)) t" and u: "resolve t (strtok_all p) = Some (FileN n tm c)"
  shows "\<exists>st'. mount_open (Some p) fl st = Some (if fl AND 3 = 0 then 0 else - EACCES, st') \<and>
     contents (fp st') = contents (fp st)"
proof -
  from mount_find_Some [OF img u] obtain hr f where
    r: "mount_find (Some p) st = Some (Some hr, st\<lparr>fp := f\<rparr>)" "contents f = contents (fp st)"
    and ok: "node_ok (contents (fp st)) hr (FileN n tm c)" by blast
  then show ?thesis by (simp add: mount_open_def PLAIN_FILE_def)
qed

lemma mount_missing_aux:
  assumes img: "holds_tree (contents (fp st)) t" and u: "resolve t (strtok_all p) = None"
    and p: "p \<noteq> [slash]"
  shows "\<exists>f. contents f = contents (fp st) \<and>
     mount_getattr (Some p) sb st = Some (- ENOENT, zero_stat, st\<lparr>fp := f\<rparr>) \<and>
     mount_readdir p st = Some (- ENOENT, [], st\<lparr>fp := f\<rparr>) \<and>
     mount_open (Some p) fl st = Some (- ENOENT, st\<lparr>fp := f\<rparr>) \<and>
     mount_read (Some p) sz off st = Some (- ENOENT, [], st\<lparr>fp := f\<rparr>)"
proof -
  from mount_find_None [OF img u] obtain f where
    r: "mount_find (Some p) st = Some (None, st\<lparr>fp := f\<rparr>)" "contents f = contents (fp st)" by blast
  then show ?thesis using p
    by (auto simp: mount_getattr_def mount_readdir_def mount_open_def mount_read_def)
qed

lemma mount_wrong_kind_aux:
  assumes img: "holds_tree (contents (fp st)) t" and p: "p \<noteq> [slash]"
  shows "resolve t (strtok_all p) = Some (DirN n tm ts) \<Longrightarrow>
      \<exists>st1. mount_open (Some p) fl st = Some (- ENOENT, st1) \<and>
        mount_read (Some p) sz off st = Some (- ENOENT, [], st1)"
    and "resolve t (strtok_all p) = Some (FileN n tm c) \<Longrightarrow>
      \<exists>st1. mount_readdir p st = Some (- ENOENT, [], st1)"
proof -
  assume u: "resolve t (strtok_all p) = Some (DirN n tm ts)"
  from mount_find_Some [OF img u] obtain hr f where
    r: "mount_find (Some p) st = Some (Some hr, st\<lparr>fp := f\<rparr>)"
    and ok: "node_ok (contents (fp st)) hr (DirN n tm ts)" by blast
  have "hdr_type hr = 0" using ok by (simp add: DIRECTORY_def)
  with r show "\<exists>st1. mount_open (Some p) fl st = Some (- ENOENT, st1) \<and>
        mount_read (Some p) sz off st = Some (- ENOENT, [], st1)"
    by (simp add: mount_open_def mount_read_def)
next
  assume u: "resolve t (strtok_all p) = Some (FileN n tm c)"
  from mount_find_Some [OF img u] obtain hr f where
    r: "mount_find (Some p) st = Some (Some hr, st\<lparr>fp := f\<rparr>)"
    and ok: "node_ok (contents (fp st)) hr (FileN n tm c)" by blast
  have "hdr_type hr = 1" using ok by (simp add: PLAIN_FILE_def)
  with r show "\<exists>st1. mount_readdir p st = Some (- ENOENT, [], st1)"
    using p by (simp add: mount_readdir_def)
qed

text \<open>
  Progress: a request of the sizes the kernel sends is always answered. The bound on the image keeps
  the number of blocks of a file within an \<^verbatim>\<open>int\<close>.
\<close>

fun sane_request :: "fuse_op \<Rightarrow> bool" where
  "sane_request (Read p sz off) \<longleftrightarrow> unat sz < 2 ^ 31 \<and> unat off < 2 ^ 63"
| "sane_request _ \<longleftrightarrow> True"

lemma node_ok_small: "node_ok img hr u \<Longrightarrow> length img < 2 ^ 42 \<Longrightarrow> small_file u"
  by (cases u) auto

lemma mount_read_answers:
  assumes img: "holds_tree (contents (fp st)) t" and sz: "unat sz < 2 ^ 31" "unat off < 2 ^ 63"
  shows "mount_read p sz off st \<noteq> None \<and> mount_open p fl st \<noteq> None"
proof (cases p)
  case None
  then show ?thesis by (simp add: mount_read_def mount_open_def mount_find_def)
next
  case (Some q)
  consider "resolve t (strtok_all q) = None" | n tm c where "resolve t (strtok_all q) = Some (FileN n tm c)"
    | n tm ts where "resolve t (strtok_all q) = Some (DirN n tm ts)"
    by (metis fsnode.exhaust option.exhaust)
  then show ?thesis
  proof cases
    case 1
    from mount_find_None [OF img 1] obtain f where "mount_find (Some q) st = Some (None, st\<lparr>fp := f\<rparr>)" by blast
    then show ?thesis by (simp add: Some mount_read_def mount_open_def)
  next
    case 2
    then show ?thesis using mount_read_file_aux [OF img 2 sz] mount_open_file_aux [OF img 2, of fl] Some by auto
  next
    case 3
    from mount_find_Some [OF img 3] obtain hr f where
      "mount_find (Some q) st = Some (Some hr, st\<lparr>fp := f\<rparr>)" "node_ok (contents (fp st)) hr (DirN n tm ts)" by blast
    then show ?thesis by (simp add: Some mount_read_def mount_open_def DIRECTORY_def)
  qed
qed

lemma fuse_step_answers:
  assumes img: "holds_tree (contents (fp st)) t" "length (contents (fp st)) < 2 ^ 42" and op: "sane_request op"
  shows "\<exists>st'. fuse_step op st = Some st'"
proof (cases op)
  case (Getattr p sb)
  have "mount_getattr p sb st \<noteq> None"
  proof (cases p)
    case (Some q)
    show ?thesis
    proof (cases "q = [slash]")
      case False
      show ?thesis
      proof (cases "resolve t (strtok_all q)")
        case None
        then show ?thesis using mount_missing_aux [OF img(1) None False] Some by fastforce
      next
        case u: (Some u)
        have "small_file u" using mount_find_Some [OF img(1) u] node_ok_small img(2) by metis
        then show ?thesis using mount_getattr_node_aux [OF img(1) u False] Some by fastforce
      qed
    qed (simp add: Some mount_getattr_def Let_def)
  qed (simp add: mount_getattr_def)
  then show ?thesis using Getattr by auto
next
  case (Readdir q)
  have "mount_readdir q st \<noteq> None"
  proof (cases "q = [slash]")
    case True
    then show ?thesis using mount_readdir_root_aux [OF img(1)] by auto
  next
    case False
    consider "resolve t (strtok_all q) = None" | n tm c where "resolve t (strtok_all q) = Some (FileN n tm c)"
      | n tm ts where "resolve t (strtok_all q) = Some (DirN n tm ts)"
      by (metis fsnode.exhaust option.exhaust)
    then show ?thesis
      using mount_missing_aux [OF img(1) _ False] mount_wrong_kind_aux(2) [OF img(1) False]
        mount_readdir_dir_aux [OF img(1) _ False] by cases fastforce+
  qed
  then show ?thesis using Readdir by auto
next
  case (Open p fl)
  then show ?thesis using mount_read_answers [OF img(1), of 0 0 p fl] by auto
next
  case (Read p sz off)
  then show ?thesis using mount_read_answers [OF img(1), of sz off p 0] op by auto
qed

lemma fuse_run_step: "fuse_run st st1 \<Longrightarrow> fuse_step op st1 = Some st2 \<Longrightarrow> fuse_run st st2"
  by (induction rule: fuse_run.induct) (auto intro: fuse_run.intros)

section \<open>The tree as specification\<close>

text \<open>The answer to a request: the returned status and what the operation stores for the caller.\<close>

datatype fuse_answer =
    Attributes int stat
  | Listing int "bytes list"
  | Opened int
  | Data int bytes

fun fuse_reply :: "fuse_op \<Rightarrow> mnt \<Rightarrow> (fuse_answer \<times> mnt) option" where
  "fuse_reply (Getattr p sb) st = map_option (\<lambda>(rc, sb, st). (Attributes rc sb, st)) (mount_getattr p sb st)"
| "fuse_reply (Readdir p) st = map_option (\<lambda>(rc, ns, st). (Listing rc ns, st)) (mount_readdir p st)"
| "fuse_reply (Open p fl) st = map_option (\<lambda>(rc, st). (Opened rc, st)) (mount_open p fl st)"
| "fuse_reply (Read p sz off) st = map_option (\<lambda>(rc, bs, st). (Data rc bs, st)) (mount_read p sz off st)"

text \<open>The answers of a tree, without an image: what a user of the mounted directory may rely on.\<close>

fun tree_reply :: "fsnode \<Rightarrow> fuse_op \<Rightarrow> fuse_answer" where
  "tree_reply t (Getattr None sb) = Attributes (- ENOENT) sb"
| "tree_reply t (Getattr (Some p) sb) =
     (if p = [slash] then Attributes 0 (zero_stat\<lparr>st_mode := S_IFDIR + 292, st_nlink := 2\<rparr>)
      else case resolve t (strtok_all p) of
        None \<Rightarrow> Attributes (- ENOENT) zero_stat
      | Some u \<Rightarrow> Attributes 0 (stat_of u))"
| "tree_reply t (Readdir p) =
     (if p = [slash] then Listing 0 [dot_entry, dotdot_entry, fn_name t]
      else case resolve t (strtok_all p) of
        Some (DirN n tm ts) \<Rightarrow> Listing 0 (dot_entry # dotdot_entry # map fn_name ts)
      | _ \<Rightarrow> Listing (- ENOENT) [])"
| "tree_reply t (Open p fl) =
     (case map_option strtok_all p of
        None \<Rightarrow> Opened (- ENOENT)
      | Some names \<Rightarrow>
          (case resolve t names of
             Some (FileN n tm c) \<Rightarrow> Opened (if fl AND 3 = 0 then 0 else - EACCES)
           | _ \<Rightarrow> Opened (- ENOENT)))"
| "tree_reply t (Read p sz off) =
     (case map_option strtok_all p of
        None \<Rightarrow> Data (- ENOENT) []
      | Some names \<Rightarrow>
          (case resolve t names of
             Some (FileN n tm c) \<Rightarrow>
               Data (int (length (window c (unat off) (unat sz)))) (window c (unat off) (unat sz))
           | _ \<Rightarrow> Data (- ENOENT) []))"

text \<open>A sequence of requests, with all answers.\<close>

fun serve :: "fuse_op list \<Rightarrow> mnt \<Rightarrow> (fuse_answer list \<times> mnt) option" where
  "serve [] st = Some ([], st)"
| "serve (op # ops) st = do {
     (a, st) \<leftarrow> fuse_reply op st;
     (as, st) \<leftarrow> serve ops st;
     Some (a # as, st)
   }"

lemma fuse_reply_step: "fuse_step op st = map_option snd (fuse_reply op st)"
  by (cases op) (simp_all add: map_option_case split: option.split prod.split)

lemma tree_getattr:
  assumes "holds_tree (contents (fp st)) t" "length (contents (fp st)) < 2 ^ 42"
  shows "\<exists>st'. fuse_reply (Getattr p sb) st = Some (tree_reply t (Getattr p sb), st')"
proof (cases p)
  case (Some q)
  consider "q = [slash]" | "q \<noteq> [slash]" "resolve t (strtok_all q) = None"
    | u where "q \<noteq> [slash]" "resolve t (strtok_all q) = Some u" by blast
  then show ?thesis
  proof cases
    case 2
    then show ?thesis using mount_missing_aux [OF assms(1) 2(2,1), of sb 0 0 0] Some by auto
  next
    case 3
    have "small_file u" using mount_find_Some [OF assms(1) 3(2)] node_ok_small assms(2) by metis
    then show ?thesis using mount_getattr_node_aux [OF assms(1) 3(2,1), of sb] Some 3 by auto
  qed (simp add: Some mount_getattr_def Let_def)
qed (simp add: mount_getattr_def)

lemma tree_readdir:
  assumes "holds_tree (contents (fp st)) t"
  shows "\<exists>st'. fuse_reply (Readdir p) st = Some (tree_reply t (Readdir p), st')"
proof (cases "p = [slash]")
  case True
  then show ?thesis using mount_readdir_root_aux [OF assms] by auto
next
  case False
  consider "resolve t (strtok_all p) = None" | n tm c where "resolve t (strtok_all p) = Some (FileN n tm c)"
    | n tm ts where "resolve t (strtok_all p) = Some (DirN n tm ts)"
    by (metis fsnode.exhaust option.exhaust)
  then show ?thesis
  proof cases
    case 1
    then show ?thesis using mount_missing_aux [OF assms 1 False, of zero_stat 0 0 0] False by auto
  next
    case 2
    then show ?thesis using mount_wrong_kind_aux(2) [OF assms False 2] False by auto
  next
    case 3
    then show ?thesis using mount_readdir_dir_aux [OF assms 3 False] False by auto
  qed
qed

lemma tree_open_read:
  assumes "holds_tree (contents (fp st)) t" and sz: "unat sz < 2 ^ 31" "unat off < 2 ^ 63"
  shows "\<exists>st'. fuse_reply (Open p fl) st = Some (tree_reply t (Open p fl), st')"
    and "\<exists>st'. fuse_reply (Read p sz off) st = Some (tree_reply t (Read p sz off), st')"
proof -
  have "(\<exists>st'. fuse_reply (Open p fl) st = Some (tree_reply t (Open p fl), st')) \<and>
      (\<exists>st'. fuse_reply (Read p sz off) st = Some (tree_reply t (Read p sz off), st'))"
  proof (cases p)
    case None
    then show ?thesis by (simp add: mount_read_def mount_open_def mount_find_def)
  next
    case (Some q)
    consider "resolve t (strtok_all q) = None" | n tm c where "resolve t (strtok_all q) = Some (FileN n tm c)"
      | n tm ts where "resolve t (strtok_all q) = Some (DirN n tm ts)"
      by (metis fsnode.exhaust option.exhaust)
    then show ?thesis
    proof cases
      case 1
      from mount_find_None [OF assms(1) 1] obtain f where "mount_find (Some q) st = Some (None, st\<lparr>fp := f\<rparr>)" by blast
      then show ?thesis using 1 by (simp add: Some mount_read_def mount_open_def)
    next
      case 2
      then show ?thesis using mount_read_file_aux [OF assms(1) 2 sz] mount_open_file_aux [OF assms(1) 2, of fl] Some by auto
    next
      case 3
      from mount_find_Some [OF assms(1) 3] obtain hr f where
        "mount_find (Some q) st = Some (Some hr, st\<lparr>fp := f\<rparr>)" "node_ok (contents (fp st)) hr (DirN n tm ts)" by blast
      then show ?thesis using 3 by (simp add: Some mount_read_def mount_open_def DIRECTORY_def)
    qed
  qed
  then show "\<exists>st'. fuse_reply (Open p fl) st = Some (tree_reply t (Open p fl), st')"
    and "\<exists>st'. fuse_reply (Read p sz off) st = Some (tree_reply t (Read p sz off), st')" by blast+
qed

lemma fuse_reply_tree:
  assumes "holds_tree (contents (fp st)) t" "length (contents (fp st)) < 2 ^ 42" "sane_request op"
  shows "\<exists>st'. fuse_reply op st = Some (tree_reply t op, st') \<and> contents (fp st') = contents (fp st)"
proof -
  have "\<exists>st'. fuse_reply op st = Some (tree_reply t op, st')"
  proof (cases op)
    case (Read p sz off)
    then show ?thesis using tree_open_read(2) [OF assms(1), of sz off p] assms(3) by simp
  next
    case (Open p fl)
    then show ?thesis using tree_open_read(1) [OF assms(1), of 0 0 p fl] by simp
  qed (use tree_getattr [OF assms(1,2)] tree_readdir [OF assms(1)] in blast)+
  then obtain st' where r: "fuse_reply op st = Some (tree_reply t op, st')" by blast
  then have "fuse_step op st = Some st'" by (simp add: fuse_reply_step)
  then show ?thesis using r fuse_step_contents by blast
qed

lemma serve_tree:
  assumes "holds_tree (contents (fp st)) t" "length (contents (fp st)) < 2 ^ 42" "list_all sane_request ops"
  shows "\<exists>st'. serve ops st = Some (map (tree_reply t) ops, st') \<and> contents (fp st') = contents (fp st)"
  using assms
proof (induction ops arbitrary: st)
  case (Cons op ops)
  from fuse_reply_tree [OF Cons.prems(1,2), of op] Cons.prems(3) obtain st1 where
    s: "fuse_reply op st = Some (tree_reply t op, st1)" "contents (fp st1) = contents (fp st)" by auto
  from Cons.IH [of st1] Cons.prems s(2) obtain st2 where
    "serve ops st1 = Some (map (tree_reply t) ops, st2)" "contents (fp st2) = contents (fp st1)" by auto
  with s show ?case by simp
qed simp

text \<open>A lookup ends at the node with that path, or at a plain file on the way.\<close>

lemma resolve_reaches:
  "resolve t names = Some u \<Longrightarrow> names \<noteq> [] \<Longrightarrow>
     (names, u) \<in> set (paths t) \<or> (\<exists>p q n tm c. names = p @ q \<and> (p, FileN n tm c) \<in> set (paths t))"
proof (induction t names rule: resolve.induct)
  case (2 t token tokens)
  show ?case
  proof (cases tokens)
    case Nil
    then show ?thesis using "2.prems"(1) by (cases t) (auto split: if_splits)
  next
    case (Cons next_token rest)
    show ?thesis
    proof (cases t)
      case (FileN n tm c)
      then have "(token # tokens) = [n] @ tokens \<and> ([n], FileN n tm c) \<in> set (paths t)"
        using "2.prems"(1) Cons by (auto split: if_splits)
      then show ?thesis by blast
    next
      case (DirN n tm ts)
      then obtain c where c: "fn_name t = token" "List.find (\<lambda>c. fn_name c = next_token) ts = Some c" "resolve c tokens = Some u"
        using "2.prems"(1) Cons by (auto split: if_splits option.splits)
      then have "c \<in> set ts" by (auto simp: find_Some_iff)
      moreover have "(tokens, u) \<in> set (paths c) \<or> (\<exists>p q n tm d. tokens = p @ q \<and> (p, FileN n tm d) \<in> set (paths c))"
        using "2.IH" [OF _ Cons DirN c(2,3)] c(1) Cons by auto
      moreover have "(token # p, v) \<in> set (paths t)" if "(p, v) \<in> set (paths c)" "c \<in> set ts" for p v
        using that DirN c(1) by force
      ultimately show ?thesis by (metis append_Cons)
    qed
  qed
qed simp

text \<open>A small mounted image, for concrete instances.\<close>

definition sample_tree :: fsnode where
  "sample_tree = DirN (chars ''r'') 5 [FileN (chars ''f'') 7 [1, 2, 3], DirN (chars ''d'') 6 []]"

definition sample_mnt :: mnt where
  "sample_mnt = \<lparr>fp = fopen_r (image_of sample_tree @ [0, 0, 0, 0]), image_file_size = 0, prev_offset = 0\<rparr>"

lemma sample_holds: "holds_tree (contents (fp sample_mnt)) sample_tree"
proof -
  have ok: "ok_tree sample_tree" by (simp add: sample_tree_def ok_name_def)
  have "length (image_of sample_tree) = hsize sample_tree + length (dbytes sample_tree)" by (rule length_image_of [OF ok])
  then have "length (image_of sample_tree @ [0, 0, 0, 0]) < 2 ^ 63" by (simp add: sample_tree_def)
  from image_of_holds [OF ok this] show ?thesis by (simp add: sample_mnt_def fopen_r_def)
qed

lemmas sample_path = strtok_all.simps sample_tree_def

section \<open>Properties\<close>

text \<open>
  C4: \<^verbatim>\<open>read\<close> on a mounted image: for a path that names a file of the tree the image holds, any
  offset and any size below 2 GiB, exactly the bytes of the file from the offset on are
  stored, at most as many as asked for and none past the end, and their number is returned.
\<close>

theorem mount_read_returns_data:
  assumes "holds_tree (contents (fp st)) t" and "resolve t (strtok_all p) = Some (FileN n tm c)"
    and "unat sz < 2 ^ 31" and "unat off < 2 ^ 63"
  shows "\<exists>st'. mount_read (Some p) sz off st =
      Some (int (length (window c (unat off) (unat sz))), window c (unat off) (unat sz), st') \<and>
     contents (fp st') = contents (fp st)"
  by (rule mount_read_file_aux [OF assms])

theorem mount_read_returns_data_witness:
  "\<exists>st'. mount_read (Some (chars ''/r/f'')) 10 1 sample_mnt = Some (2, [2, 3], st')"
  using mount_read_returns_data [OF sample_holds, of "chars ''/r/f''" "chars ''f''" 7 "[1, 2, 3]" 10 1]
  by (auto simp: sample_path window_def)

text \<open>
  C23: \<^verbatim>\<open>readdir\<close> lists exactly the entries: the mount point shows the root directory of the image
  as its only entry, and a path that names a directory shows its entries in the order of the
  image, both after the two dot entries.
\<close>

theorem mount_readdir_lists_entries:
  assumes "holds_tree (contents (fp st)) t"
  shows "(\<exists>st'. mount_readdir [slash] st = Some (0, [dot_entry, dotdot_entry, fn_name t], st')) \<and>
     (p \<noteq> [slash] \<and> resolve t (strtok_all p) = Some (DirN n tm ts) \<longrightarrow>
       (\<exists>st'. mount_readdir p st = Some (0, dot_entry # dotdot_entry # map fn_name ts, st')))"
  using mount_readdir_root_aux [OF assms] mount_readdir_dir_aux [OF assms, of p n tm ts] by blast

theorem mount_readdir_lists_entries_witness:
  "\<exists>st'. mount_readdir (chars ''/r'') sample_mnt = Some (0, [dot_entry, dotdot_entry, chars ''f'', chars ''d''], st')"
  using mount_readdir_lists_entries [OF sample_holds, of "chars ''/r''" "chars ''r''" 5
      "[FileN (chars ''f'') 7 [1, 2, 3], DirN (chars ''d'') 6 []]"]
  by (simp add: sample_path)

text \<open>
  C24: \<^verbatim>\<open>getattr\<close> reports the attributes of the node: read-only mode with the right kind,
  modification time, for a file its size and the number of blocks of 4096 bytes rounded up,
  for a directory the number of entries as link count.
\<close>

theorem mount_getattr_reports:
  assumes "holds_tree (contents (fp st)) t" and "resolve t (strtok_all p) = Some u"
    and "p \<noteq> [slash]" and "small_file u"
  shows "\<exists>st'. mount_getattr (Some p) sb st = Some (0, stat_of u, st') \<and>
     contents (fp st') = contents (fp st)"
  by (rule mount_getattr_node_aux [OF assms])

theorem mount_getattr_reports_witness:
  "\<exists>st'. mount_getattr (Some (chars ''/r/f'')) zero_stat sample_mnt =
     Some (0, \<lparr>st_mode = 33060, st_nlink = 0, st_size = 3, st_blksize = 4096, st_blocks = 1, st_mtime = 7\<rparr>, st')"
  using mount_getattr_reports [OF sample_holds, of "chars ''/r/f''" "FileN (chars ''f'') 7 [1, 2, 3]" zero_stat]
  by (auto simp: sample_path zero_stat_def S_IFREG_def)

text \<open>
  \<^verbatim>\<open>open\<close> grants read-only access to files and nothing else: any other access mode on a file
  is refused with \<^verbatim>\<open>EACCES\<close>, and opening a directory is refused.
\<close>

lemma mount_open_read_only:
  assumes "holds_tree (contents (fp st)) t" and "p \<noteq> [slash]" and "resolve t (strtok_all p) = Some u"
  shows "\<exists>st'. mount_open (Some p) fl st =
     Some (case u of FileN _ _ _ \<Rightarrow> (if fl AND 3 = 0 then 0 else - EACCES) | DirN _ _ _ \<Rightarrow> - ENOENT, st')"
proof (cases u)
  case (FileN n tm c)
  with mount_open_file_aux [OF assms(1), of p n tm c fl] assms(3) show ?thesis by auto
next
  case (DirN n tm ts)
  with mount_wrong_kind_aux(1) [OF assms(1,2), of n tm ts fl] assms(3) show ?thesis by auto
qed

text \<open>
  C25: a path that is no node's and does not lead through a plain file is answered with \<^verbatim>\<open>ENOENT\<close> by all
  four operations, the attribute buffer cleared and no data stored. (A path that goes on below a
  plain file is served as that file, see \<open>mount_read_below_file\<close>.)
\<close>

theorem mount_missing_path:
  assumes "holds_tree (contents (fp st)) t" and "list_all path_name names" and "names \<noteq> []"
    and "names \<notin> fst ` set (paths t)"
    and "\<forall>p q n tm c. names = p @ q \<longrightarrow> (p, FileN n tm c) \<notin> set (paths t)"
  shows "\<exists>f. contents f = contents (fp st) \<and>
     mount_getattr (Some (join_path names)) sb st = Some (- ENOENT, zero_stat, st\<lparr>fp := f\<rparr>) \<and>
     mount_readdir (join_path names) st = Some (- ENOENT, [], st\<lparr>fp := f\<rparr>) \<and>
     mount_open (Some (join_path names)) fl st = Some (- ENOENT, st\<lparr>fp := f\<rparr>) \<and>
     mount_read (Some (join_path names)) sz off st = Some (- ENOENT, [], st\<lparr>fp := f\<rparr>)"
proof (rule mount_missing_aux [OF assms(1)])
  show "resolve t (strtok_all (join_path names)) = None"
  proof (rule ccontr)
    assume "resolve t (strtok_all (join_path names)) \<noteq> None"
    then obtain u where "resolve t names = Some u" by (auto simp: strtok_all_join [OF assms(2)])
    from resolve_reaches [OF this assms(3)] show False using assms(4,5) by (metis fst_conv image_eqI)
  qed
  show "join_path names \<noteq> [slash]" using assms(2,3) by (cases names) (auto simp: join_path_def path_name_def)
qed

theorem mount_missing_path_witness:
  "\<exists>st'. mount_read (Some (join_path [chars ''r'', chars ''d'', chars ''x''])) 10 1 sample_mnt = Some (- 2, [], st')"
proof -
  let ?names = "[chars ''r'', chars ''d'', chars ''x'']"
  have "list_all path_name ?names" "?names \<noteq> []" "?names \<notin> fst ` set (paths sample_tree)"
    "\<forall>p q n tm c. ?names = p @ q \<longrightarrow> (p, FileN n tm c) \<notin> set (paths sample_tree)"
    by (auto simp: sample_tree_def path_name_def)
  from mount_missing_path [OF sample_holds this, of zero_stat 0 10 1] show ?thesis by (auto simp: ENOENT_def)
qed

text \<open>
  C26: the mounted file system is the tree. Every sequence of requests to an image below 4 TiB that
  holds a tree, with sizes below 2 GiB and offsets below 2^63, is answered, and the answers are exactly those of the
  tree, in order and whatever came before: status, attributes, listing, access check and bytes of each
  request are functions of the tree and the request alone. The image stays as it is.
\<close>

theorem fuse_requests_follow_tree:
  assumes "holds_tree (contents (fp st)) t" and "length (contents (fp st)) < 2 ^ 42" and "list_all sane_request ops"
  shows "\<exists>st'. serve ops st = Some (map (tree_reply t) ops, st') \<and> contents (fp st') = contents (fp st)"
  by (rule serve_tree [OF assms])

theorem fuse_requests_follow_tree_witness:
  "\<exists>st'. serve [Open (Some (chars ''/r/f'')) 1, Read (Some (chars ''/r/f'')) 10 1, Readdir (chars ''/r'')] sample_mnt =
     Some ([Opened (- 13), Data 2 [2, 3], Listing 0 [dot_entry, dotdot_entry, chars ''f'', chars ''d'']], st')"
proof -
  have "ok_tree sample_tree" by (simp add: sample_tree_def ok_name_def)
  then have l: "length (contents (fp sample_mnt)) < 2 ^ 42"
    by (simp add: sample_mnt_def fopen_r_def length_image_of) (simp add: sample_tree_def)
  from fuse_requests_follow_tree [OF sample_holds l, of "[Open (Some (chars ''/r/f'')) 1, Read (Some (chars ''/r/f'')) 10 1, Readdir (chars ''/r'')]"]
  obtain st' where "serve [Open (Some (chars ''/r/f'')) 1, Read (Some (chars ''/r/f'')) 10 1, Readdir (chars ''/r'')] sample_mnt =
      Some (map (tree_reply sample_tree) [Open (Some (chars ''/r/f'')) 1, Read (Some (chars ''/r/f'')) 10 1, Readdir (chars ''/r'')], st')"
    by auto
  moreover have "map (tree_reply sample_tree) [Open (Some (chars ''/r/f'')) 1, Read (Some (chars ''/r/f'')) 10 1, Readdir (chars ''/r'')] =
      [Opened (- 13), Data 2 [2, 3], Listing 0 [dot_entry, dotdot_entry, chars ''f'', chars ''d'']]"
    by (simp add: sample_path window_def EACCES_def)
  ultimately show ?thesis by simp
qed

text \<open>
  C22: every node can be reached. In a tree without duplicate names in a directory, the lookup of
  the path made of a node's names, joined by slashes, finds a header that stands for that
  node.
\<close>

theorem mount_find_every_node:
  assumes "holds_tree (contents (fp st)) t" and "distinct_names t" and "(names, u) \<in> set (paths t)"
    and "list_all path_name names"
  shows "\<exists>hr st'. mount_find (Some (join_path names)) st = Some (Some hr, st') \<and>
     node_ok (contents (fp st)) hr u \<and> contents (fp st') = contents (fp st)"
proof -
  have u: "resolve t (strtok_all (join_path names)) = Some u"
    using resolve_paths_aux [OF assms(2,3)] assms(4) by (simp add: strtok_all_join)
  obtain hr f where "mount_find (Some (join_path names)) st = Some (Some hr, st\<lparr>fp := f\<rparr>)"
    "contents f = contents (fp st)" "node_ok (contents (fp st)) hr u"
    by (rule mount_find_Some [OF assms(1) u])
  then show ?thesis by simp
qed

theorem mount_find_every_node_witness:
  "\<exists>hr st'. mount_find (Some (join_path [chars ''r'', chars ''d''])) sample_mnt = Some (Some hr, st') \<and>
     node_ok (contents (fp sample_mnt)) hr (DirN (chars ''d'') 6 [])"
  using mount_find_every_node [OF sample_holds, of "[chars ''r'', chars ''d'']" "DirN (chars ''d'') 6 []"]
  by (auto simp: sample_tree_def path_name_def)

text \<open>
  A path that continues below a plain file is not refused: the lookup returns the file as
  soon as it meets it, so a read of such a path returns the contents of the file.
\<close>

lemma mount_read_below_file:
  assumes "holds_tree (contents (fp st)) (DirN r tm [FileN n tm' c])" and "list_all path_name (r # n # rest)"
    and "unat sz < 2 ^ 31" and "unat off < 2 ^ 63"
  shows "\<exists>st'. mount_read (Some (join_path (r # n # rest))) sz off st =
      Some (int (length (window c (unat off) (unat sz))), window c (unat off) (unat sz), st')"
proof -
  have "resolve (DirN r tm [FileN n tm' c]) (strtok_all (join_path (r # n # rest))) = Some (FileN n tm' c)"
    unfolding strtok_all_join [OF assms(2)] by (cases rest) simp_all
  from mount_read_file_aux [OF assms(1) this assms(3,4)] show ?thesis by blast
qed



end
