(* ===== verification/Hashing.thy ===== *)
theory Hashing
  imports ImageFormat
begin

text \<open>
  The keyed hashes over an image: \<^verbatim>\<open>hashAndAppend\<close> of \<^verbatim>\<open>master.cpp\<close> appends one HMAC per block
  and their number, \<^verbatim>\<open>checkHash\<close> of \<^verbatim>\<open>mounter.c\<close> recomputes and compares them. The function
  \<^verbatim>\<open>HMAC(EVP_sha256(), ...)\<close> of OpenSSL is a parameter \<open>hmac\<close> of key and message; the code
  relies on its digests having 32 bytes.
\<close>

section \<open>Blocks and the trailer of a hashed image\<close>

lemma length_chunks_le: "length (chunks B xs) \<le> length xs"
proof (induction B xs rule: chunks.induct)
  case (1 B xs)
  then show ?case by (cases "B = 0 \<or> xs = []") (auto simp: chunks.simps [of B xs] Suc_le_eq
        intro: le_less_trans)
qed

definition DEF_HASH_BLOCK_SIZE :: uint64 where
  "DEF_HASH_BLOCK_SIZE = 1048576"

definition hash_blocks :: "bytes \<Rightarrow> bytes list" where
  "hash_blocks img = chunks (min 1048576 (length img)) img"

definition hash_trailer :: "(bytes \<Rightarrow> bytes \<Rightarrow> bytes) \<Rightarrow> bytes \<Rightarrow> bytes \<Rightarrow> bytes" where
  "hash_trailer hmac key img =
     concat (map (hmac key) (hash_blocks img)) @ be32 (of_nat (length (hash_blocks img)))"

section \<open>hashAndAppend\<close>

text \<open>
  \<^verbatim>\<open>int loc = count * HASH_BLOCK_SIZE\<close> followed by \<^verbatim>\<open>fseek(fp, loc, SEEK_SET)\<close>: the product is
  taken in 64 unsigned bits, cut to a 32-bit \<^verbatim>\<open>int\<close> and sign-extended to the \<^verbatim>\<open>long\<close> that
  \<^verbatim>\<open>fseek\<close> takes.
\<close>

definition fseek_int :: "uint64 \<Rightarrow> FILE \<Rightarrow> FILE" where
  "fseek_int loc f = fseek (of_int (sint (ucast loc :: 32 word))) f"

text \<open>
  The loop over the blocks. The buffer is a local array of \<open>block_size\<close> bytes: a short read
  leaves part of it indeterminate, and an array of no size is undefined. The count of
  hashes is a \<^verbatim>\<open>uint32_t\<close>.
\<close>

function hash_loop ::
  "(bytes \<Rightarrow> bytes \<Rightarrow> bytes) \<Rightarrow> bytes \<Rightarrow> uint64 \<Rightarrow> int \<Rightarrow> int \<Rightarrow> uint32 \<Rightarrow> FILE \<Rightarrow> (uint32 \<times> FILE) option"
where
  "hash_loop hmac key HASH_BLOCK_SIZE remaining block_size number_hashes f =
     (if remaining \<le> 0 then Some (number_hashes, f)
      else if block_size \<le> 0 then None
      else do {
        let number_hashes = number_hashes + 1;
        let f = fseek_int (ucast (number_hashes - 1) * HASH_BLOCK_SIZE) f;
        (buffer, f) \<leftarrow> fread_obj (nat block_size) f;
        let digest = hmac key buffer;
        let f = fwrite (take 32 digest) f;
        let remaining = remaining - block_size;
        let block_size = (if block_size > remaining then remaining else block_size);
        hash_loop hmac key HASH_BLOCK_SIZE remaining block_size number_hashes f
      })"
  by pat_completeness auto
termination
  by (relation "measure (\<lambda>(hmac, key, H, remaining, b, n, f). nat remaining)") auto

declare hash_loop.simps [simp del]

text \<open>
  \<^verbatim>\<open>HASH_BLOCK_SIZE\<close> is a static variable the function lowers for a small file; the new value
  is part of the result.
\<close>

definition hashAndAppend ::
  "(bytes \<Rightarrow> bytes \<Rightarrow> bytes) \<Rightarrow> bytes \<Rightarrow> uint64 \<Rightarrow> bytes \<Rightarrow> (bytes \<times> uint64) option" where
  "hashAndAppend hmac key HASH_BLOCK_SIZE file = do {
     let f = fopen_a file;
     let file_size = length file;
     let HASH_BLOCK_SIZE = (if HASH_BLOCK_SIZE > of_nat file_size then of_nat file_size else HASH_BLOCK_SIZE);
     let block_size = sint (ucast HASH_BLOCK_SIZE :: 32 word);
     (number_hashes, f) \<leftarrow> hash_loop hmac key HASH_BLOCK_SIZE (int file_size) block_size 0 f;
     Some (contents (write32 number_hashes f), HASH_BLOCK_SIZE)
   }"

section \<open>checkHash\<close>

text \<open>
  The buffer is allocated once and keeps what earlier rounds read; a byte that was never
  read is \<^term>\<open>None\<close>, and hashing one is an undefined result.
\<close>

definition fill_buffer :: "byte option list \<Rightarrow> bytes \<Rightarrow> byte option list" where
  "fill_buffer buffer bs = map Some bs @ drop (length bs) buffer"

definition buffer_bytes :: "byte option list \<Rightarrow> nat \<Rightarrow> bytes option" where
  "buffer_bytes buffer n =
     (if None \<in> set (take n buffer) then None else Some (map the (take n buffer)))"

text \<open>
  The verification loop. \<open>remaining\<close> never drops below \<open>block_size\<close>, which stays positive
  while \<open>remaining\<close> is: the second test is never taken and makes the recursion end. The
  \<^verbatim>\<open>int block_size\<close> is at most the default block size, so its 64-bit value is the same.
\<close>

function check_loop ::
  "(bytes \<Rightarrow> bytes \<Rightarrow> bytes) \<Rightarrow> bytes \<Rightarrow> uint64 \<Rightarrow> uint64 \<Rightarrow> uint64 \<Rightarrow> nat \<Rightarrow> uint64 \<Rightarrow>
     byte option list \<Rightarrow> FILE \<Rightarrow> (int \<times> FILE) option"
where
  "check_loop hmac key HASH_BLOCK_SIZE remaining block_size hash_count hashes_offset buffer f =
     (if remaining = 0 then Some (1, f)
      else if block_size = 0 \<or> remaining < block_size then None
      else do {
        (mastered_hash, f) \<leftarrow> fread_obj 32 (fseek hashes_offset f);
        let f = fseek_int (of_nat hash_count * HASH_BLOCK_SIZE) f;
        let (bs, f) = fread (unat block_size) f;
        let buffer = fill_buffer buffer bs;
        msg \<leftarrow> buffer_bytes buffer (unat block_size);
        let digest = hmac key msg;
        if mastered_hash \<noteq> take 32 digest then Some (0, f)
        else do {
          let remaining = remaining - block_size;
          let block_size = (if block_size > remaining then remaining else block_size);
          check_loop hmac key HASH_BLOCK_SIZE remaining block_size (hash_count + 1)
            (hashes_offset + 32) buffer f
        }
      })"
  by pat_completeness auto
termination
proof (relation "measure (\<lambda>(hmac, key, H, remaining, b, n, h, bf, f). unat remaining)", simp, goal_cases)
  case (1 hmac key H remaining block_size)
  then have "block_size \<le> remaining" "0 < unat block_size" by (auto simp: unat_gt_0 not_less)
  then show ?case using 1 by (auto simp: unat_sub word_le_nat_alt)
qed

declare check_loop.simps [simp del]

text \<open>
  \<^verbatim>\<open>hash_size * number_hashes\<close> is an unsigned 32-bit product. The size of the file comes from
  \<^verbatim>\<open>stat\<close> and is the length of the stream's contents. The \<^verbatim>\<open>int\<close> that holds the block size never
  exceeds the default size of 1 MiB. \<open>malloc\<close> tells for a number of bytes whether the allocation gives
  a buffer; without one the program exits with status 0, here \<^term>\<open>Inl 0\<close>.
\<close>

definition checkHash ::
  "(uint64 \<Rightarrow> bool) \<Rightarrow> (bytes \<Rightarrow> bytes \<Rightarrow> bytes) \<Rightarrow> bytes \<Rightarrow> uint64 \<Rightarrow> FILE \<Rightarrow>
   (int + int \<times> uint64 \<times> FILE) option" where
  "checkHash malloc hmac key HASH_BLOCK_SIZE f = do {
     let file_size = (of_nat (length (contents f)) :: uint64);
     let number_hash_location = file_size - 4;
     (number_hashes, f) \<leftarrow> read32 f number_hash_location;
     let hashes_offset = number_hash_location - ucast (32 * number_hashes);
     let image_size = hashes_offset;
     let remaining = image_size;
     let HASH_BLOCK_SIZE = (if HASH_BLOCK_SIZE > image_size then image_size else HASH_BLOCK_SIZE);
     let block_size = HASH_BLOCK_SIZE;
     if \<not> malloc block_size then Some (Inl 0)
     else do {
       let buffer = replicate (unat block_size) None;
       (r, f) \<leftarrow> check_loop hmac key HASH_BLOCK_SIZE remaining block_size 0 hashes_offset buffer f;
       Some (Inr (r, HASH_BLOCK_SIZE, f))
     }
   }"

section \<open>What the loops compute\<close>

lemma fseek_int_small:
  assumes "unat loc < 2 ^ 31"
  shows "fseek_int loc f = f\<lparr>pos := unat loc\<rparr>"
proof -
  have "sint (ucast loc :: 32 word) = int (unat loc)" using assms by (simp add: sint_ucast_small)
  then have "of_int (sint (ucast loc :: 32 word)) = loc" by simp
  with assms show ?thesis by (simp add: fseek_int_def fseek_def)
qed

text \<open>The position of block \<open>k\<close> in an image whose rest from there is not empty.\<close>

lemma block_position:
  fixes H :: uint64
  assumes "unat H = B" and "drop (k * B) img = rest" and "rest \<noteq> []" and "length img < 2 ^ 31"
  shows "unat (of_nat k * H) = k * B"
proof -
  have "k * B < length img" using assms by (metis drop_all not_less)
  then have "unat (of_nat (k * B) :: uint64) = k * B"
    using assms(4) by (simp only: unat_of_nat take_bit_nat_eq_self_iff) simp
  moreover have "of_nat k * H = of_nat (k * B)" by (simp flip: assms(1))
  ultimately show ?thesis by simp
qed

lemma block_next:
  "drop (k * B) img = rest \<Longrightarrow> drop (Suc k * B) img = drop B rest"
  by (auto simp: add.commute)

lemma block_window:
  assumes "drop (k * B) img = rest" and "rest \<noteq> []"
  shows "window (img @ tail) (k * B) (min B (length rest)) = take B rest"
proof -
  have "k * B + length rest = length img" using assms by (auto simp: not_le)
  then show ?thesis using assms by (auto simp: window_def min_def take_append)
qed

lemma hash_loop_step:
  assumes "0 < l" "0 < b" "l = l' + b" "b' = min b l'" "length (hmac key d) = 32"
    and "fread_obj b (fseek_int (ucast n * H) f) = Some (d, f2)"
  shows "hash_loop hmac key H (int l) (int b) n f =
     hash_loop hmac key H (int l') (int b') (n + 1) (fwrite (hmac key d) f2)"
proof -
  have "(if int b > int l' then int l' else int b) = int b'" using assms(4) by auto
  with assms show ?thesis by (subst hash_loop.simps) (simp add: Let_def)
qed

lemma hash_loop_correct:
  assumes hm: "\<And>d. length (hmac key d) = 32"
    and H: "unat H = B" "0 < B" and img: "length img < 2 ^ 31"
    and rest: "drop (k * B) img = rest" and f: "contents f = img @ acc" "append_mode f"
  shows "\<exists>f'. hash_loop hmac key H (int (length rest)) (int (min B (length rest))) (of_nat k) f =
      Some (of_nat (k + length (chunks B rest)), f') \<and>
     contents f' = img @ acc @ concat (map (hmac key) (chunks B rest)) \<and> append_mode f'"
  using rest f
proof (induction "length rest" arbitrary: rest k f acc rule: less_induct)
  case less
  show ?case
  proof (cases "rest = []")
    case True
    then show ?thesis using less.prems by (simp add: hash_loop.simps)
  next
    case False
    let ?n = "of_nat k :: uint32" and ?b = "min B (length rest)" and ?m = "hmac key (take B rest)"
    have kl: "k * B + length rest = length img" using less.prems(1) False by (auto simp: not_le)
    then have "k < 2 ^ 31" using img H(2) False
      by (metis One_nat_def Suc_leI le_add1 le_less_trans less_le_trans mult.right_neutral mult_le_mono2)
    then have "unat ?n = k" by (simp add: unat_of_nat take_bit_nat_eq_self_iff)
    then have "ucast ?n = (of_nat k :: uint64)" by (metis of_nat_unat)
    then have pos: "unat (ucast ?n * H) = k * B" "k * B < 2 ^ 31"
      using block_position [OF H(1) less.prems(1) False img] kl img by simp_all
    have bd: "k * B + ?b \<le> length img + length acc" using kl by linarith
    have rd: "fread_obj ?b (fseek_int (ucast ?n * H) f) = Some (take B rest, f\<lparr>pos := k * B + ?b\<rparr>)"
      using block_window [OF less.prems(1) False, of acc] bd pos less.prems(2)
      by (simp add: fread_obj_eq fseek_int_small)
    define f1 where "f1 = fwrite ?m (f\<lparr>pos := k * B + ?b\<rparr>)"
    have f1: "contents f1 = img @ acc @ ?m" "append_mode f1"
      using less.prems by (simp_all add: f1_def contents_fwrite_append)
    have "length (drop B rest) < length rest" using False H by simp
    note IH = less.hyps [OF this block_next [OF less.prems(1)] f1]
    have "hash_loop hmac key H (int (length rest)) (int ?b) (of_nat k) f =
        hash_loop hmac key H (int (length (drop B rest))) (int (min B (length (drop B rest))))
          (?n + 1) f1" unfolding f1_def
      by (rule hash_loop_step [where hmac = hmac, OF _ _ _ _ hm rd]) (use H False in auto)
    with IH False H show ?thesis by (simp add: chunks_step add.commute add.left_commute)
  qed
qed

lemma hash_size_eq:
  assumes "length img < 2 ^ 31"
  shows "unat (if DEF_HASH_BLOCK_SIZE > of_nat (length img) then of_nat (length img)
     else DEF_HASH_BLOCK_SIZE) = min 1048576 (length img)"
  using assms by (simp add: DEF_HASH_BLOCK_SIZE_def word_less_nat_alt unat_of_nat
      take_bit_nat_eq_self_iff min_def)

lemma hashAndAppend_aux:
  assumes hm: "\<And>d. length (hmac key d) = 32" and img: "length img < 2 ^ 31"
  shows "\<exists>H. hashAndAppend hmac key DEF_HASH_BLOCK_SIZE img = Some (img @ hash_trailer hmac key img, H)"
proof -
  define H where "H = (if DEF_HASH_BLOCK_SIZE > of_nat (length img) then of_nat (length img)
     else DEF_HASH_BLOCK_SIZE)"
  have H: "unat H = min 1048576 (length img)" unfolding H_def by (rule hash_size_eq [OF img])
  then have bs: "sint (ucast H :: 32 word) = int (min 1048576 (length img))"
    using img by (simp add: sint_ucast_small)
  have "\<exists>f'. hash_loop hmac key H (int (length img)) (int (min 1048576 (length img))) 0 (fopen_a img) =
      Some (of_nat (length (hash_blocks img)), f') \<and>
     contents f' = img @ concat (map (hmac key) (hash_blocks img)) \<and> append_mode f'"
  proof (cases "img = []")
    case True
    then show ?thesis by (simp add: hash_loop.simps hash_blocks_def fopen_a_def)
  next
    case False
    then have "0 < min 1048576 (length img)" by simp
    note hash_loop_correct [where hmac = hmac and key = key, OF hm H this img, of 0 img "fopen_a img" "[]"]
    with False show ?thesis by (simp add: hash_blocks_def fopen_a_def min.assoc)
  qed
  then show ?thesis using bs
    by (auto simp: hashAndAppend_def H_def [symmetric] hash_trailer_def write32_eq contents_fwrite_append)
qed

section \<open>Verification accepts what was mastered\<close>

text \<open>Block by block, the stored code at \<open>off\<close> is the code of the block.\<close>

fun macs_ok :: "(bytes \<Rightarrow> bytes) \<Rightarrow> bytes \<Rightarrow> nat \<Rightarrow> bytes list \<Rightarrow> bool" where
  "macs_ok mac c off [] = True"
| "macs_ok mac c off (b # bs) = (window c off 32 = mac b \<and> macs_ok mac c (off + 32) bs)"

lemma macs_ok_concat:
  assumes "\<And>d. length (mac d) = 32"
  shows "length p = off \<Longrightarrow> macs_ok mac (p @ concat (map mac bs) @ tail) off bs"
proof (induction bs arbitrary: p off)
  case (Cons b bs)
  from Cons.IH [of "p @ mac b" "off + 32"] Cons.prems show ?case
    using assms by (simp add: window_at)
qed simp

lemma buffer_bytes_fill:
  "length bs = n \<Longrightarrow> buffer_bytes (fill_buffer buffer bs) n = Some bs"
  by (auto simp: buffer_bytes_def fill_buffer_def comp_def)

text \<open>
  One round, for the block \<open>take B rest\<close> at position \<open>k * B\<close> of the image part of the file.
\<close>

lemma check_loop_step:
  assumes H: "unat H = B" "0 < B" and c: "contents f = img @ tail" and img: "length img < 2 ^ 31"
    and rest: "drop (k * B) img = rest" "rest \<noteq> []"
    and off: "unat off < 2 ^ 63"
  shows "check_loop hmac key H (of_nat (length rest)) (of_nat (min B (length rest))) k off buffer f =
     (if unat off + 32 \<le> length (img @ tail) then
        if window (img @ tail) (unat off) 32 = take 32 (hmac key (take B rest))
        then check_loop hmac key H (of_nat (length (drop B rest))) (of_nat (min B (length (drop B rest))))
          (Suc k) (off + 32) (fill_buffer buffer (take B rest))
          (f\<lparr>pos := k * B + min B (length rest)\<rparr>)
        else Some (0, f\<lparr>pos := k * B + min B (length rest)\<rparr>)
      else None)"
proof -
  let ?b = "min B (length rest)"
  have kl: "k * B + length rest = length img" using rest by (auto simp: not_le)
  have ub: "unat (of_nat ?b :: uint64) = ?b" "unat (of_nat (length rest) :: uint64) = length rest"
    using kl img by (auto simp: unat_of_nat take_bit_nat_eq_self_iff)
  have b0: "0 < ?b" "?b \<le> length rest" using H rest by auto
  have ne: "(of_nat (length rest) :: uint64) \<noteq> 0" "(of_nat ?b :: uint64) \<noteq> 0"
    "\<not> (of_nat (length rest) :: uint64) < of_nat ?b"
    using b0 ub by (auto simp: word_less_nat_alt simp flip: unat_gt_0)
  have sub: "(of_nat (length rest) :: uint64) - of_nat ?b = of_nat (length (drop B rest))"
    using b0 by (simp add: min_def of_nat_diff flip: of_nat_diff)
  have ub': "unat (of_nat (length (drop B rest)) :: uint64) = length (drop B rest)"
    using kl img by (auto simp: unat_of_nat take_bit_nat_eq_self_iff)
  have bs: "(if (of_nat ?b :: uint64) > of_nat (length (drop B rest)) then of_nat (length (drop B rest))
      else of_nat ?b :: uint64) = of_nat (min B (length (drop B rest)))"
    using ub ub' b0 by (auto simp: word_less_nat_alt min_def)
  have pos: "unat (of_nat k * H) = k * B" by (rule block_position [OF H(1) rest img])
  have rd: "fread ?b (fseek_int (of_nat k * H) (f\<lparr>pos := p\<rparr>)) = (take B rest, f\<lparr>pos := k * B + ?b\<rparr>)" for p
    using block_window [OF rest, of tail] kl pos img c by (simp add: fread_def fseek_int_small Let_def)
  have bb: "buffer_bytes (fill_buffer buffer (take B rest)) ?b = Some (take B rest)"
    by (rule buffer_bytes_fill) simp
  have m: "fread_obj 32 (fseek off f) = (if unat off + 32 \<le> length (img @ tail)
      then Some (window (img @ tail) (unat off) 32, f\<lparr>pos := unat off + 32\<rparr>) else None)"
    using off c by (simp add: fread_obj_eq fseek_def)
  show ?thesis
    by (subst check_loop.simps) (simp add: ne sub bs m ub(1) rd bb Let_def del: of_nat_min length_drop)
qed

lemma check_loop_correct:
  assumes hm: "\<And>d. length (hmac key d) = 32" and H: "unat H = B" "0 < B"
    and img: "length img < 2 ^ 31"
    and rest: "drop (k * B) img = rest" and c: "contents f = img @ tail"
    and off: "unat off + 32 * length (chunks B rest) \<le> length (img @ tail)"
    and lim: "length (img @ tail) < 2 ^ 63"
  shows "\<exists>f'. check_loop hmac key H (of_nat (length rest)) (of_nat (min B (length rest))) k off buffer f =
      Some (if macs_ok (hmac key) (img @ tail) (unat off) (chunks B rest) then 1 else 0, f') \<and>
     contents f' = img @ tail"
  using rest c off
proof (induction "length rest" arbitrary: rest k f off buffer rule: less_induct)
  case less
  show ?case
  proof (cases "rest = []")
    case True
    then show ?thesis using less.prems by (simp add: check_loop.simps)
  next
    case False
    have ch: "chunks B rest = take B rest # chunks B (drop B rest)" using chunks_step [OF H(2) False] .
    have off: "unat off + 32 \<le> length (img @ tail)" "unat off < 2 ^ 63" using less.prems(3) ch lim by auto
    have u: "unat (off + 32) = unat off + 32" using unat_add_small [of off 32] off lim by simp
    note st = check_loop_step [OF H less.prems(2) img less.prems(1) False off(2), of hmac key buffer]
    show ?thesis
    proof (cases "window (img @ tail) (unat off) 32 = hmac key (take B rest)")
      case False
      then show ?thesis using st off ch hm less.prems(2) by simp
    next
      case True
      have l: "length (drop B rest) < length rest" using False H by simp
      have o: "unat (off + 32) + 32 * length (chunks B (drop B rest)) \<le> length (img @ tail)"
        using less.prems(3) ch u by simp
      from less.hyps [OF l block_next [OF less.prems(1)] _ o,
          of "f\<lparr>pos := k * B + min B (length rest)\<rparr>" "fill_buffer buffer (take B rest)"] less.prems(2)
      show ?thesis using st off ch hm True u by simp
    qed
  qed
qed

lemma check_loop_accepts:
  assumes hm: "\<And>d. length (hmac key d) = 32" and H: "unat H = B" "0 < B"
    and img: "length img < 2 ^ 31"
    and rest: "drop (k * B) img = rest" and c: "contents f = img @ tail"
    and off: "unat off + 32 * length (chunks B rest) < 2 ^ 63"
    and acc: "check_loop hmac key H (of_nat (length rest)) (of_nat (min B (length rest))) k off buffer f =
      Some (1, f')"
  shows "macs_ok (hmac key) (img @ tail) (unat off) (chunks B rest)"
  using rest c off acc
proof (induction "length rest" arbitrary: rest k f off buffer rule: less_induct)
  case less
  show ?case
  proof (cases "rest = []")
    case False
    have ch: "chunks B rest = take B rest # chunks B (drop B rest)" using chunks_step [OF H(2) False] .
    have off: "unat off < 2 ^ 63" and u: "unat (off + 32) = unat off + 32"
      using less.prems(3) ch unat_add_small [of off 32] by auto
    note st = check_loop_step [OF H less.prems(2) img less.prems(1) False off, of hmac key buffer]
    have w: "window (img @ tail) (unat off) 32 = hmac key (take B rest)"
      and nx: "check_loop hmac key H (of_nat (length (drop B rest))) (of_nat (min B (length (drop B rest))))
          (Suc k) (off + 32) (fill_buffer buffer (take B rest)) (f\<lparr>pos := k * B + min B (length rest)\<rparr>) =
          Some (1, f')"
      using st less.prems(4) hm by (simp_all split: if_splits)
    have l: "length (drop B rest) < length rest" using False H by simp
    have o: "unat (off + 32) + 32 * length (chunks B (drop B rest)) < 2 ^ 63"
      using less.prems(3) ch u by simp
    from less.hyps [OF l block_next [OF less.prems(1)] _ o nx] less.prems(2) show ?thesis
      using ch w u by simp
  qed simp
qed

text \<open>The file as \<^verbatim>\<open>checkHash\<close> takes it apart: image part, stored codes, their number.\<close>

lemma checkHash_split:
  fixes n :: nat
  assumes c: "contents f = img @ macs @ be32 (of_nat n)" and m: "length macs = 32 * n"
    and n: "n < 2 ^ 27" and img: "length img < 2 ^ 31"
  shows "\<exists>p. checkHash malloc hmac key DEF_HASH_BLOCK_SIZE f =
     (let H = (if DEF_HASH_BLOCK_SIZE > of_nat (length img) then of_nat (length img)
               else DEF_HASH_BLOCK_SIZE) in
      if \<not> malloc H then Some (Inl 0)
      else do { (r, f) \<leftarrow> check_loop hmac key H (of_nat (length img)) H 0 (of_nat (length img))
                      (replicate (unat H) None) (f\<lparr>pos := p\<rparr>);
           Some (Inr (r, H, f)) })"
proof -
  have len: "length (contents f) = length img + 32 * n + 4" using c m by simp
  have loc: "of_nat (length (contents f)) - 4 = (of_nat (length img + 32 * n) :: uint64)"
    by (simp only: len of_nat_add) simp
  have ul: "unat (of_nat (length img + 32 * n) :: uint64) = length img + 32 * n"
    using n img by (simp only: unat_of_nat take_bit_nat_eq_self_iff) simp
  have rd: "read32 f (of_nat (length img + 32 * n)) =
      Some (of_nat n, f\<lparr>pos := unat (of_nat (length img + 32 * n) :: uint64) + 4\<rparr>)"
  proof (rule read32_at)
    show "unat (of_nat (length img + 32 * n) :: uint64) < 2 ^ 63" unfolding ul using n img by simp
    show "window (contents f) (unat (of_nat (length img + 32 * n) :: uint64)) 4 = be32 (of_nat n)"
      unfolding ul c using m window_at [of "img @ macs" "length img + 32 * n" "be32 (of_nat n)" 4 "[]"] by simp
  qed
  have "unat (32 * of_nat n :: uint32) = 32 * n"
    using n unat_of_nat [of "32 * n", where 'a = 32] by (simp add: take_bit_nat_eq_self_iff)
  then have "(ucast (32 * of_nat n :: uint32) :: uint64) = of_nat (32 * n)" by (metis of_nat_unat)
  then have off: "of_nat (length img + 32 * n) - ucast (32 * of_nat n :: uint32) =
      (of_nat (length img) :: uint64)" by simp
  show ?thesis unfolding checkHash_def Let_def loc rd bind.bind_lunit prod.case off by blast
qed

section \<open>The verdict of checkHash\<close>

lemma checkHash_verdict:
  fixes n :: nat
  assumes hm: "\<And>d. length (hmac key d) = 32"
    and c: "contents f = img @ macs @ be32 (of_nat n)" and m: "length macs = 32 * n"
    and n: "n < 2 ^ 27" and img: "length img < 2 ^ 31" and b: "length (hash_blocks img) \<le> n"
  shows "\<exists>H f'. checkHash malloc hmac key DEF_HASH_BLOCK_SIZE f =
      Some (if malloc (of_nat (min 1048576 (length img)))
            then Inr (if macs_ok (hmac key) (contents f) (length img) (hash_blocks img) then 1 else 0, H, f') else Inl 0) \<and>
     contents f' = contents f"
proof -
  define H where "H = (if DEF_HASH_BLOCK_SIZE > of_nat (length img) then of_nat (length img)
     else DEF_HASH_BLOCK_SIZE)"
  have H: "unat H = min 1048576 (length img)" unfolding H_def by (rule hash_size_eq [OF img])
  have Hn: "H = of_nat (min 1048576 (length img))" unfolding H [symmetric] by simp
  from checkHash_split [OF c m n img, of malloc hmac key] obtain p where
    eq: "checkHash malloc hmac key DEF_HASH_BLOCK_SIZE f =
      (if \<not> malloc H then Some (Inl 0)
       else do { (r, f) \<leftarrow> check_loop hmac key H (of_nat (length img)) H 0 (of_nat (length img))
                      (replicate (unat H) None) (f\<lparr>pos := p\<rparr>);
           Some (Inr (r, H, f)) })" unfolding H_def [symmetric] Let_def by blast
  have ul: "unat (of_nat (length img) :: uint64) = length img"
    using img by (simp add: unat_of_nat take_bit_nat_eq_self_iff)
  show ?thesis
  proof (cases "img = []")
    case True
    then have "H = 0" using Hn by simp
    then show ?thesis using eq True by (auto simp: check_loop.simps hash_blocks_def)
  next
    case False
    then have B: "0 < min 1048576 (length img)" by simp
    have o: "unat (of_nat (length img) :: uint64) + 32 * length (chunks (min 1048576 (length img)) img)
        \<le> length (img @ macs @ be32 (of_nat n))"
      using b m ul by (simp add: hash_blocks_def)
    have lim: "length (img @ macs @ be32 (of_nat n)) < 2 ^ 63" using m n img by simp
    note check_loop_correct [where hmac = hmac and key = key and k = 0 and f = "f\<lparr>pos := p\<rparr>"
        and buffer = "replicate (unat H) None", OF hm H B img _ _ o lim]
    with c ul show ?thesis unfolding eq by (auto simp: hash_blocks_def Hn)
  qed
qed

lemma checkHash_accepted_macs:
  fixes n :: nat
  assumes hm: "\<forall>d. length (hmac key d) = 32"
    and c: "contents f = img @ macs @ be32 (of_nat n)" and m: "length macs = 32 * n"
    and n: "n < 2 ^ 27" and img: "length img < 2 ^ 31"
    and ok: "checkHash malloc hmac key DEF_HASH_BLOCK_SIZE f = Some (Inr (1, H', f'))"
  shows "macs_ok (hmac key) (contents f) (length img) (hash_blocks img)"
proof -
  define H where "H = (if DEF_HASH_BLOCK_SIZE > of_nat (length img) then of_nat (length img)
     else DEF_HASH_BLOCK_SIZE)"
  have H: "unat H = min 1048576 (length img)" unfolding H_def by (rule hash_size_eq [OF img])
  have Hn: "H = of_nat (min 1048576 (length img))" unfolding H [symmetric] by simp
  from checkHash_split [OF c m n img, of malloc hmac key] ok obtain p where
    b: "do { (r, f) \<leftarrow> check_loop hmac key H (of_nat (length img)) H 0 (of_nat (length img))
                      (replicate (unat H) None) (f\<lparr>pos := p\<rparr>);
           Some (Inr (r, H, f) :: int + int \<times> uint64 \<times> FILE) } = Some (Inr (1, H', f'))"
    unfolding H_def [symmetric] Let_def by (auto split: if_splits)
  then have eq: "check_loop hmac key H (of_nat (length img)) H 0 (of_nat (length img))
          (replicate (unat H) None) (f\<lparr>pos := p\<rparr>) = Some (1, f')"
    by (simp add: Option.bind_eq_Some_conv split_beta) (metis prod.collapse)
  have ul: "unat (of_nat (length img) :: uint64) = length img"
    using img by (simp add: unat_of_nat take_bit_nat_eq_self_iff)
  show ?thesis
  proof (cases "img = []")
    case False
    then have B: "0 < min 1048576 (length img)" by simp
    have o: "unat (of_nat (length img) :: uint64) + 32 * length (chunks (min 1048576 (length img)) img) < 2 ^ 63"
      unfolding ul using length_chunks_le [of "min 1048576 (length img)" img] img by simp
    have "length (hmac key d) = 32" for d using hm by simp
    note acc = check_loop_accepts [where hmac = hmac and key = key and k = 0 and f = "f\<lparr>pos := p\<rparr>"
        and buffer = "replicate (unat H) None" and f' = f', OF this H B img _ _ o]
    show ?thesis using acc eq c ul by (simp add: hash_blocks_def flip: Hn)
  qed (simp add: hash_blocks_def)
qed

lemma length_hash_blocks: "length (hash_blocks img) \<le> length img"
  by (simp add: hash_blocks_def length_chunks_le)

lemma length_concat_macs:
  "(\<And>d. length (mac d) = 32) \<Longrightarrow> length (concat (map mac bs)) = 32 * length bs"
  by (induction bs) auto

lemma length_chunks_bound: "0 < B \<Longrightarrow> B * length (chunks B xs) < length xs + B"
proof (induction B xs rule: chunks.induct)
  case (1 B xs)
  show ?case
  proof (cases "xs = []")
    case False
    have "B * length (chunks B (drop B xs)) < length (drop B xs) + B" using 1 False by simp
    with 1(2) False show ?thesis
      by (cases "B \<le> length xs") (simp_all add: chunks_step)
  qed (use 1 in simp)
qed

lemma length_hash_blocks_small: "length img < 2 ^ 31 \<Longrightarrow> length (hash_blocks img) < 2 ^ 27"
proof (cases "length img < 2 ^ 20")
  case True
  then show ?thesis using length_hash_blocks [of img] by simp
next
  case False
  assume "length img < 2 ^ 31"
  with length_chunks_bound [of 1048576 img] False show ?thesis by (simp add: hash_blocks_def)
qed

lemma length_chunks_cong:
  "length xs = length ys \<Longrightarrow> 0 < B \<Longrightarrow> length (chunks B xs) = length (chunks B ys)"
proof (induction "length xs" arbitrary: xs ys rule: less_induct)
  case less
  show ?case
  proof (cases "xs = []")
    case False
    then have ys: "ys \<noteq> []" using less.prems by auto
    have "length (drop B xs) < length xs" using less.prems(2) False by (simp del: less.prems(1))
    then have "length (chunks B (drop B xs)) = length (chunks B (drop B ys))"
      by (rule less.hyps) (use less.prems in simp_all)
    then show ?thesis using less.prems(2) False ys by (simp add: chunks_step)
  qed (use less.prems in simp)
qed

lemma length_hash_blocks_cong:
  "length img' = length img \<Longrightarrow> length (hash_blocks img') = length (hash_blocks img)"
proof (cases "img = []")
  case False
  assume l: "length img' = length img"
  have "0 < min 1048576 (length img)" using False by simp
  from length_chunks_cong [OF l this] show ?thesis by (simp add: hash_blocks_def l)
qed (simp add: hash_blocks_def)

lemma checkHash_trailer:
  assumes hm: "\<And>d. length (hmac key d) = 32" and len: "length img' = length img"
    and img: "length img < 2 ^ 31" and c: "contents f = img' @ hash_trailer hmac key img"
  shows "\<exists>H f'. checkHash malloc hmac key DEF_HASH_BLOCK_SIZE f =
      Some (if malloc (of_nat (min 1048576 (length img)))
            then Inr (if macs_ok (hmac key) (contents f) (length img') (hash_blocks img') then 1 else 0, H, f') else Inl 0) \<and>
     contents f' = contents f"
proof -
  note nb = length_hash_blocks_cong [OF len]
  show ?thesis unfolding len [symmetric]
    by (rule checkHash_verdict [where hmac = hmac and n = "length (hash_blocks img)", OF hm])
      (use c len img nb length_hash_blocks_small [of img]
        length_concat_macs [of "hmac key" "hash_blocks img"] hm in \<open>auto simp: hash_trailer_def\<close>)
qed

lemma macs_ok_nth:
  "macs_ok mac c off bs \<longleftrightarrow> (\<forall>i < length bs. window c (off + 32 * i) 32 = mac (bs ! i))"
proof (induction bs arbitrary: off)
  case (Cons b bs)
  show ?case by (simp add: Cons.IH All_less_Suc2 add.assoc)
qed simp

lemma macs_ok_trailer_eq:
  assumes "\<And>d. length (mac d) = 32" and "length p = off" and "length bs' = length bs"
  shows "macs_ok mac (p @ concat (map mac bs) @ tail) off bs' \<longleftrightarrow> map mac bs' = map mac bs"
  using assms(3,2)
proof (induction bs' bs arbitrary: p off rule: list_induct2)
  case (Cons b' bs' b bs)
  from Cons.IH [of "p @ mac b" "off + 32"] Cons.prems show ?case
    using assms(1) by (simp add: window_at) metis
qed simp

lemma concat_hash_blocks: "concat (hash_blocks img) = img"
  by (cases "img = []") (simp_all add: hash_blocks_def concat_chunks)

lemma checkHash_mastered_aux:
  assumes "\<forall>d. length (hmac key d) = 32" and "length img < 2 ^ 31"
  shows "\<exists>H f'. checkHash malloc hmac key DEF_HASH_BLOCK_SIZE (fopen_r (img @ hash_trailer hmac key img)) =
     Some (if malloc (of_nat (min 1048576 (length img))) then Inr (1, H, f') else Inl 0) \<and> contents f' = img @ hash_trailer hmac key img"
proof -
  let ?f = "fopen_r (img @ hash_trailer hmac key img)"
  have ok: "macs_ok (hmac key) (contents ?f) (length img) (hash_blocks img)"
    using assms(1) by (simp add: fopen_r_def hash_trailer_def macs_ok_trailer_eq)
  have c: "contents ?f = img @ hash_trailer hmac key img" by (simp add: fopen_r_def)
  have "\<exists>H f'. checkHash malloc hmac key DEF_HASH_BLOCK_SIZE ?f = Some (if malloc (of_nat (min 1048576 (length img)))
      then Inr (if macs_ok (hmac key) (contents ?f) (length img) (hash_blocks img) then 1 else 0, H, f') else Inl 0) \<and>
      contents f' = contents ?f"
    using assms c by (intro checkHash_trailer) simp_all
  then show ?thesis unfolding c by (simp only: ok [unfolded c] if_True)
qed

lemma checkHash_change_aux:
  assumes hm: "\<forall>d. length (hmac key d) = 32" and img: "length img < 2 ^ 31"
    and len: "length img' = length img" and ne: "img' \<noteq> img"
    and inj: "\<forall>b \<in> set (hash_blocks img). \<forall>b' \<in> set (hash_blocks img'). hmac key b' = hmac key b \<longrightarrow> b' = b"
  shows "\<exists>H f'. checkHash malloc hmac key DEF_HASH_BLOCK_SIZE (fopen_r (img' @ hash_trailer hmac key img)) =
     Some (if malloc (of_nat (min 1048576 (length img))) then Inr (0, H, f') else Inl 0)"
proof -
  let ?f = "fopen_r (img' @ hash_trailer hmac key img)"
  have "\<not> macs_ok (hmac key) (contents ?f) (length img') (hash_blocks img')"
  proof (rule notI)
    assume ok: "macs_ok (hmac key) (contents ?f) (length img') (hash_blocks img')"
    have nb: "length (hash_blocks img') = length (hash_blocks img)"
      by (rule length_hash_blocks_cong [OF len])
    then have eq: "map (hmac key) (hash_blocks img') = map (hmac key) (hash_blocks img)"
      using ok macs_ok_trailer_eq [of "hmac key" img' "length img'"] hm
      by (simp add: fopen_r_def hash_trailer_def)
    have "hash_blocks img' = hash_blocks img"
    proof (rule nth_equalityI [OF nb])
      fix i assume i: "i < length (hash_blocks img')"
      then have "hmac key (hash_blocks img' ! i) = hmac key (hash_blocks img ! i)"
        using eq nb by (metis nth_map)
      with inj i nb show "hash_blocks img' ! i = hash_blocks img ! i" by simp
    qed
    with ne show False using concat_hash_blocks by metis
  qed
  moreover have "\<exists>H f'. checkHash malloc hmac key DEF_HASH_BLOCK_SIZE ?f = Some (if malloc (of_nat (min 1048576 (length img)))
      then Inr (if macs_ok (hmac key) (contents ?f) (length img') (hash_blocks img') then 1 else 0, H, f') else Inl 0) \<and>
      contents f' = contents ?f"
    using hm len img by (intro checkHash_trailer) (simp_all add: fopen_r_def)
  ultimately show ?thesis by (simp only: if_False) blast
qed

text \<open>A keyed function with 32-byte results, for concrete instances.\<close>

definition sample_mac :: "bytes \<Rightarrow> bytes \<Rightarrow> bytes" where
  "sample_mac key d = map (byte_at (key @ d)) [0..<32]"

lemma length_sample_mac [simp]: "length (sample_mac key d) = 32"
  by (simp add: sample_mac_def)

section \<open>Properties\<close>

text \<open>
  C27: \<^verbatim>\<open>hashAndAppend\<close> leaves the image as it is and appends exactly the codes of its blocks
  in order and their number, for every image below 2 GiB.
\<close>

theorem hashAndAppend_trailer:
  assumes "\<forall>d. length (hmac key d) = 32" and "length img < 2 ^ 31"
  shows "\<exists>H. hashAndAppend hmac key DEF_HASH_BLOCK_SIZE img = Some (img @ hash_trailer hmac key img, H)"
  using hashAndAppend_aux [of hmac key img] assms by simp

theorem hashAndAppend_trailer_witness:
  "\<exists>H. hashAndAppend sample_mac [107] DEF_HASH_BLOCK_SIZE [1, 2, 3] =
     Some ([1, 2, 3] @ hash_trailer sample_mac [107] [1, 2, 3], H)"
  by (rule hashAndAppend_trailer) simp_all

text \<open>
  A file that \<^verbatim>\<open>checkHash\<close> is given with the trailer \<^verbatim>\<open>hashAndAppend\<close> wrote is accepted
  under the same key.
\<close>

lemma checkHash_accepts_mastered:
  assumes "\<forall>d. length (hmac key d) = 32" and "length img < 2 ^ 31"
    and "hashAndAppend hmac key DEF_HASH_BLOCK_SIZE img = Some (mastered, H0)"
  shows "\<exists>H f'. checkHash malloc hmac key DEF_HASH_BLOCK_SIZE (fopen_r mastered) =
     Some (if malloc (of_nat (min 1048576 (length img))) then Inr (1, H, f') else Inl 0) \<and>
     contents f' = mastered"
proof -
  have m: "mastered = img @ hash_trailer hmac key img"
    using hashAndAppend_aux [of hmac key img] assms by simp
  with checkHash_mastered_aux [of hmac key img malloc] assms show ?thesis by simp
qed



text \<open>
  What acceptance means for an arbitrary file: with the number of codes and the image
  part read as \<^verbatim>\<open>checkHash\<close> reads them, every block of the image part has its code stored
  behind the image part.
\<close>

lemma checkHash_accepted_blocks:
  fixes n :: nat
  assumes hm: "\<forall>d. length (hmac key d) = 32"
    and c: "contents f = img @ macs @ be32 (of_nat n)" "length macs = 32 * n" "n < 2 ^ 27"
    and img: "length img < 2 ^ 31"
    and ok: "checkHash malloc hmac key DEF_HASH_BLOCK_SIZE f = Some (Inr (1, H, f'))"
    and i: "i < length (hash_blocks img)"
  shows "window (contents f) (length img + 32 * i) 32 = hmac key (hash_blocks img ! i)"
  using checkHash_accepted_macs [of hmac key _ _ _ _ malloc] assms macs_ok_nth by blast



end
