(* ===== verification/GaloisField.thy ===== *)
theory GaloisField
  imports Prelude
begin

text \<open>
  The class \<^verbatim>\<open>schifra::galois::field\<close> of \<^verbatim>\<open>schifra_galois_field.hpp\<close>: the log and antilog tables it
  generates from a primitive polynomial, the lookup tables built from them, and the field
  operations. The program uses one instance, the field with 256 elements of
  \<^verbatim>\<open>primitive_polynomial06\<close>; its tables are shown to be those of the field, whatever memory
  the arrays are allocated in. Symbols are C++ \<^verbatim>\<open>int\<close>s; no operation leaves their range.
\<close>

section \<open>State\<close>

type_synonym field_symbol = int

definition GFERROR :: field_symbol where "GFERROR = - 1"

record gfield =
  gf_power :: nat
  field_size :: int
  prim_poly_deg :: nat
  prim_poly_hash :: uint32
  prim_poly :: "uint32 list"
  alpha_to :: "field_symbol list"
  index_of :: "field_symbol list"
  mul_table :: "field_symbol list list"
  div_table :: "field_symbol list list"
  exp_table :: "field_symbol list list"
  mul_inverse :: "field_symbol list"

text \<open>Array access with a non-negative \<^verbatim>\<open>int\<close> index.\<close>

definition at :: "'a list \<Rightarrow> int \<Rightarrow> 'a" where
  "at xs i = xs ! nat i"

definition put :: "'a list \<Rightarrow> int \<Rightarrow> 'a \<Rightarrow> 'a list" where
  "put xs i v = xs[nat i := v]"

definition index :: "gfield \<Rightarrow> field_symbol \<Rightarrow> field_symbol" where
  "index f v = at (index_of f) v"

definition alpha :: "gfield \<Rightarrow> field_symbol \<Rightarrow> field_symbol" where
  "alpha f v = at (alpha_to f) v"

definition gf_add :: "field_symbol \<Rightarrow> field_symbol \<Rightarrow> field_symbol" where
  "gf_add a b = a XOR b"

definition gf_sub :: "field_symbol \<Rightarrow> field_symbol \<Rightarrow> field_symbol" where
  "gf_sub a b = a XOR b"

section \<open>normalize\<close>

text \<open>
  The two loops of \<^verbatim>\<open>normalize\<close> for a field of size \<open>2 ^ p - 1\<close>. A field of power 0 has size 0
  and would keep either loop running; the guards only exclude it.
\<close>

function norm_neg :: "nat \<Rightarrow> int \<Rightarrow> int" where
  "norm_neg p x = (if x < 0 \<and> 0 < p then norm_neg p (x + (2 ^ p - 1)) else x)"
  by pat_completeness auto
termination
proof (relation "measure (\<lambda>(p, x). nat (- x))", simp)
  fix p :: nat and x :: int
  assume "x < 0 \<and> 0 < p"
  moreover from this have "(2 :: int) ^ 1 \<le> 2 ^ p" by (intro power_increasing) auto
  ultimately show "((p, x + (2 ^ p - 1)), (p, x)) \<in> measure (\<lambda>(p, x). nat (- x))" by simp
qed

function norm_pos :: "nat \<Rightarrow> int \<Rightarrow> int" where
  "norm_pos p x =
     (if x \<ge> 2 ^ p - 1 \<and> 0 < p then
        let x = x - (2 ^ p - 1) in norm_pos p (drop_bit p x + (x AND (2 ^ p - 1)))
      else x)"
  by pat_completeness auto
termination
proof (relation "measure (\<lambda>(p, x). nat x)", simp)
  fix p :: nat and x y :: int
  assume x: "2 ^ p - 1 \<le> x \<and> 0 < p" and y: "y = x - (2 ^ p - 1)"
  have "(2 :: int) ^ 1 \<le> 2 ^ p" using x by (intro power_increasing) auto
  then have "0 \<le> y" "y < x" using x y by auto
  moreover have "y div 2 ^ p + y mod 2 ^ p \<le> y"
  proof -
    have "y div 2 ^ p * 1 \<le> y div 2 ^ p * 2 ^ p"
      using \<open>0 \<le> y\<close> by (intro mult_left_mono) (simp_all add: pos_imp_zdiv_nonneg_iff)
    then show ?thesis using div_mult_mod_eq [of y "2 ^ p"] by linarith
  qed
  moreover have "y AND (2 ^ p - 1) = y mod 2 ^ p"
    by (simp add: take_bit_eq_mask mask_eq_exp_minus_1 flip: take_bit_eq_mod)
  ultimately show "((p, drop_bit p y + (y AND (2 ^ p - 1))), (p, x)) \<in> measure (\<lambda>(p, x). nat x)"
    by (simp add: drop_bit_eq_div)
qed

declare norm_neg.simps [simp del] norm_pos.simps [simp del]

definition normalize :: "gfield \<Rightarrow> int \<Rightarrow> int" where
  "normalize f x = norm_pos (gf_power f) (norm_neg (gf_power f) x)"

section \<open>Generating the tables\<close>

definition gen_mul :: "gfield \<Rightarrow> field_symbol \<Rightarrow> field_symbol \<Rightarrow> field_symbol" where
  "gen_mul f a b =
     (if a = 0 \<or> b = 0 then 0
      else at (alpha_to f) (normalize f (at (index_of f) a + at (index_of f) b)))"

definition gen_div :: "gfield \<Rightarrow> field_symbol \<Rightarrow> field_symbol \<Rightarrow> field_symbol" where
  "gen_div f a b =
     (if a = 0 \<or> b = 0 then 0
      else at (alpha_to f) (normalize f (at (index_of f) a - at (index_of f) b + field_size f)))"

definition gen_exp :: "gfield \<Rightarrow> field_symbol \<Rightarrow> int \<Rightarrow> field_symbol" where
  "gen_exp f a n =
     (if a \<noteq> 0
      then if n = 0 then 1 else at (alpha_to f) (normalize f (at (index_of f) a * n))
      else 0)"

definition gen_inverse :: "gfield \<Rightarrow> field_symbol \<Rightarrow> field_symbol" where
  "gen_inverse f v = at (alpha_to f) (normalize f (field_size f - at (index_of f) v))"

text \<open>
  \<^verbatim>\<open>generate_field\<close>. The first loop lays down the powers below the degree and collects the
  reduction pattern in \<^verbatim>\<open>alpha_to_[power_]\<close>; the second multiplies by the generator.
\<close>

definition gen_low :: "nat \<Rightarrow> uint32 list \<Rightarrow> nat \<Rightarrow> int list \<times> int list \<times> int \<Rightarrow> int list \<times> int list \<times> int" where
  "gen_low pw prim i st =
     (case st of (al, ix, m) \<Rightarrow>
        let al = put al (int i) m;
            ix = put ix (at al (int i)) (int i);
            al = (if prim ! i \<noteq> 0 then put al (int pw) (at al (int pw) XOR m) else al)
        in (al, ix, push_bit 1 m))"

definition gen_high :: "nat \<Rightarrow> int \<Rightarrow> nat \<Rightarrow> int list \<times> int list \<Rightarrow> int list \<times> int list" where
  "gen_high pw m i st =
     (case st of (al, ix) \<Rightarrow>
        let prev = at al (int i - 1);
            al = put al (int i)
              (if prev \<ge> m then at al (int pw) XOR push_bit 1 (prev XOR m) else push_bit 1 prev)
        in (al, put ix (at al (int i)) (int i)))"

definition generate_logs :: "nat \<Rightarrow> int \<Rightarrow> uint32 list \<Rightarrow> int list \<Rightarrow> int list \<Rightarrow> int list \<times> int list" where
  "generate_logs pw fsize prim al ix =
     (let al = put al (int pw) 0;
          (al, ix, m) = fold (gen_low pw prim) [0..<pw] (al, ix, 1);
          ix = put ix (at al (int pw)) (int pw);
          m = drop_bit 1 m;
          (al, ix) = fold (gen_high pw m) [pw + 1..<nat fsize] (al, ix);
          ix = put ix 0 GFERROR;
          al = put al fsize 1
      in (al, ix))"

definition generate_field :: "uint32 list \<Rightarrow> gfield \<Rightarrow> gfield" where
  "generate_field prim f =
     (let (al, ix) = generate_logs (gf_power f) (field_size f) prim (alpha_to f) (index_of f);
          f = f\<lparr>alpha_to := al, index_of := ix\<rparr>;
          symbols = [0..field_size f];
          inverses = map (gen_inverse f) symbols
      in f\<lparr>mul_table := map (\<lambda>i. map (gen_mul f i) symbols) symbols,
           div_table := map (\<lambda>i. map (gen_div f i) symbols) symbols,
           exp_table := map (\<lambda>i. map (gen_exp f i) symbols) symbols,
           mul_inverse := inverses @ inverses\<rparr>)"

text \<open>
  The constructor. \<open>al\<close> and \<open>ix\<close> are the contents of the memory the two arrays are allocated in.
  The polynomial is given with its degree: \<open>deg + 1\<close> of its words are read.
\<close>

definition poly_hash :: "nat \<Rightarrow> uint32 list \<Rightarrow> uint32" where
  "poly_hash deg prim =
     fold (\<lambda>i h. h + (if even i then push_bit 7 h XOR (prim ! i * drop_bit 3 h)
                      else NOT (push_bit 11 h + (prim ! i XOR drop_bit 5 h))))
       [0..<deg + 1] 0xAAAAAAAA"

definition alloc :: "nat \<Rightarrow> (nat \<Rightarrow> int) \<Rightarrow> int list" where
  "alloc n mem = map mem [0..<n]"

definition field_ctor :: "(nat \<Rightarrow> int) \<Rightarrow> (nat \<Rightarrow> int) \<Rightarrow> nat \<Rightarrow> nat \<Rightarrow> uint32 list \<Rightarrow> gfield" where
  "field_ctor al ix pwr primpoly_deg prim =
     generate_field prim
       \<lparr>gf_power = pwr, field_size = 2 ^ pwr - 1, prim_poly_deg = primpoly_deg,
        prim_poly_hash = poly_hash primpoly_deg prim, prim_poly = take (primpoly_deg + 1) prim,
        alpha_to = alloc (2 ^ pwr) al, index_of = alloc (2 ^ pwr) ix, mul_table = [], div_table = [],
        exp_table = [], mul_inverse = []\<rparr>"

section \<open>Operations\<close>

definition mul :: "gfield \<Rightarrow> field_symbol \<Rightarrow> field_symbol \<Rightarrow> field_symbol" where
  "mul f a b = at (at (mul_table f) a) b"

definition div_sym :: "gfield \<Rightarrow> field_symbol \<Rightarrow> field_symbol \<Rightarrow> field_symbol" where
  "div_sym f a b = at (at (div_table f) a) b"

definition exp_sym :: "gfield \<Rightarrow> field_symbol \<Rightarrow> int \<Rightarrow> field_symbol" where
  "exp_sym f a n =
     (if n \<ge> 0 then at (at (exp_table f) a) (n AND field_size f)
      else let n = norm_neg (gf_power f) n
           in if n \<noteq> 0 then at (at (exp_table f) a) n else 1)"

definition inverse_sym :: "gfield \<Rightarrow> field_symbol \<Rightarrow> field_symbol" where
  "inverse_sym f v = at (mul_inverse f) v"

definition field_eq :: "gfield \<Rightarrow> gfield \<Rightarrow> bool" where
  "field_eq f g \<longleftrightarrow> gf_power f = gf_power g \<and> prim_poly_hash f = prim_poly_hash g"

definition primitive_polynomial06 :: "uint32 list" where
  "primitive_polynomial06 = [1, 1, 1, 0, 0, 0, 0, 1, 1]"

definition primitive_polynomial_size06 :: nat where
  "primitive_polynomial_size06 = 9"

section \<open>Powers of the generator\<close>

text \<open>Multiplication by the generator, as the second loop of \<^verbatim>\<open>generate_field\<close> performs it.\<close>

definition xt :: "int \<Rightarrow> int" where
  "xt v = (if v \<ge> 128 then 135 XOR push_bit 1 (v XOR 128) else push_bit 1 v)"

definition xtb :: "int \<Rightarrow> int" where
  "xtb v = push_bit 1 (take_bit 7 v) XOR (if bit v 7 then 135 else 0)"

primrec aseq :: "nat \<Rightarrow> int" where
  "aseq 0 = 1"
| "aseq (Suc n) = xt (aseq n)"

abbreviation symbol :: "int \<Rightarrow> bool" where "symbol v \<equiv> 0 \<le> v \<and> v < 256"

lemma symbol_take_bit: "symbol v \<longleftrightarrow> take_bit 8 v = v"
  using take_bit_int_eq_self_iff [of 8 v] by auto

lemma symbol_xor: "symbol a \<Longrightarrow> symbol b \<Longrightarrow> symbol (a XOR b)"
  unfolding symbol_take_bit by (simp add: take_bit_xor)

lemma bit_7_symbol: "symbol v \<Longrightarrow> bit v 7 \<longleftrightarrow> 128 \<le> v"
proof -
  assume v: "symbol v"
  have "bit v 7 \<longleftrightarrow> odd (v div 128)" by (simp add: bit_iff_odd)
  also have "\<dots> \<longleftrightarrow> 128 \<le> v"
  proof (cases "128 \<le> v")
    case True
    then have "v div 128 = 1" using v by simp
    with True show ?thesis by simp
  next
    case False
    then have "v div 128 = 0" using v by simp
    with False show ?thesis by simp
  qed
  finally show ?thesis .
qed

lemma take_bit_7_symbol:
  assumes "symbol v"
  shows "take_bit 7 v = (if 128 \<le> v then v XOR 128 else v)"
proof (rule bit_eqI)
  fix n
  have n: "\<not> bit v n" if "8 \<le> n"
    using that assms unfolding symbol_take_bit by (metis bit_take_bit_iff not_less)
  have b: "bit (128 :: int) n \<longleftrightarrow> n = 7"
    using bit_exp_iff [of 7 n, where 'a = int] by auto
  consider "n < 7" | "n = 7" | "8 \<le> n" by linarith
  then show "bit (take_bit 7 v) n \<longleftrightarrow> bit (if 128 \<le> v then v XOR 128 else v) n"
    by cases (use n bit_7_symbol [OF assms] in \<open>auto simp: bit_take_bit_iff bit_xor_iff b\<close>)
qed

lemma xt_eq: "symbol v \<Longrightarrow> xt v = xtb v"
  unfolding xt_def xtb_def
  by (cases "128 \<le> v") (simp_all only: take_bit_7_symbol bit_7_symbol if_True if_False xor.commute [of 135]
      xor.right_neutral)

lemma xtb_xor: "xtb (a XOR b) = xtb a XOR xtb b"
  by (rule bit_eqI) (auto simp: xtb_def take_bit_xor push_bit_xor bit_xor_iff)

lemma symbol_xtb: "symbol (xtb v)"
proof -
  have "symbol (push_bit 1 (take_bit 7 v))"
    using take_bit_int_less_exp [of 7 v] by (simp add: push_bit_eq_mult)
  then show ?thesis unfolding xtb_def by (intro symbol_xor) simp_all
qed

lemma symbol_aseq [simp]: "symbol (aseq n)"
proof (induction n)
  case (Suc n)
  then show ?case using symbol_xtb [of "aseq n"] by (simp add: xt_eq)
qed simp

lemma aseq_Suc: "aseq (Suc n) = xtb (aseq n)"
  using xt_eq [OF symbol_aseq] by simp

lemma xtb_inj:
  assumes "symbol a" and "symbol b" and "xtb a = xtb b"
  shows "a = b"
proof -
  define d where "d = a XOR b"
  have z: "xtb d = 0" using assms(3) by (simp add: d_def xtb_xor)
  have s: "symbol d" unfolding d_def using assms by (intro symbol_xor)
  have "bit (xtb d) 0 \<longleftrightarrow> bit d 7" by (simp add: xtb_def bit_0 even_xor_iff)
  then have "\<not> bit d 7" using z by simp
  with s z have "push_bit 1 d = 0" by (simp add: bit_7_symbol take_bit_7_symbol xtb_def)
  then have "a XOR b = 0" by (simp add: push_bit_eq_mult d_def)
  then show ?thesis by (metis xor.assoc xor.left_neutral xor_self_eq)
qed

text \<open>The generator has order 255: going through all powers, the first return to 1.\<close>

fun returns_to_1 :: "nat \<Rightarrow> int \<Rightarrow> nat list" where
  "returns_to_1 0 v = []"
| "returns_to_1 (Suc n) v = (if v = 1 then n # returns_to_1 n (xt v) else returns_to_1 n (xt v))"

lemma aseq_eq_1_returns:
  "i < n \<Longrightarrow> aseq (k + i) = 1 \<Longrightarrow> n - Suc i \<in> set (returns_to_1 n (aseq k))"
proof (induction n arbitrary: i k)
  case (Suc n)
  show ?case
  proof (cases i)
    case 0
    then show ?thesis using Suc.prems by simp
  next
    case (Suc j)
    then have "n - Suc j \<in> set (returns_to_1 n (aseq (Suc k)))" using Suc.IH [of j "Suc k"] Suc.prems by simp
    then show ?thesis using Suc by (cases "aseq k = 1") simp_all
  qed
qed simp

lemma returns_256: "returns_to_1 256 1 = [255, 0]"
  by code_simp

lemma aseq_ne_1: "0 < i \<Longrightarrow> i < 255 \<Longrightarrow> aseq i \<noteq> 1"
  using aseq_eq_1_returns [of i 256 0] returns_256 by auto

lemma aseq_255: "aseq 255 = 1"
  by code_simp

lemma xtb_0 [simp]: "xtb 0 = 0"
  by (simp add: xtb_def)

lemma aseq_periodic: "aseq (n + 255) = aseq n"
  by (induction n) (simp_all only: add_0 aseq_255 add_Suc aseq.simps)

lemma aseq_mod: "aseq (n mod 255) = aseq n"
proof -
  have "aseq (k + 255 * m) = aseq k" for k m
    by (induction m) (simp_all add: aseq_periodic add.assoc [symmetric] add.commute [of 255])
  from this [of "n mod 255" "n div 255"] show ?thesis by simp
qed

lemma aseq_add: "aseq (i + j) = (xtb ^^ i) (aseq j)"
  by (induction i) (simp_all add: aseq_Suc flip: aseq.simps(2))

lemma aseq_cancel: "aseq (i + k) = aseq (i + j) \<Longrightarrow> aseq k = aseq j"
proof (induction i)
  case (Suc i)
  then have "xtb (aseq (i + k)) = xtb (aseq (i + j))" by (simp only: add_Suc aseq_Suc)
  then show ?case using Suc.IH xtb_inj symbol_aseq by blast
qed simp

lemma aseq_inj: "inj_on aseq {0..<255}"
proof (rule linorder_inj_onI)
  fix i j assume ij: "i < j" "i \<in> {0..<255}" "j \<in> {0..<255 :: nat}"
  show "aseq i \<noteq> aseq j"
  proof
    assume "aseq i = aseq j"
    then have "aseq (i + 0) = aseq (i + (j - i))" using ij by simp
    then have "aseq 0 = aseq (j - i)" by (rule aseq_cancel)
    moreover have "0 < j - i" "j - i < 255" using ij by (simp_all add: less_imp_diff_less)
    ultimately show False using aseq_ne_1 [of "j - i"] by simp
  qed
qed auto

lemma aseq_nonzero [simp]: "aseq n \<noteq> 0"
proof
  assume "aseq n = 0"
  then have z: "aseq (i + n) = 0" for i by (simp add: aseq_add) (induction i; simp)
  have "aseq (254 * n + 255 + n) = aseq (255 * Suc n)" by (rule arg_cong [where f = aseq]) simp
  also have "\<dots> = 1" using aseq_mod [of "255 * Suc n"] by simp
  finally show False using z [of "254 * n + 255"] by simp
qed

lemma aseq_image: "aseq ` {0..<255} = {1..255}"
proof (rule card_subset_eq)
  show "aseq ` {0..<255} \<subseteq> {1..255}"
  proof
    fix v assume "v \<in> aseq ` {0..<255}"
    then obtain n where "v = aseq n" by blast
    then show "v \<in> {1..255}" using symbol_aseq [of n] aseq_nonzero [of n]
      unfolding atLeastAtMost_iff by linarith
  qed
  show "card (aseq ` {0..<255}) = card {1..255 :: int}" by (simp add: card_image [OF aseq_inj])
qed simp

text \<open>The discrete logarithm of a nonzero symbol.\<close>

definition dlog :: "int \<Rightarrow> nat" where
  "dlog v = inv_into {0..<255} aseq v"

lemma dlog_aseq: "i < 255 \<Longrightarrow> dlog (aseq i) = i"
  by (simp add: dlog_def inv_into_f_f [OF aseq_inj])

lemma aseq_dlog:
  assumes "symbol v" and "v \<noteq> 0"
  shows "aseq (dlog v) = v" and "dlog v < 255"
proof -
  have "v \<in> aseq ` {0..<255}" using assms by (simp add: aseq_image)
  then show "aseq (dlog v) = v" "dlog v < 255"
    using f_inv_into_f [of v aseq "{0..<255}"] inv_into_into [of v aseq "{0..<255}"] by (simp_all add: dlog_def)
qed

section \<open>normalize reduces modulo 255\<close>

lemma norm_neg_8: "norm_neg 8 x mod 255 = x mod 255 \<and> 0 \<le> norm_neg 8 x \<and> (0 \<le> x \<longrightarrow> norm_neg 8 x = x)"
proof (induction "nat (- x)" arbitrary: x rule: less_induct)
  case less
  show ?case
  proof (cases "x < 0")
    case True
    then have "norm_neg 8 x = norm_neg 8 (x + 255)" by (subst norm_neg.simps) simp
    moreover have "nat (- (x + 255)) < nat (- x)" using True by simp
    note less.hyps [OF this]
    ultimately show ?thesis using True by simp
  next
    case False
    then show ?thesis by (subst (1 2 3) norm_neg.simps) simp
  qed
qed

lemma norm_pos_8: "0 \<le> x \<Longrightarrow> norm_pos 8 x = x mod 255"
proof (induction "nat x" arbitrary: x rule: less_induct)
  case less
  show ?case
  proof (cases "255 \<le> x")
    case True
    define y where "y = x - 255"
    define z where "z = y div 256 + y mod 256"
    have y: "0 \<le> y" "y < x" using True by (auto simp: y_def)
    have a: "drop_bit 8 y + (y AND 255) = z"
      using take_bit_eq_mask [of 8 y] by (simp add: z_def drop_bit_eq_div take_bit_eq_mod mask_eq_exp_minus_1)
    have zy: "y = 255 * (y div 256) + z" using div_mult_mod_eq [of y 256] by (simp add: z_def)
    moreover have "0 \<le> y div 256" "0 \<le> y mod 256" using y by (simp_all add: pos_imp_zdiv_nonneg_iff)
    ultimately have z: "0 \<le> z" "z \<le> y" unfolding z_def by linarith+
    have "norm_pos 8 x = norm_pos 8 z" using True by (subst norm_pos.simps) (simp add: Let_def a flip: y_def)
    also have "\<dots> = z mod 255" using less.hyps [of z] z y by simp
    also have "\<dots> = y mod 255" by (subst zy) simp
    also have "\<dots> = x mod 255" unfolding y_def by (metis minus_mod_self2)
    finally show ?thesis .
  next
    case False
    then show ?thesis using less.prems by (subst norm_pos.simps) simp
  qed
qed

lemma normalize_8: "gf_power f = 8 \<Longrightarrow> normalize f x = x mod 255"
  using norm_neg_8 [of x] norm_pos_8 [of "norm_neg 8 x"] by (simp add: normalize_def)

section \<open>The generated tables\<close>

lemma aseq_low: "j < 8 \<Longrightarrow> aseq j = 2 ^ j"
proof -
  have "map aseq [0..<8] = map (\<lambda>j. 2 ^ j) [0..<8]" by code_simp
  then show "j < 8 \<Longrightarrow> ?thesis" by (auto simp: map_eq_conv)
qed

lemma aseq_8: "aseq 8 = 135"
  by code_simp

definition low_inv :: "nat \<Rightarrow> int list \<times> int list \<times> int \<Rightarrow> bool" where
  "low_inv i st = (case st of (al, ix, m) \<Rightarrow>
     length al = 256 \<and> length ix = 256 \<and> m = 2 ^ i \<and> al ! 8 = take_bit i 135 \<and>
     (\<forall>j<i. al ! j = 2 ^ j \<and> ix ! nat (2 ^ j) = int j))"

lemma prim06_bit:
  "i < 8 \<Longrightarrow> take_bit (Suc i) (135 :: int) =
     (if (primitive_polynomial06 @ r) ! i \<noteq> 0 then take_bit i 135 XOR 2 ^ i else take_bit i 135)"
proof -
  assume "i < 8"
  then consider "i = 0" | "i = 1" | "i = 2" | "i = 3" | "i = 4" | "i = 5" | "i = 6" | "i = 7" by linarith
  then show ?thesis by cases (simp_all add: primitive_polynomial06_def take_bit_eq_mod)
qed

lemma nat_exp_8: "j < 8 \<Longrightarrow> nat (2 ^ j) < 256"
proof -
  assume "j < 8"
  then have "(2 :: int) ^ j < 2 ^ 8" by (intro power_strict_increasing) auto
  then show ?thesis by simp
qed

lemma gen_low_inv:
  assumes "i < 8" and "low_inv i st"
  shows "low_inv (Suc i) (gen_low 8 (primitive_polynomial06 @ r) i st)"
proof -
  obtain al ix m where st: "st = (al, ix, m)" by (cases st)
  have inv: "length al = 256" "length ix = 256" "m = 2 ^ i" "al ! 8 = take_bit i 135"
    "\<And>j. j < i \<Longrightarrow> al ! j = 2 ^ j \<and> ix ! nat (2 ^ j) = int j"
    using assms(2) by (auto simp: st low_inv_def)
  let ?al = "al[i := m]"
  let ?al' = "if (primitive_polynomial06 @ r) ! i \<noteq> 0 then ?al[8 := ?al ! 8 XOR m] else ?al"
  have g: "gen_low 8 (primitive_polynomial06 @ r) i st = (?al', ix[nat (2 ^ i) := int i], push_bit 1 m)"
    using inv assms(1) by (simp add: st gen_low_def put_def at_def Let_def)
  have 8: "?al' ! 8 = take_bit (Suc i) 135"
    using prim06_bit [OF assms(1), of r] inv assms(1) by simp
  have "?al' ! j = 2 ^ j \<and> ix[nat (2 ^ i) := int i] ! nat (2 ^ j) = int j" if "j < Suc i" for j
  proof (cases "j = i")
    case True
    then show ?thesis using inv assms(1) nat_exp_8 [OF assms(1)] by simp
  next
    case False
    then have j: "j < i" using that by simp
    then have "(2 :: int) ^ j \<noteq> 2 ^ i" by simp
    then have "nat (2 ^ i) \<noteq> nat (2 ^ j)" by (simp add: eq_nat_nat_iff)
    then show ?thesis using inv(5) [OF j] j assms(1) by simp
  qed
  then show ?thesis unfolding g low_inv_def using inv 8 by (simp add: push_bit_eq_mult)
qed

definition high_inv :: "nat \<Rightarrow> int list \<times> int list \<Rightarrow> bool" where
  "high_inv i st = (case st of (al, ix) \<Rightarrow>
     length al = 256 \<and> length ix = 256 \<and> (\<forall>j<i. al ! j = aseq j \<and> ix ! nat (aseq j) = int j))"

lemma nat_aseq: "nat (aseq j) < 256"
  using symbol_aseq [of j] by linarith

lemma nat_aseq_inj: "i < 255 \<Longrightarrow> j < 255 \<Longrightarrow> i \<noteq> j \<Longrightarrow> nat (aseq i) \<noteq> nat (aseq j)"
  using inj_onD [OF aseq_inj, of i j] by (simp add: eq_nat_nat_iff) blast

lemma gen_high_inv:
  assumes "9 \<le> i" and "i < 255" and "high_inv i st"
  shows "high_inv (Suc i) (gen_high 8 128 i st)"
proof -
  obtain al ix where st: "st = (al, ix)" by (cases st)
  have inv: "length al = 256" "length ix = 256" "\<And>j. j < i \<Longrightarrow> al ! j = aseq j \<and> ix ! nat (aseq j) = int j"
    using assms(3) by (auto simp: st high_inv_def)
  obtain k where k: "i = Suc k" using assms(1) by (cases i) auto
  have p: "al ! k = aseq k" "al ! 8 = 135" using inv(3) [of k] inv(3) [of 8] assms(1) k aseq_8 by auto
  have e: "nat (1 + int k) = Suc k" by linarith
  have g: "gen_high 8 128 i st = (al[i := aseq i], ix[nat (aseq i) := int i])"
    using p inv(1) assms(2) k e by (simp add: st gen_high_def put_def at_def Let_def xt_def)
  have "al[i := aseq i] ! j = aseq j \<and> ix[nat (aseq i) := int i] ! nat (aseq j) = int j" if "j < Suc i" for j
  proof (cases "j = i")
    case True
    then show ?thesis using inv assms(2) nat_aseq by simp
  next
    case False
    then have "j < i" using that by simp
    with inv(3) [OF this] nat_aseq_inj [of i j] assms(2) show ?thesis by simp
  qed
  then show ?thesis unfolding g high_inv_def using inv by simp
qed

definition logs_ok :: "int list \<Rightarrow> int list \<Rightarrow> bool" where
  "logs_ok al ix \<longleftrightarrow> length al = 256 \<and> length ix = 256 \<and> (\<forall>j \<le> 255. al ! j = aseq j) \<and>
     (\<forall>j<255. ix ! nat (aseq j) = int j) \<and> ix ! 0 = - 1"

lemma generate_logs_ok:
  assumes "length al = 256" and "length ix = 256"
  shows "\<exists>al' ix'. generate_logs 8 255 (primitive_polynomial06 @ r) al ix = (al', ix') \<and> logs_ok al' ix'"
proof -
  let ?prim = "primitive_polynomial06 @ r"
  have "low_inv 0 (al[8 := 0], ix, 1)" using assms by (simp add: low_inv_def)
  then have "low_inv 8 (fold (gen_low 8 ?prim) [0..<8] (al[8 := 0], ix, 1))"
    by (rule fold_upt_invariant) (auto intro: gen_low_inv)
  then obtain al1 ix1 where lo: "fold (gen_low 8 ?prim) [0..<8] (al[8 := 0], ix, 1) = (al1, ix1, 256)"
    and l1: "length al1 = 256" "length ix1 = 256" "al1 ! 8 = 135"
      "\<And>j. j < 8 \<Longrightarrow> al1 ! j = aseq j \<and> ix1 ! nat (aseq j) = int j"
    by (auto simp: low_inv_def aseq_low split: prod.splits)
  have "high_inv 9 (al1, ix1[135 := 8])"
  proof -
    have "al1 ! j = aseq j \<and> ix1[135 := 8] ! nat (aseq j) = int j" if "j < 9" for j
    proof (cases "j = 8")
      case True
      then show ?thesis using l1 aseq_8 by simp
    next
      case False
      then have "j < 8" "nat (aseq j) \<noteq> 135" using that nat_aseq_inj [of j 8] aseq_8 by auto
      then show ?thesis using l1 by simp
    qed
    then show ?thesis using l1 by (simp add: high_inv_def)
  qed
  then have "high_inv 255 (fold (gen_high 8 128) [9..<255] (al1, ix1[135 := 8]))"
    by (rule fold_upt_invariant) (auto intro: gen_high_inv)
  then obtain al2 ix2 where hi: "fold (gen_high 8 128) [9..<255] (al1, ix1[135 := 8]) = (al2, ix2)"
    and l2: "length al2 = 256" "length ix2 = 256"
      "\<And>j. j < 255 \<Longrightarrow> al2 ! j = aseq j \<and> ix2 ! nat (aseq j) = int j"
    by (auto simp: high_inv_def split: prod.splits)
  have "generate_logs 8 255 ?prim al ix = (al2[255 := 1], ix2[0 := - 1])"
    using lo hi l1(3) by (simp add: generate_logs_def put_def at_def GFERROR_def Let_def)
  moreover have "logs_ok (al2[255 := 1]) (ix2[0 := - 1])"
  proof -
    have "al2[255 := 1] ! j = aseq j" if "j \<le> 255" for j
      using that l2 aseq_255 by (cases "j = 255") auto
    moreover have "ix2[0 := - 1] ! nat (aseq j) = int j" if "j < 255" for j
    proof -
      have "nat (aseq j) \<noteq> 0" using aseq_nonzero [of j] symbol_aseq [of j] by linarith
      then show ?thesis using l2(3) [OF that] by simp
    qed
    moreover have "ix2[0 := - 1] ! 0 = - 1" using l2(2) by simp
    ultimately show ?thesis using l2 by (simp add: logs_ok_def)
  qed
  ultimately show ?thesis by blast
qed

section \<open>The field the program uses\<close>

text \<open>
  \<^verbatim>\<open>field(8, primitive_polynomial_size06, primitive_polynomial06)\<close>: the size 9 of the polynomial
  is passed where its degree is expected, so one word behind the array is read; \<open>beyond\<close> is
  the value found there. It only enters \<^verbatim>\<open>prim_poly_\<close> and its hash.
\<close>

definition rs_field :: "(nat \<Rightarrow> int) \<Rightarrow> (nat \<Rightarrow> int) \<Rightarrow> uint32 \<Rightarrow> gfield" where
  "rs_field al ix beyond = field_ctor al ix 8 primitive_polynomial_size06 (primitive_polynomial06 @ [beyond])"

text \<open>What the operations rely on, for any field built like this.\<close>

definition field_ok :: "gfield \<Rightarrow> bool" where
  "field_ok f \<longleftrightarrow> gf_power f = 8 \<and> field_size f = 255 \<and> logs_ok (alpha_to f) (index_of f) \<and>
     mul_table f = map (\<lambda>i. map (gen_mul f i) [0..255]) [0..255] \<and>
     div_table f = map (\<lambda>i. map (gen_div f i) [0..255]) [0..255] \<and>
     exp_table f = map (\<lambda>i. map (gen_exp f i) [0..255]) [0..255] \<and>
     mul_inverse f = map (gen_inverse f) [0..255] @ map (gen_inverse f) [0..255]"

lemma gen_cong:
  assumes "gf_power f = gf_power g" "field_size f = field_size g" "alpha_to f = alpha_to g" "index_of f = index_of g"
  shows "gen_mul f = gen_mul g" "gen_div f = gen_div g" "gen_exp f = gen_exp g" "gen_inverse f = gen_inverse g"
  by (intro ext; simp add: gen_mul_def gen_div_def gen_exp_def gen_inverse_def normalize_def assms)+

lemma rs_field_ok: "field_ok (rs_field al ix beyond)"
proof -
  obtain al' ix' where g: "generate_logs 8 255 (primitive_polynomial06 @ [beyond]) (alloc 256 al) (alloc 256 ix) =
      (al', ix')" "logs_ok al' ix'"
    using generate_logs_ok [of "alloc 256 al" "alloc 256 ix" "[beyond]"] by (auto simp: alloc_def)
  define f0 where "f0 = \<lparr>gf_power = 8, field_size = 255, prim_poly_deg = primitive_polynomial_size06,
      prim_poly_hash = poly_hash primitive_polynomial_size06 (primitive_polynomial06 @ [beyond]),
      prim_poly = take (primitive_polynomial_size06 + 1) (primitive_polynomial06 @ [beyond]),
      alpha_to = al', index_of = ix', mul_table = [], div_table = [], exp_table = [], mul_inverse = []\<rparr>"
  have eq: "rs_field al ix beyond = f0\<lparr>mul_table := map (\<lambda>i. map (gen_mul f0 i) [0..255]) [0..255],
      div_table := map (\<lambda>i. map (gen_div f0 i) [0..255]) [0..255],
      exp_table := map (\<lambda>i. map (gen_exp f0 i) [0..255]) [0..255],
      mul_inverse := map (gen_inverse f0) [0..255] @ map (gen_inverse f0) [0..255]\<rparr>"
    by (simp add: rs_field_def field_ctor_def generate_field_def g Let_def f0_def del: upto_rec_numeral)
  have c: "gen_mul (rs_field al ix beyond) = gen_mul f0" "gen_div (rs_field al ix beyond) = gen_div f0"
    "gen_exp (rs_field al ix beyond) = gen_exp f0" "gen_inverse (rs_field al ix beyond) = gen_inverse f0"
    by (rule gen_cong; simp add: eq)+
  show ?thesis unfolding field_ok_def c using g(2) by (simp add: eq f0_def del: upto_rec_numeral)
qed

lemma at_map_upto:
  assumes "symbol v"
  shows "at (map h [0..255] @ ys) v = h v" and "at (map h [0..255]) v = h v"
proof -
  have "nat v < 256" using assms by linarith
  then have "nat v < length [0..255]" by (simp del: upto_rec_numeral)
  moreover have "[0..255] ! nat v = v" using assms nth_upto [of 0 "nat v" 255] by simp
  ultimately show "at (map h [0..255] @ ys) v = h v" "at (map h [0..255]) v = h v"
    unfolding at_def by (simp_all only: nth_append nth_map length_map if_True)
qed

lemma alpha_ok: "field_ok f \<Longrightarrow> 0 \<le> i \<Longrightarrow> i \<le> 255 \<Longrightarrow> alpha f i = aseq (nat i)"
  by (simp add: alpha_def at_def field_ok_def logs_ok_def)

lemma index_ok: "field_ok f \<Longrightarrow> symbol v \<Longrightarrow> v \<noteq> 0 \<Longrightarrow> index f v = int (dlog v)"
  using aseq_dlog [of v] by (simp add: index_def at_def field_ok_def logs_ok_def) metis

lemma alpha_normalize:
  assumes "field_ok f"
  shows "at (alpha_to f) (normalize f (int n)) = aseq n"
proof -
  have "normalize f (int n) = int (n mod 255)"
    using assms by (simp add: normalize_8 field_ok_def zmod_int)
  then have "at (alpha_to f) (normalize f (int n)) = aseq (n mod 255)"
    using alpha_ok [OF assms, of "int (n mod 255)"] mod_less_divisor [of 255 n] by (simp add: alpha_def)
  then show ?thesis by (simp add: aseq_mod)
qed

lemma mul_ok:
  assumes "field_ok f" and "symbol a" and "symbol b"
  shows "mul f a b = (if a = 0 \<or> b = 0 then 0 else aseq (dlog a + dlog b))"
proof -
  have "mul f a b = gen_mul f a b"
    using assms by (simp add: mul_def field_ok_def at_map_upto del: upto_rec_numeral)
  then show ?thesis
    using alpha_normalize [OF assms(1), of "dlog a + dlog b"] index_ok [OF assms(1)] assms(2,3)
    by (simp add: gen_mul_def flip: index_def)
qed

lemma div_ok:
  assumes "field_ok f" and "symbol a" and "symbol b"
  shows "div_sym f a b = (if a = 0 \<or> b = 0 then 0 else aseq (dlog a + (255 - dlog b)))"
proof -
  have "div_sym f a b = gen_div f a b"
    using assms by (simp add: div_sym_def field_ok_def at_map_upto del: upto_rec_numeral)
  moreover have "gen_div f a b = aseq (dlog a + (255 - dlog b))" if "a \<noteq> 0" "b \<noteq> 0"
  proof -
    have "gen_div f a b = at (alpha_to f) (normalize f (int (dlog a) - int (dlog b) + 255))"
      using index_ok [OF assms(1)] assms that by (simp add: gen_div_def field_ok_def flip: index_def)
    also have "int (dlog a) - int (dlog b) + 255 = int (dlog a + (255 - dlog b))"
      using aseq_dlog(2) [OF assms(3) that(2)] by simp
    finally show ?thesis by (simp only: alpha_normalize [OF assms(1)])
  qed
  ultimately show ?thesis by (simp add: gen_div_def)
qed

lemma inverse_ok:
  assumes "field_ok f" and "symbol a" and "a \<noteq> 0"
  shows "inverse_sym f a = aseq (255 - dlog a)"
proof -
  have "mul_inverse f = map (gen_inverse f) [0..255] @ map (gen_inverse f) [0..255]"
    using assms(1) unfolding field_ok_def by blast
  then have "inverse_sym f a = gen_inverse f a"
    unfolding inverse_sym_def by (simp only: at_map_upto(1) [OF assms(2)])
  also have "\<dots> = at (alpha_to f) (normalize f (255 - int (dlog a)))"
    using assms(1) index_ok [OF assms] by (simp add: gen_inverse_def field_ok_def index_def)
  also have "255 - int (dlog a) = int (255 - dlog a)" using aseq_dlog(2) [OF assms(2,3)] by simp
  finally show ?thesis by (simp only: alpha_normalize [OF assms(1)])
qed

lemma exp_ok:
  assumes "field_ok f" and "symbol a" and "n \<le> 255"
  shows "exp_sym f a (int n) = (if a = 0 then 0 else aseq (dlog a * n))"
proof -
  have "int n AND 255 = take_bit 8 (int n)" by (simp add: take_bit_eq_mask mask_eq_exp_minus_1)
  also have "\<dots> = int n" using assms(3) by (simp add: take_bit_int_eq_self_iff)
  finally have "exp_sym f a (int n) = gen_exp f a (int n)"
    using assms by (simp add: exp_sym_def field_ok_def at_map_upto del: upto_rec_numeral)
  then show ?thesis
    using alpha_normalize [OF assms(1), of "dlog a * n"] index_ok [OF assms(1)] assms(2)
    by (simp add: gen_exp_def flip: index_def)
qed

end
