(* ===== verification/GF256.thy ===== *)
theory GF256
  imports GaloisField
begin

text \<open>
  The field with 256 elements as a type of the class \<^verbatim>\<open>field\<close>, so that the library's algebra
  applies to it, and the proof that the table lookups of \<^verbatim>\<open>schifra::galois::field\<close> compute in it.
  Addition is the bitwise exclusive or; multiplication adds discrete logarithms.
\<close>

section \<open>Multiplication of symbols\<close>

definition gmul :: "int \<Rightarrow> int \<Rightarrow> int" where
  "gmul a b = (if a = 0 \<or> b = 0 then 0 else aseq (dlog a + dlog b))"

definition ginv :: "int \<Rightarrow> int" where
  "ginv a = (if a = 0 then 0 else aseq (255 - dlog a))"

lemma symbol_gmul [simp]: "symbol (gmul a b)"
  using symbol_aseq by (simp add: gmul_def)

lemma symbol_ginv [simp]: "symbol (ginv a)"
  using symbol_aseq by (simp add: ginv_def)

lemma dlog_aseq_mod: "dlog (aseq n) = n mod 255"
  by (metis aseq_mod dlog_aseq mod_less_divisor zero_less_numeral)

lemma gmul_aseq: "gmul (aseq i) (aseq j) = aseq (i + j)"
proof -
  have "(i mod 255 + j mod 255) mod 255 = (i + j) mod 255" by (simp add: mod_add_eq)
  then have "aseq (i mod 255 + j mod 255) = aseq (i + j)" by (metis aseq_mod)
  then show ?thesis by (simp add: gmul_def dlog_aseq_mod)
qed

lemma nonzero_aseq:
  assumes "symbol a" and "a \<noteq> 0"
  obtains i where "a = aseq i" and "i < 255"
  using aseq_dlog [OF assms] by metis

lemma gmul_power: "symbol b \<Longrightarrow> gmul (aseq i) b = (xtb ^^ i) b"
proof (cases "b = 0")
  case True
  have "(xtb ^^ i) 0 = 0" by (induction i) simp_all
  with True show ?thesis by (simp add: gmul_def)
next
  case False
  assume "symbol b"
  then obtain j where "b = aseq j" using False by (rule nonzero_aseq)
  then show ?thesis by (simp add: gmul_aseq aseq_add)
qed

lemma funpow_xtb_xor: "(xtb ^^ i) (a XOR b) = (xtb ^^ i) a XOR (xtb ^^ i) b"
  by (induction i) (simp_all add: xtb_xor)

lemma gmul_xor:
  assumes "symbol a" and "symbol b" and "symbol c"
  shows "gmul a (b XOR c) = gmul a b XOR gmul a c"
proof (cases "a = 0")
  case False
  then obtain i where "a = aseq i" using assms(1) nonzero_aseq by blast
  then show ?thesis using assms(2,3) symbol_xor [OF assms(2,3)] by (simp add: gmul_power funpow_xtb_xor)
qed (simp add: gmul_def)

lemma gmul_comm: "gmul a b = gmul b a"
  by (simp add: gmul_def add.commute)

lemma gmul_assoc:
  assumes "symbol a" and "symbol b" and "symbol c"
  shows "gmul (gmul a b) c = gmul a (gmul b c)"
proof (cases "a = 0 \<or> b = 0 \<or> c = 0")
  case False
  then obtain i j k where "a = aseq i" "b = aseq j" "c = aseq k" using assms nonzero_aseq by metis
  then show ?thesis by (simp add: gmul_aseq add.assoc)
qed (auto simp: gmul_def)

lemma gmul_1: "symbol a \<Longrightarrow> gmul 1 a = a"
  using gmul_power [of a 0] by simp

lemma gmul_ginv: "symbol a \<Longrightarrow> a \<noteq> 0 \<Longrightarrow> gmul (ginv a) a = 1"
proof -
  assume a: "symbol a" "a \<noteq> 0"
  then obtain i where i: "a = aseq i" "i < 255" by (rule nonzero_aseq)
  then have "gmul (ginv a) a = aseq (255 - i + i)" using a by (simp add: ginv_def dlog_aseq gmul_aseq)
  also have "\<dots> = 1" using i(2) by (simp add: aseq_255)
  finally show ?thesis .
qed

section \<open>The type\<close>

typedef gf256 = "{v :: int. symbol v}" morphisms symb gf
  by (rule exI [of _ 0]) simp

lemma symbol_symb [simp]: "symbol (symb a)"
  using symb [of a] by simp

lemma sym_gf: "symbol v \<Longrightarrow> symb (gf v) = v"
  by (rule gf_inverse) simp

lemma gf_eq_iff: "symbol a \<Longrightarrow> symbol b \<Longrightarrow> gf a = gf b \<longleftrightarrow> a = b"
  using gf_inject by simp

instantiation gf256 :: field
begin

definition zero_gf256 :: gf256 where "zero_gf256 = gf 0"
definition one_gf256 :: gf256 where "one_gf256 = gf 1"
definition plus_gf256 :: "gf256 \<Rightarrow> gf256 \<Rightarrow> gf256" where "plus_gf256 a b = gf (symb a XOR symb b)"
definition uminus_gf256 :: "gf256 \<Rightarrow> gf256" where "uminus_gf256 a = a"
definition minus_gf256 :: "gf256 \<Rightarrow> gf256 \<Rightarrow> gf256" where "minus_gf256 a b = gf (symb a XOR symb b)"
definition times_gf256 :: "gf256 \<Rightarrow> gf256 \<Rightarrow> gf256" where "times_gf256 a b = gf (gmul (symb a) (symb b))"
definition inverse_gf256 :: "gf256 \<Rightarrow> gf256" where "inverse_gf256 a = gf (ginv (symb a))"
definition divide_gf256 :: "gf256 \<Rightarrow> gf256 \<Rightarrow> gf256" where
  "divide_gf256 a b = gf (gmul (symb a) (ginv (symb b)))"

lemma sym_ops:
  "symb (0 :: gf256) = 0" "symb (1 :: gf256) = 1" "symb (a + b) = symb a XOR symb b"
  "symb (a - b) = symb a XOR symb b" "symb (a * b) = gmul (symb a) (symb b)" "symb (inverse a) = ginv (symb a)"
  "symb (a div b) = gmul (symb a) (ginv (symb b))"
  by (simp_all add: zero_gf256_def one_gf256_def plus_gf256_def minus_gf256_def times_gf256_def
      inverse_gf256_def divide_gf256_def sym_gf symbol_xor)

instance
proof
  fix a b c :: gf256
  note eq = symb_inject [symmetric]
  show "a * b * c = a * (b * c)" unfolding eq by (simp add: sym_ops gmul_assoc)
  show "a * b = b * a" unfolding eq by (simp add: sym_ops gmul_comm)
  show "1 * a = a" unfolding eq by (simp add: sym_ops gmul_1)
  show "a + b + c = a + (b + c)" unfolding eq by (simp add: sym_ops xor.assoc)
  show "a + b = b + a" unfolding eq by (simp add: sym_ops xor.commute)
  show "0 + a = a" unfolding eq by (simp add: sym_ops)
  show "- a + a = 0" unfolding eq by (simp add: sym_ops uminus_gf256_def)
  show "a - b = a + - b" unfolding eq by (simp add: sym_ops uminus_gf256_def)
  show "(a + b) * c = a * c + b * c" unfolding eq by (simp add: sym_ops gmul_comm [of _ "symb c"] gmul_xor)
  show "(0 :: gf256) \<noteq> 1" unfolding eq by (simp add: sym_ops)
  show "a \<noteq> 0 \<Longrightarrow> inverse a * a = 1" unfolding eq by (simp add: sym_ops gmul_ginv)
  show "a div b = a * inverse b" unfolding eq by (simp add: sym_ops)
  show "inverse (0 :: gf256) = 0" unfolding eq by (simp add: sym_ops ginv_def)
qed

end

lemma gf_add_self [simp]: "(a :: gf256) + a = 0"
  by (simp add: plus_gf256_def zero_gf256_def)

lemma gf_minus_eq: "(a :: gf256) - b = a + b"
  by (simp add: plus_gf256_def minus_gf256_def)

lemma gf_uminus [simp]: "- (a :: gf256) = a"
  by (simp add: uminus_gf256_def)

lemma gf_add_eq_0: "(a :: gf256) + b = 0 \<longleftrightarrow> a = b"
  by (metis eq_iff_diff_eq_0 gf_minus_eq)

section \<open>The tables compute in the field\<close>

lemma gf_0 [simp]: "gf 0 = 0" and gf_1 [simp]: "gf 1 = 1"
  by (simp_all add: zero_gf256_def one_gf256_def)

lemma gf_xor: "symbol a \<Longrightarrow> symbol b \<Longrightarrow> gf (a XOR b) = gf a + gf b"
  by (simp add: plus_gf256_def sym_gf)

lemma gf_eq_0: "symbol a \<Longrightarrow> gf a = 0 \<longleftrightarrow> a = 0"
  using gf_eq_iff [of a 0] by simp

text \<open>The generator and its powers.\<close>

definition gen :: gf256 where "gen = gf 2"

lemma gf_aseq: "gf (aseq n) = gen ^ n"
proof (induction n)
  case (Suc n)
  have "aseq (Suc n) = gmul (aseq 1) (aseq n)" by (simp only: gmul_aseq plus_1_eq_Suc)
  moreover have "aseq 1 = 2" by (simp add: xt_def)
  ultimately have "gf (aseq (Suc n)) = gf 2 * gf (aseq n)" by (simp add: times_gf256_def sym_gf)
  with Suc show ?case by (simp add: gen_def)
qed simp

lemma gen_power_255: "gen ^ 255 = 1"
  using gf_aseq [of 255] by (simp add: aseq_255)

lemma gen_power_inj: "i < 255 \<Longrightarrow> j < 255 \<Longrightarrow> gen ^ i = gen ^ j \<Longrightarrow> i = j"
  using inj_onD [OF aseq_inj, of i j] gf_eq_iff [of "aseq i" "aseq j"] symbol_aseq by (simp flip: gf_aseq)

lemma gen_nonzero [simp]: "gen \<noteq> 0"
  using gf_eq_0 [of 2] by (simp add: gen_def)

lemma gf_mul:
  "field_ok f \<Longrightarrow> symbol a \<Longrightarrow> symbol b \<Longrightarrow> gf (mul f a b) = gf a * gf b"
  by (simp add: mul_ok times_gf256_def sym_gf gmul_def)

lemma symbol_mul: "field_ok f \<Longrightarrow> symbol a \<Longrightarrow> symbol b \<Longrightarrow> symbol (mul f a b)"
  using symbol_aseq by (simp add: mul_ok)

lemma gf_inverse_sym:
  assumes "field_ok f" and "symbol a" and "a \<noteq> 0"
  shows "gf (inverse_sym f a) = inverse (gf a)"
  using assms by (simp add: inverse_ok inverse_gf256_def sym_gf ginv_def)

lemma symbol_inverse: "field_ok f \<Longrightarrow> symbol a \<Longrightarrow> a \<noteq> 0 \<Longrightarrow> symbol (inverse_sym f a)"
  using symbol_aseq by (simp add: inverse_ok)

lemma symbol_div: "field_ok f \<Longrightarrow> symbol a \<Longrightarrow> symbol b \<Longrightarrow> symbol (div_sym f a b)"
  using symbol_aseq by (simp add: div_ok)

lemma gf_div:
  assumes "field_ok f" and "symbol a" and "symbol b"
  shows "gf (div_sym f a b) = gf a / gf b"
proof (cases "a = 0 \<or> b = 0")
  case True
  then show ?thesis using assms by (auto simp: div_ok)
next
  case False
  then have "aseq (dlog a) = a" "aseq (255 - dlog b) = ginv b" using aseq_dlog assms by (simp_all add: ginv_def)
  then have "aseq (dlog a + (255 - dlog b)) = gmul a (ginv b)" by (metis gmul_aseq)
  then show ?thesis using assms False by (simp add: div_ok divide_gf256_def sym_gf)
qed

lemma symbol_exp: "field_ok f \<Longrightarrow> symbol a \<Longrightarrow> n \<le> 255 \<Longrightarrow> symbol (exp_sym f a (int n))"
  using symbol_aseq by (simp add: exp_ok)

text \<open>\<^verbatim>\<open>exp(0, 0)\<close> is 0 in the code; everywhere else it is the power.\<close>

lemma gf_exp:
  assumes "field_ok f" and "symbol a" and "n \<le> 255" and "a \<noteq> 0 \<or> 0 < n"
  shows "gf (exp_sym f a (int n)) = gf a ^ n"
proof (cases "a = 0")
  case True
  then show ?thesis using assms by (simp add: exp_ok zero_power)
next
  case False
  then have "gf (aseq (dlog a * n)) = gf (aseq (dlog a)) ^ n" by (simp add: gf_aseq power_mult)
  then show ?thesis using assms False aseq_dlog(1) [OF assms(2) False] by (simp add: exp_ok)
qed

lemma gf_alpha: "field_ok f \<Longrightarrow> 0 \<le> i \<Longrightarrow> i \<le> 255 \<Longrightarrow> gf (alpha f i) = gen ^ nat i"
  by (simp add: alpha_ok gf_aseq)

lemma symbol_alpha: "field_ok f \<Longrightarrow> 0 \<le> i \<Longrightarrow> i \<le> 255 \<Longrightarrow> symbol (alpha f i)"
  using symbol_aseq by (simp add: alpha_ok)

section \<open>Properties\<close>

text \<open>
  C10: the tables the program's field is built with are those of the field with 256 elements.
  Whatever the arrays contained before and whatever word is read behind the primitive
  polynomial, addition, multiplication, division, inversion and powers up to 255 of two
  symbols are the field operations, and the results are symbols again.
\<close>

theorem field_tables_compute:
  assumes "symbol a" and "symbol b" and "0 < n" and "n \<le> 255"
    and "f = rs_field al ix beyond"
  shows "gf (gf_add a b) = gf a + gf b \<and> gf (mul f a b) = gf a * gf b \<and> gf (div_sym f a b) = gf a / gf b \<and>
     (a \<noteq> 0 \<longrightarrow> gf (inverse_sym f a) = inverse (gf a)) \<and> gf (exp_sym f a (int n)) = gf a ^ n \<and>
     symbol (mul f a b) \<and> symbol (div_sym f a b) \<and> symbol (exp_sym f a (int n))"
proof -
  have f: "field_ok f" unfolding assms(5) by (rule rs_field_ok)
  show ?thesis using assms(1-4) gf_mul [OF f] gf_div [OF f] gf_inverse_sym [OF f] gf_exp [OF f, of a n]
      symbol_mul [OF f assms(1,2)] symbol_div [OF f assms(1,2)] symbol_exp [OF f assms(1,4)]
    by (simp only: gf_add_def gf_xor) simp
qed

theorem field_tables_compute_witness:
  "gf (mul (rs_field (\<lambda>_. 9) (\<lambda>_. -5) 77) 3 200) = gf 3 * gf 200"
  using field_tables_compute [of 3 200 1, OF _ _ _ _ refl, of "\<lambda>_. 9" "\<lambda>_. -5" 77] by simp

text \<open>
  From 256 on, \<^verbatim>\<open>exp\<close> masks the exponent with the field size instead of reducing it modulo the
  order of the group, so the result is wrong: the power 256 of a non-zero element is the
  element itself, and the code answers 1.
\<close>

theorem exp_masks_exponent:
  assumes "symbol a" and "a \<noteq> 0"
  shows "exp_sym (rs_field al ix beyond) a 256 = 1 \<and> gf a ^ 256 = gf a"
proof -
  have "exp_sym (rs_field al ix beyond) a 256 = exp_sym (rs_field al ix beyond) a 0"
    using rs_field_ok [of al ix beyond] by (simp add: exp_sym_def field_ok_def)
  also have "\<dots> = 1" using exp_ok [OF rs_field_ok assms(1), of 0 al ix beyond] assms(2) by simp
  finally have 1: "exp_sym (rs_field al ix beyond) a 256 = 1" .
  have "gf a = gen ^ dlog a" using aseq_dlog(1) [OF assms] by (simp flip: gf_aseq)
  moreover have "(gen ^ dlog a) ^ 256 = (gen ^ 255) ^ dlog a * gen ^ dlog a"
    by (simp add: mult.commute flip: power_mult power_add)
  ultimately show ?thesis using 1 gen_power_255 by simp
qed

end
