(* ===== verification/FieldPolynomial.thy ===== *)
theory FieldPolynomial
  imports GF256
begin

text \<open>
  The classes \<^verbatim>\<open>field_element\<close> and \<^verbatim>\<open>field_polynomial\<close> of the Galois-field library. An element is
  its symbol; a polynomial is the list of its coefficients, lowest power first, exactly as
  the vector \<^verbatim>\<open>poly_\<close> holds them. All polynomials of one computation belong to one field, so
  the checks for equal fields are always true. Access outside the vector trips an assertion:
  \<^term>\<open>None\<close>.
\<close>

section \<open>field\_element\<close>

definition elem_of_symbol :: "gfield \<Rightarrow> field_symbol \<Rightarrow> field_symbol" where
  "elem_of_symbol f v = v AND field_size f"

definition elem_add :: "field_symbol \<Rightarrow> field_symbol \<Rightarrow> field_symbol" where
  "elem_add a b = a XOR b"

definition elem_mul :: "gfield \<Rightarrow> field_symbol \<Rightarrow> field_symbol \<Rightarrow> field_symbol" where
  "elem_mul f a b = mul f a b"

definition elem_div :: "gfield \<Rightarrow> field_symbol \<Rightarrow> field_symbol \<Rightarrow> field_symbol" where
  "elem_div f a b = div_sym f a b"

definition elem_pow :: "gfield \<Rightarrow> field_symbol \<Rightarrow> int \<Rightarrow> field_symbol" where
  "elem_pow f a n = exp_sym f a n"

text \<open>Subtraction is addition; comparison with another element asks for equal fields too.\<close>

definition elem_sub :: "field_symbol \<Rightarrow> field_symbol \<Rightarrow> field_symbol" where
  "elem_sub a b = elem_add a b"

definition elem_eq :: "gfield \<Rightarrow> field_symbol \<Rightarrow> gfield \<Rightarrow> field_symbol \<Rightarrow> bool" where
  "elem_eq f a g b \<longleftrightarrow> field_eq f g \<and> a = b"

definition elem_index :: "gfield \<Rightarrow> field_symbol \<Rightarrow> field_symbol" where
  "elem_index f a = index f a"

definition elem_inverse :: "gfield \<Rightarrow> field_symbol \<Rightarrow> field_symbol" where
  "elem_inverse f a = inverse_sym f a"

definition elem_normalize :: "gfield \<Rightarrow> field_symbol \<Rightarrow> field_symbol" where
  "elem_normalize f a = a AND field_size f"

text \<open>
  The value of a new element, assignment, which is ignored between elements of different fields
  (\<open>same\<close>: the two refer to one field object), and the order of the symbols.
\<close>

definition elem_new :: field_symbol where
  "elem_new = - 1"

definition elem_assign :: "bool \<Rightarrow> field_symbol \<Rightarrow> field_symbol \<Rightarrow> field_symbol" where
  "elem_assign same a b = (if same then b else a)"

definition elem_ne :: "gfield \<Rightarrow> field_symbol \<Rightarrow> gfield \<Rightarrow> field_symbol \<Rightarrow> bool" where
  "elem_ne f a g b \<longleftrightarrow> \<not> field_eq f g \<or> a \<noteq> b"

definition elem_less :: "field_symbol \<Rightarrow> field_symbol \<Rightarrow> bool" where
  "elem_less a b \<longleftrightarrow> a < b"

definition elem_greater :: "field_symbol \<Rightarrow> field_symbol \<Rightarrow> bool" where
  "elem_greater a b \<longleftrightarrow> a > b"

text \<open>The binary operators copy their first operand and apply the assignment; \<^verbatim>\<open>a * b\<close> with a symbol
  on the left copies the second.\<close>

definition elem_plus :: "field_symbol \<Rightarrow> field_symbol \<Rightarrow> field_symbol" where
  "elem_plus a b = (let result = a in elem_add result b)"

definition elem_minus :: "field_symbol \<Rightarrow> field_symbol \<Rightarrow> field_symbol" where
  "elem_minus a b = (let result = a in elem_sub result b)"

definition elem_times :: "gfield \<Rightarrow> field_symbol \<Rightarrow> field_symbol \<Rightarrow> field_symbol" where
  "elem_times f a b = (let result = a in elem_mul f result b)"

definition symbol_times :: "gfield \<Rightarrow> field_symbol \<Rightarrow> field_symbol \<Rightarrow> field_symbol" where
  "symbol_times f a b = (let result = b in elem_mul f result a)"

definition elem_over :: "gfield \<Rightarrow> field_symbol \<Rightarrow> field_symbol \<Rightarrow> field_symbol" where
  "elem_over f a b = (let result = a in elem_div f result b)"

definition elem_power :: "gfield \<Rightarrow> field_symbol \<Rightarrow> int \<Rightarrow> field_symbol" where
  "elem_power f a b = (let result = a in elem_pow f result b)"

section \<open>field\_polynomial\<close>

type_synonym fpoly = "field_symbol list"

definition fp_zero :: "nat \<Rightarrow> fpoly" where
  "fp_zero degree = replicate (degree + 1) 0"

text \<open>
  The constructors from an array of coefficients, zeros for a null array, and from one element.
\<close>

definition fp_of_array :: "nat \<Rightarrow> field_symbol list option \<Rightarrow> fpoly" where
  "fp_of_array degree element = (case element of None \<Rightarrow> fp_zero degree | Some cs \<Rightarrow> take (degree + 1) cs)"

definition fp_of_elem :: "field_symbol \<Rightarrow> fpoly" where
  "fp_of_elem e = [e]"

definition fp_at :: "fpoly \<Rightarrow> nat \<Rightarrow> field_symbol option" where
  "fp_at p term = (if term < length p then Some (p ! term) else None)"

definition fp_valid :: "fpoly \<Rightarrow> bool" where
  "fp_valid p \<longleftrightarrow> length p > 0"

definition deg :: "fpoly \<Rightarrow> int" where
  "deg p = int (length p) - 1"

text \<open>\<^verbatim>\<open>resize(n, 0)\<close> of a vector.\<close>

definition resize :: "nat \<Rightarrow> fpoly \<Rightarrow> fpoly" where
  "resize n p = take n p @ replicate (n - length p) 0"

text \<open>\<^verbatim>\<open>set_degree\<close> leaves two coefficients too few; the unsigned argument 0 wraps around.\<close>

definition set_degree :: "nat \<Rightarrow> fpoly \<Rightarrow> fpoly" where
  "set_degree x p = resize (if x = 0 then 2 ^ 32 - 1 else x - 1) p"

text \<open>\<^verbatim>\<open>simplify\<close> counts the zeros at the end and cuts them off.\<close>

definition simplify :: "fpoly \<Rightarrow> fpoly" where
  "simplify p = (let count = length (takeWhile (\<lambda>c. c = 0) (rev p)) in take (length p - count) p)"

definition fp_add :: "fpoly \<Rightarrow> fpoly \<Rightarrow> fpoly" where
  "fp_add p q =
     simplify (if length p < length q
               then map2 elem_add p q @ drop (length p) q
               else map2 elem_add p q @ drop (length q) p)"

definition fp_add_elem :: "fpoly \<Rightarrow> field_symbol \<Rightarrow> fpoly option" where
  "fp_add_elem p e = (case p of [] \<Rightarrow> None | c # cs \<Rightarrow> Some (elem_add c e # cs))"

definition fp_sub :: "fpoly \<Rightarrow> fpoly \<Rightarrow> fpoly" where
  "fp_sub p q = fp_add p q"

definition fp_sub_elem :: "fpoly \<Rightarrow> field_symbol \<Rightarrow> fpoly option" where
  "fp_sub_elem p e = fp_add_elem p e"

definition fp_mul :: "gfield \<Rightarrow> fpoly \<Rightarrow> fpoly \<Rightarrow> fpoly" where
  "fp_mul f p q =
     simplify
       (fold (\<lambda>a product.
          fold (\<lambda>b product. product[a + b := elem_add (product ! (a + b)) (elem_mul f (p ! a) (q ! b))])
            [0..<length q] product)
        [0..<length p] (replicate (length p + length q) 0))"

definition fp_mul_elem :: "gfield \<Rightarrow> fpoly \<Rightarrow> field_symbol \<Rightarrow> fpoly" where
  "fp_mul_elem f p e = map (\<lambda>c. elem_mul f c e) p"

definition fp_div_elem :: "gfield \<Rightarrow> fpoly \<Rightarrow> field_symbol \<Rightarrow> fpoly" where
  "fp_div_elem f p e = map (\<lambda>c. elem_div f c e) p"

text \<open>
  The division loop shared by \<^verbatim>\<open>/=\<close> and \<^verbatim>\<open>%=\<close>: one step for the coefficient \<open>i\<close> of the dividend,
  with quotient and remainder as state. The remainder is shifted up by one place; from the
  top index of the quotient on, a multiple of the divisor is subtracted as well.
\<close>

definition div_step :: "gfield \<Rightarrow> fpoly \<Rightarrow> fpoly \<Rightarrow> nat \<Rightarrow> fpoly \<times> fpoly \<Rightarrow> fpoly \<times> fpoly" where
  "div_step f p divisor i st =
     (case st of (quo, rmd) \<Rightarrow>
        if int i \<le> deg quo then
          let q = elem_div f (last rmd) (last divisor)
          in (quo[i := q],
              elem_add (p ! i) (elem_mul f q (divisor ! 0)) #
              map (\<lambda>j. elem_add (rmd ! (j - 1)) (elem_mul f q (divisor ! j))) [1..<length rmd])
        else (quo, p ! i # map (\<lambda>j. rmd ! (j - 1)) [1..<length rmd]))"

text \<open>A divisor of degree 0 leaves the remainder without coefficients to access.\<close>

definition fp_divide :: "gfield \<Rightarrow> fpoly \<Rightarrow> fpoly \<Rightarrow> (fpoly \<times> fpoly) option" where
  "fp_divide f p divisor =
     (if deg divisor = 0 then None
      else Some (fold (div_step f p divisor) (rev [0..<length p])
             (replicate (length p - length divisor + 2) 0, replicate (length divisor - 1) 0)))"

definition fp_div :: "gfield \<Rightarrow> fpoly \<Rightarrow> fpoly \<Rightarrow> fpoly option" where
  "fp_div f p divisor =
     (if deg p \<ge> deg divisor \<and> deg divisor \<ge> 0
      then map_option (\<lambda>(quo, rmd). simplify quo) (fp_divide f p divisor)
      else Some p)"

definition fp_mod :: "gfield \<Rightarrow> fpoly \<Rightarrow> fpoly \<Rightarrow> fpoly option" where
  "fp_mod f p divisor =
     (if deg p \<ge> deg divisor \<and> deg divisor \<ge> 0
      then map_option snd (fp_divide f p divisor)
      else Some p)"

definition fp_mod_power :: "fpoly \<Rightarrow> nat \<Rightarrow> fpoly" where
  "fp_mod_power p n = (if length p \<ge> n then simplify (resize n p) else p)"

text \<open>\<^verbatim>\<open>^=\<close> starts from the polynomial itself and multiplies \<open>n\<close> times more.\<close>

definition fp_pow :: "gfield \<Rightarrow> fpoly \<Rightarrow> nat \<Rightarrow> fpoly" where
  "fp_pow f p n = ((\<lambda>result. fp_mul f result p) ^^ n) p"

definition fp_shl :: "fpoly \<Rightarrow> nat \<Rightarrow> fpoly" where
  "fp_shl p n = (if length p > 0 then replicate n 0 @ p else p)"

text \<open>
  \<^verbatim>\<open>>>=\<close>: for a shift by the full length the loop bound \<^verbatim>\<open>deg() - n\<close> is the largest unsigned
  number and the loop leaves the vector.
\<close>

definition fp_shr :: "fpoly \<Rightarrow> nat \<Rightarrow> fpoly option" where
  "fp_shr p n = (if n < length p then Some (drop n p) else if n = length p then None else Some [])"

definition fp_eval :: "gfield \<Rightarrow> fpoly \<Rightarrow> field_symbol \<Rightarrow> field_symbol" where
  "fp_eval f p value =
     fold (\<lambda>i total_sum. total_sum XOR mul f (exp_sym f value (int i)) (p ! i)) [0..<length p] 0"

definition fp_eq :: "fpoly \<Rightarrow> fpoly \<Rightarrow> bool" where
  "fp_eq p q \<longleftrightarrow> length p = length q \<and> (\<forall>i<length p. q ! i = p ! i)"

definition derivative :: "fpoly \<Rightarrow> fpoly" where
  "derivative p =
     (if length p > 1
      then simplify (map (\<lambda>i. if even i \<and> i < length p - 1 then p ! (i + 1) else 0) [0..<length p])
      else fp_zero 0)"

definition monic :: "fpoly \<Rightarrow> bool" where
  "monic p \<longleftrightarrow> last p = 1"

definition generate_X :: fpoly where
  "generate_X = [0, 1]"

text \<open>
  \<^verbatim>\<open>gcd\<close> with its remainder loop; \<open>fuel\<close> bounds the rounds.
\<close>

fun gcd_loop :: "nat \<Rightarrow> gfield \<Rightarrow> fpoly \<Rightarrow> fpoly \<Rightarrow> fpoly option" where
  "gcd_loop 0 f y x = None"
| "gcd_loop (Suc fuel) f y x =
     (case fp_mod f y x of
        None \<Rightarrow> None
      | Some z \<Rightarrow> if fp_valid z then gcd_loop fuel f x z else Some x)"

definition fp_gcd :: "nat \<Rightarrow> gfield \<Rightarrow> fpoly \<Rightarrow> fpoly \<Rightarrow> fpoly option" where
  "fp_gcd fuel f a b =
     (if \<not> fp_valid a \<and> \<not> fp_valid b then Some []
      else if \<not> fp_valid a then Some b
      else if \<not> fp_valid b then Some a
      else case fp_mod f a b of None \<Rightarrow> None | Some x \<Rightarrow> gcd_loop fuel f b x)"

text \<open>The generator polynomial with a run of consecutive powers of the generator as roots.\<close>

definition make_sequential_root_generator_polynomial ::
  "gfield \<Rightarrow> nat \<Rightarrow> nat \<Rightarrow> fpoly option" where
  "make_sequential_root_generator_polynomial f initial_index num_elements =
     (if int initial_index \<ge> field_size f \<or> int (initial_index + num_elements) > field_size f then None
      else Some (fold (\<lambda>i g. fp_mul f g [elem_add 0 (elem_pow f 2 (int i)), 1])
             [initial_index..<initial_index + num_elements] [1]))"

end
