(* ===== verification/PolyEval.thy ===== *)
theory PolyEval
  imports FieldPolynomial
begin

text \<open>
  What the polynomial operations compute, in terms of values: a coefficient list over the
  field of 256 elements is evaluated at a point, and every operation of \<^verbatim>\<open>field_polynomial\<close> is
  related to the values of its arguments.
\<close>

section \<open>Evaluation of coefficient lists\<close>

definition ev :: "gf256 list \<Rightarrow> gf256 \<Rightarrow> gf256" where
  "ev cs x = (\<Sum>i<length cs. cs ! i * x ^ i)"

lemma ev_Nil [simp]: "ev [] x = 0"
  by (simp add: ev_def)

lemma ev_Cons: "ev (c # cs) x = c + x * ev cs x"
proof -
  have "ev (c # cs) x = c + (\<Sum>i<length cs. (c # cs) ! Suc i * x ^ Suc i)"
    unfolding ev_def by (simp only: length_Cons sum.lessThan_Suc_shift) simp
  also have "(\<Sum>i<length cs. (c # cs) ! Suc i * x ^ Suc i) = x * ev cs x"
    unfolding ev_def by (simp add: sum_distrib_left mult.left_commute)
  finally show ?thesis .
qed

lemma ev_append: "ev (p @ q) x = ev p x + x ^ length p * ev q x"
  by (induction p) (simp_all add: ev_Cons algebra_simps)

lemma ev_replicate_0 [simp]: "ev (replicate n 0) x = 0"
  by (induction n) (simp_all add: ev_Cons)

lemma ev_map_mult: "ev (map ((*) c) p) x = c * ev p x"
  by (induction p) (simp_all add: ev_Cons algebra_simps)

lemma ev_update:
  assumes "i < length xs"
  shows "ev (xs[i := xs ! i + v]) x = ev xs x + v * x ^ i"
proof -
  have xs: "xs = take i xs @ xs ! i # drop (Suc i) xs" using assms by (rule id_take_nth_drop)
  have "ev (xs[i := xs ! i + v]) x = ev (take i xs @ (xs ! i + v) # drop (Suc i) xs) x"
    using assms by (simp add: upd_conv_take_nth_drop)
  also have "\<dots> = ev (take i xs @ xs ! i # drop (Suc i) xs) x + v * x ^ i"
    using assms by (simp add: ev_append ev_Cons algebra_simps)
  finally show ?thesis using xs by simp
qed

lemma ev_map2_plus:
  "length p \<le> length q \<Longrightarrow> ev (map2 (+) p q @ drop (length p) q) x = ev p x + ev q x"
proof (induction p arbitrary: q)
  case (Cons a p)
  then obtain b r where "q = b # r" by (cases q) auto
  with Cons show ?case by (simp add: ev_Cons algebra_simps)
qed simp

section \<open>Symbols as field elements\<close>

abbreviation symbols :: "fpoly \<Rightarrow> bool" where "symbols p \<equiv> list_all symbol p"
abbreviation gp :: "fpoly \<Rightarrow> gf256 list" where "gp p \<equiv> map gf p"

lemma symbols_nth: "symbols p \<Longrightarrow> i < length p \<Longrightarrow> symbol (p ! i)"
  by (simp add: list_all_length)

lemma simplify_split:
  "\<exists>k. p = simplify p @ replicate k 0"
proof -
  let ?z = "takeWhile (\<lambda>c. c = 0) (rev p)"
  have z: "rev ?z = replicate (length ?z) 0"
    by (rule replicate_eqI) (auto dest: set_takeWhileD)
  have "p = rev (dropWhile (\<lambda>c. c = 0) (rev p)) @ rev ?z"
    by (metis rev_append rev_rev_ident takeWhile_dropWhile_id)
  moreover have "simplify p = rev (dropWhile (\<lambda>c. c = 0) (rev p))"
    unfolding simplify_def Let_def
    by (metis (no_types) append_eq_conv_conj calculation diff_add_inverse2 length_append length_rev)
  ultimately show ?thesis using z by metis
qed

lemma symbols_simplify [simp]: "symbols p \<Longrightarrow> symbols (simplify p)"
  by (metis simplify_split list_all_append)

lemma ev_simplify [simp]: "ev (gp (simplify p)) x = ev (gp p) x"
proof -
  obtain k where k: "p = simplify p @ replicate k 0" using simplify_split by blast
  have "gp p = gp (simplify p) @ replicate k 0" by (subst k) simp
  then show ?thesis by (simp add: ev_append)
qed

lemma simplify_id: "p \<noteq> [] \<Longrightarrow> last p \<noteq> 0 \<Longrightarrow> simplify (p @ replicate k 0) = p"
proof -
  assume p: "p \<noteq> []" "last p \<noteq> 0"
  have "takeWhile (\<lambda>c. c = 0) (rev (p @ replicate k 0)) = replicate k 0"
    using p by (simp add: takeWhile_append hd_rev flip: hd_rev) (cases "rev p"; simp)
  then show ?thesis by (simp add: simplify_def)
qed

lemma gp_map2: "symbols p \<Longrightarrow> symbols q \<Longrightarrow> gp (map2 elem_add p q) = map2 (+) (gp p) (gp q)"
proof (induction p arbitrary: q)
  case (Cons a p)
  then show ?case by (cases q) (auto simp: elem_add_def gf_xor)
qed simp

lemma symbols_map2: "symbols p \<Longrightarrow> symbols q \<Longrightarrow> symbols (map2 elem_add p q)"
proof (induction p arbitrary: q)
  case (Cons a p)
  then show ?case using symbol_xor by (cases q) (auto simp: elem_add_def)
qed simp

lemma symbols_drop: "symbols p \<Longrightarrow> symbols (drop n p)"
  by (auto simp: list_all_iff dest: in_set_dropD)

lemma symbols_fp_add: "symbols p \<Longrightarrow> symbols q \<Longrightarrow> symbols (fp_add p q)"
  by (simp add: fp_add_def symbols_map2 symbols_drop)

lemma map2_plus_commute: "map2 (+) p q = map2 (+) q (p :: gf256 list)"
proof (induction p arbitrary: q)
  case (Cons a p)
  then show ?case by (cases q) (simp_all add: add.commute)
qed simp

lemma ev_fp_add:
  assumes "symbols p" and "symbols q"
  shows "ev (gp (fp_add p q)) x = ev (gp p) x + ev (gp q) x"
proof (cases "length p < length q")
  case True
  then show ?thesis using ev_map2_plus [of "gp p" "gp q" x] assms
    by (simp add: fp_add_def gp_map2 drop_map del: map_map)
next
  case False
  then show ?thesis using ev_map2_plus [of "gp q" "gp p" x] assms
    by (simp add: fp_add_def gp_map2 drop_map map2_plus_commute [of "gp p"] add.commute del: map_map)
qed

section \<open>Multiplication\<close>

text \<open>The accumulating loops as one sequence of updates \<^verbatim>\<open>product[k] += v\<close>.\<close>

definition accumulate :: "(nat \<times> gf256) list \<Rightarrow> gf256 list \<Rightarrow> gf256 list" where
  "accumulate us c = fold (\<lambda>(k, v) c. c[k := c ! k + v]) us c"

lemma length_accumulate [simp]: "length (accumulate us c) = length c"
  unfolding accumulate_def by (induction us arbitrary: c) auto

lemma ev_accumulate:
  "list_all (\<lambda>(k, v). k < length c) us \<Longrightarrow>
     ev (accumulate us c) x = ev c x + sum_list (map (\<lambda>(k, v). v * x ^ k) us)"
  unfolding accumulate_def
proof (induction us arbitrary: c)
  case (Cons u us)
  obtain k v where u: "u = (k, v)" by fastforce
  from Cons.IH [of "c[k := c ! k + v]"] Cons.prems show ?case by (simp add: u ev_update add.assoc)
qed simp

lemma nth_accumulate:
  "list_all (\<lambda>(k, v). k < length c) us \<Longrightarrow> n < length c \<Longrightarrow>
     accumulate us c ! n = c ! n + sum_list (map snd (filter (\<lambda>(k, v). k = n) us))"
  unfolding accumulate_def
proof (induction us arbitrary: c)
  case (Cons u us)
  obtain k v where u: "u = (k, v)" by fastforce
  from Cons.IH [of "c[k := c ! k + v]"] Cons.prems show ?case by (auto simp: u nth_list_update add.assoc)
qed simp

lemma gp_accumulate:
  assumes "list_all (\<lambda>(k, v). k < length c \<and> symbol v) us" and "symbols c"
  shows "gp (fold (\<lambda>(k, v) c. c[k := elem_add (c ! k) v]) us c) = accumulate (map (apsnd gf) us) (gp c)"
    and "symbols (fold (\<lambda>(k, v) c. c[k := elem_add (c ! k) v]) us c)"
proof -
  have "gp (fold (\<lambda>(k, v) c. c[k := elem_add (c ! k) v]) us c) = accumulate (map (apsnd gf) us) (gp c) \<and>
    symbols (fold (\<lambda>(k, v) c. c[k := elem_add (c ! k) v]) us c)"
    using assms
  proof (induction us arbitrary: c)
    case Nil
    then show ?case by (simp add: accumulate_def)
  next
    case (Cons u us)
    obtain k v where u: "u = (k, v)" by fastforce
    let ?c = "c[k := elem_add (c ! k) v]"
    have k: "k < length c" "symbol v" "symbol (c ! k)" using Cons.prems u by (auto simp: list_all_length)
    have s: "symbols ?c" using Cons.prems(2) symbol_xor [OF k(3,2)]
      by (auto simp: list_all_iff elem_add_def dest!: set_update_subset_insert [THEN subsetD])
    have g: "gp ?c = (gp c)[k := gp c ! k + gf v]" using k by (simp add: map_update elem_add_def gf_xor)
    have "list_all (\<lambda>(i, v). i < length ?c \<and> symbol v) us" using Cons.prems by simp
    from Cons.IH [OF this s] show ?case unfolding g by (simp add: u accumulate_def)
  qed
  then show "gp (fold (\<lambda>(k, v) c. c[k := elem_add (c ! k) v]) us c) = accumulate (map (apsnd gf) us) (gp c)"
    "symbols (fold (\<lambda>(k, v) c. c[k := elem_add (c ! k) v]) us c)" by simp_all
qed

lemma fold_nested: "fold (\<lambda>a. fold (F a) bs) as s = fold (\<lambda>(a, b). F a b) (List.product as bs) s"
proof (induction as arbitrary: s)
  case (Cons a as)
  have "fold (F a) bs s = fold (\<lambda>(a, b). F a b) (map (Pair a) bs) s" for s
    by (simp add: fold_map comp_def)
  with Cons show ?case by simp
qed simp

definition products :: "gf256 list \<Rightarrow> gf256 list \<Rightarrow> (nat \<times> gf256) list" where
  "products p q = map (\<lambda>(a, b). (a + b, p ! a * q ! b)) (List.product [0..<length p] [0..<length q])"

lemma products_bound: "list_all (\<lambda>(k, v). k < length p + length q) (products p q)"
  by (auto simp: products_def list_all_iff)

lemma fp_mul_accumulate:
  assumes f: "field_ok f" and p: "symbols p" and q: "symbols q"
  shows "\<exists>r. fp_mul f p q = simplify r \<and> symbols r \<and>
     gp r = accumulate (products (gp p) (gp q)) (replicate (length p + length q) 0)"
proof -
  let ?us = "map (\<lambda>(a, b). (a + b, mul f (p ! a) (q ! b))) (List.product [0..<length p] [0..<length q])"
  let ?c = "replicate (length p + length q) (0 :: int)"
  let ?r = "fold (\<lambda>(k, v) c. c[k := elem_add (c ! k) v]) ?us ?c"
  have "fp_mul f p q = simplify ?r"
    unfolding fp_mul_def fold_nested by (simp add: fold_map comp_def split_def elem_mul_def)
  moreover have us: "list_all (\<lambda>(k, v). k < length ?c \<and> symbol v) ?us"
    using symbol_mul [OF f] symbols_nth [OF p] symbols_nth [OF q] by (auto simp: list_all_iff)
  have c: "symbols ?c" by (simp add: list_all_iff)
  have "map (apsnd gf) ?us = products (gp p) (gp q)"
    using gf_mul [OF f] symbols_nth [OF p] symbols_nth [OF q] by (auto simp: products_def)
  then have "gp ?r = accumulate (products (gp p) (gp q)) (replicate (length p + length q) 0)"
    using gp_accumulate(1) [OF us c] by simp
  ultimately show ?thesis using gp_accumulate(2) [OF us c] by blast
qed

lemma symbols_fp_mul: "field_ok f \<Longrightarrow> symbols p \<Longrightarrow> symbols q \<Longrightarrow> symbols (fp_mul f p q)"
  using fp_mul_accumulate by fastforce

lemma sum_list_pairs:
  "sum_list (map (\<lambda>(a, b). F a b) (List.product as bs)) = (\<Sum>a\<leftarrow>as. \<Sum>b\<leftarrow>bs. F a b)"
  by (induction as) (simp_all add: comp_def)

lemma sum_products: "sum_list (map (\<lambda>(k, v). v * x ^ k) (products p q)) = ev p x * ev q x"
proof -
  have "sum_list (map (\<lambda>(k, v). v * x ^ k) (products p q)) =
      (\<Sum>(a, b) \<leftarrow> List.product [0..<length p] [0..<length q]. (p ! a * x ^ a) * (q ! b * x ^ b))"
    by (simp add: products_def comp_def split_def power_add mult_ac)
  also have "\<dots> = (\<Sum>a\<leftarrow>[0..<length p]. \<Sum>b\<leftarrow>[0..<length q]. (p ! a * x ^ a) * (q ! b * x ^ b))"
    by (rule sum_list_pairs)
  also have "\<dots> = ev p x * ev q x"
    by (simp add: ev_def sum_product atLeast0LessThan flip: sum_set_upt_conv_sum_list_nat)
  finally show ?thesis .
qed

lemma ev_fp_mul:
  assumes "field_ok f" and "symbols p" and "symbols q"
  shows "ev (gp (fp_mul f p q)) x = ev (gp p) x * ev (gp q) x"
proof -
  obtain r where r: "fp_mul f p q = simplify r"
    "gp r = accumulate (products (gp p) (gp q)) (replicate (length p + length q) 0)"
    using fp_mul_accumulate [OF assms] by blast
  have "ev (gp r) x = sum_list (map (\<lambda>(k, v). v * x ^ k) (products (gp p) (gp q)))"
    unfolding r(2) using products_bound [of "gp p" "gp q"] by (subst ev_accumulate) simp_all
  then show ?thesis by (simp add: r(1) sum_products)
qed

lemma sum_snd_filter:
  "sum_list (map snd (filter P us)) = sum_list (map (\<lambda>u. if P u then snd u else (0 :: gf256)) us)"
  by (induction us) simp_all

lemma coeff_products:
  "sum_list (map snd (filter (\<lambda>(k, v). k = n) (products p q))) =
     (\<Sum>a<length p. \<Sum>b<length q. if a + b = n then p ! a * q ! b else 0)"
proof -
  have "sum_list (map snd (filter (\<lambda>(k, v). k = n) (products p q))) =
      (\<Sum>(a, b) \<leftarrow> List.product [0..<length p] [0..<length q]. if a + b = n then p ! a * q ! b else 0)"
    unfolding sum_snd_filter by (simp add: products_def comp_def split_def cong: if_cong)
  also have "\<dots> = (\<Sum>a\<leftarrow>[0..<length p]. \<Sum>b\<leftarrow>[0..<length q]. if a + b = n then p ! a * q ! b else 0)"
    by (rule sum_list_pairs)
  finally show ?thesis by (simp add: atLeast0LessThan flip: sum_set_upt_conv_sum_list_nat)
qed

lemma top_products:
  assumes "p \<noteq> []" and "q \<noteq> []"
  shows "sum_list (map snd (filter (\<lambda>(k, v). k = length p + length q - 2) (products p q))) = last p * last q"
    and "sum_list (map snd (filter (\<lambda>(k, v). k = length p + length q - 1) (products p q))) = 0"
proof -
  obtain m n where mn: "length p = Suc m" "length q = Suc n" using assms by (metis Suc_pred length_greater_0_conv)
  have "(\<Sum>a<Suc m. \<Sum>b<Suc n. if a + b = m + n then p ! a * q ! b else 0) =
      (\<Sum>a<Suc m. if a = m then \<Sum>b<Suc n. if b = n then p ! m * q ! n else 0 else 0)"
    by (intro sum.cong refl) (auto intro!: sum.cong sum.neutral)
  also have "\<dots> = p ! m * q ! n" by (simp add: sum.delta)
  finally show "sum_list (map snd (filter (\<lambda>(k, v). k = length p + length q - 2) (products p q))) = last p * last q"
    using assms by (simp add: coeff_products mn last_conv_nth)
  have "(\<Sum>a<Suc m. \<Sum>b<Suc n. if a + b = Suc (m + n) then p ! a * q ! b else 0) = 0"
    by (intro sum.neutral ballI) auto
  then show "sum_list (map snd (filter (\<lambda>(k, v). k = length p + length q - 1) (products p q))) = 0"
    by (simp add: coeff_products mn)
qed

lemma fp_mul_shape:
  assumes f: "field_ok f" and p: "symbols p" "p \<noteq> []" "last p \<noteq> 0" and q: "symbols q" "q \<noteq> []" "last q \<noteq> 0"
  shows "length (fp_mul f p q) = length p + length q - 1" and "last (fp_mul f p q) = mul f (last p) (last q)"
    and "fp_mul f p q \<noteq> []"
proof -
  obtain m n where mn: "length p = Suc m" "length q = Suc n" using p q by (metis Suc_pred length_greater_0_conv)
  obtain r where r: "fp_mul f p q = simplify r" "symbols r"
    "gp r = accumulate (products (gp p) (gp q)) (replicate (length p + length q) 0)"
    using fp_mul_accumulate [OF f p(1) q(1)] by blast
  have lr: "length r = Suc (Suc (m + n))" using arg_cong [OF r(3), of length] mn by simp
  have ne: "gp p \<noteq> []" "gp q \<noteq> []" using p q by auto
  have l: "symbol (last p)" "symbol (last q)" using p q by (auto simp: list_all_iff)
  have acc: "accumulate (products (gp p) (gp q)) (replicate (length p + length q) 0) ! k =
      sum_list (map snd (filter (\<lambda>(i, v). i = k) (products (gp p) (gp q))))"
    if "k < length p + length q" for k
    using nth_accumulate [of "replicate (length p + length q) 0" "products (gp p) (gp q)" k]
      products_bound [of "gp p" "gp q"] that by simp
  have top: "gp r ! (m + n) = gf (last p) * gf (last q)" "gp r ! Suc (m + n) = 0"
    unfolding r(3) using acc [of "m + n"] acc [of "Suc (m + n)"] top_products [OF ne] mn p q
    by (simp_all add: last_map)
  have s: "symbol (r ! (m + n))" "symbol (r ! Suc (m + n))" using symbols_nth [OF r(2)] lr by simp_all
  have "gf (r ! (m + n)) = gf (mul f (last p) (last q))" "gf (r ! Suc (m + n)) = 0"
    using top lr l by (simp_all add: gf_mul [OF f])
  then have v: "r ! (m + n) = mul f (last p) (last q)" "r ! Suc (m + n) = 0"
    using gf_eq_iff [OF s(1) symbol_mul [OF f l]] gf_eq_0 [OF s(2)] by simp_all
  have nz: "mul f (last p) (last q) \<noteq> 0" using mul_ok [OF f l] p q by simp
  define h where "h = take (Suc (m + n)) r"
  have "r = h @ [r ! Suc (m + n)]" using lr take_Suc_conv_app_nth [of "Suc (m + n)" r] by (simp add: h_def)
  then have h1: "r = h @ replicate 1 0" using v(2) by simp
  have h: "r = h @ replicate 1 0" "last h = mul f (last p) (last q)" "h \<noteq> []" "length h = Suc (m + n)"
    using h1 v lr by (auto simp: h_def take_Suc_conv_app_nth)
  have "simplify r = h" unfolding h(1) by (rule simplify_id) (use h nz in simp_all)
  then show "length (fp_mul f p q) = length p + length q - 1" "last (fp_mul f p q) = mul f (last p) (last q)"
    "fp_mul f p q \<noteq> []" using h mn r(1) by simp_all
qed

section \<open>Division\<close>

text \<open>
  Dividing down to coefficient \<open>i\<close>: at a root of the divisor, the remainder has the value of the
  part of the dividend from \<open>i\<close> on. The places of the remainder that no coefficient has
  reached yet are zero.
\<close>

definition div_inv :: "fpoly \<Rightarrow> fpoly \<Rightarrow> gf256 \<Rightarrow> nat \<Rightarrow> fpoly \<times> fpoly \<Rightarrow> bool" where
  "div_inv p d x i st \<longleftrightarrow>
     (case st of (quo, rmd) \<Rightarrow>
        length quo = length p - length d + 2 \<and> length rmd = length d - 1 \<and> symbols rmd \<and>
        ev (gp rmd) x = ev (gp (drop i p)) x \<and>
        (\<forall>j < length rmd. length p - i \<le> j \<longrightarrow> rmd ! j = 0))"

lemma map_shift: "map (\<lambda>j. g (xs ! (j - 1)) j) [1..<length xs] = map (\<lambda>j. g (xs ! j) (Suc j)) [0..<length xs - 1]"
  by (rule nth_equalityI) auto

lemma map_shift_butlast: "map (\<lambda>j. xs ! (j - 1)) [1..<length xs] = butlast xs"
  by (rule nth_equalityI) (auto simp: nth_butlast)

lemma ev_snoc_split: "xs \<noteq> [] \<Longrightarrow> ev xs x = ev (butlast xs) x + last xs * x ^ (length xs - 1)"
  using ev_append [of "butlast xs" "[last xs]" x] by (simp add: ev_Cons mult.commute)

lemma ev_map2_axpy:
  "length ys = length (zs :: gf256 list) \<Longrightarrow> ev (map2 (\<lambda>y z. y + c * z) ys zs) x = ev ys x + c * ev zs x"
  by (induction ys zs rule: list_induct2) (simp_all add: ev_Cons algebra_simps)

lemma gp_axpy:
  assumes "field_ok f" and "symbol q" and "length ys = length zs" and "symbols ys" and "symbols zs"
  shows "gp (map2 (\<lambda>a b. elem_add a (elem_mul f q b)) ys zs) = map2 (\<lambda>y z. y + gf q * z) (gp ys) (gp zs) \<and>
     symbols (map2 (\<lambda>a b. elem_add a (elem_mul f q b)) ys zs)"
  using assms(3-5)
  by (induction ys zs rule: list_induct2)
    (auto simp: elem_add_def elem_mul_def gf_xor gf_mul [OF assms(1)] symbol_mul [OF assms(1)] symbol_xor assms(2))

lemma div_step_inv:
  assumes f: "field_ok f" and p: "symbols p" and d: "symbols d" "1 < length d" "last d \<noteq> 0" "length d \<le> length p"
    and root: "ev (gp d) x = 0" and i: "i < length p" and inv: "div_inv p d x (Suc i) st"
  shows "div_inv p d x i (div_step f p d i st)"
proof -
  obtain quo rmd where st: "st = (quo, rmd)" by fastforce
  have lq: "length quo = length p - length d + 2" and lr: "length rmd = length d - 1" and sr: "symbols rmd"
    and er: "ev (gp rmd) x = ev (gp (drop (Suc i) p)) x"
    and zr: "\<And>j. j < length rmd \<Longrightarrow> length p - Suc i \<le> j \<Longrightarrow> rmd ! j = 0"
    using inv by (auto simp: div_inv_def st)
  obtain n where n: "length d = Suc (Suc n)" using d(2) by (cases "length d"; cases "length d - 1"; simp)
  have rn: "rmd \<noteq> []" "length rmd = Suc n" using lr n by auto
  have pi: "symbol (p ! i)" using symbols_nth [OF p i] .
  have dp: "ev (gp (drop i p)) x = gf (p ! i) + x * ev (gp (drop (Suc i) p)) x"
    using i by (simp add: ev_Cons flip: Cons_nth_drop_Suc)
  have sb: "symbols (butlast rmd)" using sr by (auto simp: list_all_iff dest: in_set_butlastD)
  have eb: "ev (gp (butlast rmd)) x + gf (last rmd) * x ^ n = ev (gp rmd) x"
    using ev_snoc_split [of "gp rmd" x] rn by (simp add: map_butlast last_map)
  show ?thesis
  proof (cases "int i \<le> deg quo")
    case False
    then have gt: "length p - length d + 2 \<le> i" using lq by (simp add: deg_def)
    then have "length p - Suc i \<le> n" using n i by linarith
    then have "rmd ! n = 0" using zr [of n] rn by simp
    then have l0: "last rmd = 0" using rn by (simp add: last_conv_nth)
    have step: "div_step f p d i st = (quo, p ! i # butlast rmd)"
      using False by (simp add: st div_step_def map_shift_butlast [unfolded One_nat_def])
    have "(p ! i # butlast rmd) ! j = 0" if "j < Suc n" "length p - i \<le> j" for j
    proof (cases j)
      case 0
      then show ?thesis using that i by simp
    next
      case (Suc k)
      then show ?thesis using that zr [of k] rn i by (simp add: nth_butlast)
    qed
    then show ?thesis unfolding step div_inv_def
      using lq lr rn pi sb eb l0 er dp by (simp add: ev_Cons)
  next
    case True
    define q where "q = elem_div f (last rmd) (last d)"
    have "d \<noteq> []" using n by auto
    then have sl: "symbol (last rmd)" "symbol (last d)"
      using sr rn(1) d(1) last_in_set unfolding list_all_iff by blast+
    have sq: "symbol q" unfolding q_def elem_div_def by (rule symbol_div [OF f sl])
    have gq: "gf q * gf (last d) = gf (last rmd)"
      using gf_div [OF f sl] gf_eq_0 [OF sl(2)] d(3) by (simp add: q_def elem_div_def)
    define h where "h = elem_add (p ! i) (elem_mul f q (d ! 0))"
    define t where "t = map (\<lambda>j. elem_add (rmd ! (j - 1)) (elem_mul f q (d ! j))) [1..<length rmd]"
    have step: "div_step f p d i st = (quo[i := q], h # t)"
      using True by (simp add: st div_step_def Let_def q_def h_def t_def)
    have t: "t = map2 (\<lambda>a b. elem_add a (elem_mul f q b)) (butlast rmd) (take n (tl d))"
      by (rule nth_equalityI) (auto simp: t_def rn n nth_butlast nth_tl simp del: upt_Suc)
    obtain d0 ds where dd: "d = d0 # ds" using n by (cases d) auto
    then have sd: "symbols (take n (tl d))" "symbol (d ! 0)"
      using d(1) by (auto simp: list_all_iff dest!: in_set_takeD)
    have lt: "length (butlast rmd) = length (take n (tl d))" using rn n by simp
    have gt: "gp t = map2 (\<lambda>y z. y + gf q * z) (gp (butlast rmd)) (gp (take n (tl d))) \<and> symbols t"
      unfolding t by (rule gp_axpy [OF f sq lt sb sd(1)])
    have gh: "gf h = gf (p ! i) + gf q * gf (d ! 0)" "symbol h"
      using pi sd(2) sq by (simp_all add: h_def elem_add_def elem_mul_def gf_xor symbol_mul [OF f]
          gf_mul [OF f] symbol_xor)
    have ld: "last d = d ! Suc n" using n \<open>d \<noteq> []\<close> by (simp add: last_conv_nth)
    have "gp d = gf (d ! 0) # gp (take n (tl d)) @ [gf (last d)]"
      by (rule nth_equalityI) (auto simp: n ld nth_Cons nth_append nth_tl less_Suc_eq_le split: nat.splits
          intro!: arg_cong [where f = gf] arg_cong [where f = "nth d"])
    then have r0: "gf (d ! 0) + x * ev (gp (take n (tl d))) x = x * gf (last d) * x ^ n"
      using root n by (simp add: ev_Cons ev_append algebra_simps gf_add_eq_0)
    have et: "ev (gp t) x = ev (gp (butlast rmd)) x + gf q * ev (gp (take n (tl d))) x"
      using gt lt ev_map2_axpy [of "gp (butlast rmd)" "gp (take n (tl d))" "gf q" x] by simp
    have "ev (gp (h # t)) x = gf (p ! i) + x * ev (gp (butlast rmd)) x +
        gf q * (gf (d ! 0) + x * ev (gp (take n (tl d))) x)"
      by (simp add: ev_Cons et gh(1) algebra_simps)
    also have "\<dots> = gf (p ! i) + x * (ev (gp (butlast rmd)) x + gf q * gf (last d) * x ^ n)"
      unfolding r0 by (simp add: algebra_simps)
    also have "\<dots> = ev (gp (drop i p)) x" unfolding gq eb dp er ..
    finally have e: "ev (gp (h # t)) x = ev (gp (drop i p)) x" .
    have "length t = n" using rn by (simp add: t_def)
    moreover have "\<not> (j < Suc n \<and> length p - i \<le> j)" for j
      using True lq n d(4) i by (simp add: deg_def) linarith
    ultimately show ?thesis unfolding step div_inv_def
      using lq lr rn gt gh e by auto
  qed
qed

lemma fp_mod_root:
  assumes f: "field_ok f" and p: "symbols p" and d: "symbols d" "1 < length d" "last d \<noteq> 0" "length d \<le> length p"
    and root: "ev (gp d) x = 0"
  shows "\<exists>r. fp_mod f p d = Some r \<and> length r = length d - 1 \<and> symbols r \<and> ev (gp r) x = ev (gp p) x"
proof -
  let ?s = "(replicate (length p - length d + 2) 0, replicate (length d - 1) 0) :: fpoly \<times> fpoly"
  have "div_inv p d x (length p) ?s" by (simp add: div_inv_def list_all_iff)
  then have "div_inv p d x 0 (fold (div_step f p d) (rev [0..<length p]) ?s)"
    by (rule fold_down_invariant [where P = "div_inv p d x"]) (rule div_step_inv [OF f p d root])
  then obtain quo r where "fold (div_step f p d) (rev [0..<length p]) ?s = (quo, r)"
    "length r = length d - 1" "symbols r" "ev (gp r) x = ev (gp p) x"
    by (auto simp: div_inv_def split: prod.splits)
  moreover have "deg d \<noteq> 0" "deg d \<ge> 0" "deg p \<ge> deg d" using d by (auto simp: deg_def)
  ultimately show ?thesis by (simp add: fp_mod_def fp_divide_def)
qed

section \<open>Evaluation\<close>

lemma fp_eval_ok:
  assumes f: "field_ok f" and p: "symbols p" "length p \<le> 256" and v: "symbol v" "v \<noteq> 0"
  shows "symbol (fp_eval f p v)" and "gf (fp_eval f p v) = ev (gp p) (gf v)"
proof -
  let ?P = "\<lambda>i t. symbol t \<and> gf t = (\<Sum>j<i. gf (p ! j) * gf v ^ j)"
  have "?P (length p) (fold (\<lambda>i t. t XOR mul f (exp_sym f v (int i)) (p ! i)) [0..<length p] 0)"
  proof (rule fold_upt_invariant)
    fix i t assume i: "i < length p" and P: "?P i t"
    have e: "symbol (exp_sym f v (int i))" "gf (exp_sym f v (int i)) = gf v ^ i"
      using symbol_exp [OF f v(1)] gf_exp [OF f v(1)] i p v by simp_all
    have pi: "symbol (p ! i)" by (rule symbols_nth [OF p(1) i])
    show "?P (Suc i) (t XOR mul f (exp_sym f v (int i)) (p ! i))"
      using P e pi symbol_mul [OF f e(1) pi] symbol_xor gf_mul [OF f e(1) pi]
      by (auto simp: gf_xor mult.commute)
  qed simp_all
  then show "symbol (fp_eval f p v)" "gf (fp_eval f p v) = ev (gp p) (gf v)"
    by (simp_all add: fp_eval_def ev_def)
qed

lemma fp_eval_zero_iff:
  assumes "field_ok f" and "symbols p" and "length p \<le> 256" and "symbol v" and "v \<noteq> 0"
  shows "fp_eval f p v = 0 \<longleftrightarrow> ev (gp p) (gf v) = 0"
  using fp_eval_ok [OF assms] gf_eq_0 by auto

section \<open>The generator polynomial\<close>

definition gen_shape :: "nat \<Rightarrow> nat \<Rightarrow> fpoly \<Rightarrow> bool" where
  "gen_shape a b g \<longleftrightarrow> symbols g \<and> g \<noteq> [] \<and> last g = 1 \<and> length g = Suc (b - a) \<and>
     (\<forall>x. ev (gp g) x = (\<Prod>i = a..<b. x + gen ^ i))"

lemma mul_1_1: "field_ok f \<Longrightarrow> mul f 1 1 = 1"
  using gf_mul [of f 1 1] symbol_mul [of f 1 1] gf_eq_iff [of "mul f 1 1" 1] by simp

lemma gen_shape_step:
  assumes f: "field_ok f" and "a \<le> b" and "b \<le> 255" and g: "gen_shape a b g"
  shows "gen_shape a (Suc b) (fp_mul f g [elem_add 0 (elem_pow f 2 (int b)), 1])"
proof -
  let ?c = "exp_sym f 2 (int b)"
  have c: "symbol ?c" "gf ?c = gen ^ b"
    using symbol_exp [OF f, of 2 b] gf_exp [OF f, of 2 b] assms(3) by (simp_all add: gen_def)
  have q: "[elem_add 0 (elem_pow f 2 (int b)), 1] = [?c, 1]" by (simp add: elem_add_def elem_pow_def)
  have sq: "symbols [?c, 1]" using c(1) by simp
  note sh = fp_mul_shape [OF f _ _ _ sq, of g]
  show ?thesis unfolding q gen_shape_def
    using g sh assms(2) symbols_fp_mul [OF f _ sq, of g] ev_fp_mul [OF f _ sq, of g] mul_1_1 [OF f]
    by (auto simp: gen_shape_def ev_Cons c add.commute mult.commute)
qed

lemma make_generator_ok:
  assumes f: "field_ok f" and ab: "a < 255" "a + n \<le> 255"
  shows "\<exists>g. make_sequential_root_generator_polynomial f a n = Some g \<and> gen_shape a (a + n) g"
proof -
  have "gen_shape a a [1]" by (simp add: gen_shape_def ev_Cons)
  then have "gen_shape a (a + n)
      (fold (\<lambda>i g. fp_mul f g [elem_add 0 (elem_pow f 2 (int i)), 1]) [a..<a + n] [1])"
    by (rule fold_upt_invariant) (use gen_shape_step [OF f] ab in auto)
  moreover have "field_size f = 255" using f by (simp add: field_ok_def)
  ultimately show ?thesis using ab by (simp add: make_sequential_root_generator_polynomial_def)
qed

text \<open>The remainder keeps its length, so it is never empty.\<close>

lemma length_div_step: "rmd \<noteq> [] \<Longrightarrow> length (snd (div_step f p d i (quo, rmd))) = length rmd"
  by (cases rmd) (auto simp: div_step_def Let_def Suc_le_eq)

lemma length_fold_div_step:
  "rmd \<noteq> [] \<Longrightarrow> length (snd (fold (div_step f p d) is (quo, rmd))) = length rmd"
proof (induction "is" arbitrary: quo rmd)
  case (Cons i "is")
  obtain quo' rmd' where s: "div_step f p d i (quo, rmd) = (quo', rmd')" by fastforce
  then have "length rmd' = length rmd" using length_div_step [OF Cons.prems, of f p d i quo] by simp
  moreover from this Cons.prems have "rmd' \<noteq> []" by auto
  ultimately show ?case using Cons.IH [of rmd' quo'] s by simp
qed simp

lemma fp_mod_nonempty:
  assumes "fp_mod f p d = Some r" and "p \<noteq> []" and "d \<noteq> []"
  shows "r \<noteq> []"
proof (cases "deg p \<ge> deg d \<and> deg d \<ge> 0")
  case True
  then have "length d \<noteq> 1" and r: "r = snd (fold (div_step f p d) (rev [0..<length p])
      (replicate (length p - length d + 2) 0, replicate (length d - 1) 0))"
    using assms by (auto simp: fp_mod_def fp_divide_def deg_def split: if_splits)
  then have "length d - 1 \<noteq> 0" using assms(3) by (cases d) auto
  then have "length r = length d - 1" unfolding r by (subst length_fold_div_step) auto
  with \<open>length d - 1 \<noteq> 0\<close> show ?thesis by auto
next
  case False
  then have "fp_mod f p d = Some p" by (simp only: fp_mod_def if_False)
  with assms show ?thesis by simp
qed

lemma gcd_loop_None: "y \<noteq> [] \<Longrightarrow> x \<noteq> [] \<Longrightarrow> gcd_loop fuel f y x = None"
  using fp_mod_nonempty by (induction fuel arbitrary: x y) (auto simp: fp_valid_def split: option.split)

section \<open>Coefficients stay symbols\<close>

lemma symbols_replicate [simp]: "symbols (replicate n 0)"
  by (simp add: list_all_iff)

lemma symbols_take: "symbols p \<Longrightarrow> symbols (take n p)"
  by (auto simp: list_all_iff dest: in_set_takeD)

lemma symbol_exp_any:
  assumes "field_ok f" and "symbol a"
  shows "symbol (exp_sym f a (int n))"
proof -
  have "exp_sym f a (int n) = exp_sym f a (int (n mod 256))"
    using assms(1) take_bit_eq_mask [of 8 "int n"] take_bit_eq_mask [of 8 "int (n mod 256)"]
    by (simp add: exp_sym_def field_ok_def mask_eq_exp_minus_1 take_bit_eq_mod zmod_int)
  then show ?thesis using symbol_exp [OF assms, of "n mod 256"] mod_less_divisor [of 256 n] by simp
qed

lemma symbol_fp_eval:
  assumes "field_ok f" and "symbols p" and "symbol v"
  shows "symbol (fp_eval f p v)"
  unfolding fp_eval_def
  using symbol_xor symbol_mul [OF assms(1)] symbol_exp_any [OF assms(1,3)] symbols_nth [OF assms(2)]
  by (intro fold_upt_invariant [where P = "\<lambda>_. symbol"]) simp_all

lemma symbols_div_step:
  assumes f: "field_ok f" and p: "symbols p" and d: "symbols d" "1 < length d" and i: "i < length p"
    and st: "symbols (fst st) \<and> symbols (snd st) \<and> length (snd st) = length d - 1"
  shows "symbols (fst (div_step f p d i st)) \<and> symbols (snd (div_step f p d i st)) \<and>
     length (snd (div_step f p d i st)) = length d - 1"
proof -
  obtain quo rmd where e: "st = (quo, rmd)" by fastforce
  have r: "symbols quo" "symbols rmd" "length rmd = length d - 1" "rmd \<noteq> []" using st d(2) by (auto simp: e)
  have q: "symbol (div_sym f (last rmd) (last d))"
    using r d symbol_div [OF f] by (cases "d = []") (auto simp: list_all_iff)
  have s: "symbol (elem_add a (elem_mul f (div_sym f (last rmd) (last d)) b))" if "symbol a" "symbol b" for a b
    using that q symbol_mul [OF f] symbol_xor by (simp add: elem_add_def elem_mul_def)
  have "list_all symbol (quo[i := div_sym f (last rmd) (last d)])"
    using r(1) q set_update_subset_insert [of quo i] by (fastforce simp: list_all_iff)
  moreover have "symbol (p ! i)" "symbol (d ! 0)" 
    using symbols_nth [OF p i] symbols_nth [OF d(1), of 0] d(2) by (cases d; simp)+
  moreover have j: "symbol (rmd ! (j - 1)) \<and> symbol (d ! j)" if "j < length rmd" for j
    using that symbols_nth [OF r(2), of "j - 1"] symbols_nth [OF d(1), of j] r(3) by auto
  have "symbols (map (\<lambda>j. rmd ! (j - 1)) [1..<length rmd])"
    "symbols (map (\<lambda>j. elem_add (rmd ! (j - 1)) (elem_mul f (div_sym f (last rmd) (last d)) (d ! j))) [1..<length rmd])"
    using j s by (auto simp: list_all_iff)
  moreover have "Suc (length rmd - 1) = length rmd" using r(4) by (cases rmd) auto
  ultimately show ?thesis using r(1,3) s by (simp add: div_step_def e Let_def elem_div_def)
qed

lemma symbols_fp_divide:
  assumes "field_ok f" and "symbols p" and "symbols d" and "deg d \<ge> 0"
  shows "pred_option (\<lambda>(quo, rmd). symbols quo \<and> symbols rmd) (fp_divide f p d)"
proof (cases "deg d = 0")
  case False
  with assms(4) have "1 < length d" by (cases d) (auto simp: deg_def)
  note step = symbols_div_step [OF assms(1-3) this]
  let ?s = "(replicate (length p - length d + 2) 0, replicate (length d - 1) 0) :: fpoly \<times> fpoly"
  let ?P = "\<lambda>_ st. symbols (fst st) \<and> symbols (snd st) \<and> length (snd st) = length d - 1"
  have "?P 0 (fold (div_step f p d) (rev [0..<length p]) ?s)"
    using step by (intro fold_down_invariant [where P = ?P]) simp_all
  then show ?thesis using False by (auto simp: fp_divide_def split_beta)
qed (simp add: fp_divide_def)

lemma symbols_fp_div_mod:
  assumes "field_ok f" and "symbols p" and "symbols d"
  shows "pred_option symbols (fp_div f p d)" and "pred_option symbols (fp_mod f p d)"
  using symbols_fp_divide [OF assms] assms(2)
  by (auto simp: fp_div_def fp_mod_def option.pred_map comp_def split_beta elim!: option.pred_mono_strong)

lemma symbols_fp_pow: "field_ok f \<Longrightarrow> symbols p \<Longrightarrow> symbols (fp_pow f p n)"
  by (induction n) (simp_all add: fp_pow_def symbols_fp_mul)

lemma symbols_derivative:
  assumes "symbols p"
  shows "symbols (derivative p)"
proof -
  have "symbols (map (\<lambda>i. if even i \<and> i < length p - 1 then p ! (i + 1) else 0) [0..<length p])"
    using symbols_nth [OF assms] by (auto simp: list_all_length)
  then show ?thesis by (simp add: derivative_def fp_zero_def)
qed

lemma ev_fp_pow:
  assumes "field_ok f" and "symbols p"
  shows "ev (gp (fp_pow f p n)) x = ev (gp p) x ^ (n + 1)"
proof -
  have "symbols (fp_pow f p n) \<and> ev (gp (fp_pow f p n)) x = ev (gp p) x ^ (n + 1)"
    using symbols_fp_mul [OF assms(1) _ assms(2)] ev_fp_mul [OF assms(1) _ assms(2)] assms(2)
    by (induction n) (simp_all add: fp_pow_def mult.commute)
  then show ?thesis by blast
qed

section \<open>Factors, shifts and the derivative\<close>

lemma ev_fp_mul_elem:
  assumes "field_ok f" and "symbols p" and "symbol e"
  shows "ev (gp (fp_mul_elem f p e)) x = gf e * ev (gp p) x"
proof -
  have "gp (fp_mul_elem f p e) = map ((*) (gf e)) (gp p)"
    using assms(2,3) gf_mul [OF assms(1)] by (auto simp: fp_mul_elem_def elem_mul_def list_all_iff mult.commute)
  then show ?thesis by (simp only: ev_map_mult)
qed

lemma ev_fp_div_elem:
  assumes "field_ok f" and "symbols p" and "symbol e" and "e \<noteq> 0"
  shows "gf e * ev (gp (fp_div_elem f p e)) x = ev (gp p) x"
proof -
  have "map ((*) (gf e)) (gp (fp_div_elem f p e)) = gp p"
    using assms(2-4) gf_div [OF assms(1)] gf_eq_0 [OF assms(3)]
    by (auto simp: fp_div_elem_def elem_div_def list_all_iff)
  then show ?thesis by (simp only: flip: ev_map_mult)
qed

lemma ev_fp_shl: "ev (gp (fp_shl p n)) x = x ^ n * ev (gp p) x"
  by (simp add: fp_shl_def ev_append)

lemma ev_fp_shr:
  assumes "n < length p"
  shows "\<exists>r. fp_shr p n = Some r \<and> length r = length p - n \<and> ev (gp p) x = ev (gp (take n p)) x + x ^ n * ev (gp r) x"
  using assms ev_append [of "gp (take n p)" "gp (drop n p)" x] by (simp add: fp_shr_def flip: map_append)

text \<open>Over a field of characteristic 2 the derivative keeps the terms of odd degree.\<close>

lemma ev_derivative:
  "ev (gp (derivative p)) x = (\<Sum>i<length p. if odd i then gf (p ! i) * x ^ (i - 1) else 0)"
proof (cases "length p > 1")
  case True
  then obtain m where m: "length p = Suc m" by (cases "length p") auto
  let ?h = "\<lambda>i. if odd i then gf (p ! i) * x ^ (i - 1) else 0"
  have "ev (gp (derivative p)) x = (\<Sum>i<Suc m. gf (if even i \<and> i < m then p ! (i + 1) else 0) * x ^ i)"
  proof -
    let ?r = "map (\<lambda>i. if even i \<and> i < m then p ! (i + 1) else 0) [0..<Suc m]"
    have "derivative p = simplify ?r" using True by (simp add: derivative_def m del: upt_Suc)
    then have "ev (gp (derivative p)) x = ev (gp ?r) x" by (simp only: ev_simplify)
    then show ?thesis by (simp add: ev_def del: sum.lessThan_Suc upt_Suc)
  qed
  also have "\<dots> = (\<Sum>i<m. ?h (Suc i))" by (simp cong: sum.cong_simp) (intro sum.cong refl, simp)
  also have "\<dots> = (\<Sum>i<Suc m. ?h i)" by (subst sum.lessThan_Suc_shift) simp
  finally show ?thesis by (simp only: m)
next
  case False
  then show ?thesis by (cases p) (simp_all add: derivative_def fp_zero_def ev_Cons)
qed

lemma simplify_normal: "simplify p = [] \<or> last (simplify p) \<noteq> 0"
proof -
  define k where "k = length (takeWhile (\<lambda>c. c = 0) (rev p))"
  have e: "simplify p = rev (dropWhile (\<lambda>c. c = 0) (rev p))"
  proof -
    have "dropWhile (\<lambda>c. c = 0) (rev p) = drop k (rev p)" unfolding k_def by (rule dropWhile_eq_drop)
    then show ?thesis by (simp add: simplify_def k_def [symmetric] rev_drop)
  qed
  show ?thesis unfolding e using hd_dropWhile [of "\<lambda>c. c = 0" "rev p"] by (auto simp: last_rev)
qed

section \<open>Properties\<close>

text \<open>
  C30: the generator polynomial: monic of degree \<open>n\<close>, its roots are exactly the powers \<open>a\<close> to
  \<open>a + n - 1\<close> of the generator of the field; for indices beyond the field none is made.
\<close>

theorem generator_polynomial_roots:
  assumes "a + n \<le> 255"
  shows "if a < 255
     then \<exists>g. make_sequential_root_generator_polynomial (rs_field al ix beyond) a n = Some g \<and>
        length g = n + 1 \<and> last g = 1 \<and> (\<forall>x. ev (gp g) x = 0 \<longleftrightarrow> (\<exists>i\<in>{a..<a + n}. x = gen ^ i))
     else make_sequential_root_generator_polynomial (rs_field al ix beyond) a n = None"
proof (cases "a < 255")
  case True
  from make_generator_ok [OF rs_field_ok True assms] obtain g where
    g: "make_sequential_root_generator_polynomial (rs_field al ix beyond) a n = Some g" "gen_shape a (a + n) g" by blast
  have "ev (gp g) x = 0 \<longleftrightarrow> (\<exists>i\<in>{a..<a + n}. x = gen ^ i)" for x
    using g(2) by (simp add: gen_shape_def prod_zero_iff gf_add_eq_0)
  then show ?thesis using g True by (simp add: gen_shape_def)
next
  case False
  then show ?thesis using rs_field_ok [of al ix beyond]
    by (simp add: make_sequential_root_generator_polynomial_def field_ok_def)
qed

theorem generator_polynomial_roots_witness:
  "\<exists>g. make_sequential_root_generator_polynomial (rs_field (\<lambda>_. 0) (\<lambda>_. 0) 0) 120 32 = Some g \<and>
     length g = 33 \<and> ev (gp g) (gen ^ 151) = 0"
  using generator_polynomial_roots [of 120 32 "\<lambda>_. 0" "\<lambda>_. 0" 0]
  by (auto intro!: bexI [of _ 151])

text \<open>
  \<^verbatim>\<open>^=\<close> raises to one power too many: started from the polynomial itself, it multiplies by it
  \<open>n\<close> times more, and computes the power \<open>n + 1\<close>.
\<close>

theorem fp_pow_one_too_many:
  assumes "field_ok f" and "symbols p"
  shows "ev (gp (fp_pow f p n)) x = ev (gp p) x ^ (n + 1)"
  by (rule ev_fp_pow [OF assms])

text \<open>
  \<^verbatim>\<open>gcd\<close> of two non-empty polynomials never returns a result: the remainder it loops on is not
  stripped of its leading zeros, so it never becomes empty, and the loop runs into the
  assertion for a divisor of degree 0, or for ever.
\<close>

theorem fp_gcd_no_result:
  assumes "p \<noteq> []" and "q \<noteq> []"
  shows "fp_gcd fuel f p q = None"
  using assms gcd_loop_None fp_mod_nonempty by (auto simp: fp_gcd_def fp_valid_def split: option.split)

text \<open>
  The operations on polynomials stay within the symbols of the field.
\<close>

lemma polynomial_operations_typed:
  assumes "f = rs_field al ix beyond" and "symbols p" and "symbols q" and "symbol e"
  shows "list_all symbols [fp_add p q, fp_sub p q, fp_mul f p q, fp_pow f p n, fp_mul_elem f p e, fp_div_elem f p e,
       fp_shl p n, fp_mod_power p n, set_degree n p, simplify p, derivative p] \<and>
     list_all (pred_option symbols) [fp_div f p q, fp_mod f p q, fp_add_elem p e, fp_sub_elem p e, fp_shr p n] \<and>
     symbol (fp_eval f p e)"
proof -
  have f: "field_ok f" unfolding assms(1) by (rule rs_field_ok)
  have m: "symbols (fp_mul_elem f p e)" "symbols (fp_div_elem f p e)"
    using assms symbol_mul [OF f] symbol_div [OF f]
    by (auto simp: fp_mul_elem_def fp_div_elem_def elem_mul_def elem_div_def list_all_iff)
  have a: "pred_option symbols (fp_add_elem p e)"
    using assms symbol_xor by (cases p) (auto simp: fp_add_elem_def elem_add_def)
  show ?thesis
    using assms m a symbols_fp_add symbols_fp_mul [OF f] symbols_fp_pow [OF f] symbols_fp_div_mod [OF f]
      symbols_derivative symbol_fp_eval [OF f] symbols_drop
    by (simp add: fp_sub_def fp_sub_elem_def fp_shl_def fp_mod_power_def set_degree_def fp_shr_def resize_def
        symbols_take)
qed



end
