(* ===== verification/RSBlock.thy ===== *)
theory RSBlock
  imports PolyEval
begin

text \<open>
  \<^verbatim>\<open>schifra_reed_solomon_block.hpp\<close>: the block an encoder fills and a decoder repairs, with the
  conversions between its \<^verbatim>\<open>int\<close> symbols and the \<^verbatim>\<open>char\<close>s of files and strings. The template
  parameters \<^verbatim>\<open>code_length\<close> and \<^verbatim>\<open>fec_length\<close> are arguments \<open>n\<close> and \<open>k\<close> of the operations that use
  them. A \<^verbatim>\<open>char\<close> is signed: a byte from 128 on becomes a negative symbol.
\<close>

datatype error_t =
    E_no_error
  | E_encoder_error0
  | E_encoder_error1
  | E_decoder_error0
  | E_decoder_error1
  | E_decoder_error2
  | E_decoder_error3
  | E_decoder_error4

record rsblock =
  errors_detected :: nat
  errors_corrected :: nat
  zero_numerators :: nat
  unrecoverable :: bool
  error :: error_t
  data :: "field_symbol list"

definition symbol_of_char :: "byte \<Rightarrow> field_symbol" where
  "symbol_of_char c = sint c"

definition char_of_symbol :: "field_symbol \<Rightarrow> byte" where
  "char_of_symbol v = word_of_int v"

text \<open>The default constructor leaves the symbols as the memory \<open>mem\<close> of the object has them.\<close>

definition block_ctor :: "field_symbol list \<Rightarrow> rsblock" where
  "block_ctor mem =
     \<lparr>errors_detected = 0, errors_corrected = 0, zero_numerators = 0, unrecoverable = False,
      error = E_no_error, data = mem\<rparr>"

definition block_of_strings :: "nat \<Rightarrow> nat \<Rightarrow> bytes \<Rightarrow> bytes \<Rightarrow> rsblock" where
  "block_of_strings n k d e =
     block_ctor (map symbol_of_char (take (n - k) d) @ map symbol_of_char (take k e))"

definition set_sym :: "nat \<Rightarrow> field_symbol \<Rightarrow> rsblock \<Rightarrow> rsblock" where
  "set_sym i v b = b\<lparr>data := (data b)[i := v]\<rparr>"

definition fec :: "nat \<Rightarrow> nat \<Rightarrow> rsblock \<Rightarrow> nat \<Rightarrow> field_symbol" where
  "fec n k b i = data b ! ((n - k) + i)"

definition set_fec :: "nat \<Rightarrow> nat \<Rightarrow> nat \<Rightarrow> field_symbol \<Rightarrow> rsblock \<Rightarrow> rsblock" where
  "set_fec n k i v b = set_sym ((n - k) + i) v b"

text \<open>The string receives the symbols only if it has the right length already.\<close>

definition data_to_string :: "nat \<Rightarrow> nat \<Rightarrow> rsblock \<Rightarrow> bytes \<Rightarrow> bool \<times> bytes" where
  "data_to_string n k b s =
     (if length s \<noteq> n - k then (False, s)
      else (True, map (\<lambda>i. char_of_symbol (data b ! i)) [0..<n - k]))"

definition fec_to_string :: "nat \<Rightarrow> nat \<Rightarrow> rsblock \<Rightarrow> bytes \<Rightarrow> bool \<times> bytes" where
  "fec_to_string n k b s =
     (if length s \<noteq> k then (False, s)
      else (True, map (\<lambda>i. char_of_symbol (data b ! ((n - k) + i))) [0..<k]))"

definition fec_string :: "nat \<Rightarrow> nat \<Rightarrow> rsblock \<Rightarrow> bytes" where
  "fec_string n k b = snd (fec_to_string n k b (replicate k 0))"

definition clear :: "nat \<Rightarrow> field_symbol \<Rightarrow> rsblock \<Rightarrow> rsblock" where
  "clear n v b = fold (\<lambda>i. set_sym i v) [0..<n] b"

definition clear_data :: "nat \<Rightarrow> nat \<Rightarrow> field_symbol \<Rightarrow> rsblock \<Rightarrow> rsblock" where
  "clear_data n k v b = fold (\<lambda>i. set_sym i v) [0..<n - k] b"

definition clear_fec :: "nat \<Rightarrow> nat \<Rightarrow> field_symbol \<Rightarrow> rsblock \<Rightarrow> rsblock" where
  "clear_fec n k v b = fold (\<lambda>i. set_sym ((n - k) + i) v) [0..<k] b"

definition reset :: "nat \<Rightarrow> field_symbol \<Rightarrow> rsblock \<Rightarrow> rsblock" where
  "reset n v b = (clear n v b)\<lparr>errors_detected := 0, errors_corrected := 0, zero_numerators := 0,
     unrecoverable := False, error := E_no_error\<rparr>"

definition copy_state :: "rsblock \<Rightarrow> rsblock \<Rightarrow> rsblock" where
  "copy_state src b = b\<lparr>errors_detected := errors_detected src, errors_corrected := errors_corrected src,
     zero_numerators := zero_numerators src, unrecoverable := unrecoverable src, error := error src\<rparr>"

definition error_as_string :: "rsblock \<Rightarrow> string" where
  "error_as_string b =
     (case error b of
        E_no_error \<Rightarrow> ''No Error''
      | E_encoder_error0 \<Rightarrow> ''Invalid Encoder''
      | E_encoder_error1 \<Rightarrow> ''Incompatible Generator Polynomial''
      | E_decoder_error0 \<Rightarrow> ''Invalid Decoder''
      | E_decoder_error1 \<Rightarrow> ''Decoder Failure - Non-zero Syndrome''
      | E_decoder_error2 \<Rightarrow> ''Decoder Failure - Too Many Errors/Erasures''
      | E_decoder_error3 \<Rightarrow> ''Decoder Failure - Invalid Symbol Correction''
      | E_decoder_error4 \<Rightarrow> ''Decoder Failure - Invalid Codeword Correction'')"

text \<open>\<^verbatim>\<open>copy(src_data, src_length, dest_block)\<close>, from an array of \<^verbatim>\<open>char\<close>s.\<close>

definition copy_chars :: "bytes \<Rightarrow> nat \<Rightarrow> rsblock \<Rightarrow> rsblock" where
  "copy_chars src src_length b = fold (\<lambda>i. set_sym i (symbol_of_char (src ! i))) [0..<src_length] b"

definition copy_block :: "nat \<Rightarrow> rsblock \<Rightarrow> rsblock \<Rightarrow> rsblock" where
  "copy_block n src b = fold (\<lambda>i. set_sym i (data src ! i)) [0..<n] b"

text \<open>\<^verbatim>\<open>copy\<close> of an array over a stack of blocks, row by row; the last row may be partial.\<close>

definition copy_stack ::
  "nat \<Rightarrow> nat \<Rightarrow> bytes \<Rightarrow> rsblock list \<Rightarrow> bool \<times> rsblock list" where
  "copy_stack n k src stack =
     (let data_length = n - k; src_length = length src in
      if src_length > length stack * data_length then (False, stack)
      else let row_count = src_length div data_length;
               stack = fold (\<lambda>row st. st[row := copy_chars (window src (row * data_length) data_length)
                         data_length (st ! row)]) [0..<row_count] stack;
               rest = src_length mod data_length
           in (True, if rest \<noteq> 0
                     then stack[row_count := copy_chars (drop (row_count * data_length) src) rest (stack ! row_count)]
                     else stack))"

definition full_copy :: "nat \<Rightarrow> rsblock \<Rightarrow> bytes" where
  "full_copy n b = map (\<lambda>i. char_of_symbol (data b ! i)) [0..<n]"

section \<open>Symbols and characters\<close>

lemma symbol_and_255: "v AND 255 = (v :: int) mod 256"
  using take_bit_eq_mask [of 8 v] by (simp add: mask_eq_exp_minus_1 take_bit_eq_mod)

lemma symbol_mask: "symbol (v AND 255)"
  by (simp add: symbol_and_255)

lemma mask_symbol: "symbol v \<Longrightarrow> v AND 255 = v"
  by (simp add: symbol_and_255)

lemma mask_uint: "uint (c :: byte) AND 255 = uint c"
  by (rule mask_symbol) (use unsigned_less [of c, where ?'a = int] in simp)

text \<open>
  The sign extension of \<^verbatim>\<open>char\<close> does no harm: the mask of \<^verbatim>\<open>field_element::operator=\<close> brings back the
  unsigned value of the byte.
\<close>

lemma mask_symbol_of_char: "symbol_of_char c AND 255 = uint c"
proof -
  have "uint c < 2 ^ LENGTH(8)" by (rule unsigned_less)
  then have "uint c mod 256 = uint c" by simp
  then have "sint c mod 256 = uint c"
    by (simp add: sint_uint signed_take_bit_eq_take_bit_shift take_bit_eq_mod mod_simps uint_word_of_int_eq)
  then show ?thesis by (simp add: symbol_of_char_def symbol_and_255)
qed

lemma char_of_symbol_of_char [simp]: "char_of_symbol (symbol_of_char c) = c"
  by (simp add: char_of_symbol_def symbol_of_char_def)

lemma char_of_symbol_uint [simp]: "char_of_symbol (uint c) = c"
  by (simp add: char_of_symbol_def)

end
