(* ===== verification/RSCode.thy ===== *)
theory RSCode
  imports RSBlock "HOL-Library.Monad_Syntax"
begin

text \<open>
  The Reed-Solomon encoder and decoder of the Schifra library: systematic encoding by the
  remainder of the message polynomial, and decoding by syndromes, the Berlekamp-Massey
  algorithm, Chien search and the Forney algorithm. \<open>n\<close> and \<open>k\<close> are the template parameters
  \<^verbatim>\<open>code_length\<close> and \<^verbatim>\<open>fec_length\<close>.
\<close>

section \<open>Encoder\<close>

record encoder =
  encoder_valid :: bool
  enc_field :: gfield
  generator :: fpoly

definition encoder_ctor :: "nat \<Rightarrow> gfield \<Rightarrow> fpoly \<Rightarrow> encoder" where
  "encoder_ctor n gfield gen_poly =
     \<lparr>encoder_valid = (int n = field_size gfield), enc_field = gfield, generator = gen_poly\<rparr>"

definition msg_poly :: "nat \<Rightarrow> nat \<Rightarrow> encoder \<Rightarrow> rsblock \<Rightarrow> fpoly" where
  "msg_poly n k enc b =
     fold (\<lambda>i message. message[i := elem_of_symbol (enc_field enc) (data b ! (n - 1 - i))]) [k..<n] (fp_zero n)"

definition encode :: "nat \<Rightarrow> nat \<Rightarrow> encoder \<Rightarrow> rsblock \<Rightarrow> (bool \<times> rsblock) option" where
  "encode n k enc b =
     (if \<not> encoder_valid enc then Some (False, b\<lparr>error := E_encoder_error0\<rparr>)
      else do {
        parities \<leftarrow> fp_mod (enc_field enc) (msg_poly n k enc b) (generator enc);
        let m = field_size (enc_field enc);
        if deg parities = int k - 1
        then Some (True, fold (\<lambda>i. set_fec n k i ((parities ! (k - 1 - i)) AND m)) [0..<k] b)
        else Some (False, b\<lparr>error := E_encoder_error1\<rparr>)
      })"

definition encode_string :: "nat \<Rightarrow> nat \<Rightarrow> encoder \<Rightarrow> bytes \<Rightarrow> rsblock \<Rightarrow> (bool \<times> rsblock) option" where
  "encode_string n k enc d b =
     encode n k enc
       (fold (\<lambda>i. set_sym i (symbol_of_char (d ! i) AND field_size (enc_field enc))) [0..<n - k] b)"

text \<open>The shortened encoder pads the data in front with zeros up to the natural length.\<close>

definition shortened_encode ::
  "nat \<Rightarrow> nat \<Rightarrow> nat \<Rightarrow> encoder \<Rightarrow> field_symbol list \<Rightarrow> rsblock \<Rightarrow> (bool \<times> rsblock) option" where
  "shortened_encode natural n k enc mem b = do {
     let padding = natural - (n - k) - k;
     let blk = fold (\<lambda>i. set_sym i 0) [0..<padding] (block_ctor mem);
     let blk = fold (\<lambda>i. set_sym (padding + i) (data b ! i)) [0..<n - k] blk;
     (ok, blk) \<leftarrow> encode natural k enc blk;
     if ok then Some (True, fold (\<lambda>i. set_fec n k i (fec natural k blk i)) [0..<k] b)
     else Some (False, b)
   }"

text \<open>From a string, all symbols of the shortened block are copied back; the characters are not masked.\<close>

definition shortened_encode_string ::
  "nat \<Rightarrow> nat \<Rightarrow> nat \<Rightarrow> encoder \<Rightarrow> field_symbol list \<Rightarrow> bytes \<Rightarrow> rsblock \<Rightarrow> (bool \<times> rsblock) option" where
  "shortened_encode_string natural n k enc mem d b = do {
     let padding = natural - (n - k) - k;
     let blk = fold (\<lambda>i. set_sym i 0) [0..<padding] (block_ctor mem);
     let blk = fold (\<lambda>i. set_sym (padding + i) (symbol_of_char (d ! i))) [0..<n - k] blk;
     (ok, blk) \<leftarrow> encode natural k enc blk;
     if ok then Some (True, fold (\<lambda>i. set_sym i (data blk ! (padding + i))) [0..<n] b)
     else Some (False, b)
   }"

section \<open>Decoder\<close>

record decoder =
  decoder_valid :: bool
  dec_field :: gfield
  root_exponent_table :: "field_symbol list"
  syndrome_exponent_table :: "field_symbol list"
  gamma_table :: "fpoly list"
  dec_X :: fpoly
  gen_initial_index :: nat

text \<open>
  \<^verbatim>\<open>1 - gen_initial_index_\<close> is computed unsigned and passed as an \<^verbatim>\<open>int\<close>: for an index above 1 the
  exponent is negative.
\<close>

definition create_lookup_tables :: "nat \<Rightarrow> nat \<Rightarrow> decoder \<Rightarrow> decoder" where
  "create_lookup_tables n k dec =
     (let f = dec_field dec; g = gen_initial_index dec; symbols = [0..<nat (field_size f) + 1] in
      dec\<lparr>root_exponent_table := map (\<lambda>i. exp_sym f (alpha f (int n - int i)) (1 - int g)) symbols,
          syndrome_exponent_table := map (\<lambda>i. alpha f (int (g + i))) [0..<k],
          gamma_table := map (\<lambda>i. the (fp_add_elem (fp_mul_elem f (dec_X dec) (alpha f (int i))) 1)) symbols\<rparr>)"

definition decoder_ctor :: "nat \<Rightarrow> nat \<Rightarrow> gfield \<Rightarrow> nat \<Rightarrow> decoder" where
  "decoder_ctor n k f initial_index =
     (let dec = \<lparr>decoder_valid = (field_size f = int n), dec_field = f, root_exponent_table = [],
                 syndrome_exponent_table = [], gamma_table = [], dec_X = generate_X,
                 gen_initial_index = initial_index\<rparr>
      in if decoder_valid dec then create_lookup_tables n k dec else dec)"

definition load_message :: "nat \<Rightarrow> decoder \<Rightarrow> rsblock \<Rightarrow> fpoly" where
  "load_message n dec b =
     fold (\<lambda>i received. received[n - 1 - i := elem_of_symbol (dec_field dec) (data b ! i)])
       [0..<n] (fp_zero (n - 1))"

definition prepare_erasure_list :: "nat \<Rightarrow> nat list \<Rightarrow> nat list" where
  "prepare_erasure_list n erasure_list = map (\<lambda>e. n - 1 - e) erasure_list"

definition compute_syndrome :: "nat \<Rightarrow> decoder \<Rightarrow> fpoly \<Rightarrow> int \<times> fpoly" where
  "compute_syndrome k dec received =
     fold (\<lambda>i (error_flag, syndrome).
         let s = fp_eval (dec_field dec) received (syndrome_exponent_table dec ! i)
         in (error_flag OR s, syndrome[i := s]))
       [0..<k] (0, fp_zero (k - 1))"

definition compute_gamma :: "decoder \<Rightarrow> fpoly \<Rightarrow> nat list \<Rightarrow> fpoly" where
  "compute_gamma dec gamma locations =
     fold (\<lambda>e g. fp_mul (dec_field dec) g (gamma_table dec ! e)) locations gamma"

text \<open>Chien search; the loop is left as soon as as many roots as the degree are found.\<close>

fun find_roots_from :: "gfield \<Rightarrow> fpoly \<Rightarrow> nat list \<Rightarrow> nat list \<Rightarrow> nat list" where
  "find_roots_from f p [] root_list = root_list"
| "find_roots_from f p (i # is) root_list =
     (if fp_eval f p (alpha f (int i)) = 0 then
        let root_list = root_list @ [i] in
        if deg p = int (length root_list) then root_list else find_roots_from f p is root_list
      else find_roots_from f p is root_list)"

definition find_roots :: "nat \<Rightarrow> decoder \<Rightarrow> fpoly \<Rightarrow> nat list" where
  "find_roots n dec p = find_roots_from (dec_field dec) p [1..<n + 1] []"

text \<open>An index outside a polynomial trips an assertion.\<close>

definition compute_discrepancy :: "gfield \<Rightarrow> fpoly \<Rightarrow> fpoly \<Rightarrow> nat \<Rightarrow> nat \<Rightarrow> field_symbol option" where
  "compute_discrepancy f lambda syndrome l round =
     (let upper_bound = min (int l) (deg lambda) in
      if upper_bound < 0 \<or> int round < upper_bound \<or> length syndrome \<le> round then None
      else Some (fold (\<lambda>i d. elem_add d (elem_mul f (lambda ! i) (syndrome ! (round - i))))
             [0..<nat upper_bound + 1] 0))"

text \<open>One round of the Berlekamp-Massey loop on \<open>(lambda, previous_lambda, i, l)\<close>.\<close>

definition bm_round ::
  "gfield \<Rightarrow> fpoly \<Rightarrow> nat \<Rightarrow> fpoly \<times> fpoly \<times> int \<times> nat \<Rightarrow> (fpoly \<times> fpoly \<times> int \<times> nat) option" where
  "bm_round f syndrome round st =
     (case st of (lambda, previous_lambda, i, l) \<Rightarrow> do {
        discrepancy \<leftarrow> compute_discrepancy f lambda syndrome l round;
        let (lambda, previous_lambda, i, l) =
          (if discrepancy \<noteq> 0 then
             let tau = fp_add lambda (fp_mul_elem f previous_lambda discrepancy) in
             if int l < int round - i
             then (tau, fp_div_elem f lambda discrepancy, int round - int l, nat (int round - i))
             else (tau, previous_lambda, i, l)
           else (lambda, previous_lambda, i, l));
        Some (lambda, fp_shl previous_lambda 1, i, l)
      })"

fun bm_rounds ::
  "gfield \<Rightarrow> fpoly \<Rightarrow> nat list \<Rightarrow> fpoly \<times> fpoly \<times> int \<times> nat \<Rightarrow> (fpoly \<times> fpoly \<times> int \<times> nat) option" where
  "bm_rounds f syndrome [] st = Some st"
| "bm_rounds f syndrome (round # rounds) st = do {
     st \<leftarrow> bm_round f syndrome round st;
     bm_rounds f syndrome rounds st
   }"

definition modified_berlekamp_massey_algorithm ::
  "nat \<Rightarrow> decoder \<Rightarrow> fpoly \<Rightarrow> fpoly \<Rightarrow> nat \<Rightarrow> fpoly option" where
  "modified_berlekamp_massey_algorithm k dec lambda syndrome erasure_count = do {
     (lambda, _) \<leftarrow> bm_rounds (dec_field dec) syndrome [erasure_count..<k]
       (lambda, fp_shl lambda 1, - 1, erasure_count);
     Some lambda
   }"

text \<open>The correction loop of the Forney algorithm: \<open>Inl\<close> is the early return.\<close>

fun forney_loop ::
  "decoder \<Rightarrow> fpoly \<Rightarrow> fpoly \<Rightarrow> nat list \<Rightarrow> rsblock \<Rightarrow> rsblock + rsblock" where
  "forney_loop dec omega lambda_derivative [] b = Inr b"
| "forney_loop dec omega lambda_derivative (error_location # locations) b =
     (let f = dec_field dec;
          alpha_inverse = alpha f (int error_location);
          numerator = elem_mul f (fp_eval f omega alpha_inverse) (root_exponent_table dec ! error_location);
          denominator = fp_eval f lambda_derivative alpha_inverse
      in if numerator \<noteq> 0 then
           if denominator \<noteq> 0 then
             forney_loop dec omega lambda_derivative locations
               ((set_sym (error_location - 1)
                  (data b ! (error_location - 1) XOR div_sym f numerator denominator) b)
                \<lparr>errors_corrected := errors_corrected b + 1\<rparr>)
           else Inl (b\<lparr>unrecoverable := True, error := E_decoder_error3\<rparr>)
         else forney_loop dec omega lambda_derivative locations (b\<lparr>zero_numerators := zero_numerators b + 1\<rparr>))"

definition forney_algorithm ::
  "nat \<Rightarrow> decoder \<Rightarrow> nat list \<Rightarrow> fpoly \<Rightarrow> fpoly \<Rightarrow> rsblock \<Rightarrow> bool \<times> rsblock" where
  "forney_algorithm k dec error_locations lambda syndrome b =
     (let omega = fp_mod_power (fp_mul (dec_field dec) lambda syndrome) k;
          lambda_derivative = derivative lambda;
          b = b\<lparr>errors_corrected := 0, zero_numerators := 0\<rparr>
      in case forney_loop dec omega lambda_derivative error_locations b of
           Inl b \<Rightarrow> (False, b)
         | Inr b \<Rightarrow> if deg lambda = int (errors_detected b) then (True, b)
                    else (False, b\<lparr>unrecoverable := True, error := E_decoder_error4\<rparr>))"

text \<open>
  \<^verbatim>\<open>decode\<close> with a list of erasures. \<^verbatim>\<open>2 * L - S\<close> is unsigned and wraps around below zero.
\<close>

definition decode_erasures :: "nat \<Rightarrow> nat \<Rightarrow> decoder \<Rightarrow> nat list \<Rightarrow> rsblock \<Rightarrow> (bool \<times> rsblock) option" where
  "decode_erasures n k dec erasure_list b =
     (if \<not> decoder_valid dec \<or> length erasure_list > k
      then Some (False, b\<lparr>errors_detected := 0, errors_corrected := 0, zero_numerators := 0,
                          unrecoverable := True, error := E_decoder_error0\<rparr>)
      else
        let received = load_message n dec b;
            (error_flag, syndrome) = compute_syndrome k dec received
        in if error_flag = 0
           then Some (True, b\<lparr>errors_detected := 0, errors_corrected := 0, zero_numerators := 0,
                              unrecoverable := False\<rparr>)
           else do {
             let lambda = [1];
             let lambda = (if erasure_list \<noteq> []
                           then compute_gamma dec lambda (prepare_erasure_list n erasure_list) else lambda);
             lambda \<leftarrow> (if length erasure_list < k
                        then modified_berlekamp_massey_algorithm k dec lambda syndrome (length erasure_list)
                        else Some lambda);
             let error_locations = find_roots n dec lambda;
             if error_locations = []
             then Some (False, b\<lparr>errors_detected := 0, errors_corrected := 0, zero_numerators := 0,
                                 unrecoverable := True, error := E_decoder_error1\<rparr>)
             else if (int (2 * length error_locations) - int (length erasure_list)) mod 2 ^ 64 > int k
             then Some (False, b\<lparr>errors_detected := length error_locations, errors_corrected := 0,
                                 zero_numerators := 0, unrecoverable := True, error := E_decoder_error2\<rparr>)
             else Some (forney_algorithm k dec error_locations lambda syndrome
                          (b\<lparr>errors_detected := length error_locations\<rparr>))
           })"

definition decode :: "nat \<Rightarrow> nat \<Rightarrow> decoder \<Rightarrow> rsblock \<Rightarrow> (bool \<times> rsblock) option" where
  "decode n k dec b = decode_erasures n k dec [] b"

text \<open>The shortened decoder: pad, decode at the natural length, copy back on success.\<close>

definition shortened_decode ::
  "nat \<Rightarrow> nat \<Rightarrow> nat \<Rightarrow> decoder \<Rightarrow> field_symbol list \<Rightarrow> nat list \<Rightarrow> rsblock \<Rightarrow> (bool \<times> rsblock) option" where
  "shortened_decode natural n k dec mem erasure_list b = do {
     let padding = natural - (n - k) - k;
     let blk = fold (\<lambda>i. set_sym i 0) [0..<padding] (block_ctor mem);
     let blk = fold (\<lambda>i. set_sym (padding + i) (data b ! i)) [0..<n] blk;
     let shifted = map (\<lambda>e. e + padding) erasure_list;
     (ok, blk) \<leftarrow> decode_erasures natural k dec shifted blk;
     if ok
     then Some (True, copy_state blk (fold (\<lambda>i. set_sym i (data blk ! (padding + i))) [0..<n] b))
     else Some (False, copy_state blk b)
   }"

end
