(* ===== verification/RSCorrect.thy ===== *)
theory RSCorrect
  imports RSCode
begin

text \<open>
  Correctness of the Reed-Solomon code: the encoder never fails and completes its data to a
  code word, a polynomial that vanishes at all roots of the generator; the decoder finds zero
  syndromes in a code word and hands the block back unchanged.
\<close>

section \<open>Loops that fill arrays\<close>

lemma fold_update_upt:
  assumes "b \<le> length xs"
  shows "fold (\<lambda>i ys. ys[i := v i]) [a..<b] xs = map (\<lambda>j. if a \<le> j \<and> j < b then v j else xs ! j) [0..<length xs]"
proof (cases "a \<le> b")
  case True
  let ?P = "\<lambda>i ys. ys = map (\<lambda>j. if a \<le> j \<and> j < i then v j else xs ! j) [0..<length xs]"
  have "?P b (fold (\<lambda>i ys. ys[i := v i]) [a..<b] xs)"
  proof (rule fold_upt_invariant [where P = ?P])
    show "?P a xs" by (rule nth_equalityI) auto
  next
    fix i ys assume "a \<le> i" "i < b" "?P i ys"
    then show "?P (Suc i) (ys[i := v i])"
      using assms by (intro nth_equalityI) (auto simp: nth_list_update)
  qed (rule True)
  then show ?thesis .
next
  case False
  then show ?thesis by (intro nth_equalityI) auto
qed

lemma fold_set_sym: "fold (\<lambda>i. set_sym (g i) (v i)) is b = b\<lparr>data := fold (\<lambda>i ys. ys[g i := v i]) is (data b)\<rparr>"
  by (induction "is" arbitrary: b) (simp_all add: set_sym_def)

lemma set_fec_eq: "set_fec n k i v = set_sym (n - k + i) v"
  by (rule ext) (simp add: set_fec_def)

lemma fold_update_offset:
  assumes "m + k \<le> length xs"
  shows "fold (\<lambda>i ys. ys[m + i := v i]) [0..<k] xs = take m xs @ map v [0..<k] @ drop (m + k) xs"
  using assms
proof (induction k)
  case (Suc k)
  then have "fold (\<lambda>i ys. ys[m + i := v i]) [0..<Suc k] xs =
      (take m xs @ map v [0..<k] @ drop (m + k) xs)[m + k := v k]" by simp
  also have "\<dots> = take m xs @ map v [0..<k] @ (drop (m + k) xs)[0 := v k]"
    using Suc.prems by (simp add: list_update_append)
  also have "drop (m + k) xs = xs ! (m + k) # drop (Suc (m + k)) xs"
    using Suc.prems by (simp add: Cons_nth_drop_Suc)
  finally show ?case by simp
qed simp

section \<open>Message and received polynomial\<close>

lemma field_ok_size: "field_ok f \<Longrightarrow> field_size f = 255"
  by (simp add: field_ok_def)

lemma load_message_eq:
  assumes "0 < n"
  shows "load_message n dec b = map (\<lambda>j. elem_of_symbol (dec_field dec) (data b ! (n - 1 - j))) [0..<n]"
proof -
  let ?e = "\<lambda>i. elem_of_symbol (dec_field dec) (data b ! i)"
  let ?P = "\<lambda>i r. r = map (\<lambda>j. if n - i \<le> j then ?e (n - 1 - j) else 0) [0..<n]"
  have "?P n (fold (\<lambda>i r. r[n - 1 - i := ?e i]) [0..<n] (fp_zero (n - 1)))"
  proof (rule fold_upt_invariant [where P = ?P])
    show "?P 0 (fp_zero (n - 1))" using assms by (intro nth_equalityI) (auto simp: fp_zero_def)
  next
    fix i r assume "i < n" "?P i r"
    then show "?P (Suc i) (r[n - 1 - i := ?e i])"
      by (intro nth_equalityI) (auto simp: nth_list_update)
  qed simp
  then show ?thesis by (simp add: load_message_def)
qed

lemma msg_poly_eq:
  "msg_poly n k enc b =
     map (\<lambda>j. if k \<le> j \<and> j < n then elem_of_symbol (enc_field enc) (data b ! (n - 1 - j)) else 0) [0..<n + 1]"
  unfolding msg_poly_def fp_zero_def
  by (subst fold_update_upt; (rule nth_equalityI)?) (auto simp del: replicate_Suc simp: nth_append)

lemma symbol_elem: "field_ok f \<Longrightarrow> symbol (elem_of_symbol f v)"
  using symbol_mask by (simp add: elem_of_symbol_def field_ok_size)

lemma symbols_load: "0 < n \<Longrightarrow> field_ok (dec_field dec) \<Longrightarrow> symbols (load_message n dec b)"
  using symbol_elem by (simp add: load_message_eq list_all_iff)

lemma symbols_msg: "field_ok (enc_field enc) \<Longrightarrow> symbols (msg_poly n k enc b)"
  using symbol_elem by (auto simp: msg_poly_eq list_all_iff)

section \<open>Code words\<close>

definition codeword :: "nat \<Rightarrow> nat \<Rightarrow> decoder \<Rightarrow> nat \<Rightarrow> rsblock \<Rightarrow> bool" where
  "codeword n k dec a b \<longleftrightarrow> (\<forall>i<k. ev (gp (load_message n dec b)) (gen ^ (a + i)) = 0)"

lemma compute_syndrome_eq:
  assumes "0 < k"
  shows "\<exists>e. compute_syndrome k dec r =
      (e, map (\<lambda>i. fp_eval (dec_field dec) r (syndrome_exponent_table dec ! i)) [0..<k]) \<and>
     (e = 0 \<longleftrightarrow> (\<forall>i<k. fp_eval (dec_field dec) r (syndrome_exponent_table dec ! i) = 0))"
proof -
  let ?v = "\<lambda>i. fp_eval (dec_field dec) r (syndrome_exponent_table dec ! i)"
  let ?P = "\<lambda>i (e :: int, s). s = map (\<lambda>j. if j < i then ?v j else 0) [0..<k] \<and> (e = 0 \<longleftrightarrow> (\<forall>j<i. ?v j = 0))"
  have "?P k (compute_syndrome k dec r)" unfolding compute_syndrome_def
  proof (rule fold_upt_invariant [where P = ?P])
    show "?P 0 (0, fp_zero (k - 1))" using assms by (auto simp: fp_zero_def intro: nth_equalityI)
  next
    fix i es assume i: "i < k" and P: "?P i es"
    obtain e s where es: "es = (e, s)" by fastforce
    have "s[i := ?v i] = map (\<lambda>j. if j < Suc i then ?v j else 0) [0..<k]"
      using P i by (intro nth_equalityI) (auto simp: es nth_list_update)
    moreover have "e OR ?v i = 0 \<longleftrightarrow> (\<forall>j<Suc i. ?v j = 0)"
      using P by (auto simp: es or_eq_0_iff less_Suc_eq)
    ultimately show "?P (Suc i) (case es of (error_flag, syndrome) \<Rightarrow>
        let s = ?v i in (error_flag OR s, syndrome[i := s]))" by (simp add: es Let_def)
  qed simp
  then show ?thesis by (cases "compute_syndrome k dec r") auto
qed

definition dec_ok :: "nat \<Rightarrow> nat \<Rightarrow> decoder \<Rightarrow> bool" where
  "dec_ok k a dec \<longleftrightarrow> decoder_valid dec \<and> field_ok (dec_field dec) \<and> 0 < k \<and> a + k \<le> 255 \<and>
     syndrome_exponent_table dec = map (\<lambda>i. alpha (dec_field dec) (int (a + i))) [0..<k]"

lemma decoder_ctor_ok:
  "field_ok f \<Longrightarrow> 0 < k \<Longrightarrow> a + k \<le> 255 \<Longrightarrow> dec_ok k a (decoder_ctor 255 k f a)"
  by (simp add: dec_ok_def decoder_ctor_def create_lookup_tables_def Let_def field_ok_size)

lemma syndrome_zero_iff:
  assumes d: "dec_ok k a dec"
  shows "fst (compute_syndrome k dec (load_message 255 dec b)) = 0 \<longleftrightarrow> codeword 255 k dec a b"
proof -
  have f: "field_ok (dec_field dec)" and k: "0 < k" "a + k \<le> 255" using d by (auto simp: dec_ok_def)
  have "fp_eval (dec_field dec) (load_message 255 dec b) (syndrome_exponent_table dec ! i) = 0 \<longleftrightarrow>
      ev (gp (load_message 255 dec b)) (gen ^ (a + i)) = 0" if i: "i < k" for i
  proof -
    have "syndrome_exponent_table dec ! i = alpha (dec_field dec) (int (a + i))"
      using d i by (simp add: dec_ok_def)
    moreover have "alpha (dec_field dec) (int (a + i)) = aseq (a + i)"
      using alpha_ok [OF f, of "int (a + i)"] i k by (simp add: nat_add_distrib)
    moreover have "length (load_message 255 dec b) \<le> 256" by (simp add: load_message_eq)
    ultimately show ?thesis
      using fp_eval_zero_iff [OF f symbols_load [OF _ f], of 255 b "aseq (a + i)"] by (simp add: gf_aseq)
  qed
  then show ?thesis using compute_syndrome_eq [OF k(1), of dec "load_message 255 dec b"]
    by (auto simp: codeword_def)
qed

text \<open>A code word passes the decoder with its symbols unchanged; anything else enters the repair.\<close>

lemma decode_codeword_erasures:
  assumes "dec_ok k a dec" and "codeword 255 k dec a b" and "length el \<le> k"
  shows "decode_erasures 255 k dec el b =
     Some (True, b\<lparr>errors_detected := 0, errors_corrected := 0, zero_numerators := 0, unrecoverable := False\<rparr>)"
proof -
  obtain e s where es: "compute_syndrome k dec (load_message 255 dec b) = (e, s)" by fastforce
  have "e = 0" using syndrome_zero_iff [OF assms(1), of b] assms(2) es by simp
  with es assms(1,3) show ?thesis by (simp add: decode_erasures_def dec_ok_def)
qed

lemmas decode_codeword = decode_codeword_erasures [where el = "[]", folded decode_def, simplified]

section \<open>Encoding\<close>

text \<open>
  The parity symbols of some data symbols: the remainder of the message polynomial, highest
  power first.
\<close>

definition enc_ok :: "nat \<Rightarrow> nat \<Rightarrow> encoder \<Rightarrow> bool" where
  "enc_ok k a enc \<longleftrightarrow> encoder_valid enc \<and> field_ok (enc_field enc) \<and> 0 < k \<and> a + k \<le> 255 \<and>
     gen_shape a (a + k) (generator enc)"

lemma encoder_ctor_ok:
  assumes "field_ok f" and "0 < k" and "a + k \<le> 255"
    and "make_sequential_root_generator_polynomial f a k = Some g"
  shows "enc_ok k a (encoder_ctor 255 f g)"
  using make_generator_ok [OF assms(1), of a k] assms
  by (simp add: enc_ok_def encoder_ctor_def field_ok_size)

lemma generator_root:
  assumes "enc_ok k a enc" and "i < k"
  shows "ev (gp (generator enc)) (gen ^ (a + i)) = 0"
proof -
  have "ev (gp (generator enc)) (gen ^ (a + i)) = (\<Prod>j = a..<a + k. gen ^ (a + i) + gen ^ j)"
    using assms(1) by (simp add: enc_ok_def gen_shape_def)
  also have "\<dots> = 0" using assms(2) by (intro prod_zero bexI [of _ "a + i"]) auto
  finally show ?thesis .
qed

lemma parities_exist:
  assumes e: "enc_ok k a enc" and b: "length (data b) = 255"
  shows "\<exists>r. fp_mod (enc_field enc) (msg_poly 255 k enc b) (generator enc) = Some r \<and> length r = k \<and> symbols r \<and>
     (\<forall>i<k. ev (gp r) (gen ^ (a + i)) = ev (gp (msg_poly 255 k enc b)) (gen ^ (a + i)))"
proof -
  have f: "field_ok (enc_field enc)" and k: "0 < k" "a + k \<le> 255"
    and g: "symbols (generator enc)" "last (generator enc) = 1" "length (generator enc) = Suc k"
    using e by (auto simp: enc_ok_def gen_shape_def)
  have *: "\<exists>r. fp_mod (enc_field enc) (msg_poly 255 k enc b) (generator enc) = Some r \<and> length r = k \<and> symbols r \<and>
      ev (gp r) (gen ^ (a + i)) = ev (gp (msg_poly 255 k enc b)) (gen ^ (a + i))" if "i < k" for i
    using fp_mod_root [OF f symbols_msg [OF f], of "generator enc" 255 k b "gen ^ (a + i)"] g k
      generator_root [OF e that] by (simp add: msg_poly_eq)
  from * [OF k(1)] obtain r where r: "fp_mod (enc_field enc) (msg_poly 255 k enc b) (generator enc) = Some r"
    "length r = k" "symbols r" by blast
  moreover have "ev (gp r) (gen ^ (a + i)) = ev (gp (msg_poly 255 k enc b)) (gen ^ (a + i))" if "i < k" for i
    using * [OF that] r(1) by auto
  ultimately show ?thesis by blast
qed

definition parities :: "nat \<Rightarrow> encoder \<Rightarrow> rsblock \<Rightarrow> field_symbol list" where
  "parities k enc b = rev (the (fp_mod (enc_field enc) (msg_poly 255 k enc b) (generator enc)))"

lemma parities_cong:
  assumes "take (255 - k) (data b) = take (255 - k) (data c)"
  shows "parities k enc b = parities k enc c"
proof -
  have "data b ! (254 - j) = data c ! (254 - j)" if "k \<le> j" "j < 255" for j
    using nth_take [of "254 - j" "255 - k" "data b"] nth_take [of "254 - j" "255 - k" "data c"] assms that by simp
  then have "msg_poly 255 k enc b = msg_poly 255 k enc c" by (simp add: msg_poly_eq)
  then show ?thesis by (simp add: parities_def)
qed

lemma encode_ok:
  assumes e: "enc_ok k a enc" and d: "dec_ok k a dec" and b: "length (data b) = 255"
  defines "ps \<equiv> parities k enc b"
  shows "encode 255 k enc b = Some (True, b\<lparr>data := take (255 - k) (data b) @ ps\<rparr>) \<and>
     length ps = k \<and> symbols ps \<and> codeword 255 k dec a (b\<lparr>data := take (255 - k) (data b) @ ps\<rparr>)"
proof -
  have f: "field_ok (enc_field enc)" and k: "0 < k" "a + k \<le> 255" and v: "encoder_valid enc"
    using e by (auto simp: enc_ok_def)
  have fd: "field_ok (dec_field dec)" using d by (simp add: dec_ok_def)
  obtain r where r: "fp_mod (enc_field enc) (msg_poly 255 k enc b) (generator enc) = Some r"
    "length r = k" "symbols r"
    "\<And>i. i < k \<Longrightarrow> ev (gp r) (gen ^ (a + i)) = ev (gp (msg_poly 255 k enc b)) (gen ^ (a + i))"
    using parities_exist [OF e b] by blast
  have ps_def: "ps = map (\<lambda>i. r ! (k - 1 - i)) [0..<k]"
    unfolding ps_def parities_def using r(1,2) by (intro nth_equalityI) (auto simp: rev_nth)
  have rm: "r ! j AND 255 = r ! j" if "j < k" for j
    using mask_symbol symbols_nth [OF r(3)] that r(2) by blast
  have "fold (\<lambda>i. set_fec 255 k i ((r ! (k - 1 - i)) AND 255)) [0..<k] b =
      b\<lparr>data := take (255 - k) (data b) @ map (\<lambda>i. (r ! (k - 1 - i)) AND 255) [0..<k]\<rparr>"
    using b k fold_set_sym [of "\<lambda>i. 255 - k + i"] fold_update_offset [of "255 - k" k "data b"]
    by (simp add: set_fec_eq)
  also have "map (\<lambda>i. (r ! (k - 1 - i)) AND 255) [0..<k] = ps" unfolding ps_def using rm k by auto
  finally have enc: "encode 255 k enc b = Some (True, b\<lparr>data := take (255 - k) (data b) @ ps\<rparr>)"
    using v r(1,2) f by (simp add: encode_def deg_def field_ok_size)
  let ?b = "b\<lparr>data := take (255 - k) (data b) @ ps\<rparr>"
  define m where "m = map (\<lambda>j. (data b ! (254 - j)) AND 255) [k..<255]"
  have ld: "load_message 255 dec ?b = r @ m"
  proof (rule nth_equalityI)
    show "length (load_message 255 dec ?b) = length (r @ m)" using k r(2) by (simp add: load_message_eq m_def)
    fix j assume "j < length (load_message 255 dec ?b)"
    then have j: "j < 255" by (simp add: load_message_eq)
    have L: "load_message 255 dec ?b ! j = (take (255 - k) (data b) @ ps) ! (254 - j) AND 255"
      using j fd by (simp add: load_message_eq elem_of_symbol_def field_ok_size)
    show "load_message 255 dec ?b ! j = (r @ m) ! j"
    proof (cases "j < k")
      case True
      then have "\<not> 254 - j < 255 - k" "254 - j - (255 - k) = k - 1 - j" using k by auto
      then have "(take (255 - k) (data b) @ ps) ! (254 - j) = r ! j"
        using b k True by (simp add: nth_append ps_def)
      then show ?thesis unfolding L using True r(2) rm [OF True] by (simp only: nth_append if_True)
    next
      case False
      then have "254 - j < 255 - k" using k j by auto
      then have "(take (255 - k) (data b) @ ps) ! (254 - j) = data b ! (254 - j)"
        using b by (simp add: nth_append)
      moreover have "[k..<255] ! (j - k) = j" using False j by (subst nth_upt) auto
      then have "(r @ m) ! j = data b ! (254 - j) AND 255" using False j r(2) by (simp add: nth_append m_def)
      ultimately show ?thesis unfolding L by simp
    qed
  qed
  have mp: "msg_poly 255 k enc b = replicate k 0 @ m @ [0]"
    using k f by (intro nth_equalityI)
      (auto simp: msg_poly_eq m_def nth_append elem_of_symbol_def field_ok_size less_Suc_eq_le)
  have "ev (gp (r @ m)) (gen ^ (a + i)) = 0" if "i < k" for i
    using r(4) [OF that] r(2) by (simp add: mp ev_append ev_Cons)
  then have "codeword 255 k dec a ?b" by (simp add: codeword_def ld)
  moreover have "length ps = k" "symbols ps" using symbols_nth [OF r(3)] r(2) by (auto simp: ps_def list_all_iff)
  ultimately show ?thesis using enc by blast
qed

text \<open>Whether a block is a code word depends on its symbols modulo the mask only.\<close>

lemma codeword_mask_cong:
  assumes "field_ok (dec_field dec)" and "length (data b) = 255" and "length (data c) = 255"
    and "map (\<lambda>v. v AND 255) (data b) = map (\<lambda>v. v AND 255) (data c)"
  shows "codeword 255 k dec a b = codeword 255 k dec a c"
proof -
  have "data b ! i AND 255 = data c ! i AND 255" if "i < 255" for i
    using arg_cong [OF assms(4), of "\<lambda>l. l ! i"] assms(2,3) that by simp
  then have "load_message 255 dec b = load_message 255 dec c"
    using assms(1) by (simp add: load_message_eq elem_of_symbol_def field_ok_size)
  then show ?thesis by (simp add: codeword_def)
qed

section \<open>Properties\<close>

text \<open>
  C9: the encoder always succeeds and completes the data to a code word: for a block of 255
  symbols, \<^verbatim>\<open>encode\<close> leaves the data symbols alone, fills the \<open>k\<close> parity symbols, and the decoder
  for the same code finds a code word in the result and hands it back unchanged with no error
  detected.
\<close>

theorem encode_then_decode:
  assumes "0 < k" and "a + k \<le> 255" and "length (data b) = 255"
    and "make_sequential_root_generator_polynomial (rs_field al ix beyond) a k = Some g"
  shows "\<exists>ps b1 b2. encode 255 k (encoder_ctor 255 (rs_field al ix beyond) g) b = Some (True, b1) \<and>
     data b1 = take (255 - k) (data b) @ ps \<and> length ps = k \<and> symbols ps \<and>
     decode 255 k (decoder_ctor 255 k (rs_field al' ix' beyond') a) b1 = Some (True, b2) \<and>
     data b2 = data b1 \<and> errors_detected b2 = 0"
proof -
  have e: "enc_ok k a (encoder_ctor 255 (rs_field al ix beyond) g)"
    by (rule encoder_ctor_ok [OF rs_field_ok assms(1,2,4)])
  have d: "dec_ok k a (decoder_ctor 255 k (rs_field al' ix' beyond') a)"
    by (rule decoder_ctor_ok [OF rs_field_ok assms(1,2)])
  from encode_ok [OF e d assms(3)] decode_codeword [OF d] show ?thesis by fastforce
qed

theorem encode_then_decode_witness:
  "\<exists>b1 b2. encode 255 32 (encoder_ctor 255 (rs_field (\<lambda>_. 0) (\<lambda>_. 0) 0)
       (the (make_sequential_root_generator_polynomial (rs_field (\<lambda>_. 0) (\<lambda>_. 0) 0) 120 32)))
       (block_ctor (replicate 255 (- 3))) = Some (True, b1) \<and>
     decode 255 32 (decoder_ctor 255 32 (rs_field (\<lambda>_. 1) (\<lambda>_. 2) 3) 120) b1 = Some (True, b2) \<and> data b2 = data b1"
proof -
  obtain g where "make_sequential_root_generator_polynomial (rs_field (\<lambda>_. 0) (\<lambda>_. 0) 0) 120 32 = Some g"
    using make_generator_ok [OF rs_field_ok [of "\<lambda>_. 0" "\<lambda>_. 0" 0], of 120 32] by auto
  with encode_then_decode [of 32 120 "block_ctor (replicate 255 (- 3))" "\<lambda>_. 0" "\<lambda>_. 0" 0 g "\<lambda>_. 1" "\<lambda>_. 2" 3]
  show ?thesis by (auto simp: block_ctor_def)
qed

end
