(* ===== verification/KeyEquation.thy ===== *)
theory KeyEquation
  imports PolyEval
begin

text \<open>
  The algebra behind the decoder, over the field with 256 elements: a polynomial with more
  zeros than its length allows vanishes, power sums determine their weights, and the relations
  between a locator polynomial, the syndromes and the error values that the Berlekamp-Massey
  and Forney algorithms rest on. Coefficients are functions on the natural numbers with an
  explicit bound.
\<close>

section \<open>Zeros of polynomials\<close>

text \<open>Dividing off a linear factor.\<close>

fun synth :: "gf256 \<Rightarrow> gf256 list \<Rightarrow> gf256 list" where
  "synth r [] = []"
| "synth r (c # p) = (if p = [] then [] else ev p r # synth r p)"

lemma length_synth [simp]: "length (synth r p) = length p - 1"
  by (induction r p rule: synth.induct) auto

lemma ev_synth: "ev p x = ev p r + (x + r) * ev (synth r p) x"
proof (induction r p rule: synth.induct)
  case (2 r c p)
  show ?case
  proof (cases "p = []")
    case True
    then show ?thesis by (simp add: ev_Cons)
  next
    case False
    let ?e = "ev p r" and ?q = "ev (synth r p) x"
    have "ev (c # p) x = c + x * (?e + (x + r) * ?q)"
      using "2.IH" [OF False] by (simp add: ev_Cons)
    also have "\<dots> = c + x * (?e + (x + r) * ?q) + (r * ?e + r * ?e)" by simp
    also have "\<dots> = (c + r * ?e) + (x + r) * (?e + x * ?q)"
      by (simp only: distrib_left distrib_right ac_simps)
    finally show ?thesis using False by (simp add: ev_Cons)
  qed
qed simp

lemma synth_zero:
  "ev p r = 0 \<Longrightarrow> \<forall>c \<in> set (synth r p). c = 0 \<Longrightarrow> \<forall>c \<in> set p. c = 0"
proof (induction r p rule: synth.induct)
  case (2 r c p)
  then show ?case by (cases "p = []") (auto simp: ev_Cons)
qed simp

lemma too_many_zeros:
  "finite R \<Longrightarrow> length p \<le> card R \<Longrightarrow> \<forall>y \<in> R. ev p y = 0 \<Longrightarrow> \<forall>c \<in> set p. c = 0"
proof (induction "card R" arbitrary: R p)
  case 0
  then show ?case by simp
next
  case (Suc n)
  then obtain r where r: "r \<in> R" by (cases "R = {}") auto
  have "ev (synth r p) y = 0" if y: "y \<in> R - {r}" for y
  proof -
    have "(y + r) * ev (synth r p) y = 0" using ev_synth [of p y r] Suc.prems(3) r y by simp
    then show ?thesis using y by (auto simp: gf_add_eq_0)
  qed
  moreover have "card (R - {r}) = n" using Suc.hyps(2) r Suc.prems(1) by simp
  ultimately have "\<forall>c \<in> set (synth r p). c = 0"
    using Suc.hyps(1) [of "R - {r}" "synth r p"] Suc.prems Suc.hyps(2) by auto
  then show ?case using synth_zero r Suc.prems(3) by blast
qed

text \<open>The same for coefficient functions.\<close>

lemma ev_map_upt: "ev (map c [0..<n]) x = (\<Sum>i<n. c i * x ^ i)"
  by (simp add: ev_def)

lemma zeros_bound:
  assumes "finite R" and "n \<le> card R" and "\<And>y. y \<in> R \<Longrightarrow> (\<Sum>i<n. c i * y ^ i) = 0" and "i < n"
  shows "c i = (0 :: gf256)"
  using too_many_zeros [of R "map c [0..<n]"] assms by (auto simp: ev_map_upt)

section \<open>Power sums\<close>

text \<open>A polynomial with given zeros.\<close>

fun of_zeros :: "gf256 list \<Rightarrow> gf256 list" where
  "of_zeros [] = [1]"
| "of_zeros (r # rs) = (let p = of_zeros rs in map2 (+) (map ((*) r) p) (0 # p) @ drop (length p) (0 # p))"

lemma length_of_zeros [simp]: "length (of_zeros rs) = Suc (length rs)"
  by (induction rs) (auto simp: Let_def)

lemma ev_of_zeros: "ev (of_zeros rs) x = (\<Prod>r \<leftarrow> rs. x + r)"
proof (induction rs)
  case (Cons r rs)
  have "ev (of_zeros (r # rs)) x = ev (map ((*) r) (of_zeros rs)) x + ev (0 # of_zeros rs) x"
    using ev_map2_plus [of "map ((*) r) (of_zeros rs)" "0 # of_zeros rs" x] by (simp add: Let_def)
  then show ?case using Cons by (simp add: ev_map_mult ev_Cons algebra_simps)
qed (simp add: ev_Cons)

lemma ev_of_zeros_eq_0: "ev (of_zeros rs) x = 0 \<longleftrightarrow> x \<in> set rs"
  unfolding ev_of_zeros by (induction rs) (auto simp: gf_add_eq_0)

lemma power_sums_zero:
  assumes E: "finite E" "inj_on X E" and n: "card E \<le> n"
    and z: "\<And>m. m < n \<Longrightarrow> (\<Sum>j\<in>E. w j * X j ^ m) = 0" and j0: "j0 \<in> E"
  shows "w j0 = (0 :: gf256)"
proof -
  obtain js where js: "set js = E - {j0}" "distinct js" using E(1) finite_distinct_list by blast
  define p where "p = of_zeros (map X js)"
  have "length js = card (E - {j0})" using js distinct_card by fastforce
  then have lp: "length p \<le> n" using n E(1) j0 card_Suc_Diff1 [OF E(1) j0] by (simp add: p_def)
  have "(\<Sum>j\<in>E. w j * ev p (X j)) = (\<Sum>j\<in>E. \<Sum>m<length p. p ! m * (w j * X j ^ m))"
    by (simp add: ev_def sum_distrib_left mult_ac)
  also have "\<dots> = (\<Sum>m<length p. p ! m * (\<Sum>j\<in>E. w j * X j ^ m))"
    by (subst sum.swap) (simp add: sum_distrib_left)
  also have "\<dots> = 0" using z lp by simp
  finally have "(\<Sum>j\<in>E. w j * ev p (X j)) = 0" .
  moreover have "ev p (X j) = 0" if "j \<in> E - {j0}" for j
    using that js(1) by (simp add: p_def ev_of_zeros_eq_0)
  ultimately have "w j0 * ev p (X j0) = 0" using sum.remove [OF E(1) j0, of "\<lambda>j. w j * ev p (X j)"] by simp
  moreover have "ev p (X j0) \<noteq> 0"
    using E(2) j0 js(1) by (auto simp: p_def ev_of_zeros_eq_0 dest: inj_onD)
  ultimately show ?thesis by simp
qed

section \<open>Syndromes of an error pattern\<close>

text \<open>
  An error pattern has the value \<open>e j\<close> at the coefficient \<open>j \<in> E\<close>; its locator is \<open>gen ^ j\<close>. The
  syndromes are the power sums from exponent \<open>a\<close> on; \<open>conv\<close> is the product with a series.
\<close>

definition syn :: "(nat \<Rightarrow> gf256) \<Rightarrow> nat set \<Rightarrow> nat \<Rightarrow> nat \<Rightarrow> gf256" where
  "syn e E a m = (\<Sum>j\<in>E. e j * (gen ^ j) ^ (a + m))"

definition conv :: "(nat \<Rightarrow> gf256) \<Rightarrow> (nat \<Rightarrow> gf256) \<Rightarrow> nat \<Rightarrow> gf256" where
  "conv c s m = (\<Sum>i\<le>m. c i * s (m - i))"

text \<open>The value of a coefficient function at the inverse of a locator.\<close>

definition at_inv :: "(nat \<Rightarrow> gf256) \<Rightarrow> nat \<Rightarrow> nat \<Rightarrow> gf256" where
  "at_inv c n j = (\<Sum>i<n. c i * inverse (gen ^ j) ^ i)"

lemma power_inverse_shift:
  assumes "i \<le> m" and "x \<noteq> 0"
  shows "x ^ (a + (m - i)) = x ^ (a + m) * inverse (x :: gf256) ^ i"
proof -
  have "x ^ (a + m) = x ^ (a + (m - i)) * x ^ i" using assms(1) by (simp flip: power_add)
  then show ?thesis using assms(2) by (simp add: power_inverse)
qed

lemma conv_syn:
  assumes c: "\<And>i. n \<le> i \<Longrightarrow> c i = 0" and n: "n \<le> Suc m"
  shows "conv c (syn e E a) m = (\<Sum>j\<in>E. e j * (gen ^ j) ^ (a + m) * at_inv c n j)"
proof -
  have "conv c (syn e E a) m = (\<Sum>i<n. c i * syn e E a (m - i))"
    unfolding conv_def using c n by (intro sum.mono_neutral_right) auto
  also have "\<dots> = (\<Sum>i<n. \<Sum>j\<in>E. e j * (gen ^ j) ^ (a + m) * (c i * inverse (gen ^ j) ^ i))"
    using n power_inverse_shift [of _ m "gen ^ j" a for j]
    by (intro sum.cong refl) (simp add: syn_def sum_distrib_left mult_ac)
  also have "\<dots> = (\<Sum>j\<in>E. \<Sum>i<n. e j * (gen ^ j) ^ (a + m) * (c i * inverse (gen ^ j) ^ i))"
    by (rule sum.swap)
  finally show ?thesis by (simp add: at_inv_def sum_distrib_left)
qed

definition err_ok :: "(nat \<Rightarrow> gf256) \<Rightarrow> nat set \<Rightarrow> bool" where
  "err_ok e E \<longleftrightarrow> E \<subseteq> {..<255} \<and> (\<forall>j\<in>E. e j \<noteq> 0)"

lemma err_ok_places: "err_ok e E \<Longrightarrow> E \<subseteq> {..<255}"
  by (simp add: err_ok_def)

lemma places_finite: "E \<subseteq> {..<255 :: nat} \<Longrightarrow> finite E"
  by (meson finite_lessThan finite_subset)

lemma places_inj: "E \<subseteq> {..<255} \<Longrightarrow> inj_on (\<lambda>j. gen ^ j) E"
  using gen_power_inj by (intro inj_onI) blast

lemmas err_ok_finite = places_finite [OF err_ok_places] and err_ok_inj = places_inj [OF err_ok_places]

text \<open>
  A recurrence that holds for as many consecutive syndromes as there are errors has all
  inverse locators as zeros.
\<close>

lemma recurrence_locates:
  assumes e: "err_ok e E" and c: "\<And>i. n \<le> i \<Longrightarrow> c i = 0" "n \<le> Suc l"
    and z: "\<And>m. l \<le> m \<Longrightarrow> m < r \<Longrightarrow> conv c (syn e E a) m = 0" and r: "l + card E \<le> r" and j: "j \<in> E"
  shows "at_inv c n j = 0"
proof -
  let ?w = "\<lambda>j. e j * (gen ^ j) ^ (a + l) * at_inv c n j"
  have "?w j = 0"
  proof (rule power_sums_zero [OF err_ok_finite [OF e] err_ok_inj [OF e] _ _ j, of "r - l"])
    show "card E \<le> r - l" using r by simp
    fix m assume "m < r - l"
    then have "conv c (syn e E a) (l + m) = 0" using z by simp
    then show "(\<Sum>j\<in>E. ?w j * (gen ^ j) ^ m) = 0"
      using conv_syn [of n c "l + m" e E a] c by (simp add: power_add mult_ac)
  qed
  moreover have "e j \<noteq> 0" using e j by (auto simp: err_ok_def)
  ultimately show ?thesis by simp
qed

lemma recurrence_extends:
  assumes e: "err_ok e E" and c: "\<And>i. n \<le> i \<Longrightarrow> c i = 0" "n \<le> Suc l"
    and z: "\<And>m. l \<le> m \<Longrightarrow> m < r \<Longrightarrow> conv c (syn e E a) m = 0" and r: "l + card E \<le> r"
  shows "conv c (syn e E a) r = 0"
  using recurrence_locates [OF assms] conv_syn [of n c r e E a] c r by simp

text \<open>A coefficient function that vanishes at the inverse locators of some places does not see errors there.\<close>

lemma conv_syn_reduced:
  assumes c: "\<And>i. n \<le> i \<Longrightarrow> c i = 0" "n \<le> Suc m" and D: "finite D" and F: "\<And>j. j \<in> F \<Longrightarrow> at_inv c n j = 0"
  shows "conv c (syn e D a) m = conv c (syn e (D - F) a) m"
proof -
  have "conv c (syn e X a) m = (\<Sum>j\<in>X. e j * (gen ^ j) ^ (a + m) * at_inv c n j)" for X
    using conv_syn c by blast
  then show ?thesis using D F by (simp, intro sum.mono_neutral_right) auto
qed

lemma err_ok_Diff: "err_ok e D \<Longrightarrow> err_ok e (D - F)"
  by (auto simp: err_ok_def)

section \<open>The error locator polynomial\<close>

text \<open>
  A recurrence no longer than the number of errors that starts with 1 and vanishes at the
  inverse locators is the locator polynomial: it has that many zeros and no others.
\<close>

lemma inverse_locators:
  assumes "E \<subseteq> {..<255}"
  shows "card ((\<lambda>j. inverse (gen ^ j)) ` E) = card E"
proof -
  have "inj_on (\<lambda>j. inverse (gen ^ j)) E" using places_inj [OF assms] by (auto simp: inj_on_def)
  then show ?thesis by (rule card_image)
qed

lemma locator_zeros:
  assumes e: "E \<subseteq> {..<255}" and c: "c 0 = 1" "n \<le> Suc (card E)" and z: "\<And>j. j \<in> E \<Longrightarrow> at_inv c n j = 0" and n: "0 < n"
  shows "n = Suc (card E)" and "(\<Sum>i<n. c i * y ^ i) = 0 \<longleftrightarrow> (\<exists>j\<in>E. y = inverse (gen ^ j))"
proof -
  let ?R = "(\<lambda>j. inverse (gen ^ j)) ` E"
  have R: "finite ?R" "card ?R = card E" using places_finite [OF e] inverse_locators [OF e] by auto
  have zR: "(\<Sum>i<n. c i * y ^ i) = 0" if "y \<in> ?R" for y using that z by (auto simp: at_inv_def)
  have "\<not> n \<le> card E"
  proof
    assume "n \<le> card E"
    then have "c 0 = 0" using zeros_bound [OF R(1), of n c 0] R(2) zR n by simp
    with c(1) show False by simp
  qed
  then show n': "n = Suc (card E)" using c(2) by simp
  show "(\<Sum>i<n. c i * y ^ i) = 0 \<longleftrightarrow> (\<exists>j\<in>E. y = inverse (gen ^ j))"
  proof
    assume y: "(\<Sum>i<n. c i * y ^ i) = 0"
    show "\<exists>j\<in>E. y = inverse (gen ^ j)"
    proof (rule ccontr)
      assume "\<not> (\<exists>j\<in>E. y = inverse (gen ^ j))"
      then have "card (insert y ?R) = n" using R n' by (subst card_insert_disjoint) auto
      then have "c 0 = 0" using zeros_bound [of "insert y ?R" n c 0] R(1) zR y n by auto
      with c(1) show False by simp
    qed
  qed (use zR in blast)
qed

section \<open>Error values\<close>

text \<open>
  The quotient of the locator polynomial by one of its factors \<open>1 + x z\<close>; its coefficients are
  partial sums.
\<close>

definition quot :: "(nat \<Rightarrow> gf256) \<Rightarrow> gf256 \<Rightarrow> nat \<Rightarrow> gf256" where
  "quot c x m = (\<Sum>i\<le>m. c i * x ^ (m - i))"

lemma quot_Suc: "quot c x (Suc m) = c (Suc m) + x * quot c x m"
proof -
  have "(\<Sum>i\<le>m. c i * x ^ (Suc m - i)) = x * quot c x m"
    unfolding quot_def sum_distrib_left by (intro sum.cong refl) (simp add: Suc_diff_le)
  then show ?thesis by (simp add: quot_def add.commute)
qed

lemma coeff_from_quot: "c (Suc m) = quot c x (Suc m) + x * quot c x m"
proof -
  have "quot c x (Suc m) + x * quot c x m = c (Suc m) + (x * quot c x m + x * quot c x m)"
    unfolding quot_Suc by (simp only: add.assoc)
  then show ?thesis by simp
qed

lemma quot_top:
  assumes "x \<noteq> 0" and "(\<Sum>i<Suc n. c i * inverse x ^ i) = 0"
  shows "quot c x n = 0"
proof -
  have "quot c x n = (\<Sum>i\<le>n. x ^ n * (c i * inverse x ^ i))"
    unfolding quot_def using power_inverse_shift [OF _ assms(1), of _ n 0]
    by (intro sum.cong refl) (simp add: mult_ac)
  then show ?thesis using assms(2) by (simp only: sum_distrib_left [symmetric] lessThan_Suc_atMost) simp
qed

lemma quot_factor:
  assumes "x \<noteq> 0" and "(\<Sum>i<Suc n. c i * inverse x ^ i) = 0"
  shows "(\<Sum>i<Suc n. c i * z ^ i) = (1 + x * z) * (\<Sum>i<n. quot c x i * z ^ i)"
proof -
  have "(\<Sum>i<Suc m. c i * z ^ i) + quot c x m * z ^ m = (1 + x * z) * (\<Sum>i<m. quot c x i * z ^ i)" for m
  proof (induction m)
    case 0
    show ?case by (simp add: quot_def)
  next
    case (Suc m)
    let ?q = "\<lambda>i. quot c x i * z ^ i" and ?s = "\<Sum>i<Suc m. c i * z ^ i"
    have "(1 + x * z) * (\<Sum>i<Suc m. ?q i) = (?s + ?q m) + (?q m + x * z * ?q m)"
      using Suc by (simp add: algebra_simps del: sum.lessThan_Suc gf_add_self) (simp add: algebra_simps del: gf_add_self)
    also have "\<dots> = ?s + x * z * ?q m + (?q m + ?q m)" by (simp only: ac_simps)
    also have "x * z * ?q m = (c (Suc m) + quot c x (Suc m)) * z ^ Suc m"
    proof -
      have "c (Suc m) + quot c x (Suc m) = (quot c x (Suc m) + quot c x (Suc m)) + x * quot c x m"
        by (subst coeff_from_quot [of c m x]) (simp only: ac_simps)
      then show ?thesis by (simp add: mult_ac)
    qed
    finally have "(1 + x * z) * (\<Sum>i<Suc m. ?q i) = ?s + (c (Suc m) + quot c x (Suc m)) * z ^ Suc m" by simp
    then show ?case by (simp only: sum.lessThan_Suc [of _ "Suc m"] distrib_right add.assoc)
  qed
  from this [of n] show ?thesis using quot_top [OF assms] by simp
qed

text \<open>The formal derivative at a zero; in characteristic 2 only the odd coefficients count.\<close>

lemma sum_pairs:
  "(\<Sum>i<n. if even i then g i + g (Suc i) else 0) = (\<Sum>i<n. g i) + (if odd n then g n else (0 :: gf256))"
  by (induction n) (auto simp: add_ac)

lemma deriv_quot:
  assumes x: "x \<noteq> 0" and z: "(\<Sum>i<Suc n. c i * inverse x ^ i) = 0"
  shows "(\<Sum>i<n. (if even i then c (Suc i) else 0) * inverse x ^ i) = x * (\<Sum>i<n. quot c x i * inverse x ^ i)"
proof -
  let ?g = "\<lambda>i. quot c x i * inverse x ^ i"
  have "c (Suc i) * inverse x ^ i = x * (?g i + ?g (Suc i))" for i
    using x by (subst coeff_from_quot [of c i x]) (simp add: algebra_simps)
  then have "(\<Sum>i<n. (if even i then c (Suc i) else 0) * inverse x ^ i) = (\<Sum>i<n. x * (if even i then ?g i + ?g (Suc i) else 0))"
    by (intro sum.cong refl) auto
  also have "\<dots> = x * (\<Sum>i<n. ?g i)"
    unfolding sum_distrib_left [symmetric] using sum_pairs [of ?g n] quot_top [OF x z] by (simp only: mult_zero_left if_cancel add_0_right)
  finally show ?thesis .
qed

lemma conv_syn_quot: "conv c (syn e E a) m = (\<Sum>j\<in>E. e j * (gen ^ j) ^ a * quot c (gen ^ j) m)"
proof -
  have "conv c (syn e E a) m = (\<Sum>i\<le>m. \<Sum>j\<in>E. e j * (gen ^ j) ^ a * (c i * (gen ^ j) ^ (m - i)))"
    unfolding conv_def syn_def sum_distrib_left by (intro sum.cong refl) (simp only: power_add mult_ac)
  also have "\<dots> = (\<Sum>j\<in>E. \<Sum>i\<le>m. e j * (gen ^ j) ^ a * (c i * (gen ^ j) ^ (m - i)))" by (rule sum.swap)
  finally show ?thesis by (simp add: quot_def sum_distrib_left)
qed

lemma quot_other_zero:
  assumes e: "E \<subseteq> {..<255}" and z: "\<And>j. j \<in> E \<Longrightarrow> at_inv c (Suc n) j = 0" and j: "j \<in> E" "l \<in> E" "j \<noteq> l"
  shows "(\<Sum>i<n. quot c (gen ^ j) i * inverse (gen ^ l) ^ i) = 0"
proof -
  have "gen ^ j \<noteq> gen ^ l" using places_inj [OF e] j by (auto dest: inj_onD)
  then have "1 + gen ^ j * inverse (gen ^ l) \<noteq> 0" by (auto simp: gf_add_eq_0 field_simps)
  moreover have "(1 + gen ^ j * inverse (gen ^ l)) * (\<Sum>i<n. quot c (gen ^ j) i * inverse (gen ^ l) ^ i) = 0"
    using quot_factor [of "gen ^ j" c n "inverse (gen ^ l)"] z [OF j(1)] z [OF j(2)]
    by (simp only: at_inv_def) simp
  ultimately show ?thesis by simp
qed

lemma forney_value:
  assumes e: "E \<subseteq> {..<255}" and c: "c 0 = 1" and z: "\<And>j. j \<in> E \<Longrightarrow> at_inv c (Suc (card E)) j = 0" and j: "j \<in> E"
  defines "q \<equiv> \<Sum>i<card E. quot c (gen ^ j) i * inverse (gen ^ j) ^ i"
  shows "q \<noteq> 0"
    and "(\<Sum>m<card E. conv c (syn e E a) m * inverse (gen ^ j) ^ m) = e j * (gen ^ j) ^ a * q"
    and "(\<Sum>i<card E. (if even i then c (Suc i) else 0) * inverse (gen ^ j) ^ i) = gen ^ j * q"
proof -
  let ?n = "card E" and ?y = "inverse (gen ^ j)"
  note fin = places_finite [OF e]
  show "q \<noteq> 0"
  proof
    assume "q = 0"
    then have "(\<Sum>i<?n. quot c (gen ^ j) i * inverse (gen ^ l) ^ i) = 0" if "l \<in> E" for l
      using quot_other_zero [OF e z j that] by (cases "l = j") (auto simp: q_def)
    then have "quot c (gen ^ j) 0 = 0"
      using zeros_bound [of "(\<lambda>j. inverse (gen ^ j)) ` E" ?n "quot c (gen ^ j)" 0] fin j
        inverse_locators [OF e] by (auto simp: card_gt_0_iff)
    with c show False by (simp add: quot_def)
  qed
  have "(\<Sum>m<?n. conv c (syn e E a) m * ?y ^ m) =
      (\<Sum>m<?n. \<Sum>i\<in>E. e i * (gen ^ i) ^ a * (quot c (gen ^ i) m * ?y ^ m))"
    unfolding conv_syn_quot sum_distrib_right by (simp add: mult_ac)
  also have "\<dots> = (\<Sum>i\<in>E. \<Sum>m<?n. e i * (gen ^ i) ^ a * (quot c (gen ^ i) m * ?y ^ m))" by (rule sum.swap)
  also have "\<dots> = (\<Sum>i\<in>E. e i * (gen ^ i) ^ a * (\<Sum>m<?n. quot c (gen ^ i) m * ?y ^ m))"
    by (simp only: sum_distrib_left)
  also have "\<dots> = e j * (gen ^ j) ^ a * q + (\<Sum>i\<in>E - {j}. e i * (gen ^ i) ^ a * (\<Sum>m<?n. quot c (gen ^ i) m * ?y ^ m))"
    unfolding q_def by (rule sum.remove [OF fin j])
  also have "(\<Sum>i\<in>E - {j}. e i * (gen ^ i) ^ a * (\<Sum>m<?n. quot c (gen ^ i) m * ?y ^ m)) = 0"
    using quot_other_zero [OF e z _ j] by (intro sum.neutral) auto
  finally show "(\<Sum>m<?n. conv c (syn e E a) m * ?y ^ m) = e j * (gen ^ j) ^ a * q" by simp
  show "(\<Sum>i<?n. (if even i then c (Suc i) else 0) * ?y ^ i) = gen ^ j * q"
    unfolding q_def using z [OF j] by (intro deriv_quot) (simp_all add: at_inv_def)
qed

end
