(* ===== verification/BerlekampMassey.thy ===== *)
theory BerlekampMassey
  imports RSCorrect KeyEquation
begin

text \<open>
  The Berlekamp-Massey loop of the decoder finds the locator polynomial of the errors and erasures of
  a block, by an invariant over its rounds: the polynomial always generates the syndromes read so
  far, it vanishes at the erasures, and its register is never longer than the errors need.
\<close>

section \<open>Coefficients of the code's polynomials\<close>

definition co :: "fpoly \<Rightarrow> nat \<Rightarrow> gf256" where
  "co p i = (if i < length p then gf (p ! i) else 0)"

lemma co_beyond: "length p \<le> i \<Longrightarrow> co p i = 0"
  by (simp add: co_def)

lemma ev_co: "length p \<le> n \<Longrightarrow> ev (gp p) x = (\<Sum>i<n. co p i * x ^ i)"
  unfolding ev_def by (rule sum.mono_neutral_cong_left) (auto simp: co_def)

lemma co_simplify [simp]: "co (simplify p) i = co p i"
proof -
  obtain k where k: "p = simplify p @ replicate k 0" using simplify_split by blast
  have "co p i = co (simplify p @ replicate k 0) i" using k by simp
  then show ?thesis by (auto simp: co_def nth_append)
qed

lemma length_simplify_le: "length (simplify p) \<le> length p"
  by (simp add: simplify_def Let_def)

lemma last_simplify: "simplify p \<noteq> [] \<Longrightarrow> last (simplify p) \<noteq> 0"
proof -
  assume ne: "simplify p \<noteq> []"
  let ?c = "length (takeWhile (\<lambda>c. c = 0) (rev p))"
  have c: "?c < length (rev p)" using ne by (simp add: simplify_def Let_def)
  have l: "length (simplify p) = length p - ?c" by (simp add: simplify_def Let_def)
  have "last (simplify p) = simplify p ! (length p - ?c - 1)" using ne l by (simp add: last_conv_nth)
  also have "\<dots> = p ! (length p - ?c - 1)" using c by (simp add: simplify_def Let_def)
  also have "\<dots> = rev p ! ?c" using c by (simp add: rev_nth)
  finally have "last (simplify p) = rev p ! ?c" .
  moreover have "rev p ! ?c \<noteq> 0" using nth_length_takeWhile [OF c] by simp
  ultimately show ?thesis by simp
qed

lemma co_map2:
  assumes "symbols p" and "symbols q" and "length p \<le> length q"
  shows "co (map2 elem_add p q @ drop (length p) q) i = co p i + co q i"
  using assms symbols_nth [of p i] symbols_nth [of q i] by (auto simp: co_def nth_append elem_add_def gf_xor)

lemma co_fp_add:
  assumes "symbols p" and "symbols q"
  shows "co (fp_add p q) i = co p i + co q i"
proof (cases "length p < length q")
  case True
  then show ?thesis using co_map2 [OF assms] by (simp add: fp_add_def)
next
  case False
  have "map2 elem_add p q = map2 elem_add q p"
    by (rule nth_equalityI) (auto simp: elem_add_def xor.commute)
  then show ?thesis using False co_map2 [OF assms(2,1), of i] by (simp add: fp_add_def add.commute)
qed

lemma length_fp_add_le: "length (fp_add p q) \<le> max (length p) (length q)"
proof -
  have "length (fp_add p q) \<le> length (if length p < length q then map2 elem_add p q @ drop (length p) q
      else map2 elem_add p q @ drop (length q) p)"
    unfolding fp_add_def by (rule length_simplify_le)
  also have "\<dots> \<le> max (length p) (length q)" by auto
  finally show ?thesis .
qed

lemma co_mul_elem:
  assumes "field_ok f" and "symbols p" and "symbol e"
  shows "co (fp_mul_elem f p e) i = co p i * gf e" and "symbols (fp_mul_elem f p e)"
  using assms symbols_nth [of p i] symbol_mul
  by (auto simp: co_def fp_mul_elem_def elem_mul_def gf_mul list_all_iff)

lemma co_div_elem:
  assumes "field_ok f" and "symbols p" and "symbol e"
  shows "co (fp_div_elem f p e) i = co p i / gf e" and "symbols (fp_div_elem f p e)"
  using assms symbols_nth [of p i] symbol_div
  by (auto simp: co_def fp_div_elem_def elem_div_def gf_div list_all_iff)

lemma co_shl: "co (fp_shl p 1) i = (case i of 0 \<Rightarrow> 0 | Suc j \<Rightarrow> co p j)"
  by (cases i) (auto simp: co_def fp_shl_def)

lemma length_shl: "length (fp_shl p 1) \<le> Suc (length p)" and symbols_shl: "symbols p \<Longrightarrow> symbols (fp_shl p 1)"
  by (auto simp: fp_shl_def)

lemma co_fp_mul:
  assumes "field_ok f" and "symbols p" and "symbols q"
  shows "co (fp_mul f p q) n = conv (co p) (co q) n"
proof -
  obtain r where r: "fp_mul f p q = simplify r" "symbols r"
    "gp r = accumulate (products (gp p) (gp q)) (replicate (length p + length q) 0)"
    using fp_mul_accumulate [OF assms] by blast
  have lr: "length r = length p + length q" using arg_cong [OF r(3), of length] by simp
  have sum: "(\<Sum>a<length p. \<Sum>b<length q. if a + b = n then gf (p ! a) * gf (q ! b) else 0) = conv (co p) (co q) n"
  proof -
    have "(\<Sum>b<length q. if a + b = n then gf (p ! a) * gf (q ! b) else 0) =
        (if a \<le> n then co p a * co q (n - a) else 0)" if "a < length p" for a
    proof (cases "a \<le> n \<and> n - a < length q")
      case True
      then have "(\<Sum>b<length q. if a + b = n then gf (p ! a) * gf (q ! b) else 0) =
          (\<Sum>b<length q. if b = n - a then gf (p ! a) * gf (q ! b) else 0)" by (intro sum.cong) auto
      then show ?thesis using True that by (simp add: co_def)
    next
      case False
      then have "(\<Sum>b<length q. if a + b = n then gf (p ! a) * gf (q ! b) else 0) = 0" by (intro sum.neutral) auto
      then show ?thesis using False by (auto simp: co_def)
    qed
    then have "(\<Sum>a<length p. \<Sum>b<length q. if a + b = n then gf (p ! a) * gf (q ! b) else 0) =
        (\<Sum>a<length p. if a \<le> n then co p a * co q (n - a) else 0)" by simp
    also have "\<dots> = (\<Sum>a\<in>{..n} \<inter> {..<length p}. co p a * co q (n - a))"
      by (simp add: sum.If_cases Int_commute lessThan_def atMost_def Collect_conj_eq [symmetric] conj_commute)
    also have "\<dots> = conv (co p) (co q) n"
      unfolding conv_def by (rule sum.mono_neutral_left) (auto simp: co_def)
    finally show ?thesis .
  qed
  show ?thesis
  proof (cases "n < length p + length q")
    case True
    have "gf (r ! n) = gp r ! n" using True lr by simp
    also have "\<dots> = sum_list (map snd (filter (\<lambda>(k, v). k = n) (products (gp p) (gp q))))"
      unfolding r(3) using True products_bound [of "gp p" "gp q"] by (subst nth_accumulate) auto
    also have "\<dots> = (\<Sum>a<length p. \<Sum>b<length q. if a + b = n then gf (p ! a) * gf (q ! b) else 0)"
      unfolding coeff_products by (intro sum.cong) auto
    finally have "co r n = conv (co p) (co q) n" using True lr sum by (simp add: co_def)
    then show ?thesis by (simp add: r(1))
  next
    case False
    then have "conv (co p) (co q) n = 0" unfolding conv_def by (intro sum.neutral) (auto simp: co_def)
    then show ?thesis using False lr by (simp add: r(1) co_beyond)
  qed
qed

lemma co_mod_power:
  "co (fp_mod_power p n) i = (if i < n then co p i else 0) \<or> length p < n \<and> co (fp_mod_power p n) i = co p i"
proof (cases "n \<le> length p")
  case True
  then have "co (fp_mod_power p n) i = co (take n p) i" by (simp add: fp_mod_power_def resize_def)
  then show ?thesis using True by (simp add: co_def)
qed (auto simp: fp_mod_power_def)

lemma length_mod_power: "length (fp_mod_power p n) \<le> n"
  using length_simplify_le [of "resize n p"] by (auto simp: fp_mod_power_def resize_def)

lemma co_mod_power_below: "i < n \<Longrightarrow> co (fp_mod_power p n) i = co p i"
  using co_mod_power [of p n i] by auto

lemma symbols_mod_power: "symbols p \<Longrightarrow> symbols (fp_mod_power p n)"
  by (simp add: fp_mod_power_def resize_def symbols_take)

lemma co_derivative: "co (derivative p) i = (if even i then co p (Suc i) else 0)"
proof (cases "length p > 1")
  case True
  then have "co (derivative p) i = co (map (\<lambda>i. if even i \<and> i < length p - 1 then p ! (i + 1) else 0) [0..<length p]) i"
    by (simp add: derivative_def)
  then show ?thesis using True by (auto simp: co_def)
next
  case False
  then have "co (derivative p) i = co [0] i" by (simp add: derivative_def fp_zero_def)
  then show ?thesis using False by (auto simp: co_def)
qed

lemma length_derivative: "length (derivative p) \<le> max 1 (length p)"
  using length_simplify_le [of "map (\<lambda>i. if even i \<and> i < length p - 1 then p ! (i + 1) else 0) [0..<length p]"]
  by (auto simp: derivative_def fp_zero_def)

section \<open>The Berlekamp-Massey loop\<close>

lemma conv_add: "conv (\<lambda>i. c i + d i) s m = conv c s m + conv d s m"
  by (simp add: conv_def algebra_simps sum.distrib)

lemma conv_scale: "conv (\<lambda>i. c i * x) s m = x * conv c s m"
  by (simp add: conv_def sum_distrib_left mult_ac)

lemma conv_scale_div: "conv (\<lambda>i. c i / x) s m = conv c s m / x"
  by (simp add: conv_def sum_divide_distrib)

lemma conv_shift: "conv (case_nat 0 c) s (Suc m) = conv c s m"
  unfolding conv_def by (subst sum.atMost_Suc_shift) simp

lemma conv_bounded:
  assumes "length p \<le> Suc m"
  shows "conv (co p) s m = (\<Sum>i<length p. co p i * s (m - i))"
  unfolding conv_def using assms by (intro sum.mono_neutral_right) (auto simp: co_def)

text \<open>
  The discrepancy of a round is the coefficient of the product of the current polynomial with
  the syndromes, as long as the polynomial is no longer than the register length \<open>l\<close> allows.
\<close>

lemma xor_sum_fold:
  assumes "\<And>i. i < n \<Longrightarrow> symbol (g i)"
  shows "symbol (fold (\<lambda>i d. elem_add d (g i)) [0..<n] 0) \<and>
     gf (fold (\<lambda>i d. elem_add d (g i)) [0..<n] 0) = (\<Sum>i<n. gf (g i))"
  using assms
proof (induction n)
  case (Suc n)
  then show ?case using symbol_xor by (auto simp: elem_add_def gf_xor)
qed simp

lemma compute_discrepancy_conv:
  assumes f: "field_ok f" and p: "symbols p" "p \<noteq> []" "length p \<le> l + 1" and l: "l \<le> n"
    and sy: "symbols sy" "n < length sy" "\<And>m. m \<le> n \<Longrightarrow> gf (sy ! m) = s m"
  shows "\<exists>d. compute_discrepancy f p sy l n = Some d \<and> symbol d \<and> gf d = conv (co p) s n"
proof -
  have u: "min (int l) (deg p) = deg p" using p(3) by (simp add: deg_def)
  have b: "nat (deg p) + 1 = length p" using p(2) by (simp add: deg_def Suc_nat_eq_nat_zadd1)
  have sg: "symbol (elem_mul f (p ! i) (sy ! (n - i)))" if "i < length p" for i
    using that symbol_mul [OF f] symbols_nth [OF p(1)] symbols_nth [OF sy(1)] sy(2) by (simp add: elem_mul_def)
  have v: "gf (elem_mul f (p ! i) (sy ! (n - i))) = co p i * s (n - i)" if "i < length p" for i
    using that gf_mul [OF f] symbols_nth [OF p(1)] symbols_nth [OF sy(1)] sy(2,3) by (simp add: elem_mul_def co_def)
  have "compute_discrepancy f p sy l n =
      Some (fold (\<lambda>i d. elem_add d (elem_mul f (p ! i) (sy ! (n - i)))) [0..<length p] 0)"
    unfolding compute_discrepancy_def Let_def u b using p sy(2) l by (auto simp: deg_def Suc_le_eq)
  with xor_sum_fold [of "length p" "\<lambda>i. elem_mul f (p ! i) (sy ! (n - i))", OF sg] show ?thesis
    using v conv_bounded [of p n s] p(3) l by simp
qed

text \<open>
  Polynomials that vanish at the inverse locators of the erasures; the operations of a round
  keep this.
\<close>

definition kills :: "nat set \<Rightarrow> fpoly \<Rightarrow> bool" where
  "kills F p \<longleftrightarrow> (\<forall>j\<in>F. ev (gp p) (inverse (gen ^ j)) = 0)"

lemma ev_mul_elem: "field_ok f \<Longrightarrow> symbols p \<Longrightarrow> symbol d \<Longrightarrow> ev (gp (fp_mul_elem f p d)) y = gf d * ev (gp p) y"
  by (induction p) (auto simp: fp_mul_elem_def elem_mul_def ev_Cons gf_mul algebra_simps)

lemma ev_div_elem: "field_ok f \<Longrightarrow> symbols p \<Longrightarrow> symbol d \<Longrightarrow> ev (gp (fp_div_elem f p d)) y = ev (gp p) y / gf d"
  by (induction p) (auto simp: fp_div_elem_def elem_div_def ev_Cons gf_div add_divide_distrib)

lemma ev_shl: "ev (gp (fp_shl p 1)) y = y * ev (gp p) y"
  by (simp add: fp_shl_def ev_Cons)

lemma kills_empty [simp]: "kills {} p"
  by (simp add: kills_def)

lemma kills_shl: "kills F p \<Longrightarrow> kills F (fp_shl p 1)"
  by (simp add: kills_def ev_shl del: One_nat_def)

lemma kills_round:
  assumes "field_ok f" and "symbols p" "symbols q" "symbol d" and "kills F p"
  shows "kills F q \<Longrightarrow> kills F (fp_add p (fp_mul_elem f q d))" and "kills F (fp_div_elem f p d)"
  using assms ev_fp_add [of p "fp_mul_elem f q d"] co_mul_elem(2) [of f q d] ev_mul_elem [of f q d] ev_div_elem [of f p d]
  by (simp_all add: kills_def)

lemma kills_at_inv: "kills F p \<Longrightarrow> j \<in> F \<Longrightarrow> at_inv (co p) (length p) j = 0"
  by (simp add: kills_def at_inv_def ev_co [OF order_refl])

text \<open>
  The invariant before round \<open>n\<close>, for syndromes \<open>s\<close> of errors of which \<open>v\<close> are not among the erasures
  \<open>F\<close>: \<open>lambda\<close> generates the syndromes up to \<open>n\<close>, \<open>previous_lambda\<close> generates them up to the last one,
  where its discrepancy is 1, and both vanish at the inverse locators of the erasures.
\<close>

fun bm_inv :: "(nat \<Rightarrow> gf256) \<Rightarrow> nat \<Rightarrow> nat set \<Rightarrow> nat \<Rightarrow> fpoly \<times> fpoly \<times> int \<times> nat \<Rightarrow> bool" where
  "bm_inv s v F n (lambda, prev, i, l) \<longleftrightarrow>
     symbols lambda \<and> lambda \<noteq> [] \<and> last lambda \<noteq> 0 \<and> co lambda 0 = 1 \<and> length lambda \<le> l + 1 \<and> kills F lambda \<and>
     symbols prev \<and> co prev 0 = 0 \<and> length prev \<le> n + 2 + card F - l \<and> kills F prev \<and>
     i = int l - int (card F) - 1 \<and> card F \<le> l \<and> l \<le> n \<and> l \<le> v + card F \<and>
     (\<forall>m. l \<le> m \<and> m < n \<longrightarrow> conv (co lambda) s m = 0) \<and>
     (card F < l \<longrightarrow> conv (co prev) s n = 1 \<and> (\<forall>m. n + 1 + card F - l \<le> m \<and> m < n \<longrightarrow> conv (co prev) s m = 0))"

lemma co_shl_fun: "co (fp_shl p 1) = case_nat 0 (co p)"
  by (rule ext) (rule co_shl)

lemma conv_shl: "0 < m \<Longrightarrow> conv (co (fp_shl p 1)) s m = conv (co p) s (m - 1)"
  unfolding co_shl_fun by (cases m) (simp_all add: conv_shift)

lemma bm_inv_init:
  assumes "symbols g" "length g = Suc (card F)" "last g \<noteq> 0" "co g 0 = 1" "kills F g"
  shows "bm_inv s v F (card F) (g, fp_shl g 1, - 1, card F)"
proof -
  have "g \<noteq> []" using assms(2) by auto
  then show ?thesis using assms kills_shl [OF assms(5)] symbols_shl [OF assms(1)] length_shl [of g]
    by (auto simp: co_shl simp del: One_nat_def)
qed

lemma simplify_unit:
  assumes "co (simplify p) 0 = 1"
  shows "simplify p \<noteq> [] \<and> last (simplify p) \<noteq> 0"
  using assms last_simplify [of p] by (auto simp: co_def split: if_splits)

lemma fp_add_unit: "co (fp_add p q) 0 = 1 \<Longrightarrow> fp_add p q \<noteq> [] \<and> last (fp_add p q) \<noteq> 0"
  unfolding fp_add_def by (rule simplify_unit)

lemma bm_inv_shl:
  assumes "bm_inv s v F n (lambda, prev, i, l)" and "conv (co lambda) s n = 0"
  shows "bm_inv s v F (Suc n) (lambda, fp_shl prev 1, i, l)"
proof -
  let ?f = "card F"
  have m: "l \<le> m \<and> m < Suc n \<longrightarrow> conv (co lambda) s m = 0" for m using assms by (auto simp: less_Suc_eq)
  have p: "Suc n + 1 + ?f - l \<le> m \<and> m < Suc n \<longrightarrow> conv (co (fp_shl prev 1)) s m = 0" if "?f < l" for m
  proof
    assume "Suc n + 1 + ?f - l \<le> m \<and> m < Suc n"
    then have "n + 1 + ?f - l \<le> m - 1 \<and> m - 1 < n" "0 < m" using assms(1) by auto
    then show "conv (co (fp_shl prev 1)) s m = 0" using assms(1) that conv_shl [of m prev s] by simp
  qed
  show ?thesis using assms(1) m p conv_shl [of "Suc n" prev s] length_shl [of prev] symbols_shl [of prev] kills_shl [of F prev]
    by (auto simp: co_shl simp del: One_nat_def)
qed

lemma bm_inv_long:
  assumes f: "field_ok f" and d: "symbol d" "gf d = conv (co lambda) s n" "d \<noteq> 0"
    and inv: "bm_inv s v F n (lambda, prev, i, l)" and l: "n + card F < 2 * l"
  shows "bm_inv s v F n (fp_add lambda (fp_mul_elem f prev d), prev, i, l) \<and>
     conv (co (fp_add lambda (fp_mul_elem f prev d))) s n = 0"
proof -
  let ?t = "fp_add lambda (fp_mul_elem f prev d)"
  note mp = co_mul_elem [OF f _ d(1), of prev]
  have sy: "symbols lambda" "symbols prev" and fl: "card F < l" using inv l by auto
  have t: "co ?t = (\<lambda>i. co lambda i + co prev i * gf d)"
    by (rule ext) (simp add: co_fp_add [OF sy(1) mp(2) [OF sy(2)]] mp(1) [OF sy(2)])
  have ct: "conv (co ?t) s m = conv (co lambda) s m + gf d * conv (co prev) s m" for m
    unfolding t conv_add conv_scale ..
  have "length ?t \<le> l + 1" using length_fp_add_le [of lambda "fp_mul_elem f prev d"] inv l by (auto simp: fp_mul_elem_def)
  moreover have "co ?t 0 = 1" using inv by (simp add: t)
  moreover have "symbols ?t" using symbols_fp_add [OF sy(1) mp(2) [OF sy(2)]] .
  moreover have "kills F ?t" using kills_round(1) [OF f sy d(1)] inv by simp
  moreover have "conv (co ?t) s m = 0" if "l \<le> m" "m < n" for m using inv that l fl by (simp add: ct)
  moreover have "conv (co ?t) s n = 0" using inv fl by (simp add: ct d(2))
  ultimately show ?thesis using inv fp_add_unit by simp
qed

lemma bm_inv_grow:
  assumes f: "field_ok f" and d: "symbol d" "gf d = conv (co lambda) s n" "d \<noteq> 0"
    and inv: "bm_inv s v F n (lambda, prev, i, l)" and l: "2 * l \<le> n + card F" and v: "n + 1 - l \<le> v"
  shows "bm_inv s v F (Suc n) (fp_add lambda (fp_mul_elem f prev d), fp_shl (fp_div_elem f lambda d) 1,
     int n - int l, n + 1 + card F - l)"
proof -
  let ?t = "fp_add lambda (fp_mul_elem f prev d)" and ?p = "fp_div_elem f lambda d" and ?l = "n + 1 + card F - l"
  have sy: "symbols lambda" "symbols prev" and c0: "co lambda 0 = 1" "co prev 0 = 0"
    and len: "length lambda \<le> l + 1" "length prev \<le> n + 2 + card F - l" and kl: "kills F lambda" "kills F prev"
    and ln: "l \<le> n" "card F \<le> l"
    and gl: "\<And>m. l \<le> m \<Longrightarrow> m < n \<Longrightarrow> conv (co lambda) s m = 0"
    and gp: "card F < l \<Longrightarrow> conv (co prev) s n = 1" "\<And>m. card F < l \<Longrightarrow> n + 1 + card F - l \<le> m \<Longrightarrow> m < n \<Longrightarrow> conv (co prev) s m = 0"
    using inv by auto
  note mp = co_mul_elem [OF f sy(2) d(1)] and dp = co_div_elem [OF f sy(1) d(1)]
  have nz: "gf d \<noteq> 0" using d(1,3) by (simp add: gf_eq_0)
  have t: "co ?t = (\<lambda>i. co lambda i + co prev i * gf d)" by (rule ext) (simp add: co_fp_add [OF sy(1) mp(2)] mp(1))
  have ct: "conv (co ?t) s m = conv (co lambda) s m + gf d * conv (co prev) s m" for m
    unfolding t conv_add conv_scale ..
  have pt: "conv (co ?p) s m = conv (co lambda) s m / gf d" for m
    using conv_scale_div [of "co lambda" "gf d"] dp(1) by (simp add: conv_def)
  have "length (fp_mul_elem f prev d) = length prev" "length ?p = length lambda" by (simp_all add: fp_mul_elem_def fp_div_elem_def)
  then have l1: "length ?t \<le> ?l + 1" and l2: "length (fp_shl ?p 1) \<le> Suc n + 2 + card F - ?l"
    using length_fp_add_le [of lambda "fp_mul_elem f prev d"] length_shl [of ?p] len l ln by linarith+
  have u: "co ?t 0 = 1" using c0 by (simp add: t)
  have k: "kills F ?t" "kills F (fp_shl ?p 1)" using kills_round [OF f sy d(1)] kills_shl kl by simp_all
  have g1: "conv (co ?t) s m = 0" if "?l \<le> m" "m < Suc n" for m
  proof (cases "m = n")
    case True
    then show ?thesis using that gp(1) by (simp add: ct d(2))
  next
    case False
    have "card F < l" "l \<le> m" "m < n" using that False l ln by linarith+
    then show ?thesis using gl [of m] gp(2) [of m] that by (simp add: ct)
  qed
  have g2: "conv (co (fp_shl ?p 1)) s (Suc n) = 1" using nz by (simp add: conv_shl pt d(2) del: One_nat_def)
  have g3: "conv (co (fp_shl ?p 1)) s m = 0" if "Suc n + 1 + card F - ?l \<le> m" "m < Suc n" for m
  proof -
    have "l \<le> m - 1" "m - 1 < n" "0 < m" using that ln by linarith+
    then show ?thesis using gl [of "m - 1"] by (simp add: conv_shl pt del: One_nat_def)
  qed
  have z: "co (fp_shl ?p 1) 0 = 0" by (simp add: co_shl del: One_nat_def)
  have b: "card F \<le> ?l" "?l \<le> Suc n" "?l \<le> v + card F" "int n - int l = int ?l - int (card F) - 1"
    using ln v by linarith+
  show ?thesis unfolding bm_inv.simps
    using l1 l2 u symbols_fp_add [OF sy(1) mp(2)] k g1 g2 g3 z b symbols_shl [OF dp(2)] fp_add_unit [OF u] by blast
qed

lemma bm_round_inv:
  assumes f: "field_ok f" and e: "err_ok e D" and v: "v = card (D - F)"
    and sy: "symbols sy" "n < length sy" "\<And>m. m < length sy \<Longrightarrow> gf (sy ! m) = syn e D a m"
    and inv: "bm_inv (syn e D a) v F n st"
  shows "\<exists>st'. bm_round f sy n st = Some st' \<and> bm_inv (syn e D a) v F (Suc n) st'"
proof -
  let ?s = "syn e D a"
  obtain lambda prev i l where st: "st = (lambda, prev, i, l)" by (cases st)
  note inv' = inv [unfolded st]
  obtain d where d: "compute_discrepancy f lambda sy l n = Some d" "symbol d" "gf d = conv (co lambda) ?s n"
    using compute_discrepancy_conv [OF f, of lambda l n sy ?s] sy inv' by auto
  show ?thesis
  proof (cases "d = 0")
    case True
    then show ?thesis using bm_inv_shl [OF inv'] d by (simp add: bm_round_def st)
  next
    case False
    then have dz: "conv (co lambda) ?s n \<noteq> 0" using d by (simp flip: d(3) add: gf_eq_0)
    show ?thesis
    proof (cases "n + card F < 2 * l")
      case True
      then have "\<not> int l < int n - i" using inv' by simp
      then show ?thesis using bm_inv_shl bm_inv_long [OF f d(2,3) False inv' True] d(1) False
        by (simp add: bm_round_def st del: bm_inv.simps)
    next
      case False': False
      have red: "conv (co lambda) ?s m = conv (co lambda) (syn e (D - F) a) m" if "l \<le> m" for m
        using conv_syn_reduced [of "length lambda" "co lambda" m D F e a] inv' that err_ok_finite [OF e]
        by (auto simp: co_beyond kills_at_inv)
      have "\<not> l + v \<le> n"
      proof
        assume "l + v \<le> n"
        then have "conv (co lambda) (syn e (D - F) a) n = 0"
          using recurrence_extends [OF err_ok_Diff [OF e], of "length lambda" "co lambda" l n F a] inv' red
          by (auto simp: co_beyond v)
        with dz red [of n] inv' show False by simp
      qed
      then have "n + 1 - l \<le> v" by simp
      then have "bm_inv ?s v F (Suc n) (fp_add lambda (fp_mul_elem f prev d), fp_shl (fp_div_elem f lambda d) 1,
          int n - int l, n + 1 + card F - l)" using bm_inv_grow [OF f d(2,3) False inv'] False' by simp
      moreover have "int l < int n - i" "nat (int n - i) = n + 1 + card F - l" using inv' False' by auto
      ultimately show ?thesis using d(1) False by (simp add: bm_round_def st del: bm_inv.simps)
    qed
  qed
qed

lemma bm_rounds_inv:
  assumes f: "field_ok f" and e: "err_ok e D" "v = card (D - F)"
    and sy: "symbols sy" "\<And>m. m < length sy \<Longrightarrow> gf (sy ! m) = syn e D a m"
  shows "n \<le> length sy \<Longrightarrow> bm_inv (syn e D a) v F n st \<Longrightarrow>
     \<exists>st'. bm_rounds f sy [n..<length sy] st = Some st' \<and> bm_inv (syn e D a) v F (length sy) st'"
proof (induction "length sy - n" arbitrary: n st)
  case (Suc x)
  then have n: "n < length sy" by simp
  obtain st1 where "bm_round f sy n st = Some st1" "bm_inv (syn e D a) v F (Suc n) st1"
    using bm_round_inv [OF f e sy(1) n sy(2) Suc.prems(2)] by blast
  then show ?case using Suc.hyps(1) [of "Suc n" st1] Suc.hyps(2) n by (simp add: upt_conv_Cons)
qed simp

text \<open>
  With two syndromes for each error and one for each erasure, the result is the locator polynomial of
  the errors and erasures together: its zeros are their inverse locators, and its degree is their
  number.
\<close>

definition locates :: "nat set \<Rightarrow> fpoly \<Rightarrow> bool" where
  "locates L p \<longleftrightarrow> symbols p \<and> length p = Suc (card L) \<and> co p 0 = 1 \<and> (\<forall>j\<in>L. at_inv (co p) (Suc (card L)) j = 0)"

lemma locates_shape:
  assumes "locates L p"
  shows "symbols p" "length p = Suc (card L)" "co p 0 = 1" "\<And>j. j \<in> L \<Longrightarrow> at_inv (co p) (Suc (card L)) j = 0"
  using assms by (simp_all add: locates_def)

lemma locates_zeros:
  assumes "locates L p" and "L \<subseteq> {..<255}"
  shows "ev (gp p) y = 0 \<longleftrightarrow> (\<exists>j\<in>L. y = inverse (gen ^ j))"
  using assms locator_zeros(2) [of L "co p" "Suc (card L)" y] by (simp add: locates_def ev_co [of p "Suc (card L)"] del: sum.lessThan_Suc)

lemma berlekamp_massey_locator:
  assumes f: "field_ok (dec_field dec)" and e: "err_ok e D" and F: "F \<subseteq> {..<255}"
    and k: "length sy = k" "2 * card (D - F) + card F \<le> k"
    and sy: "symbols sy" "\<And>m. m < k \<Longrightarrow> gf (sy ! m) = syn e D a m"
    and g: "symbols g" "length g = Suc (card F)" "last g \<noteq> 0" "co g 0 = 1" "kills F g"
  shows "\<exists>p. modified_berlekamp_massey_algorithm k dec g sy (card F) = Some p \<and> locates (D \<union> F) p"
proof -
  let ?v = "card (D - F)" and ?st = "(g, fp_shl g 1, - 1, card F)"
  obtain p prev i l where r: "bm_rounds (dec_field dec) sy [card F..<k] ?st = Some (p, prev, i, l)"
    and inv: "bm_inv (syn e D a) ?v F k (p, prev, i, l)"
    using bm_rounds_inv [OF f e refl sy(1), of a "card F" F ?st] bm_inv_init [OF g] sy(2) k by auto
  have L: "D \<union> F \<subseteq> {..<255}" using F err_ok_places [OF e] by simp
  have c: "card (D \<union> F) = ?v + card F"
    using card_Un_disjoint [of "D - F" F] err_ok_finite [OF e] places_finite [OF F] by (simp add: Un_Diff_cancel2 inf_commute)
  have red: "conv (co p) (syn e D a) m = conv (co p) (syn e (D - F) a) m" if "l \<le> m" for m
    using conv_syn_reduced [of "length p" "co p" m D F e a] inv that err_ok_finite [OF e] by (auto simp: co_beyond kills_at_inv)
  have at: "at_inv (co p) (length p) j = 0" if "j \<in> D \<union> F" for j
    using recurrence_locates [OF err_ok_Diff [OF e], of "length p" "co p" l k F a j] inv that k(2) red kills_at_inv [of F p j]
    by (auto simp: co_beyond)
  have p: "co p 0 = 1" "length p \<le> Suc (card (D \<union> F))" "0 < length p" "symbols p" using inv c by auto
  have "length p = Suc (card (D \<union> F))" using locator_zeros(1) [OF L p(1,2) at p(3)] .
  with p at have "locates (D \<union> F) p" by (simp add: locates_def)
  moreover have "modified_berlekamp_massey_algorithm k dec g sy (card F) = Some p"
    using r by (simp add: modified_berlekamp_massey_algorithm_def)
  ultimately show ?thesis by blast
qed

end
