(* ===== verification/RSDecode.thy ===== *)
theory RSDecode
  imports BerlekampMassey
begin

text \<open>
  Error correction: if a received block differs from a code word in some erased symbols and in some
  others, and the erasures together with twice the other errors are no more than the parity symbols,
  the decoder restores the code word. The Chien search finds exactly the error and erasure
  locations from the locator polynomial of the Berlekamp-Massey loop, the Forney loop computes
  the error values.
\<close>

section \<open>Chien search\<close>

lemma find_roots_from_filter:
  "int (length acc + length (filter (\<lambda>i. fp_eval f p (alpha f (int i)) = 0) is)) \<le> deg p \<Longrightarrow>
     find_roots_from f p is acc = acc @ filter (\<lambda>i. fp_eval f p (alpha f (int i)) = 0) is"
proof (induction "is" arbitrary: acc)
  case (Cons i "is")
  show ?case
  proof (cases "fp_eval f p (alpha f (int i)) = 0 \<and> deg p = int (length (acc @ [i]))")
    case True
    then have "length (filter (\<lambda>i. fp_eval f p (alpha f (int i)) = 0) is) = 0" using Cons.prems by simp
    then show ?thesis using True by simp
  next
    case False
    then show ?thesis using Cons by auto
  qed
qed simp

lemma alpha_inverse_locator:
  assumes "1 \<le> i" and "i \<le> 255" and "j < 255"
  shows "gen ^ i = inverse (gen ^ j) \<longleftrightarrow> 255 - i = j"
proof -
  have "gen ^ i * gen ^ (255 - i) = 1" using assms(2) gen_power_255 by (simp flip: power_add)
  then have "gen ^ i = inverse (gen ^ (255 - i))" by (simp add: inverse_unique mult.commute)
  then have "gen ^ i = inverse (gen ^ j) \<longleftrightarrow> gen ^ (255 - i) = gen ^ j" by simp
  also have "\<dots> \<longleftrightarrow> 255 - i = j" using assms gen_power_inj [of "255 - i" j] by auto
  finally show ?thesis .
qed

definition locations :: "nat set \<Rightarrow> nat list" where
  "locations E = filter (\<lambda>i. 255 - i \<in> E) [1..<256]"

lemma set_locations: "set (locations E) = {i. 1 \<le> i \<and> i \<le> 255 \<and> 255 - i \<in> E}"
  by (auto simp: locations_def)

lemma distinct_locations: "distinct (locations E)"
  by (simp add: locations_def)

lemma length_locations:
  assumes "E \<subseteq> {..<255}"
  shows "length (locations E) = card E"
proof -
  have "(\<lambda>j. 255 - j) ` E = set (locations E)"
  proof
    show "(\<lambda>j. 255 - j) ` E \<subseteq> set (locations E)" using assms by (auto simp: set_locations)
    show "set (locations E) \<subseteq> (\<lambda>j. 255 - j) ` E"
    proof
      fix i assume "i \<in> set (locations E)"
      then have "i = 255 - (255 - i)" "255 - i \<in> E" by (auto simp: set_locations)
      then show "i \<in> (\<lambda>j. 255 - j) ` E" by (rule image_eqI)
    qed
  qed
  moreover have "inj_on (\<lambda>j. 255 - j) E" using assms by (auto simp: inj_on_def)
  ultimately show ?thesis using distinct_card [OF distinct_locations [of E]] card_image by metis
qed

lemma alpha_point:
  assumes "field_ok f" and "i \<le> 255"
  shows "symbol (alpha f (int i)) \<and> alpha f (int i) \<noteq> 0 \<and> gf (alpha f (int i)) = gen ^ i"
  using assms alpha_ok [of f "int i"] gf_aseq [of i] by simp

lemma find_roots_locator:
  assumes f: "field_ok (dec_field dec)" and E: "E \<subseteq> {..<255}" and lp: "locates E p"
  shows "find_roots 255 dec p = locations E"
proof -
  let ?f = "dec_field dec"
  have "card E \<le> card {..<255 :: nat}" using E by (intro card_mono) auto
  note z = locates_zeros [OF lp E] and p = locates_shape [OF lp]
  then have l256: "length p \<le> 256" using \<open>card E \<le> card {..<255}\<close> by simp
  have root: "fp_eval ?f p (alpha ?f (int i)) = 0 \<longleftrightarrow> 255 - i \<in> E" if "1 \<le> i" "i \<le> 255" for i
  proof -
    have "fp_eval ?f p (alpha ?f (int i)) = 0 \<longleftrightarrow> (\<exists>j\<in>E. gen ^ i = inverse (gen ^ j))"
      using fp_eval_zero_iff [OF f p(1) l256] alpha_point [OF f that(2)] z by simp
    also have "\<dots> \<longleftrightarrow> (\<exists>j\<in>E. 255 - i = j)"
      using alpha_inverse_locator [OF that] E by (intro bex_cong refl) auto
    finally show ?thesis by simp
  qed
  then have "filter (\<lambda>i. fp_eval ?f p (alpha ?f (int i)) = 0) [1..<255 + 1] = locations E"
    unfolding locations_def by (intro filter_cong) auto
  with find_roots_from_filter [of "[]" ?f p "[1..<255 + 1]"] show ?thesis
    using length_locations [OF E] p(2) by (simp add: find_roots_def deg_def)
qed

section \<open>Forney algorithm\<close>

text \<open>
  The decoder's table of root exponents: entry \<open>i\<close> belongs to the locator \<open>x = gen ^ (255 - i)\<close> and
  holds \<open>x\<close> to the power one minus the initial index, a negative exponent reduced modulo 255.
\<close>

lemma exp_sym_neg:
  assumes f: "field_ok f" and v: "symbol v" "v \<noteq> 0" and a: "a \<le> 254"
  shows "symbol (exp_sym f v (1 - int a)) \<and> gf (exp_sym f v (1 - int a)) * gf v ^ a = gf v"
proof (cases "a \<le> 1")
  case True
  then have n: "1 - int a = int (1 - a)" by simp
  have "gf v ^ (1 - a) * gf v ^ a = gf v" using True by (simp flip: power_add)
  then show ?thesis
    unfolding n using symbol_exp [OF f v(1), of "1 - a"] gf_exp [OF f v(1), of "1 - a"] v(2) by (simp del: of_nat_diff)
next
  case False
  have fs: "gf_power f = 8" "field_size f = 255" using f by (simp_all only: field_ok_def)
  have n: "norm_neg 8 (1 - int a) = int (256 - a)"
  proof -
    have "norm_neg 8 (1 - int a) = norm_neg 8 (1 - int a + 255)" using False by (subst norm_neg.simps) simp
    also have "\<dots> = 1 - int a + 255" using a norm_neg_8 [of "1 - int a + 255"] by simp
    finally show ?thesis using a by simp
  qed
  have "int (256 - a) AND 255 = int (256 - a)"
    using False by (intro mask_symbol) auto
  then have "exp_sym f v (1 - int a) = exp_sym f v (int (256 - a))"
    using False a fs by (simp add: exp_sym_def n)
  moreover have "gf v ^ (256 - a) * gf v ^ a = gf v"
  proof -
    have "gf v = gen ^ dlog v" using aseq_dlog(1) [OF v] by (simp flip: gf_aseq)
    moreover have "(gen ^ dlog v) ^ 255 = (gen ^ 255) ^ dlog v" by (simp add: mult.commute flip: power_mult)
    ultimately have "gf v ^ 255 = 1" by (simp add: gen_power_255)
    moreover have "gf v ^ (256 - a) * gf v ^ a = gf v ^ (255 + 1)"
      unfolding power_add [symmetric] using a by (intro arg_cong [where f = "power (gf v)"]) simp
    ultimately show ?thesis by (simp only: power_add power_one_right mult_1_left)
  qed
  ultimately show ?thesis using symbol_exp [OF f v(1), of "256 - a"] gf_exp [OF f v(1), of "256 - a"] v(2) False by simp
qed

definition dec_full :: "nat \<Rightarrow> nat \<Rightarrow> decoder \<Rightarrow> bool" where
  "dec_full k a dec \<longleftrightarrow> dec_ok k a dec \<and>
     (\<forall>i\<le>255. root_exponent_table dec ! i = exp_sym (dec_field dec) (alpha (dec_field dec) (255 - int i)) (1 - int a)) \<and>
     (\<forall>i\<le>255. gamma_table dec ! i = [1, alpha (dec_field dec) (int i)])"

lemma gamma_entry:
  assumes f: "field_ok f" and i: "i \<le> 255"
  shows "the (fp_add_elem (fp_mul_elem f generate_X (alpha f (int i))) 1) = [1, alpha f (int i)]"
proof -
  have s: "symbol (alpha f (int i))" using alpha_point [OF f i] by simp
  have "gf (mul f 1 (alpha f (int i))) = gf (alpha f (int i))" "mul f 0 (alpha f (int i)) = 0"
    using gf_mul [OF f _ s, of 1] gf_mul [OF f _ s, of 0] gf_eq_0 [OF symbol_mul [OF f _ s, of 0]] by simp_all
  then show ?thesis using gf_eq_iff [OF symbol_mul [OF f _ s, of 1] s]
    by (simp add: generate_X_def fp_mul_elem_def fp_add_elem_def elem_mul_def elem_add_def)
qed

lemma decoder_ctor_full:
  "field_ok f \<Longrightarrow> 0 < k \<Longrightarrow> a + k \<le> 255 \<Longrightarrow> dec_full k a (decoder_ctor 255 k f a)"
  by (simp add: dec_full_def dec_ok_def decoder_ctor_def create_lookup_tables_def Let_def field_ok_size
      less_Suc_eq_le gamma_entry del: upt_Suc)

lemma root_exponent:
  assumes "dec_full k a dec" and "1 \<le> i" and "i \<le> 255"
  shows "symbol (root_exponent_table dec ! i) \<and>
     gf (root_exponent_table dec ! i) * (gen ^ (255 - i)) ^ a = gen ^ (255 - i)"
proof -
  have f: "field_ok (dec_field dec)" and a: "a \<le> 254" using assms(1) by (auto simp: dec_full_def dec_ok_def)
  have "root_exponent_table dec ! i = exp_sym (dec_field dec) (alpha (dec_field dec) (int (255 - i))) (1 - int a)"
    using assms by (simp add: dec_full_def of_nat_diff)
  then show ?thesis
    using exp_sym_neg [OF f _ _ a, of "alpha (dec_field dec) (int (255 - i))"] alpha_point [OF f, of "255 - i"] by simp
qed

text \<open>The loop, when the denominators are not zero: a location with numerator zero keeps its symbol.\<close>

definition correct :: "(nat \<Rightarrow> field_symbol) \<Rightarrow> nat list \<Rightarrow> field_symbol list \<Rightarrow> field_symbol list" where
  "correct val is d = fold (\<lambda>i d. d[i - 1 := d ! (i - 1) XOR val i]) is d"

lemma forney_loop_correct:
  assumes "\<And>i. i \<in> set is \<Longrightarrow>
     elem_mul (dec_field dec) (fp_eval (dec_field dec) om (alpha (dec_field dec) (int i))) (root_exponent_table dec ! i) = num i \<and>
     fp_eval (dec_field dec) ld (alpha (dec_field dec) (int i)) = den i \<and>
     (num i = 0 \<longleftrightarrow> val i = 0) \<and> den i \<noteq> 0 \<and> div_sym (dec_field dec) (num i) (den i) = val i"
  shows "forney_loop dec om ld is b =
     Inr (b\<lparr>data := correct val is (data b), errors_corrected := errors_corrected b + length (filter (\<lambda>i. val i \<noteq> 0) is),
            zero_numerators := zero_numerators b + length (filter (\<lambda>i. val i = 0) is)\<rparr>)"
  using assms
proof (induction "is" arbitrary: b)
  case (Cons i "is")
  from Cons.prems [of i] Cons.IH Cons.prems show ?case by (simp add: correct_def set_sym_def Let_def)
qed (simp add: correct_def)

lemma nth_correct:
  assumes "distinct is" and "0 \<notin> set is" and "p < length d"
  shows "correct val is d ! p = (if Suc p \<in> set is then d ! p XOR val (Suc p) else d ! p)"
  using assms
proof (induction "is" arbitrary: d)
  case (Cons i "is")
  have "correct val (i # is) d = correct val is (d[i - 1 := d ! (i - 1) XOR val i])" by (simp add: correct_def)
  then show ?case using Cons by (auto simp: nth_list_update)
qed (simp add: correct_def)

lemma length_correct [simp]: "length (correct val is d) = length d"
  unfolding correct_def by (induction "is" arbitrary: d) auto

text \<open>
  At the inverse of an error locator, the quotient of numerator and denominator is the error
  value.
\<close>

lemma forney_step:
  assumes dec: "dec_full k a dec" and L: "L \<subseteq> {..<255}" "card L \<le> k" and k: "length sy = k"
    and sy: "symbols sy" "\<And>m. m < k \<Longrightarrow> gf (sy ! m) = syn e L a m"
    and lp: "locates L p" and i: "1 \<le> i" "i \<le> 255" "255 - i \<in> L"
  defines "f \<equiv> dec_field dec"
  defines "num \<equiv> elem_mul f (fp_eval f (fp_mod_power (fp_mul f p sy) k) (alpha f (int i))) (root_exponent_table dec ! i)"
    and "den \<equiv> fp_eval f (derivative p) (alpha f (int i))"
  shows "(num = 0 \<longleftrightarrow> e (255 - i) = 0) \<and> den \<noteq> 0 \<and> div_sym f num den = symb (e (255 - i))"
proof -
  let ?j = "255 - i" and ?n = "card L" and ?om = "fp_mod_power (fp_mul f p sy) k" and ?y = "inverse (gen ^ (255 - i))"
  define q where "q = (\<Sum>m<?n. quot (co p) (gen ^ ?j) m * ?y ^ m)"
  have f: "field_ok f" and k255: "k \<le> 255" using dec by (auto simp: f_def dec_full_def dec_ok_def)
  note A = alpha_point [OF f i(2)]
  have y: "gf (alpha f (int i)) = ?y" using A alpha_inverse_locator [OF i(1,2), of ?j] i by simp
  note p = locates_shape [OF lp]
  note fv = forney_value [OF L(1) p(3,4) i(3), folded q_def]
  have som: "symbols ?om" by (rule symbols_mod_power [OF symbols_fp_mul [OF f p(1) sy(1)]])
  have lom: "length ?om \<le> k" by (rule length_mod_power)
  have com: "co ?om m = conv (co p) (syn e L a) m" if "m < k" for m
  proof -
    have "co sy (m - l) = syn e L a (m - l)" for l
      using sy(2) [of "m - l"] less_imp_diff_less [OF that, of l] k by (simp add: co_def)
    then show ?thesis using that co_fp_mul [OF f p(1) sy(1)] by (simp add: co_mod_power_below conv_def)
  qed
  have hi: "conv (co p) (syn e L a) m = 0" if "?n \<le> m" for m
    using conv_syn [of "Suc ?n" "co p" m e L a] p(2,4) that by (simp add: co_beyond)
  have "ev (gp ?om) ?y = (\<Sum>m<k. conv (co p) (syn e L a) m * ?y ^ m)"
    using ev_co [OF lom] com by simp
  also have "\<dots> = (\<Sum>m<?n. conv (co p) (syn e L a) m * ?y ^ m)"
    using L(2) hi by (intro sum.mono_neutral_right) auto
  finally have om: "ev (gp ?om) ?y = e ?j * (gen ^ ?j) ^ a * q" using fv(2) [of e a] by simp
  have eo: "symbol (fp_eval f ?om (alpha f (int i)))" "gf (fp_eval f ?om (alpha f (int i))) = e ?j * (gen ^ ?j) ^ a * q"
    using fp_eval_ok [OF f som, of "alpha f (int i)"] A lom k255 om y by simp_all
  note R = root_exponent [OF dec i(1,2)]
  have num: "symbol num" "gf num = e ?j * q * gen ^ ?j"
    using symbol_mul [OF f eo(1)] gf_mul [OF f eo(1)] R eo(2) by (simp_all add: num_def elem_mul_def mult_ac)
  have sld: "symbols (derivative p)" by (rule symbols_derivative [OF p(1)])
  have lld: "length (derivative p) \<le> Suc ?n" using length_derivative [of p] p(2) by simp
  have "ev (gp (derivative p)) ?y = (\<Sum>m<Suc ?n. (if even m then co p (Suc m) else 0) * ?y ^ m)"
    using ev_co [OF lld] by (simp add: co_derivative)
  also have "\<dots> = gen ^ ?j * q" using fv(3) p(2) by (simp add: co_beyond)
  finally have den: "symbol den" "gf den = gen ^ ?j * q"
    using fp_eval_ok [OF f sld, of "alpha f (int i)"] A lld L(2) k255 y by (simp_all add: den_def)
  have nz: "gf num = 0 \<longleftrightarrow> e ?j = 0" "gf den \<noteq> 0" using fv(1) num(2) den(2) by simp_all
  have "gf (div_sym f num den) = e ?j" using gf_div [OF f num(1) den(1)] num(2) den(2) fv(1) by simp
  then have "div_sym f num den = symb (e ?j)" using sym_gf [OF symbol_div [OF f num(1) den(1)]] by simp
  then show ?thesis using nz gf_eq_0 [OF num(1)] gf_eq_0 [OF den(1)] by simp
qed

section \<open>Decoding a damaged code word\<close>

text \<open>
  The damaged positions of a block, the coefficients of the error polynomial they correspond to,
  and the values of the errors.
\<close>

definition damaged_positions :: "rsblock \<Rightarrow> rsblock \<Rightarrow> nat set" where
  "damaged_positions b c = {p. p < 255 \<and> data b ! p AND 255 \<noteq> data c ! p AND 255}"

definition error_places :: "rsblock \<Rightarrow> rsblock \<Rightarrow> nat set" where
  "error_places b c = {j. j < 255 \<and> data b ! (254 - j) AND 255 \<noteq> data c ! (254 - j) AND 255}"

definition error_value :: "rsblock \<Rightarrow> rsblock \<Rightarrow> nat \<Rightarrow> gf256" where
  "error_value b c j = gf ((data b ! (254 - j) AND 255) XOR (data c ! (254 - j) AND 255))"

lemma card_error_places: "card (error_places b c) = card (damaged_positions b c)"
proof (rule bij_betw_same_card [where f = "\<lambda>j. 254 - j"])
  have "error_places b c = (\<lambda>p. 254 - p) ` damaged_positions b c"
  proof (intro set_eqI iffI)
    fix j assume "j \<in> error_places b c"
    then have "j = 254 - (254 - j)" "254 - j \<in> damaged_positions b c" by (auto simp: error_places_def damaged_positions_def)
    then show "j \<in> (\<lambda>p. 254 - p) ` damaged_positions b c" by (rule image_eqI)
  qed (auto simp: error_places_def damaged_positions_def)
  then show "bij_betw (\<lambda>j. 254 - j) (error_places b c) (damaged_positions b c)"
    by (auto simp: bij_betw_def inj_on_def damaged_positions_def image_iff)
qed

lemma error_value_symbol:
  "symb (error_value b c j) = (data b ! (254 - j) AND 255) XOR (data c ! (254 - j) AND 255)"
  unfolding error_value_def by (intro sym_gf symbol_xor symbol_mask)

lemma err_ok_blocks: "err_ok (error_value b c) (error_places b c)"
proof -
  have "error_value b c j \<noteq> 0" if "j \<in> error_places b c" for j
    using that unfolding error_value_def gf_xor [OF symbol_mask symbol_mask] gf_add_eq_0 gf_eq_iff [OF symbol_mask symbol_mask]
    by (simp add: error_places_def)
  then show ?thesis by (auto simp: err_ok_def error_places_def)
qed

lemma load_message_syndrome:
  assumes f: "field_ok (dec_field dec)" and c: "ev (gp (load_message 255 dec c)) (gen ^ x) = 0"
  shows "ev (gp (load_message 255 dec b)) (gen ^ x) = (\<Sum>j\<in>error_places b c. error_value b c j * (gen ^ j) ^ x)"
proof -
  let ?v = "\<lambda>b j. gf (data b ! (254 - j) AND 255)"
  have e: "error_value b c j = ?v b j + ?v c j" for j
    unfolding error_value_def by (rule gf_xor [OF symbol_mask symbol_mask])
  have l: "ev (gp (load_message 255 dec b)) (gen ^ x) = (\<Sum>j<255. ?v b j * (gen ^ x) ^ j)" for b
    unfolding ev_def using f by (simp add: load_message_eq elem_of_symbol_def field_ok_size)
  have "(\<Sum>j\<in>error_places b c. error_value b c j * (gen ^ j) ^ x) = (\<Sum>j<255. error_value b c j * (gen ^ x) ^ j)"
  proof (rule sum.mono_neutral_cong_left)
    show "\<forall>j\<in>{..<255} - error_places b c. error_value b c j * (gen ^ x) ^ j = 0"
      by (auto simp: error_places_def error_value_def)
  qed (auto simp: error_places_def mult.commute simp flip: power_mult)
  also have "\<dots> = ev (gp (load_message 255 dec b)) (gen ^ x) + ev (gp (load_message 255 dec c)) (gen ^ x)"
    unfolding e l by (simp add: distrib_right sum.distrib)
  finally show ?thesis using c by simp
qed

text \<open>
  The whole repair: with at most one error for two parity symbols, every damaged symbol gets
  back its value and the others keep theirs.
\<close>

lemma card_damaged: "damaged_positions b c \<noteq> {} \<Longrightarrow> 0 < card (damaged_positions b c)"
  using finite_subset [of "damaged_positions b c" "{..<255}"] by (auto simp: card_gt_0_iff damaged_positions_def)

lemma damage_detected:
  assumes f: "field_ok (dec_field dec)" and c: "codeword 255 k dec a c"
    and few: "card (damaged_positions b c) \<le> k" and some: "damaged_positions b c \<noteq> {}"
  shows "\<not> codeword 255 k dec a b"
proof
  let ?E = "error_places b c" and ?e = "error_value b c" and ?c = "\<lambda>i :: nat. if i = 0 then 1 else (0 :: gf256)"
  assume b: "codeword 255 k dec a b"
  have "syn ?e ?E a m = 0" if "m < k" for m
    using that load_message_syndrome [OF f, of c "a + m" b] c b by (simp add: codeword_def syn_def)
  moreover have "conv ?c s m = s m" for s m
    unfolding conv_def by (subst sum.mono_neutral_right [of _ "{0}"]) auto
  moreover obtain j where "j \<in> ?E" using card_damaged [OF some] card_error_places [of b c] by fastforce
  ultimately have "at_inv ?c 1 j = 0"
    using recurrence_locates [OF err_ok_blocks [of b c], of 1 ?c 0 k a j] few by (simp add: card_error_places)
  then show False by (simp add: at_inv_def)
qed

lemma repaired_symbol:
  assumes "p < 255" and "length (data b) = 255" and "error_places b c \<subseteq> L"
  shows "correct (\<lambda>i. symb (error_value b c (255 - i))) (locations L) (data b) ! p =
     (if p \<in> damaged_positions b c then data b ! p XOR ((data b ! p AND 255) XOR (data c ! p AND 255)) else data b ! p)"
proof -
  have d: "254 - (255 - Suc p) = p" using assms(1) by simp
  have "Suc p \<in> set (locations L)" if "p \<in> damaged_positions b c"
    using assms(1,3) that d by (auto simp: set_locations error_places_def damaged_positions_def)
  moreover have "0 \<notin> set (locations L)" by (simp add: set_locations)
  moreover have "(data b ! p AND 255) XOR (data c ! p AND 255) = 0" if "p \<notin> damaged_positions b c"
    using that assms(1) by (simp add: damaged_positions_def)
  ultimately show ?thesis
    using assms(1,2) d nth_correct [OF distinct_locations, of L p "data b"]
    by (simp add: error_value_symbol)
qed

lemma mask_repair: "(x XOR ((x AND 255) XOR (y AND 255))) AND 255 = (y :: int) AND 255"
  by (rule bit_eqI) (auto simp: bit_simps)

lemma symb_eq_0: "symb x = 0 \<longleftrightarrow> x = 0"
  by (cases x) (auto simp: sym_gf gf_eq_0)

lemma locations_filter:
  "filter (\<lambda>i. P (255 - i)) (locations L) = locations {j \<in> L. P j}"
  unfolding locations_def filter_filter by (rule filter_cong) auto

lemma forney_algorithm_repairs:
  assumes dec: "dec_full k a dec" and L: "L \<subseteq> {..<255}" "card L \<le> k" and k: "length sy = k"
    and sy: "symbols sy" "\<And>m. m < k \<Longrightarrow> gf (sy ! m) = syn e L a m" and lp: "locates L p"
  shows "forney_algorithm k dec (locations L) p sy (b\<lparr>errors_detected := length (locations L)\<rparr>) =
     (True, b\<lparr>errors_detected := card L, errors_corrected := card {j \<in> L. e j \<noteq> 0}, zero_numerators := card {j \<in> L. e j = 0},
              data := correct (\<lambda>i. symb (e (255 - i))) (locations L) (data b)\<rparr>)"
proof -
  let ?f = "dec_field dec" and ?om = "fp_mod_power (fp_mul (dec_field dec) p sy) k"
  let ?b = "b\<lparr>errors_detected := length (locations L), errors_corrected := 0, zero_numerators := 0\<rparr>"
  have "length (filter (\<lambda>i. symb (e (255 - i)) \<noteq> 0) (locations L)) = card {j \<in> L. e j \<noteq> 0}"
    "length (filter (\<lambda>i. symb (e (255 - i)) = 0) (locations L)) = card {j \<in> L. e j = 0}"
    using L(1) locations_filter [of "\<lambda>j. e j \<noteq> 0" L] locations_filter [of "\<lambda>j. e j = 0" L]
      length_locations [of "{j \<in> L. e j \<noteq> 0}"] length_locations [of "{j \<in> L. e j = 0}"] by (auto simp: symb_eq_0)
  moreover have "forney_loop dec ?om (derivative p) (locations L) ?b =
     Inr (?b\<lparr>data := correct (\<lambda>i. symb (e (255 - i))) (locations L) (data ?b),
        errors_corrected := errors_corrected ?b + length (filter (\<lambda>i. symb (e (255 - i)) \<noteq> 0) (locations L)),
        zero_numerators := zero_numerators ?b + length (filter (\<lambda>i. symb (e (255 - i)) = 0) (locations L))\<rparr>)"
    using forney_step [OF dec L k sy lp]
    by (intro forney_loop_correct conjI [OF refl conjI [OF refl]]) (auto simp: set_locations symb_eq_0)
  ultimately show ?thesis
    using length_locations [OF L(1)] locates_shape(2) [OF lp] by (simp add: forney_algorithm_def deg_def)
qed

text \<open>
  The polynomial computed from the erasures has the zeros of the erased places and no others.
\<close>

definition erasure_locator :: "nat set \<Rightarrow> fpoly \<Rightarrow> bool" where
  "erasure_locator F g \<longleftrightarrow> symbols g \<and> length g = Suc (card F) \<and> last g \<noteq> 0 \<and> co g 0 = 1 \<and> kills F g"

lemma symbols_last: "symbols p \<Longrightarrow> p \<noteq> [] \<Longrightarrow> symbol (last p)"
  by (simp add: list_all_iff)

lemma erasure_locator_insert:
  assumes dec: "dec_full k a dec" and g: "erasure_locator F g" and j: "j < 255" "j \<notin> F" "finite F"
  shows "erasure_locator (insert j F) (fp_mul (dec_field dec) g (gamma_table dec ! j))"
proof -
  let ?f = "dec_field dec" and ?q = "gamma_table dec ! j"
  have f: "field_ok ?f" using dec by (simp add: dec_full_def dec_ok_def)
  have A: "symbol (alpha ?f (int j))" "alpha ?f (int j) \<noteq> 0" "gf (alpha ?f (int j)) = gen ^ j" using alpha_point [OF f, of j] j by auto
  have q: "?q = [1, alpha ?f (int j)]" using dec j by (simp add: dec_full_def)
  have G: "symbols g" "g \<noteq> []" "last g \<noteq> 0" "co g 0 = 1" using g by (auto simp: erasure_locator_def)
  have Q: "symbols ?q" "?q \<noteq> []" "last ?q \<noteq> 0" using q A by auto
  note sh = fp_mul_shape [OF f G(1-3) Q]
  have "gf (mul ?f (last g) (last ?q)) \<noteq> 0"
    using gf_mul [OF f symbols_last [OF G(1,2)] symbols_last [OF Q(1,2)]] gf_eq_0 [OF symbols_last [OF G(1,2)]]
      gf_eq_0 [OF symbols_last [OF Q(1,2)]] G(3) Q(3) by simp
  then have "last (fp_mul ?f g ?q) \<noteq> 0" using sh(2) by auto
  moreover have "length (fp_mul ?f g ?q) = Suc (card (insert j F))" using sh(1) q g j by (simp add: erasure_locator_def)
  moreover have "co (fp_mul ?f g ?q) 0 = 1" using co_fp_mul [OF f G(1) Q(1), of 0] G(4) q by (simp add: conv_def co_def)
  moreover have "ev (gp (fp_mul ?f g ?q)) y = ev (gp g) y * (1 + gen ^ j * y)" for y
    using ev_fp_mul [OF f G(1) Q(1)] q A by (simp add: ev_Cons mult.commute)
  moreover have "1 + gen ^ j * inverse (gen ^ j) = 0" by simp
  ultimately show ?thesis using g symbols_fp_mul [OF f G(1) Q(1)] by (auto simp: erasure_locator_def kills_def)
qed

lemma compute_gamma_locator:
  assumes dec: "dec_full k a dec" and "erasure_locator F g" "finite F"
    and "distinct js" "set js \<subseteq> {..<255}" "set js \<inter> F = {}"
  shows "erasure_locator (set js \<union> F) (compute_gamma dec g js)"
  using assms(2-)
proof (induction js arbitrary: F g)
  case (Cons j js)
  then have "erasure_locator (insert j F) (fp_mul (dec_field dec) g (gamma_table dec ! j))"
    by (intro erasure_locator_insert [OF dec]) auto
  then show ?case using Cons.IH [of "insert j F"] Cons.prems by (simp add: compute_gamma_def)
qed (simp add: compute_gamma_def)

text \<open>The coefficients that belong to a set of positions of the block.\<close>

definition places_of :: "nat set \<Rightarrow> nat set" where
  "places_of P = (\<lambda>p. 254 - p) ` P"

lemma places_inj_on: "(P :: nat set) \<subseteq> {..<255} \<Longrightarrow> inj_on (\<lambda>p. 254 - p) P"
  by (rule inj_on_subset [of _ "{..<255}"]) (auto simp: inj_on_def)

lemma card_places_of: "P \<subseteq> {..<255} \<Longrightarrow> card (places_of P) = card P"
  unfolding places_of_def by (rule card_image [OF places_inj_on])

lemma places_of_bound: "places_of P \<subseteq> {..<255}"
  by (auto simp: places_of_def)

lemma damaged_positions_bound: "damaged_positions b c \<subseteq> {..<255}"
  by (auto simp: damaged_positions_def)

lemma error_places_eq: "error_places b c = places_of (damaged_positions b c)"
  unfolding places_of_def
proof (intro set_eqI iffI)
  fix j assume "j \<in> error_places b c"
  then have "j = 254 - (254 - j)" "254 - j \<in> damaged_positions b c" by (auto simp: error_places_def damaged_positions_def)
  then show "j \<in> (\<lambda>p. 254 - p) ` damaged_positions b c" by (rule image_eqI)
qed (auto simp: error_places_def damaged_positions_def)

lemma places_of_Diff:
  assumes "P \<subseteq> {..<255}" and "Q \<subseteq> {..<255}"
  shows "places_of P - places_of Q = places_of (P - Q)"
  using assms inj_on_image_set_diff [OF places_inj_on, of "P \<union> Q" P Q] by (auto simp: places_of_def)

lemma places_of_Un: "places_of P \<union> places_of Q = places_of (P \<union> Q)"
  by (auto simp: places_of_def)

lemma erasures_locator:
  assumes dec: "dec_full k a dec" and el: "distinct el" "set el \<subseteq> {..<255}"
  shows "erasure_locator (places_of (set el)) (compute_gamma dec [1] (prepare_erasure_list 255 el))"
proof -
  have "erasure_locator {} [1]" by (simp add: erasure_locator_def co_def)
  moreover have "distinct (prepare_erasure_list 255 el)"
    using el places_inj_on [of "set el"] by (simp add: prepare_erasure_list_def distinct_map)
  moreover have "set (prepare_erasure_list 255 el) = places_of (set el)"
    by (simp add: prepare_erasure_list_def places_of_def)
  ultimately show ?thesis
    using compute_gamma_locator [OF dec, of "{}" "[1]" "prepare_erasure_list 255 el"] places_of_bound [of "set el"] by simp
qed

text \<open>The locator polynomial that the decoder computes, with the Berlekamp-Massey loop or without it.\<close>

lemma decoder_locator:
  assumes dec: "dec_full k a dec" and e: "err_ok e D" and el: "distinct el" "set el \<subseteq> {..<255}"
    and few: "2 * card (D - places_of (set el)) + length el \<le> k"
    and sy: "symbols sy" "length sy = k" "\<And>m. m < k \<Longrightarrow> gf (sy ! m) = syn e D a m"
  defines "g \<equiv> if el \<noteq> [] then compute_gamma dec [1] (prepare_erasure_list 255 el) else [1]"
  shows "\<exists>p. (if length el < k then modified_berlekamp_massey_algorithm k dec g sy (length el) else Some g) = Some p \<and>
     locates (D \<union> places_of (set el)) p"
proof -
  let ?F = "places_of (set el)"
  have f: "field_ok (dec_field dec)" using dec by (simp add: dec_full_def dec_ok_def)
  have c: "card ?F = length el" using card_places_of [OF el(2)] distinct_card [OF el(1)] by simp
  have "erasure_locator ?F g"
    using erasures_locator [OF dec el] unfolding g_def by (cases "el = []") (auto simp: compute_gamma_def prepare_erasure_list_def)
  then have g: "symbols g" "length g = Suc (card ?F)" "last g \<noteq> 0" "co g 0 = 1" "kills ?F g"
    by (simp_all add: erasure_locator_def)
  show ?thesis
  proof (cases "length el < k")
    case True
    have few': "2 * card (D - ?F) + card ?F \<le> k" using few c by simp
    show ?thesis using True berlekamp_massey_locator [OF f e places_of_bound sy(2) few' sy(1,3) g] c by simp
  next
    case False
    then have "card (D - ?F) = 0" using few by simp
    then have "D \<union> ?F = ?F" using err_ok_finite [OF e] by auto
    moreover have "locates ?F g" using g kills_at_inv [OF g(5)] by (simp add: locates_def)
    ultimately show ?thesis using False by simp
  qed
qed

lemma damaged_split:
  assumes "distinct el"
  shows "card (damaged_positions b c \<union> set el) = card (damaged_positions b c - set el) + length el"
    and "card (damaged_positions b c) \<le> card (damaged_positions b c - set el) + length el"
proof -
  have fin: "finite (damaged_positions b c)" using finite_subset [OF damaged_positions_bound] by blast
  have "damaged_positions b c \<union> set el = (damaged_positions b c - set el) \<union> set el" by blast
  then show u: "card (damaged_positions b c \<union> set el) = card (damaged_positions b c - set el) + length el"
    using card_Un_disjoint [of "damaged_positions b c - set el" "set el"] fin distinct_card [OF assms] by auto
  show "card (damaged_positions b c) \<le> card (damaged_positions b c - set el) + length el"
    using card_mono [of "damaged_positions b c \<union> set el" "damaged_positions b c"] fin u by simp
qed

lemma error_value_zero: "j < 255 \<Longrightarrow> j \<notin> error_places b c \<Longrightarrow> error_value b c j = 0"
  by (simp add: error_places_def error_value_def)

lemma syn_widen:
  assumes "error_places b c \<subseteq> L" and "L \<subseteq> {..<255}"
  shows "syn (error_value b c) (error_places b c) a m = syn (error_value b c) L a m"
  unfolding syn_def using assms error_value_zero places_finite [OF assms(2)] by (intro sum.mono_neutral_left) auto

lemma syndrome_values:
  assumes dec: "dec_full k a dec" and c: "codeword 255 k dec a c"
  obtains fl sy where "compute_syndrome k dec (load_message 255 dec b) = (fl, sy)" "symbols sy" "length sy = k"
    "\<And>m. m < k \<Longrightarrow> gf (sy ! m) = syn (error_value b c) (error_places b c) a m"
proof -
  let ?f = "dec_field dec" and ?r = "load_message 255 dec b"
  have d: "dec_ok k a dec" and f: "field_ok ?f" and k: "0 < k" "a + k \<le> 255"
    using dec by (auto simp: dec_full_def dec_ok_def)
  define sy where "sy = map (\<lambda>i. fp_eval ?f ?r (syndrome_exponent_table dec ! i)) [0..<k]"
  obtain fl where fl: "compute_syndrome k dec ?r = (fl, sy)" using compute_syndrome_eq [OF k(1)] unfolding sy_def by blast
  have sv: "symbol (sy ! m) \<and> gf (sy ! m) = syn (error_value b c) (error_places b c) a m" if m: "m < k" for m
  proof -
    have "syndrome_exponent_table dec ! m = alpha ?f (int (a + m))" using d m by (simp add: dec_ok_def)
    moreover have "length ?r \<le> 256" by (simp add: load_message_eq)
    moreover have "ev (gp ?r) (gen ^ (a + m)) = syn (error_value b c) (error_places b c) a m"
      using load_message_syndrome [OF f, of c "a + m" b] c m by (simp add: codeword_def syn_def)
    ultimately show ?thesis
      using fp_eval_ok [OF f symbols_load [OF _ f], of 255 b "alpha ?f (int (a + m))"] alpha_point [OF f, of "a + m"] m k
      by (simp add: sy_def)
  qed
  then have "symbols sy" "length sy = k" by (auto simp: sy_def list_all_length)
  with fl sv that show thesis by blast
qed

lemma decode_damaged:
  assumes dec: "dec_full k a dec" and c: "codeword 255 k dec a c" and b: "length (data b) = 255"
    and el: "distinct el" "set el \<subseteq> {..<255}"
    and few: "2 * card (damaged_positions b c - set el) + length el \<le> k" and some: "damaged_positions b c \<noteq> {}"
  shows "decode_erasures 255 k dec el b = Some (True,
     b\<lparr>errors_detected := card (damaged_positions b c \<union> set el), errors_corrected := card (damaged_positions b c),
       zero_numerators := card (set el - damaged_positions b c),
       data := correct (\<lambda>i. symb (error_value b c (255 - i))) (locations (error_places b c \<union> places_of (set el))) (data b)\<rparr>)"
proof -
  let ?E = "error_places b c" and ?F = "places_of (set el)" and ?P = "damaged_positions b c" and ?e = "error_value b c"
  let ?L = "?E \<union> ?F"
  have d: "dec_ok k a dec" and f: "field_ok (dec_field dec)" and k: "0 < k" "a + k \<le> 255"
    using dec by (auto simp: dec_full_def dec_ok_def)
  note e = err_ok_blocks [of b c] and pb = damaged_positions_bound [of b c] and sp = damaged_split [OF el(1), of b c]
  have L: "?L \<subseteq> {..<255}" "card ?L = card (?P \<union> set el)"
    using places_of_bound card_places_of [of "?P \<union> set el"] pb el(2) by (auto simp: error_places_eq places_of_Un)
  have Lk: "card ?L \<le> k" "2 * card ?L \<le> k + length el" using L(2) few sp(1) by linarith+
  have EF: "card (?E - ?F) = card (?P - set el)"
    using card_places_of [of "?P - set el"] pb places_of_Diff [OF pb el(2)] by (auto simp: error_places_eq)
  obtain fl sy where fl: "compute_syndrome k dec (load_message 255 dec b) = (fl, sy)" and sy: "symbols sy" "length sy = k"
    "\<And>m. m < k \<Longrightarrow> gf (sy ! m) = syn ?e ?E a m"
    using syndrome_values [OF dec c] by blast
  obtain p where p: "(if length el < k then modified_berlekamp_massey_algorithm k dec
       (if el \<noteq> [] then compute_gamma dec [1] (prepare_erasure_list 255 el) else [1]) sy (length el)
      else Some (if el \<noteq> [] then compute_gamma dec [1] (prepare_erasure_list 255 el) else [1])) = Some p" "locates ?L p"
    using decoder_locator [OF dec e el _ sy] few EF by auto
  have roots: "find_roots 255 dec p = locations ?L" by (rule find_roots_locator [OF f L(1) p(2)])
  have "\<not> codeword 255 k dec a b" using damage_detected [OF f c _ some] few sp(2) by linarith
  then have fl0: "fl \<noteq> 0" using syndrome_zero_iff [OF d, of b] fl by simp
  have "card (?P \<union> set el) \<noteq> 0" using some finite_subset [OF pb] by auto
  then have len: "length (locations ?L) = card ?L" "locations ?L \<noteq> []" using length_locations [OF L(1)] L(2) by auto
  have chk: "\<not> (int (2 * length (locations ?L)) - int (length el)) mod 2 ^ 64 > int k"
    using Lk(2) k len L(2) sp(1) by simp
  have "?e j \<noteq> 0 \<longleftrightarrow> j \<in> ?E" if "j \<in> ?L" for j using e that L(1) error_value_zero [of j b c] by (auto simp: err_ok_def)
  then have "{j \<in> ?L. ?e j \<noteq> 0} = ?E" "{j \<in> ?L. ?e j = 0} = ?F - ?E" by auto
  then have cc: "card {j \<in> ?L. ?e j \<noteq> 0} = card ?P" "card {j \<in> ?L. ?e j = 0} = card (set el - ?P)"
    using card_places_of [OF pb] card_places_of [of "set el - ?P"] places_of_Diff [OF el(2) pb] el(2) by (auto simp: error_places_eq)
  have "\<And>m. m < k \<Longrightarrow> gf (sy ! m) = syn ?e ?L a m" using sy(3) syn_widen [OF _ L(1), of b c] by simp
  note fa = forney_algorithm_repairs [OF dec L(1) Lk(1) sy(2,1) this p(2), of b, unfolded cc L(2)]
  have "\<not> (\<not> decoder_valid dec \<or> length el > k)" using d few by (simp add: dec_ok_def)
  then show ?thesis
    unfolding decode_erasures_def if_not_P [OF \<open>\<not> (\<not> decoder_valid dec \<or> length el > k)\<close>] fl Let_def
    using p(1) roots len(2) chk fl0 fa by simp
qed

text \<open>Undamaged or not, the symbols that come out are those of the code word.\<close>

lemma decode_erasures_corrects:
  assumes dec: "dec_full k a dec" and c: "codeword 255 k dec a c" "length (data c) = 255"
    and b: "length (data b) = 255" and el: "distinct el" "set el \<subseteq> {..<255}"
    and few: "2 * card (damaged_positions b c - set el) + length el \<le> k"
  shows "\<exists>b'. decode_erasures 255 k dec el b = Some (True, b') \<and> length (data b') = 255 \<and>
     (\<forall>p<255. data b' ! p AND 255 = data c ! p AND 255) \<and>
     (\<forall>p<255. p \<notin> damaged_positions b c \<longrightarrow> data b' ! p = data b ! p) \<and>
     errors_detected b' = (if damaged_positions b c = {} then 0 else card (damaged_positions b c \<union> set el)) \<and>
     errors_corrected b' = card (damaged_positions b c) \<and>
     zero_numerators b' = (if damaged_positions b c = {} then 0 else card (set el - damaged_positions b c)) \<and>
     (damaged_positions b c = {} \<longrightarrow> \<not> unrecoverable b') \<and> (\<forall>p<255. symbol (data b ! p) \<longrightarrow> symbol (data b' ! p))"
proof (cases "damaged_positions b c = {}")
  case True
  have d: "dec_ok k a dec" and f: "field_ok (dec_field dec)" using dec by (auto simp: dec_full_def dec_ok_def)
  have eq: "data b ! p AND 255 = data c ! p AND 255" if "p < 255" for p using True that by (auto simp: damaged_positions_def)
  then have "map (\<lambda>v. v AND 255) (data b) = map (\<lambda>v. v AND 255) (data c)"
    using c b by (intro nth_equalityI) auto
  then have "codeword 255 k dec a b" using c codeword_mask_cong [OF f b c(2), of k a] by simp
  then show ?thesis using decode_codeword_erasures [OF d] eq b True few by simp
next
  case False
  have "(if p \<in> damaged_positions b c then data b ! p XOR ((data b ! p AND 255) XOR (data c ! p AND 255)) else data b ! p) AND 255 =
      data c ! p AND 255" if "p < 255" for p
    using that mask_repair by (auto simp: damaged_positions_def)
  moreover have "symbol (if p \<in> damaged_positions b c then data b ! p XOR ((data b ! p AND 255) XOR (data c ! p AND 255)) else data b ! p)"
    if "symbol (data b ! p)" for p
    using that symbol_xor [OF that symbol_xor [OF symbol_mask symbol_mask]] by simp
  ultimately show ?thesis
    using decode_damaged [OF dec c(1) b el few False] repaired_symbol [OF _ b, of _ c "error_places b c \<union> places_of (set el)"] b False by simp
qed

lemma decode_corrects:
  assumes dec: "dec_full k a dec" and c: "codeword 255 k dec a c" "length (data c) = 255"
    and b: "length (data b) = 255" and few: "2 * card (damaged_positions b c) \<le> k"
  shows "\<exists>b'. decode 255 k dec b = Some (True, b') \<and> length (data b') = 255 \<and>
     (\<forall>p<255. data b' ! p AND 255 = data c ! p AND 255) \<and>
     (\<forall>p<255. p \<notin> damaged_positions b c \<longrightarrow> data b' ! p = data b ! p) \<and>
     errors_detected b' = card (damaged_positions b c) \<and> errors_corrected b' = card (damaged_positions b c)"
  using decode_erasures_corrects [OF dec c b, of "[]"] few by (auto simp: decode_def split: if_splits)

section \<open>Every block is answered\<close>

text \<open>
  However many errors a block has, no index leaves a polynomial: the locator polynomial keeps the
  constant coefficient 1, so it never becomes empty, and the register never gets longer than the
  number of rounds.
\<close>

fun bm_wf :: "nat \<Rightarrow> fpoly \<times> fpoly \<times> int \<times> nat \<Rightarrow> bool" where
  "bm_wf n (lambda, prev, i, l) \<longleftrightarrow> symbols lambda \<and> co lambda 0 = 1 \<and> symbols prev \<and> co prev 0 = 0 \<and> i = int l - 1 \<and> l \<le> n"

lemma compute_discrepancy_defined:
  assumes f: "field_ok f" and p: "symbols p" "p \<noteq> []" and l: "l \<le> n" and sy: "symbols sy" "n < length sy"
  shows "\<exists>d. compute_discrepancy f p sy l n = Some d \<and> symbol d"
proof -
  let ?u = "nat (min (int l) (deg p))"
  have "0 < length p" using p(2) by simp
  then have u: "?u < length p" "?u \<le> n" "0 \<le> min (int l) (deg p)" using l unfolding deg_def by linarith+
  have "symbol (elem_mul f (p ! i) (sy ! (n - i)))" if "i < ?u + 1" for i
    using that u symbol_mul [OF f] symbols_nth [OF p(1)] symbols_nth [OF sy(1)] sy(2) by (simp add: elem_mul_def)
  moreover have c: "\<not> (min (int l) (deg p) < 0 \<or> int n < min (int l) (deg p) \<or> length sy \<le> n)"
    using u sy(2) by linarith
  ultimately show ?thesis
    using xor_sum_fold [of "?u + 1" "\<lambda>i. elem_mul f (p ! i) (sy ! (n - i))"]
    unfolding compute_discrepancy_def Let_def if_not_P [OF c] by blast
qed

lemma bm_round_wf:
  assumes f: "field_ok f" and sy: "symbols sy" "n < length sy" and st: "bm_wf n st"
  shows "\<exists>st'. bm_round f sy n st = Some st' \<and> bm_wf (Suc n) st'"
proof -
  obtain p prev i l where s: "st = (p, prev, i, l)" by (cases st)
  have w: "symbols p" "co p 0 = 1" "symbols prev" "co prev 0 = 0" "i = int l - 1" "l \<le> n" using st s by auto
  have "p \<noteq> []" using w(2) by (auto simp: co_def)
  then obtain d where d: "compute_discrepancy f p sy l n = Some d" "symbol d"
    using compute_discrepancy_defined [OF f w(1) _ w(6) sy] by blast
  note mp = co_mul_elem [OF f w(3) d(2)] and dp = co_div_elem [OF f w(1) d(2)]
  have "bm_wf (Suc n) (p, fp_shl prev 1, i, l)" using w symbols_shl by (simp add: co_shl del: One_nat_def)
  moreover have "co (fp_add p (fp_mul_elem f prev d)) 0 = 1" using w by (simp add: co_fp_add [OF w(1) mp(2)] mp(1))
  ultimately show ?thesis using d(1) w symbols_shl [OF dp(2)] symbols_fp_add [OF w(1) mp(2)]
    by (auto simp: bm_round_def s co_shl Let_def simp del: One_nat_def)
qed

lemma bm_rounds_wf:
  assumes f: "field_ok f" and sy: "symbols sy"
  shows "n \<le> length sy \<Longrightarrow> bm_wf n st \<Longrightarrow> bm_rounds f sy [n..<length sy] st \<noteq> None"
proof (induction "length sy - n" arbitrary: n st)
  case (Suc x)
  then have n: "n < length sy" by simp
  obtain st1 where "bm_round f sy n st = Some st1" "bm_wf (Suc n) st1"
    using bm_round_wf [OF f sy n Suc.prems(2)] by blast
  then show ?case using Suc.hyps(1) [of "Suc n" st1] Suc.hyps(2) n by (simp add: upt_conv_Cons)
qed simp

lemma decode_defined:
  assumes d: "dec_ok k a dec"
  shows "decode 255 k dec b \<noteq> None"
proof -
  let ?f = "dec_field dec" and ?r = "load_message 255 dec b"
  have f: "field_ok ?f" and k: "0 < k" "a + k \<le> 255" using d by (auto simp: dec_ok_def)
  define sy where "sy = map (\<lambda>i. fp_eval ?f ?r (syndrome_exponent_table dec ! i)) [0..<k]"
  obtain fl where fl: "compute_syndrome k dec ?r = (fl, sy)" using compute_syndrome_eq [OF k(1)] unfolding sy_def by blast
  have "symbol (fp_eval ?f ?r (alpha ?f (int (a + m))))" if "m < k" for m
    using fp_eval_ok(1) [OF f symbols_load [OF _ f], of 255 b "alpha ?f (int (a + m))"] alpha_point [OF f, of "a + m"] that k
    by (simp add: load_message_eq)
  then have sy: "symbols sy" "length sy = k" using d by (auto simp: sy_def list_all_length dec_ok_def)
  have "bm_wf 0 ([1], fp_shl [1] 1, - 1, 0)" by (simp add: co_def fp_shl_def)
  then obtain st where "bm_rounds ?f sy [0..<k] ([1], fp_shl [1] 1, - 1, 0) = Some st"
    using bm_rounds_wf [OF f sy(1), of 0] sy(2) by fastforce
  then obtain p where "modified_berlekamp_massey_algorithm k dec [1] sy 0 = Some p"
    by (cases st) (simp add: modified_berlekamp_massey_algorithm_def)
  then show ?thesis using fl k(1) by (auto simp: decode_def decode_erasures_def Let_def)
qed

text \<open>A block with its first \<open>n\<close> symbols inverted, for examples.\<close>

definition invert_first :: "nat \<Rightarrow> rsblock \<Rightarrow> rsblock" where
  "invert_first n c = c\<lparr>data := map (\<lambda>p. if p < n then data c ! p XOR 255 else data c ! p) [0..<255]\<rparr>"

lemma inverted_differs: "(x XOR 255) AND 255 \<noteq> (x :: int) AND 255"
proof
  assume "(x XOR 255) AND 255 = x AND 255"
  then have "bit ((x XOR 255) AND 255) 0 = bit (x AND 255) 0" by simp
  then show False by (simp add: bit_simps)
qed

lemma damage_invert_first:
  assumes "n \<le> 255"
  shows "{p. p < 255 \<and> data (invert_first n c) ! p AND 255 \<noteq> data c ! p AND 255} = {..<n}"
proof -
  have "data (invert_first n c) ! p = (if p < n then data c ! p XOR 255 else data c ! p)" if "p < 255" for p
    using that by (simp add: invert_first_def)
  then show ?thesis using assms inverted_differs by (auto split: if_splits)
qed

lemma example_encoded:
  "\<exists>g c. make_sequential_root_generator_polynomial (rs_field (\<lambda>_. 0) (\<lambda>_. 0) 0) 120 32 = Some g \<and>
     encode 255 32 (encoder_ctor 255 (rs_field (\<lambda>_. 0) (\<lambda>_. 0) 0) g) (block_ctor (replicate 255 (- 3))) = Some (True, c) \<and>
     length (data c) = 255"
proof -
  obtain g where g: "make_sequential_root_generator_polynomial (rs_field (\<lambda>_. 0) (\<lambda>_. 0) 0) 120 32 = Some g"
    using make_generator_ok [OF rs_field_ok [of "\<lambda>_. 0" "\<lambda>_. 0" 0], of 120 32] by auto
  have e: "enc_ok 32 120 (encoder_ctor 255 (rs_field (\<lambda>_. 0) (\<lambda>_. 0) 0) g)"
    by (rule encoder_ctor_ok [OF rs_field_ok _ _ g]) auto
  have d: "dec_ok 32 120 (decoder_ctor 255 32 (rs_field (\<lambda>_. 0) (\<lambda>_. 0) 0) 120)"
    by (rule decoder_ctor_ok [OF rs_field_ok]) auto
  show ?thesis using g encode_ok [OF e d, of "block_ctor (replicate 255 (- 3))"] by (auto simp: block_ctor_def)
qed

text \<open>Encoder and decoder for the same roots, over a field of the program.\<close>

definition rs_setup :: "nat \<Rightarrow> nat \<Rightarrow> gfield \<Rightarrow> fpoly \<Rightarrow> bool" where
  "rs_setup k a f g \<longleftrightarrow> 0 < k \<and> a + k \<le> 255 \<and> (\<exists>al ix beyond. f = rs_field al ix beyond) \<and>
     make_sequential_root_generator_polynomial f a k = Some g"

lemma rs_setup_ok:
  assumes "rs_setup k a f g"
  shows "field_ok f" "enc_ok k a (encoder_ctor 255 f g)" "dec_full k a (decoder_ctor 255 k f a)"
  using assms encoder_ctor_ok [OF rs_field_ok] decoder_ctor_full [OF rs_field_ok] rs_field_ok by (auto simp: rs_setup_def)

lemma decode_erasures_aux:
  assumes "0 < k" and "a + k \<le> 255" and "length (data b) = 255" and "length (data r) = 255"
    and "make_sequential_root_generator_polynomial (rs_field al ix beyond) a k = Some g"
    and "encode 255 k (encoder_ctor 255 (rs_field al ix beyond) g) b = Some (True, c)"
    and "distinct el" and "set el \<subseteq> {..<255}"
    and "2 * card {p. p < 255 \<and> p \<notin> set el \<and> data r ! p AND 255 \<noteq> data c ! p AND 255} + length el \<le> k"
  shows "\<exists>b'. decode_erasures 255 k (decoder_ctor 255 k (rs_field al' ix' beyond') a) el r = Some (True, b') \<and>
     map (\<lambda>v. v AND 255) (data b') = map (\<lambda>v. v AND 255) (data c) \<and>
     errors_corrected b' = card {p. p < 255 \<and> data r ! p AND 255 \<noteq> data c ! p AND 255} \<and>
     (el = [] \<longrightarrow> errors_detected b' = errors_corrected b')"
proof -
  let ?d = "decoder_ctor 255 k (rs_field al' ix' beyond') a"
  have e: "enc_ok k a (encoder_ctor 255 (rs_field al ix beyond) g)"
    by (rule encoder_ctor_ok [OF rs_field_ok assms(1,2,5)])
  have d: "dec_full k a ?d" by (rule decoder_ctor_full [OF rs_field_ok assms(1,2)])
  then have c: "codeword 255 k ?d a c" "length (data c) = 255"
    using encode_ok [OF e, of ?d b] assms(1-3,6) by (auto simp: dec_full_def)
  have "{p. p < 255 \<and> p \<notin> set el \<and> data r ! p AND 255 \<noteq> data c ! p AND 255} = damaged_positions r c - set el"
    by (auto simp: damaged_positions_def)
  then obtain b' where b': "decode_erasures 255 k ?d el r = Some (True, b')" "length (data b') = 255"
    "\<forall>p<255. data b' ! p AND 255 = data c ! p AND 255" "errors_corrected b' = card (damaged_positions r c)"
    "errors_detected b' = (if damaged_positions r c = {} then 0 else card (damaged_positions r c \<union> set el))"
    using decode_erasures_corrects [OF d c assms(4,7,8)] assms(9) by auto
  moreover have "map (\<lambda>v. v AND 255) (data b') = map (\<lambda>v. v AND 255) (data c)"
    using b'(2,3) c(2) by (intro nth_equalityI) auto
  ultimately show ?thesis by (auto simp: damaged_positions_def)
qed

lemma decode_repairs_aux:
  assumes "0 < k" and "a + k \<le> 255" and "length (data b) = 255" and "length (data r) = 255"
    and "make_sequential_root_generator_polynomial (rs_field al ix beyond) a k = Some g"
    and "encode 255 k (encoder_ctor 255 (rs_field al ix beyond) g) b = Some (True, c)"
    and "2 * card {p. p < 255 \<and> data r ! p AND 255 \<noteq> data c ! p AND 255} \<le> k"
  shows "\<exists>b'. decode 255 k (decoder_ctor 255 k (rs_field al' ix' beyond') a) r = Some (True, b') \<and>
     map (\<lambda>v. v AND 255) (data b') = map (\<lambda>v. v AND 255) (data c) \<and>
     errors_detected b' = card {p. p < 255 \<and> data r ! p AND 255 \<noteq> data c ! p AND 255} \<and>
     errors_corrected b' = errors_detected b'"
  using decode_erasures_aux [OF assms(1-6), of "[]" al' ix' beyond'] assms(7) by (auto simp: decode_def)

section \<open>Properties\<close>

text \<open>
  C3: the decoder corrects errors and erasures. If a block of 255 symbols comes from a block with
  correct parity symbols by damaging symbols anywhere, and the number of erasures (the positions given as
  suspect) plus twice the number of damaged symbols at other positions is no more than the number of
  parity symbols, \<^verbatim>\<open>decode\<close> succeeds, gives back the original symbols (modulo the byte mask) and reports exactly
  the number of damaged symbols as corrected; without erasures it also reports that number as
  detected.
\<close>

theorem decode_repairs_errors:
  assumes "0 < k" and "a + k \<le> 255" and "length (data b) = 255" and "length (data r) = 255"
    and "make_sequential_root_generator_polynomial (rs_field al ix beyond) a k = Some g"
    and "encode 255 k (encoder_ctor 255 (rs_field al ix beyond) g) b = Some (True, c)"
    and "distinct el" and "set el \<subseteq> {..<255}"
    and "2 * card {p. p < 255 \<and> p \<notin> set el \<and> data r ! p AND 255 \<noteq> data c ! p AND 255} + length el \<le> k"
  shows "\<exists>b'. decode_erasures 255 k (decoder_ctor 255 k (rs_field al' ix' beyond') a) el r = Some (True, b') \<and>
     map (\<lambda>v. v AND 255) (data b') = map (\<lambda>v. v AND 255) (data c) \<and>
     errors_corrected b' = card {p. p < 255 \<and> data r ! p AND 255 \<noteq> data c ! p AND 255} \<and>
     (el = [] \<longrightarrow> errors_detected b' = errors_corrected b')"
  using assms by (rule decode_erasures_aux)

theorem decode_repairs_errors_witness:
  "\<exists>g c b'. encode 255 32 (encoder_ctor 255 (rs_field (\<lambda>_. 0) (\<lambda>_. 0) 0) g) (block_ctor (replicate 255 (- 3))) = Some (True, c) \<and>
     decode_erasures 255 32 (decoder_ctor 255 32 (rs_field (\<lambda>_. 1) (\<lambda>_. 2) 3) 120) [0..<12] (invert_first 22 c) = Some (True, b') \<and>
     map (\<lambda>v. v AND 255) (data b') = map (\<lambda>v. v AND 255) (data c) \<and> errors_corrected b' = 22"
proof -
  obtain g c where g: "make_sequential_root_generator_polynomial (rs_field (\<lambda>_. 0) (\<lambda>_. 0) 0) 120 32 = Some g"
    and c: "encode 255 32 (encoder_ctor 255 (rs_field (\<lambda>_. 0) (\<lambda>_. 0) 0) g) (block_ctor (replicate 255 (- 3))) = Some (True, c)"
    using example_encoded by blast
  have "length (data (block_ctor (replicate 255 (- 3)))) = 255" "length (data (invert_first 22 c)) = 255"
    by (simp_all add: block_ctor_def invert_first_def)
  moreover define el :: "nat list" where "el = [0..<12]"
  then have el: "distinct el" "set el \<subseteq> {..<255}" "length el = 12" "set el = {..<12}" by auto
  moreover have "{p. p < 255 \<and> p \<notin> set el \<and> data (invert_first 22 c) ! p AND 255 \<noteq> data c ! p AND 255} = {..<22} - set el"
    unfolding damage_invert_first [of 22 c, simplified, symmetric] by blast
  moreover have "card ({..<22} - set el) = 10" unfolding el(4) by (simp add: card_Diff_subset)
  ultimately obtain b' where "decode_erasures 255 32 (decoder_ctor 255 32 (rs_field (\<lambda>_. 1) (\<lambda>_. 2) 3) 120) el (invert_first 22 c) = Some (True, b')"
    "map (\<lambda>v. v AND 255) (data b') = map (\<lambda>v. v AND 255) (data c)" "errors_corrected b' = 22"
    using decode_repairs_errors [OF _ _ _ _ g c, of "invert_first 22 c" el "\<lambda>_. 1" "\<lambda>_. 2" 3] damage_invert_first [of 22 c]
    by auto
  then have "decode_erasures 255 32 (decoder_ctor 255 32 (rs_field (\<lambda>_. 1) (\<lambda>_. 2) 3) 120) [0..<12] (invert_first 22 c) = Some (True, b')"
    "map (\<lambda>v. v AND 255) (data b') = map (\<lambda>v. v AND 255) (data c)" "errors_corrected b' = 22"
    unfolding el_def .
  with c show ?thesis by blast
qed

text \<open>
  C19: damage to as many symbols as there are parity symbols is never overlooked: the syndrome of
  the received block is not zero, so the decoder does not report a block without errors.
\<close>

theorem decode_detects_errors:
  assumes "0 < k" and "a + k \<le> 255" and "length (data b) = 255"
    and "make_sequential_root_generator_polynomial (rs_field al ix beyond) a k = Some g"
    and "encode 255 k (encoder_ctor 255 (rs_field al ix beyond) g) b = Some (True, c)"
    and "p < 255" and "data r ! p AND 255 \<noteq> data c ! p AND 255"
    and "card {p. p < 255 \<and> data r ! p AND 255 \<noteq> data c ! p AND 255} \<le> k"
    and "dec = decoder_ctor 255 k (rs_field al' ix' beyond') a"
  shows "fst (compute_syndrome k dec (load_message 255 dec r)) \<noteq> 0"
proof -
  have e: "enc_ok k a (encoder_ctor 255 (rs_field al ix beyond) g)"
    by (rule encoder_ctor_ok [OF rs_field_ok assms(1,2,4)])
  have d: "dec_full k a dec" unfolding assms(9) by (rule decoder_ctor_full [OF rs_field_ok assms(1,2)])
  then have "codeword 255 k dec a c" using encode_ok [OF e, of dec b] assms(3,5) by (auto simp: dec_full_def)
  then have "\<not> codeword 255 k dec a r"
    using damage_detected [of dec k a c r] assms(6,7,8) d by (auto simp: damaged_positions_def dec_full_def dec_ok_def)
  then show ?thesis using syndrome_zero_iff [of k a dec r] d by (simp add: dec_full_def)
qed

theorem decode_detects_errors_witness:
  "\<exists>g c. encode 255 32 (encoder_ctor 255 (rs_field (\<lambda>_. 0) (\<lambda>_. 0) 0) g) (block_ctor (replicate 255 (- 3))) = Some (True, c) \<and>
     (let dec = decoder_ctor 255 32 (rs_field (\<lambda>_. 1) (\<lambda>_. 2) 3) 120
      in fst (compute_syndrome 32 dec (load_message 255 dec (invert_first 32 c))) \<noteq> 0)"
proof -
  obtain g c where g: "make_sequential_root_generator_polynomial (rs_field (\<lambda>_. 0) (\<lambda>_. 0) 0) 120 32 = Some g"
    and c: "encode 255 32 (encoder_ctor 255 (rs_field (\<lambda>_. 0) (\<lambda>_. 0) 0) g) (block_ctor (replicate 255 (- 3))) = Some (True, c)"
    using example_encoded by blast
  have "length (data (block_ctor (replicate 255 (- 3)))) = 255" by (simp add: block_ctor_def)
  moreover let ?dec = "decoder_ctor 255 32 (rs_field (\<lambda>_. 1) (\<lambda>_. 2) 3) 120"
  have "data (invert_first 32 c) ! 0 AND 255 \<noteq> data c ! 0 AND 255"
    using inverted_differs by (simp add: invert_first_def)
  ultimately have "fst (compute_syndrome 32 ?dec (load_message 255 ?dec (invert_first 32 c))) \<noteq> 0"
    by (intro decode_detects_errors [OF _ _ _ g c _ _ _ refl, of 0]) (simp_all add: damage_invert_first)
  then show ?thesis using c unfolding Let_def by blast
qed

end
