(* ===== verification/Crc.thy ===== *)
theory Crc
  imports Prelude
begin

text \<open>
  \<^verbatim>\<open>schifra_crc.hpp\<close>. The state is a \<^verbatim>\<open>std::size_t\<close> of 64 bits. The loop that fills the table stops before
  its last entry, which keeps what the memory of the object contains: an argument of the
  constructor.
\<close>

record crc32 =
  crc_key :: uint64
  crc_state :: uint64
  crc_initial_state :: uint64
  crc_table :: "uint64 list"

definition table_entry :: "uint64 \<Rightarrow> nat \<Rightarrow> uint64" where
  "table_entry k i = fold (\<lambda>j reg. if reg AND 1 \<noteq> 0 then drop_bit 1 reg XOR k else drop_bit 1 reg) [0..<8] (of_nat i)"

definition initialize_crc32_table :: "crc32 \<Rightarrow> crc32" where
  "initialize_crc32_table c = fold (\<lambda>i c. c\<lparr>crc_table := (crc_table c)[i := table_entry (crc_key c) i]\<rparr>) [0..<255] c"

definition crc32_ctor :: "uint64 list \<Rightarrow> uint64 \<Rightarrow> uint64 \<Rightarrow> crc32" where
  "crc32_ctor mem k s = initialize_crc32_table \<lparr>crc_key = k, crc_state = s, crc_initial_state = s, crc_table = mem\<rparr>"

definition crc_reset :: "crc32 \<Rightarrow> crc32" where
  "crc_reset c = c\<lparr>crc_state := crc_initial_state c\<rparr>"

definition update_1byte :: "byte \<Rightarrow> crc32 \<Rightarrow> crc32" where
  "update_1byte d c = c\<lparr>crc_state := drop_bit 8 (crc_state c) XOR crc_table c ! unat d\<rparr>"

text \<open>The versions for arrays of characters and for strings, and the one for a number.\<close>

definition crc_update :: "bytes \<Rightarrow> nat \<Rightarrow> crc32 \<Rightarrow> crc32" where
  "crc_update d count c = fold (\<lambda>i. update_1byte (d ! i)) [0..<count] c"

definition crc_update_string :: "bytes \<Rightarrow> crc32 \<Rightarrow> crc32" where
  "crc_update_string d c = crc_update d (length d) c"

definition crc_update_number :: "uint64 \<Rightarrow> crc32 \<Rightarrow> crc32" where
  "crc_update_number d c =
     update_1byte (ucast (drop_bit 24 d AND 255)) (update_1byte (ucast (drop_bit 16 d AND 255))
       (update_1byte (ucast (drop_bit 8 d AND 255)) (update_1byte (ucast (d AND 255)) c)))"

text \<open>
  \<^verbatim>\<open>schifra_crc\<close>. In the version for one character \<^verbatim>\<open>~data\<close> is the complement of an \<^verbatim>\<open>int\<close>, a negative
  index.
\<close>

definition schifra_crc_ctor :: "uint64 list \<Rightarrow> uint64 \<Rightarrow> crc32" where
  "schifra_crc_ctor mem k = crc32_ctor mem k 0xAAAAAAAA"

definition schifra_crc_update :: "byte \<Rightarrow> crc32 \<Rightarrow> crc32 option" where
  "schifra_crc_update d c =
     (let i = NOT (uint d) in
      if i < 0 \<or> 256 \<le> i then None
      else Some (c\<lparr>crc_state := (drop_bit 8 (crc_state c) XOR crc_table c ! unat d) XOR (push_bit 8 (crc_state c) XOR crc_table c ! nat i)\<rparr>))"

section \<open>The table\<close>

lemma crc_table_entries:
  assumes "length mem = 256"
  shows "crc_table (crc32_ctor mem k s) = map (table_entry k) [0..<255] @ [mem ! 255]"
    and "crc_key (crc32_ctor mem k s) = k" and "crc_state (crc32_ctor mem k s) = s" and "crc_initial_state (crc32_ctor mem k s) = s"
proof -
  let ?c = "\<lparr>crc_key = k, crc_state = s, crc_initial_state = s, crc_table = mem\<rparr>"
  let ?f = "\<lambda>m. fold (\<lambda>i c. c\<lparr>crc_table := (crc_table c)[i := table_entry (crc_key c) i]\<rparr>) [0..<m] ?c"
  have "?f m = ?c\<lparr>crc_table := map (table_entry k) [0..<m] @ drop m mem\<rparr>" if "m \<le> 255" for m
    using that
  proof (induction m)
    case (Suc m)
    then have "drop m mem = mem ! m # drop (Suc m) mem" using assms by (simp add: Cons_nth_drop_Suc)
    then show ?case using Suc by (simp add: list_update_append)
  qed simp
  from this [of 255] have "crc32_ctor mem k s = ?c\<lparr>crc_table := map (table_entry k) [0..<255] @ drop 255 mem\<rparr>"
    by (simp add: crc32_ctor_def initialize_crc32_table_def del: upt_rec_numeral)
  moreover have "drop 255 mem = [mem ! 255]" using assms Cons_nth_drop_Suc [of 255 mem] by simp
  ultimately show "crc_table (crc32_ctor mem k s) = map (table_entry k) [0..<255] @ [mem ! 255]"
    "crc_key (crc32_ctor mem k s) = k" "crc_state (crc32_ctor mem k s) = s" "crc_initial_state (crc32_ctor mem k s) = s" by simp_all
qed

section \<open>What the checksum depends on\<close>

text \<open>The bytes contribute independently of the state they meet, and a byte is shifted out by the next eight.\<close>

primrec contribution :: "uint64 list \<Rightarrow> uint64 \<Rightarrow> bytes \<Rightarrow> uint64" where
  "contribution t s [] = s"
| "contribution t s (d # ds) = contribution t (drop_bit 8 s XOR t ! unat d) ds"

lemma crc_update_contribution:
  "crc_update d (length d) c = c\<lparr>crc_state := contribution (crc_table c) (crc_state c) d\<rparr>"
proof -
  have "fold update_1byte xs c = c\<lparr>crc_state := contribution (crc_table c) (crc_state c) xs\<rparr>" for xs
    by (induction xs arbitrary: c) (simp_all add: update_1byte_def)
  moreover have "fold (\<lambda>i. update_1byte (d ! i)) [0..<length d] c = fold update_1byte d c"
    using fold_map [of update_1byte "(!) d" "[0..<length d]"] by (simp add: map_nth comp_def)
  ultimately show ?thesis by (simp add: crc_update_def)
qed

lemma contribution_append: "contribution t s (xs @ ys) = contribution t (contribution t s xs) ys"
  by (induction xs arbitrary: s) simp_all

lemma contribution_split: "contribution t s ds = drop_bit (8 * length ds) s XOR contribution t 0 ds"
proof (induction ds arbitrary: s)
  case (Cons d ds)
  have "contribution t s (d # ds) = drop_bit (8 * length ds) (drop_bit 8 s XOR t ! unat d) XOR contribution t 0 ds"
    by (simp add: Cons [of "drop_bit 8 s XOR t ! unat d"])
  moreover have "contribution t 0 (d # ds) = drop_bit (8 * length ds) (t ! unat d) XOR contribution t 0 ds"
    by (simp add: Cons [of "t ! unat d"])
  moreover have "drop_bit (8 * length ds) (drop_bit 8 s XOR t ! unat d) =
      drop_bit (8 * length (d # ds)) s XOR drop_bit (8 * length ds) (t ! unat d)"
    by (simp add: drop_bit_xor add.commute)
  ultimately show ?case by (simp only: xor.assoc)
qed simp

lemma contribution_forgets:
  assumes "8 \<le> length ds"
  shows "contribution t s ds = contribution t 0 ds"
proof -
  have "drop_bit (8 * length ds) s = 0" using assms by (intro bit_eqI) (auto simp: bit_simps dest: bit_imp_le_length)
  then show ?thesis using contribution_split [of t s ds] by simp
qed

lemma schifra_crc_update_undefined: "schifra_crc_update d c = None"
  by (simp add: schifra_crc_update_def)

end
