(* ===== verification/FileIO.thy ===== *)
theory FileIO
  imports Crc "HOL-Library.Monad_Syntax"
begin

text \<open>
  \<^verbatim>\<open>schifra_fileio.hpp\<close>: whole files read, written, copied, compared and summed in blocks of 1024 bytes. The
  file system is a map from names to contents, with the names that can be opened for writing as an
  argument. The loops that go through a file in blocks with a shorter one at the end have a common
  contract, the locale \<open>block_reader\<close>.
\<close>

type_synonym fs = "string \<Rightarrow> bytes option"

section \<open>Loops over the blocks of a file\<close>

text \<open>
  Blocks of \<open>m\<close> bytes as long as they are complete, then the rest. A block size of 0 would never end.
\<close>

function blocks :: "nat \<Rightarrow> (nat \<Rightarrow> 's \<Rightarrow> 's option) \<Rightarrow> nat \<Rightarrow> 's \<Rightarrow> 's option" where
  "blocks m step remaining_bytes s =
     (if m = 0 then None
      else if remaining_bytes \<ge> m then Option.bind (step m s) (blocks m step (remaining_bytes - m))
      else if remaining_bytes > 0 then step remaining_bytes s else Some s)"
  by pat_completeness auto
termination by (relation "measure (\<lambda>(m, step, r, s). r)") auto

declare blocks.simps [simp del]

lemma fold_opt_const: "length xs = length ys \<Longrightarrow> fold_opt (\<lambda>_. f) xs s = fold_opt (\<lambda>_. f) ys s"
  by (induction xs ys arbitrary: s rule: list_induct2) (simp_all split: Option.bind_split)

text \<open>The loop that counts the complete blocks instead.\<close>

lemma blocks_counted:
  assumes "0 < m"
  shows "blocks m step n s = Option.bind (fold_opt (\<lambda>_. step m) [0..<n div m] s)
     (\<lambda>s. if n mod m \<noteq> 0 then step (n mod m) s else Some s)"
proof (induction n arbitrary: s rule: less_induct)
  case (less n)
  show ?case
  proof (cases "m \<le> n")
    case True
    then have d: "n div m = Suc ((n - m) div m)" "n mod m = (n - m) mod m" using assms by (simp_all add: le_div_geq le_mod_geq)
    have "fold_opt (\<lambda>_. step m) [0..<n div m] s = fold_opt (\<lambda>_. step m) (0 # [0..<(n - m) div m]) s"
      by (rule fold_opt_const) (simp add: d(1))
    then have "fold_opt (\<lambda>_. step m) [0..<n div m] s = Option.bind (step m s) (fold_opt (\<lambda>_. step m) [0..<(n - m) div m])" by simp
    moreover have "blocks m step n s = Option.bind (step m s) (blocks m step (n - m))"
      using True assms by (subst blocks.simps) simp
    ultimately show ?thesis using less [of "n - m"] assms True unfolding d(2) by (cases "step m s") simp_all
  qed (use assms in \<open>simp add: blocks.simps\<close>)
qed

text \<open>
  The contract of a step: it takes the block or the rest of the input and does to an abstract state what \<open>act\<close> does with those bytes, or leaves the loop when that is \<^term>\<open>None\<close>.
\<close>

locale block_reader =
  fixes m :: nat and step :: "nat \<Rightarrow> 's \<Rightarrow> 's option" and ok :: "'s \<Rightarrow> bool" and input :: "'s \<Rightarrow> bytes"
    and abs :: "'s \<Rightarrow> 'a" and act :: "bytes \<Rightarrow> 'a \<Rightarrow> 'a option"
  assumes step_acts: "ok s \<Longrightarrow> input s \<noteq> [] \<Longrightarrow> amount = min m (length (input s)) \<Longrightarrow>
      (case act (take amount (input s)) (abs s) of
         None \<Rightarrow> step amount s = None
       | Some a \<Rightarrow> \<exists>s'. step amount s = Some s' \<and> ok s' \<and> input s' = drop amount (input s) \<and> abs s' = a)"
begin

lemma blocks_act:
  assumes "0 < m" and "ok s"
  shows "case fold_opt act (chunks m (input s)) (abs s) of
      None \<Rightarrow> blocks m step (length (input s)) s = None
    | Some a \<Rightarrow> \<exists>s'. blocks m step (length (input s)) s = Some s' \<and> ok s' \<and> input s' = [] \<and> abs s' = a"
  using assms(2)
proof (induction "length (input s)" arbitrary: s rule: less_induct)
  case less
  note IH = less.hyps and b = blocks.simps [of m step "length (input s)" s]
  show ?case
  proof (cases "input s = []")
    case True
    then show ?thesis using b less.prems assms(1) by simp
  next
    case False
    let ?n = "min m (length (input s))"
    have n: "take ?n (input s) = take m (input s)" by (simp add: min_def)
    note st = step_acts [OF less.prems False refl, unfolded n]
    have c: "chunks m (input s) = take m (input s) # chunks m (drop m (input s))" by (rule chunks_step [OF assms(1) False])
    show ?thesis
    proof (cases "act (take m (input s)) (abs s)")
      case None
      then show ?thesis using st b c assms(1) False by (auto simp: min_def split: if_splits)
    next
      case (Some a)
      then obtain s' where s': "step ?n s = Some s'" "ok s'" "input s' = drop ?n (input s)" "abs s' = a" using st by auto
      show ?thesis
      proof (cases "m \<le> length (input s)")
        case True
        then have i: "input s' = drop m (input s)" "length (input s') = length (input s) - m" using s'(3) by (simp_all add: min_def)
        have bb: "blocks m step (length (input s)) s = blocks m step (length (input s')) s'"
          using b s'(1) True assms(1) unfolding i(2) by (simp add: min_def)
        have ff: "fold_opt act (chunks m (input s)) (abs s) = fold_opt act (chunks m (input s')) (abs s')"
          using c Some s'(4) i(1) by simp
        have "length (input s') < length (input s)" using i(2) True assms(1) by simp
        then show ?thesis unfolding bb ff using s'(2) by (rule IH)
      next
        case False': False
        then show ?thesis using s' b c Some False by (simp add: min_def)
      qed
    qed
  qed
qed

lemma blocks_Some:
  assumes "0 < m" and "ok s" and "fold_opt act (chunks m (input s)) (abs s) = Some a"
  shows "\<exists>s'. blocks m step (length (input s)) s = Some s' \<and> ok s' \<and> input s' = [] \<and> abs s' = a"
  using blocks_act [OF assms(1,2)] assms(3) by simp

lemma blocks_None:
  assumes "0 < m" and "ok s" and "fold_opt act (chunks m (input s)) (abs s) = None"
  shows "blocks m step (length (input s)) s = None"
  using blocks_act [OF assms(1,2)] assms(3) by simp

end

section \<open>The operations\<close>

text \<open>\<^verbatim>\<open>std::istream::read\<close> into a buffer, which keeps its other bytes.\<close>

definition stream_read :: "nat \<Rightarrow> bytes \<Rightarrow> bytes \<Rightarrow> bytes \<times> bytes" where
  "stream_read amount inp buffer = (let got = take amount inp in (got @ drop (length got) buffer, drop amount inp))"

lemma stream_read_full:
  "amount \<le> length inp \<Longrightarrow> stream_read amount inp buffer = (take amount inp @ drop amount buffer, drop amount inp)"
  by (simp add: stream_read_def Let_def)

text \<open>\<^verbatim>\<open>std::getline\<close> in a loop: a last line without a newline counts unless it is empty.\<close>

function getlines :: "bytes \<Rightarrow> bytes list" where
  "getlines inp =
     (if inp = [] then []
      else takeWhile (\<lambda>c. c \<noteq> 10) inp # getlines (drop 1 (dropWhile (\<lambda>c. c \<noteq> 10) inp)))"
  by pat_completeness auto
termination
proof (relation "measure length")
  fix inp :: bytes
  assume "inp \<noteq> []"
  then have "0 < length inp" by simp
  then have "length (drop 1 (dropWhile (\<lambda>c. c \<noteq> 10) inp)) < length inp"
    using length_dropWhile_le [of "\<lambda>c. c \<noteq> 10" inp] unfolding length_drop by linarith
  then show "(drop 1 (dropWhile (\<lambda>c. c \<noteq> 10) inp), inp) \<in> measure length" by simp
qed simp

declare getlines.simps [simp del]

definition read_into_vector :: "fs \<Rightarrow> string \<Rightarrow> bytes list \<Rightarrow> bytes list" where
  "read_into_vector fs file_name buffer = (case fs file_name of None \<Rightarrow> buffer | Some c \<Rightarrow> buffer @ getlines c)"

definition write_from_vector :: "(string \<Rightarrow> bool) \<Rightarrow> string \<Rightarrow> bytes list \<Rightarrow> fs \<Rightarrow> fs" where
  "write_from_vector writable file_name buffer fs =
     (if writable file_name then fs(file_name \<mapsto> concat (map (\<lambda>l. l @ [10]) buffer)) else fs)"

definition file_exists :: "fs \<Rightarrow> string \<Rightarrow> bool" where
  "file_exists fs file_name \<longleftrightarrow> fs file_name \<noteq> None"

definition file_size :: "bytes option \<Rightarrow> nat" where
  "file_size file = (case file of None \<Rightarrow> 0 | Some c \<Rightarrow> length c)"

definition load_file :: "fs \<Rightarrow> string \<Rightarrow> bytes \<Rightarrow> bytes" where
  "load_file fs file_name buffer = (case fs file_name of None \<Rightarrow> buffer | Some c \<Rightarrow> c)"

text \<open>The version with a new array gives its size too; \<open>mem\<close> is what the new memory contains.\<close>

definition load_array :: "(nat \<Rightarrow> bytes) \<Rightarrow> fs \<Rightarrow> string \<Rightarrow> bytes \<times> nat \<Rightarrow> bytes \<times> nat" where
  "load_array mem fs file_name b =
     (case fs file_name of None \<Rightarrow> b
      | Some c \<Rightarrow> let buffer_size = file_size (fs file_name) in (fst (stream_read buffer_size c (mem buffer_size)), buffer_size))"

definition write_file :: "(string \<Rightarrow> bool) \<Rightarrow> string \<Rightarrow> bytes \<Rightarrow> fs \<Rightarrow> fs" where
  "write_file writable file_name buffer fs = (if writable file_name then fs(file_name \<mapsto> buffer) else fs)"

definition write_array :: "(string \<Rightarrow> bool) \<Rightarrow> string \<Rightarrow> bytes \<Rightarrow> nat \<Rightarrow> fs \<Rightarrow> fs" where
  "write_array writable file_name buffer buffer_size fs =
     (if writable file_name then fs(file_name \<mapsto> take buffer_size buffer) else fs)"

text \<open>Both files are opened before either is checked, so the destination is emptied first.\<close>

definition copy_step :: "nat \<Rightarrow> bytes \<times> bytes \<times> bytes \<Rightarrow> (bytes \<times> bytes \<times> bytes) option" where
  "copy_step amount st = (case st of (src_file, buffer, dest_file) \<Rightarrow>
     let (buffer, src_file) = stream_read amount src_file buffer in Some (src_file, buffer, dest_file @ take amount buffer))"

definition copy_file_io :: "(string \<Rightarrow> bool) \<Rightarrow> bytes \<Rightarrow> string \<Rightarrow> string \<Rightarrow> fs \<Rightarrow> (bool \<times> fs) option" where
  "copy_file_io writable buffer src_file_name dest_file_name fs =
     (let src_open = file_exists fs src_file_name;
          fs = (if writable dest_file_name then fs(dest_file_name \<mapsto> []) else fs)
      in if \<not> src_open then Some (False, fs)
         else if \<not> writable dest_file_name then Some (False, fs)
         else do {
           (_, _, out) \<leftarrow> blocks 1024 copy_step (file_size (fs src_file_name)) (the (fs src_file_name), buffer, []);
           Some (True, fs(dest_file_name \<mapsto> out))
         })"

text \<open>\<^term>\<open>None\<close> is the return with \<^verbatim>\<open>false\<close> from inside the loops.\<close>

definition compare_step :: "nat \<Rightarrow> bytes \<times> bytes \<times> bytes \<times> bytes \<Rightarrow> (bytes \<times> bytes \<times> bytes \<times> bytes) option" where
  "compare_step amount st = (case st of (file1, file2, buffer1, buffer2) \<Rightarrow>
     let (buffer1, file1) = stream_read amount file1 buffer1;
         (buffer2, file2) = stream_read amount file2 buffer2
     in if list_all (\<lambda>i. buffer1 ! i = buffer2 ! i) [0..<amount] then Some (file1, file2, buffer1, buffer2) else None)"

definition files_identical :: "bytes \<Rightarrow> bytes \<Rightarrow> fs \<Rightarrow> string \<Rightarrow> string \<Rightarrow> bool" where
  "files_identical buffer1 buffer2 fs file_name1 file_name2 =
     (if \<not> file_exists fs file_name1 then False
      else if \<not> file_exists fs file_name2 then False
      else if file_size (fs file_name1) \<noteq> file_size (fs file_name2) then False
      else blocks 1024 compare_step (file_size (fs file_name1)) (the (fs file_name1), the (fs file_name2), buffer1, buffer2) \<noteq> None)"

definition crc_step :: "nat \<Rightarrow> bytes \<times> bytes \<times> crc32 \<Rightarrow> (bytes \<times> bytes \<times> crc32) option" where
  "crc_step amount st = (case st of (file, buffer, crc_module) \<Rightarrow>
     let (buffer, file) = stream_read amount file buffer in Some (file, buffer, crc_update buffer amount crc_module))"

definition file_crc :: "bytes \<Rightarrow> crc32 \<Rightarrow> fs \<Rightarrow> string \<Rightarrow> (uint64 \<times> crc32) option" where
  "file_crc buffer crc_module fs file_name =
     (if \<not> file_exists fs file_name then Some (0, crc_module)
      else do {
        (_, _, crc_module) \<leftarrow> blocks 1024 crc_step (file_size (fs file_name)) (the (fs file_name), buffer, crc_reset crc_module);
        Some (crc_state crc_module, crc_module)
      })"

section \<open>What they do\<close>

interpretation copying: block_reader 1024 copy_step "\<lambda>_. True" fst "\<lambda>(_, _, out). out" "\<lambda>c out. Some (out @ c)"
  by unfold_locales (auto simp: copy_step_def stream_read_full)

interpretation comparing: block_reader 1024 compare_step "\<lambda>(f1, f2, b1, b2). length f1 = length f2 \<and> length b1 = 1024 \<and> length b2 = 1024" fst
  "\<lambda>(f1, f2, b1, b2). f2" "\<lambda>c f2. if take (length c) f2 = c then Some (drop (length c) f2) else None"
proof (unfold_locales, goal_cases)
  case (1 s amount)
  obtain f1 f2 b1 b2 where s: "s = (f1, f2, b1, b2)" by (cases s)
  have l: "amount \<le> length f1" "length f1 = length f2" "length b1 = 1024" "length b2 = 1024" "amount \<le> 1024" using 1 s by auto
  have eq: "list_all (\<lambda>i. (take amount f1 @ drop amount b1) ! i = (take amount f2 @ drop amount b2) ! i) [0..<amount] \<longleftrightarrow>
      take amount f2 = take amount f1"
    using l by (auto simp: list_all_iff nth_append list_eq_iff_nth_eq)
  have "compare_step amount s = (if take amount f2 = take amount f1
      then Some (drop amount f1, drop amount f2, take amount f1 @ drop amount b1, take amount f2 @ drop amount b2) else None)"
    using l unfolding s compare_step_def by (simp add: stream_read_full eq del: if_split)
  then show ?case using l by (simp add: s)
qed

interpretation summing: block_reader 1024 crc_step "\<lambda>(_, b, _). length b = 1024" fst "\<lambda>(_, _, c). c" "\<lambda>d c. Some (crc_update d (length d) c)"
proof (unfold_locales, goal_cases)
  case (1 s amount)
  obtain f b c where s: "s = (f, b, c)" by (cases s)
  have l: "amount \<le> length f" "length b = 1024" "amount \<le> 1024" using 1 s by auto
  have "crc_update (take amount f @ drop amount b) amount c = crc_update (take amount f) amount c"
    unfolding crc_update_def using l by (intro fold_cong refl) (simp_all add: nth_append)
  then show ?case using s l by (simp add: crc_step_def stream_read_full)
qed

lemma fold_append: "fold_opt (\<lambda>c out. Some (out @ c)) cs out = Some (out @ concat cs)"
  by (induction cs arbitrary: out) simp_all

lemma fold_compare:
  "length f2 = length (concat cs) \<Longrightarrow>
     fold_opt (\<lambda>c f2. if take (length c) f2 = c then Some (drop (length c) f2) else None) cs f2 \<noteq> None \<longleftrightarrow> f2 = concat cs"
proof (induction cs arbitrary: f2)
  case (Cons c cs)
  have "f2 = c @ concat cs \<longleftrightarrow> take (length c) f2 = c \<and> drop (length c) f2 = concat cs"
    by (metis append_eq_conv_conj)
  then show ?case using Cons by auto
qed simp

lemma copy_blocks_all:
  "\<exists>rest b. blocks 1024 copy_step (length c) (c, buffer, []) = Some (rest, b, c)"
  using copying.blocks_Some [of "(c, buffer, [])" c] by (auto simp: fold_append concat_chunks)

lemma fold_crc: "fold_opt (\<lambda>d c. Some (crc_update d (length d) c)) ds c = Some (c\<lparr>crc_state := contribution (crc_table c) (crc_state c) (concat ds)\<rparr>)"
  by (induction ds arbitrary: c) (simp_all add: crc_update_contribution contribution_append)

lemma file_crc_contribution:
  assumes "fs name = Some d" and "length buffer = 1024"
  shows "file_crc buffer c fs name = Some (contribution (crc_table c) (crc_initial_state c) d,
     c\<lparr>crc_state := contribution (crc_table c) (crc_initial_state c) d\<rparr>)"
  using summing.blocks_Some [of "(d, buffer, crc_reset c)"] assms
  by (auto simp: file_crc_def file_exists_def file_size_def fold_crc concat_chunks crc_reset_def)

text \<open>Lines written and read back.\<close>

lemma getlines_line:
  assumes "10 \<notin> set l"
  shows "getlines (l @ 10 # rest) = l # getlines rest"
proof -
  have "takeWhile (\<lambda>c. c \<noteq> 10) (l @ 10 # rest) = l" "dropWhile (\<lambda>c. c \<noteq> 10) (l @ 10 # rest) = 10 # rest"
    using assms by (auto simp: takeWhile_append dropWhile_append)
  then show ?thesis by (subst getlines.simps) simp
qed

lemma getlines_written: "list_all (\<lambda>l. 10 \<notin> set l) ls \<Longrightarrow> getlines (concat (map (\<lambda>l. l @ [10]) ls)) = ls"
  by (induction ls) (simp_all add: getlines_line, simp add: getlines.simps)

lemma vector_roundtrip:
  assumes "writable name" and "list_all (\<lambda>l. 10 \<notin> set l) ls"
  shows "read_into_vector (write_from_vector writable name ls fs) name [] = ls"
  using assms getlines_written by (simp add: read_into_vector_def write_from_vector_def)

lemma array_roundtrip:
  assumes "writable name" and "n \<le> length buffer" and "length (mem n) = n"
  shows "load_array mem (write_array writable name buffer n fs) name b = (take n buffer, n)"
  using assms by (simp add: load_array_def write_array_def file_size_def stream_read_full)

text \<open>
  The destination of a copy is emptied even if the source does not exist, and a file copied to itself
  is lost, with a report of success.
\<close>

lemma copy_of_nothing:
  "fs src = None \<Longrightarrow> writable dest \<Longrightarrow> copy_file_io writable buffer src dest fs = Some (False, fs(dest \<mapsto> []))"
  by (simp add: copy_file_io_def file_exists_def)

lemma copy_to_itself:
  "fs f = Some c \<Longrightarrow> writable f \<Longrightarrow> copy_file_io writable buffer f f fs = Some (True, fs(f \<mapsto> []))"
  by (simp add: copy_file_io_def file_exists_def file_size_def blocks.simps)

lemma files_identical_iff:
  assumes "length b1 = 1024" and "length b2 = 1024"
  shows "files_identical b1 b2 fs n1 n2 \<longleftrightarrow> fs n1 \<noteq> None \<and> fs n1 = fs n2"
proof -
  have cmp: "blocks 1024 compare_step n (c1, c2, b1, b2) = None \<longleftrightarrow> c2 \<noteq> c1" if "n = length c1" "n = length c2" for n c1 c2
    using comparing.blocks_act [of "(c1, c2, b1, b2)"] fold_compare [of c2 "chunks 1024 c1"] that assms
    by (auto simp: concat_chunks split: option.splits)
  show ?thesis
  proof (cases "fs n1"; cases "fs n2")
    fix c1 c2 assume "fs n1 = Some c1" "fs n2 = Some c2"
    then show ?thesis using cmp [of "length c1" c1 c2] by (auto simp: files_identical_def file_exists_def file_size_def)
  qed (simp_all add: files_identical_def file_exists_def)
qed

section \<open>Properties\<close>

text \<open>
  Files are copied and compared completely. Copying an existing file to another name that can be
  written succeeds, whatever the buffers contain, and changes nothing but the destination, which
  becomes equal to the source. Two files compare as identical if and only if both exist and
  have the same contents.
\<close>

lemma copy_and_compare_files:
  assumes "length b1 = 1024" and "length b2 = 1024"
  shows "(fs src = Some c \<and> writable dest \<and> src \<noteq> dest \<longrightarrow> copy_file_io writable b1 src dest fs = Some (True, fs(dest \<mapsto> c))) \<and>
     (files_identical b1 b2 fs n1 n2 \<longleftrightarrow> fs n1 \<noteq> None \<and> fs n1 = fs n2)"
  using copy_blocks_all [of c b1] files_identical_iff [OF assms]
  by (auto simp: copy_file_io_def file_exists_def file_size_def)

text \<open>
  The checksum of a file depends on its last eight bytes only, because every byte is combined
  with the table without looking at the state and the state is shifted by eight bits: files that agree in the last
  eight bytes have the same checksum.
\<close>

lemma file_crc_of_last_bytes:
  assumes "length buffer = 1024" and "8 \<le> length tail"
    and "fs n1 = Some (d1 @ tail)" and "fs n2 = Some (d2 @ tail)"
  shows "map_option fst (file_crc buffer c fs n1) = map_option fst (file_crc buffer c fs n2)"
proof -
  have "contribution t s (d1 @ tail) = contribution t s (d2 @ tail)" for t s
    unfolding contribution_append by (metis contribution_forgets [OF assms(2)])
  then show ?thesis using assms by (simp add: file_crc_contribution)
qed

end
