(* ===== verification/FileCodec.thy ===== *)
theory FileCodec
  imports RSDecode FileIO
begin

text \<open>
  Whole files through the code: \<^verbatim>\<open>file_encoder\<close> of the Schifra library, \<^verbatim>\<open>file_decoder\<close> of
  \<^verbatim>\<open>fileDecoder.cpp\<close>, and the functions of the program that set them up, \<^verbatim>\<open>addReedSolomon\<close> of
  \<^verbatim>\<open>master.cpp\<close> and \<^verbatim>\<open>decode\<close> of \<^verbatim>\<open>ecc.cpp\<close>. The coder objects are arguments, given by what their
  \<^verbatim>\<open>encode\<close> and \<^verbatim>\<open>decode\<close> do to a block.
\<close>

type_synonym block_op = "rsblock \<Rightarrow> (bool \<times> rsblock) option"

section \<open>file\_encoder\<close>

text \<open>
  The members of the encoder object with the rest of the input and the output so far. A read
  overwrites the front of the buffer.
\<close>

record fenc =
  fe_block :: rsblock
  data_buffer :: bytes
  fe_in :: bytes
  fe_out :: bytes

definition enc_process_block :: "nat \<Rightarrow> nat \<Rightarrow> block_op \<Rightarrow> nat \<Rightarrow> fenc \<Rightarrow> fenc option" where
  "enc_process_block n k enc read_amount st = do {
     let got = take read_amount (fe_in st);
     let buf = got @ drop (length got) (data_buffer st);
     let blk = fold (\<lambda>i. set_sym i (symbol_of_char (buf ! i) AND 255)) [0..<read_amount] (fe_block st);
     let blk = (if read_amount < n - k then fold (\<lambda>i. set_sym i 0) [read_amount..<n - k] blk else blk);
     let st = st\<lparr>data_buffer := buf, fe_in := drop read_amount (fe_in st)\<rparr>;
     (ok, blk) \<leftarrow> enc blk;
     if \<not> ok then Some (st\<lparr>fe_block := blk\<rparr>)
     else do {
       let fec_buffer = map (\<lambda>i. char_of_symbol (fec n k blk i AND 255)) [0..<k];
       Some (st\<lparr>fe_block := blk, fe_out := fe_out st @ take read_amount buf @ fec_buffer\<rparr>)
     }
   }"

text \<open>The block loop; a data length of 0 is refused when the template is compiled.\<close>

function enc_loop :: "nat \<Rightarrow> nat \<Rightarrow> block_op \<Rightarrow> nat \<Rightarrow> fenc \<Rightarrow> (nat \<times> fenc) option" where
  "enc_loop n k enc remaining_bytes st =
     (if n \<le> k then None
      else if remaining_bytes \<ge> n - k then do {
        st \<leftarrow> enc_process_block n k enc (n - k) st;
        enc_loop n k enc (remaining_bytes - (n - k)) st
      } else Some (remaining_bytes, st))"
  by pat_completeness auto
termination by (relation "measure (\<lambda>(n, k, enc, r, st). r)") auto

declare enc_loop.simps [simp del]

text \<open>
  The constructor does all the work. The inner \<^term>\<open>None\<close> is the return before the output file is
  created: an empty file and a file that cannot be opened both have size 0, and \<open>can_create\<close> tells
  whether the output file can be created. The two files are different ones.
\<close>

definition file_encoder ::
  "nat \<Rightarrow> nat \<Rightarrow> block_op \<Rightarrow> (nat \<Rightarrow> int) \<Rightarrow> bool \<Rightarrow> bytes option \<Rightarrow> bytes option option" where
  "file_encoder n k enc mem can_create input =
     (if file_size input = 0 then Some None
      else if \<not> can_create then Some None
      else do {
        let st = \<lparr>fe_block = block_ctor (alloc n mem), data_buffer = replicate (n - k) 0,
                  fe_in = the input, fe_out = []\<rparr>;
        (remaining_bytes, st) \<leftarrow> enc_loop n k enc (file_size input) st;
        st \<leftarrow> (if remaining_bytes > 0 then enc_process_block n k enc remaining_bytes st else Some st);
        Some (Some (fe_out st))
      })"

section \<open>file\_decoder\<close>

datatype return_type = SUCCESS | ZERO_SIZE | ERR_OPEN | ERR_CREATE | ERR_DECODE

record fdec =
  fd_block :: rsblock
  fd_buffer :: bytes
  total_detected :: nat
  total_corrected :: nat
  current_block_index :: nat
  fd_in :: bytes
  fd_out :: bytes

definition process_complete_block :: "nat \<Rightarrow> nat \<Rightarrow> block_op \<Rightarrow> fdec \<Rightarrow> (return_type \<times> fdec) option" where
  "process_complete_block n k dec st = do {
     let got = take n (fd_in st);
     let buf = got @ drop (length got) (fd_buffer st);
     let blk = copy_chars buf n (fd_block st);
     (res, blk) \<leftarrow> dec blk;
     let st = st\<lparr>fd_block := blk, fd_buffer := buf, fd_in := drop n (fd_in st),
                 total_detected := total_detected st + errors_detected blk,
                 total_corrected := total_corrected st + errors_corrected blk\<rparr>;
     if \<not> res then Some (ERR_DECODE, st)
     else do {
       let buf = map (\<lambda>i. char_of_symbol (data blk ! i)) [0..<n - k] @ drop (n - k) buf;
       Some (SUCCESS, st\<lparr>fd_buffer := buf, fd_out := fd_out st @ take (n - k) buf\<rparr>)
     }
   }"

text \<open>A partial block does not add to the totals of the report.\<close>

definition process_partial_block ::
  "nat \<Rightarrow> nat \<Rightarrow> block_op \<Rightarrow> nat \<Rightarrow> fdec \<Rightarrow> (return_type \<times> fdec) option" where
  "process_partial_block n k dec read_amount st =
     (if read_amount \<le> k then Some (ERR_DECODE, st)
      else do {
        let m = read_amount - k;
        let got = take read_amount (fd_in st);
        let buf = got @ drop (length got) (fd_buffer st);
        let blk = fold (\<lambda>i. set_sym i (symbol_of_char (buf ! i))) [0..<m] (fd_block st);
        let blk = (if m < n - k then fold (\<lambda>i. set_sym i 0) [m..<n - k] blk else blk);
        let blk = fold (\<lambda>i. set_fec n k i (symbol_of_char (buf ! (m + i)))) [0..<k] blk;
        (res, blk) \<leftarrow> dec blk;
        let st = st\<lparr>fd_block := blk, fd_buffer := buf, fd_in := drop read_amount (fd_in st)\<rparr>;
        if \<not> res then Some (ERR_DECODE, st)
        else do {
          let buf = map (\<lambda>i. char_of_symbol (data blk ! i)) [0..<m] @ drop m buf;
          Some (SUCCESS, st\<lparr>fd_buffer := buf, fd_out := fd_out st @ take m buf\<rparr>)
        }
      })"

function dec_loop :: "nat \<Rightarrow> nat \<Rightarrow> block_op \<Rightarrow> nat \<Rightarrow> fdec \<Rightarrow> (return_type \<times> nat \<times> fdec) option" where
  "dec_loop n k dec remaining_bytes st =
     (if n = 0 then None
      else if remaining_bytes \<ge> n then do {
        (rc, st) \<leftarrow> process_complete_block n k dec st;
        if rc \<noteq> SUCCESS then Some (ERR_DECODE, remaining_bytes, st)
        else dec_loop n k dec (remaining_bytes - n)
               (st\<lparr>current_block_index := current_block_index st + 1\<rparr>)
      } else Some (SUCCESS, remaining_bytes, st))"
  by pat_completeness auto
termination by (relation "measure (\<lambda>(n, k, dec, r, st). r)") auto

declare dec_loop.simps [simp del]

text \<open>
  \<^verbatim>\<open>decode_file\<close>, with the output as far as it was written; \<open>can_create\<close> tells whether the output
  file can be created. The members of the object are zero-initialised by \<^verbatim>\<open>new file_decoder_t()\<close>.
\<close>

definition decode_file ::
  "nat \<Rightarrow> nat \<Rightarrow> block_op \<Rightarrow> bool \<Rightarrow> bytes option \<Rightarrow> (return_type \<times> bytes option) option" where
  "decode_file n k dec can_create input =
     (if file_size input = 0 then Some (ZERO_SIZE, None)
      else case input of
        None \<Rightarrow> Some (ERR_OPEN, None)
      | Some c \<Rightarrow>
          if \<not> can_create then Some (ERR_CREATE, None)
          else do {
            let st = \<lparr>fd_block = block_ctor (replicate n 0), fd_buffer = replicate n 0, total_detected = 0,
                      total_corrected = 0, current_block_index = 0, fd_in = c, fd_out = []\<rparr>;
            (rc, remaining_bytes, st) \<leftarrow> dec_loop n k dec (file_size input) st;
            if rc \<noteq> SUCCESS then Some (ERR_DECODE, Some (fd_out st))
            else do {
              (rc, st) \<leftarrow> (if remaining_bytes > 0 then process_partial_block n k dec remaining_bytes st
                           else Some (SUCCESS, st));
              Some (rc, Some (fd_out st))
            }
          })"

section \<open>The program's coders\<close>

definition FIELD_DESCRIPTOR :: nat where "FIELD_DESCRIPTOR = 8"
definition GEN_POLY_INDEX :: nat where "GEN_POLY_INDEX = 120"
definition ROOT_COUNT :: nat where "ROOT_COUNT = 32"
definition CODE_LENGTH :: nat where "CODE_LENGTH = 255"
definition FEC_LENGTH :: nat where "FEC_LENGTH = 32"

text \<open>
  \<^verbatim>\<open>addReedSolomon\<close>: the status and the output file, if one is written. \<open>al\<close>, \<open>ix\<close> and \<open>mem\<close> are the
  contents of freshly allocated memory, \<open>beyond\<close> the word behind the primitive polynomial.
\<close>

definition addReedSolomon ::
  "(nat \<Rightarrow> int) \<Rightarrow> (nat \<Rightarrow> int) \<Rightarrow> uint32 \<Rightarrow> (nat \<Rightarrow> int) \<Rightarrow> bool \<Rightarrow> bytes option \<Rightarrow> (int \<times> bytes option) option" where
  "addReedSolomon al ix beyond mem can_create input =
     (let field = field_ctor al ix FIELD_DESCRIPTOR primitive_polynomial_size06 (primitive_polynomial06 @ [beyond])
      in case make_sequential_root_generator_polynomial field GEN_POLY_INDEX ROOT_COUNT of
           None \<Rightarrow> Some (1, None)
         | Some generator_polynomial \<Rightarrow> do {
             let rs_encoder = encoder_ctor CODE_LENGTH field generator_polynomial;
             out \<leftarrow> file_encoder CODE_LENGTH FEC_LENGTH (encode CODE_LENGTH FEC_LENGTH rs_encoder) mem can_create input;
             Some (0, out)
           })"

definition ecc_decode ::
  "(nat \<Rightarrow> int) \<Rightarrow> (nat \<Rightarrow> int) \<Rightarrow> uint32 \<Rightarrow> bool \<Rightarrow> bytes option \<Rightarrow> (return_type \<times> bytes option) option" where
  "ecc_decode al ix beyond can_create input =
     (let field = field_ctor al ix FIELD_DESCRIPTOR primitive_polynomial_size06 (primitive_polynomial06 @ [beyond]);
          rs_decoder = decoder_ctor CODE_LENGTH FEC_LENGTH field GEN_POLY_INDEX
      in decode_file CODE_LENGTH FEC_LENGTH (decode CODE_LENGTH FEC_LENGTH rs_decoder) can_create input)"

section \<open>The contract of a systematic block code\<close>

text \<open>
  The coded form of a file: every full block of data is followed by its parity bytes; a
  shorter last block is completed by zeros for the parity only.
\<close>

function coded :: "nat \<Rightarrow> nat \<Rightarrow> (bytes \<Rightarrow> bytes) \<Rightarrow> bytes \<Rightarrow> bytes" where
  "coded n k par xs =
     (if n \<le> k \<or> xs = [] then []
      else if length xs \<ge> n - k
      then take (n - k) xs @ par (take (n - k) xs) @ coded n k par (drop (n - k) xs)
      else xs @ par (xs @ replicate (n - k - length xs) 0))"
  by pat_completeness auto
termination by (relation "measure (\<lambda>(n, k, par, xs). length xs)") auto

declare coded.simps [simp del]

lemma data_copy_chars:
  assumes "length (data b) = n" and "length src = n"
  shows "data (copy_chars src n b) = map symbol_of_char src"
  unfolding copy_chars_def fold_set_sym using assms fold_update_upt [of n "data b" _ 0]
  by (auto intro!: nth_equalityI)

lemma ceiling_div: "0 < m \<Longrightarrow> 0 < l \<Longrightarrow> (l + m - 1) div m = Suc ((l - 1) div m)" for l m :: nat
  using div_add_self2 [of m "l - 1"] by (cases l) simp_all

text \<open>
  Damage: the number of places where two byte sequences differ, and what a file may suffer: no
  more than \<open>t\<close> bytes changed in each block of \<open>n\<close>.
\<close>

definition hamming :: "'a list \<Rightarrow> 'a list \<Rightarrow> nat" where
  "hamming xs ys = length (filter (\<lambda>(x, y). x \<noteq> y) (zip xs ys))"

definition survivable :: "nat \<Rightarrow> nat \<Rightarrow> bytes \<Rightarrow> bytes \<Rightarrow> bool" where
  "survivable n t c r \<longleftrightarrow> length r = length c \<and> (\<forall>i\<le>length c. hamming (window c (i * n) n) (window r (i * n) n) \<le> t)"

lemma hamming_append:
  "length xs = length ys \<Longrightarrow> hamming (xs @ us) (ys @ vs) = hamming xs ys + hamming us vs"
  by (simp add: hamming_def)

lemma hamming_self [simp]: "hamming xs xs = 0"
  by (induction xs) (auto simp: hamming_def)

lemma hamming_card:
  assumes "length xs = length ys"
  shows "hamming xs ys = card {p. p < length xs \<and> xs ! p \<noteq> ys ! p}"
  unfolding hamming_def length_filter_conv_card using assms by (intro arg_cong [where f = card]) auto

lemma survivable_refl [simp]: "survivable n t c c"
  by (simp add: survivable_def)

lemma survivable_block:
  assumes "survivable n t (b @ c) r" and "length b = n" and "0 < n"
  shows "hamming b (take n r) \<le> t \<and> survivable n t c (drop n r)"
proof
  have h: "hamming (window (b @ c) (i * n) n) (window r (i * n) n) \<le> t" if "i \<le> length (b @ c)" for i
    using assms(1) that by (auto simp: survivable_def)
  show "hamming b (take n r) \<le> t" using h [of 0] assms(2) by (simp add: window_def)
  have "hamming (window c (i * n) n) (window (drop n r) (i * n) n) \<le> t" if "i \<le> length c" for i
    using h [of "Suc i"] that assms(2,3) by (simp add: window_def add.commute)
  then show "survivable n t c (drop n r)" using assms(1,2) by (auto simp: survivable_def)
qed

lemma hamming_update: "hamming xs (xs[i := x]) \<le> 1"
proof (cases "i < length xs")
  case True
  have "hamming xs (xs[i := x]) = card {p. p < length xs \<and> xs ! p \<noteq> xs[i := x] ! p}" by (simp add: hamming_card)
  also have "\<dots> \<le> card {i}" by (intro card_mono) (auto intro: ccontr)
  finally show ?thesis by simp
qed (simp add: list_update_beyond)

lemma survivable_update:
  assumes "0 < t" and "length c \<le> n"
  shows "survivable n t c (c[i := x])"
proof -
  have "hamming (window c (j * n) n) (window (c[i := x]) (j * n) n) \<le> t" for j
    using assms hamming_update [of c i x] by (cases j) (simp_all add: window_def hamming_def)
  then show ?thesis by (simp add: survivable_def)
qed

lemma survivable_last: "survivable n t c r \<Longrightarrow> length c \<le> n \<Longrightarrow> hamming c r \<le> t"
  by (auto simp: survivable_def window_def dest: spec [of _ 0])

locale systematic_code =
  fixes n k :: nat and enc :: block_op and par :: "bytes \<Rightarrow> bytes"
  assumes lengths: "0 < k" "k < n"
    and length_par: "length d = n - k \<Longrightarrow> length (par d) = k"
    and enc_law: "length d = n - k \<Longrightarrow> length (data b) = n \<Longrightarrow> take (n - k) (data b) = map uint d \<Longrightarrow>
      \<exists>b'. enc b = Some (True, b') \<and> length (data b') = n \<and>
        map (\<lambda>i. char_of_symbol (fec n k b' i AND 255)) [0..<k] = par d"
begin

lemma enc_process_block_ok:
  assumes st: "length (data (fe_block st)) = n" "length (data_buffer st) = n - k"
    and m: "m \<le> n - k" "m \<le> length (fe_in st)"
  shows "\<exists>st'. enc_process_block n k enc m st = Some st' \<and>
     fe_out st' = fe_out st @ take m (fe_in st) @ par (take m (fe_in st) @ replicate (n - k - m) 0) \<and>
     fe_in st' = drop m (fe_in st) \<and> length (data (fe_block st')) = n \<and> length (data_buffer st') = n - k"
proof -
  define got where "got = take m (fe_in st)"
  define buf where "buf = got @ drop m (data_buffer st)"
  define blk where "blk = fold (\<lambda>i. set_sym i (symbol_of_char (buf ! i) AND 255)) [0..<m] (fe_block st)"
  define blk' where "blk' = (if m < n - k then fold (\<lambda>i. set_sym i 0) [m..<n - k] blk else blk)"
  let ?d = "got @ replicate (n - k - m) 0"
  have lg: "length got = m" using m by (simp add: got_def)
  have d1: "data blk = map (\<lambda>j. if j < m then uint (got ! j) else data (fe_block st) ! j) [0..<n]"
    unfolding blk_def fold_set_sym using st(1) m(1) lengths fold_update_upt [of m "data (fe_block st)"]
    by (auto simp: mask_symbol_of_char buf_def nth_append lg)
  have d2: "data blk' = map (\<lambda>j. if j < m then uint (got ! j) else if j < n - k then 0 else data (fe_block st) ! j) [0..<n]"
    unfolding blk'_def fold_set_sym using m(1) lengths d1 fold_update_upt [of "n - k" "data blk"]
    by (cases "m < n - k") (auto intro!: nth_equalityI)
  have "take (n - k) (data blk') = map uint ?d"
    using m(1) lengths by (intro nth_equalityI) (auto simp: d2 nth_append lg)
  moreover have "length ?d = n - k" "length (data blk') = n" using m(1) lg by (simp_all add: d2)
  ultimately obtain b' where b': "enc blk' = Some (True, b')" "length (data b') = n"
    "map (\<lambda>i. char_of_symbol (fec n k b' i AND 255)) [0..<k] = par ?d" using enc_law by blast
  have "enc_process_block n k enc m st = Some (st\<lparr>data_buffer := buf, fe_in := drop m (fe_in st), fe_block := b',
      fe_out := fe_out st @ take m buf @ par ?d\<rparr>)"
    unfolding enc_process_block_def Let_def got_def [symmetric] lg buf_def [symmetric] blk_def [symmetric]
      blk'_def [symmetric] b'(1) bind.bind_lunit prod.case b'(3) by simp
  moreover have "take m buf = got" "length buf = n - k" using lg st(2) m(1) by (simp_all add: buf_def)
  ultimately show ?thesis using b'(2) by (simp add: got_def)
qed

lemma encode_rest_ok:
  assumes "length (data (fe_block st)) = n" and "length (data_buffer st) = n - k"
  shows "\<exists>r st1 st2. enc_loop n k enc (length (fe_in st)) st = Some (r, st1) \<and>
     (if r > 0 then enc_process_block n k enc r st1 else Some st1) = Some st2 \<and>
     fe_out st2 = fe_out st @ coded n k par (fe_in st)"
  using assms
proof (induction "length (fe_in st)" arbitrary: st rule: less_induct)
  case less
  show ?case
  proof (cases "length (fe_in st) \<ge> n - k")
    case True
    then obtain st' where st': "enc_process_block n k enc (n - k) st = Some st'"
      "fe_out st' = fe_out st @ take (n - k) (fe_in st) @ par (take (n - k) (fe_in st))"
      "fe_in st' = drop (n - k) (fe_in st)" "length (data (fe_block st')) = n" "length (data_buffer st') = n - k"
      using enc_process_block_ok [OF less.prems, of "n - k"] by auto
    have "length (fe_in st') < length (fe_in st)" using True st'(3) lengths by simp
    from less.hyps [OF this st'(4,5)] obtain r st1 st2 where
      "enc_loop n k enc (length (fe_in st')) st' = Some (r, st1)"
      "(if r > 0 then enc_process_block n k enc r st1 else Some st1) = Some st2"
      "fe_out st2 = fe_out st' @ coded n k par (fe_in st')" by blast
    moreover have "enc_loop n k enc (length (fe_in st)) st = enc_loop n k enc (length (fe_in st')) st'"
      using True st'(1,3) lengths by (subst enc_loop.simps) simp
    moreover have "coded n k par (fe_in st) =
        take (n - k) (fe_in st) @ par (take (n - k) (fe_in st)) @ coded n k par (drop (n - k) (fe_in st))"
      using True lengths by (subst coded.simps) auto
    ultimately show ?thesis using st'(2,3) by auto
  next
    case False
    have l: "enc_loop n k enc (length (fe_in st)) st = Some (length (fe_in st), st)"
      using False lengths by (subst enc_loop.simps) simp
    show ?thesis
    proof (cases "fe_in st = []")
      case True
      then show ?thesis using l by (simp add: coded.simps)
    next
      case ne: False
      then have "coded n k par (fe_in st) = fe_in st @ par (fe_in st @ replicate (n - k - length (fe_in st)) 0)"
        using False lengths by (subst coded.simps) auto
      then show ?thesis using l ne False enc_process_block_ok [OF less.prems, of "length (fe_in st)"] by auto
    qed
  qed
qed

lemma file_encoder_ok:
  assumes "xs \<noteq> []"
  shows "file_encoder n k enc mem True (Some xs) = Some (Some (coded n k par xs))"
proof -
  let ?st = "\<lparr>fe_block = block_ctor (alloc n mem), data_buffer = replicate (n - k) 0, fe_in = xs, fe_out = []\<rparr>"
  have "length (data (fe_block ?st)) = n" "length (data_buffer ?st) = n - k"
    by (simp_all add: block_ctor_def alloc_def)
  from encode_rest_ok [OF this] obtain r st1 st2 where
    "enc_loop n k enc (length xs) ?st = Some (r, st1)"
    "(if r > 0 then enc_process_block n k enc r st1 else Some st1) = Some st2"
    "fe_out st2 = coded n k par xs" by auto
  with assms show ?thesis by (simp add: file_encoder_def file_size_def)
qed

lemma coded_nonempty: "xs \<noteq> [] \<Longrightarrow> coded n k par xs \<noteq> []"
  using lengths by (subst coded.simps) auto

text \<open>Coding costs \<open>k\<close> bytes for every started block.\<close>

lemma length_coded: "length (coded n k par xs) = length xs + k * ((length xs + (n - k) - 1) div (n - k))"
proof (induction "length xs" arbitrary: xs rule: less_induct)
  case less
  let ?m = "n - k"
  have m: "0 < ?m" using lengths by simp
  consider "xs = []" | "xs \<noteq> []" "length xs < ?m" | "length xs \<ge> ?m" by linarith
  then show ?case
  proof cases
    case 1
    then show ?thesis using m by (simp add: coded.simps)
  next
    case 2
    then have "(length xs - 1) div ?m = 0" by (intro div_less) linarith
    then have "(length xs + ?m - 1) div ?m = 1" using 2 m ceiling_div [of ?m "length xs"] by simp
    moreover have "length (coded n k par xs) = length xs + k"
      using 2 m length_par [of "xs @ replicate (?m - length xs) 0"] by (subst coded.simps) auto
    ultimately show ?thesis by (simp only: mult_1_right)
  next
    case 3
    have "length (drop ?m xs) < length xs" using 3 m by simp
    from less [OF this] have "length (coded n k par (drop ?m xs)) =
      (length xs - ?m) + k * ((length xs - 1) div ?m)" using 3 m by simp
    moreover have "(length xs + ?m - 1) div ?m = Suc ((length xs - 1) div ?m)"
      using 3 m by (intro ceiling_div) auto
    moreover have "coded n k par xs = take ?m xs @ par (take ?m xs) @ coded n k par (drop ?m xs)"
      using 3 m by (subst coded.simps) auto
    ultimately show ?thesis using 3 length_par [of "take ?m xs"] by simp
  qed
qed

end

text \<open>
  A decoder for such a code: it restores the data of a block with at most \<open>t\<close> damaged bytes.
\<close>

locale correcting_code = systematic_code n k enc par
  for n k :: nat and enc :: block_op and par :: "bytes \<Rightarrow> bytes" +
  fixes dec :: block_op and t :: nat
  assumes dec_law: "length d = n - k \<Longrightarrow> length c = n \<Longrightarrow> hamming (d @ par d) c \<le> t \<Longrightarrow> data b = map symbol_of_char c \<Longrightarrow>
      \<exists>b'. dec b = Some (True, b') \<and> length (data b') = n \<and> map char_of_symbol (take (n - k) (data b')) = d"
begin

lemma process_complete_block_ok:
  assumes st: "length (data (fd_block st)) = n" "length (fd_buffer st) = n" "n \<le> length (fd_in st)"
    and i: "hamming (d @ par d) (take n (fd_in st)) \<le> t" and d: "length d = n - k"
  shows "\<exists>st'. process_complete_block n k dec st = Some (SUCCESS, st') \<and>
     fd_out st' = fd_out st @ d \<and> fd_in st' = drop n (fd_in st) \<and> length (data (fd_block st')) = n \<and> length (fd_buffer st') = n"
proof -
  define c where "c = take n (fd_in st)"
  have lc: "length c = n" using st(3) by (simp add: c_def)
  from dec_law [OF d lc _ data_copy_chars [OF st(1) lc]] i obtain b' where
    b': "dec (copy_chars c n (fd_block st)) = Some (True, b')" "length (data b') = n"
      "map char_of_symbol (take (n - k) (data b')) = d" by (auto simp: c_def)
  have m: "map (\<lambda>i. char_of_symbol (data b' ! i)) [0..<n - k] = d"
    using d b'(2) by (subst b'(3) [symmetric], intro nth_equalityI) auto
  have bf: "take n (fd_in st) @ drop (length (take n (fd_in st))) (fd_buffer st) = c"
    using st(2) lc by (simp add: c_def)
  show ?thesis unfolding process_complete_block_def Let_def bf b'(1) bind.bind_lunit prod.case m
    using d b'(2) lc lengths by simp
qed

lemma process_partial_block_ok:
  assumes st: "length (data (fd_block st)) = n" "length (fd_buffer st) = n"
    and d: "0 < length d" "length d < n - k" and l: "length (fd_in st) = length d + k"
    and i: "hamming (d @ par (d @ replicate (n - k - length d) 0)) (fd_in st) \<le> t"
  shows "\<exists>st'. process_partial_block n k dec (length d + k) st = Some (SUCCESS, st') \<and> fd_out st' = fd_out st @ d"
proof -
  let ?p = "d @ replicate (n - k - length d) 0" and ?m = "length d"
  define u v where "u = take ?m (fd_in st)" and "v = drop ?m (fd_in st)"
  let ?q = "u @ replicate (n - k - ?m) 0"
  have uv: "fd_in st = u @ v" "length u = ?m" "length v = k" using l by (simp_all add: u_def v_def)
  have lp: "length (par ?p) = k" "length ?p = n - k" using length_par [of ?p] d by simp_all
  define buf where "buf = (u @ v) @ drop (?m + k) (fd_buffer st)"
  define b1 where "b1 = fold (\<lambda>i. set_sym i (symbol_of_char (buf ! i))) [0..<?m] (fd_block st)"
  define b2 where "b2 = fold (\<lambda>i. set_sym i 0) [?m..<n - k] b1"
  define b3 where "b3 = fold (\<lambda>i. set_fec n k i (symbol_of_char (buf ! (?m + i)))) [0..<k] b2"
  have bf: "take (?m + k) (fd_in st) @ drop (length (take (?m + k) (fd_in st))) (fd_buffer st) = buf"
    using uv by (simp add: buf_def)
  have d1: "data b1 = map (\<lambda>j. if j < ?m then symbol_of_char (u ! j) else data (fd_block st) ! j) [0..<n]"
    unfolding b1_def fold_set_sym using st(1) d fold_update_upt [of ?m "data (fd_block st)" _ 0]
    by (auto simp: buf_def nth_append uv)
  have d2: "take (n - k) (data b2) = map symbol_of_char ?q" "length (data b2) = n"
    unfolding b2_def fold_set_sym using d1 d uv(2) fold_update_upt [of "n - k" "data b1" _ ?m]
    by (auto intro!: nth_equalityI simp: nth_append symbol_of_char_def)
  have "data b3 = take (n - k) (data b2) @ map (\<lambda>i. symbol_of_char (buf ! (?m + i))) [0..<k]"
    unfolding b3_def set_fec_eq fold_set_sym using d2(2) lengths fold_update_offset [of "n - k" k "data b2"] by simp
  also have "map (\<lambda>i. symbol_of_char (buf ! (?m + i))) [0..<k] = map symbol_of_char v"
    using uv by (intro nth_equalityI) (auto simp: buf_def nth_append)
  finally have b3: "data b3 = map symbol_of_char (?q @ v)" using d2(1) by simp
  have "hamming (?p @ par ?p) (?q @ v) = hamming (d @ par ?p) (u @ v)" using uv by (simp add: hamming_append)
  then obtain b' where b': "dec b3 = Some (True, b')" "length (data b') = n"
    "map char_of_symbol (take (n - k) (data b')) = ?p"
    using dec_law [OF lp(2) _ _ b3] i uv d lengths by auto
  have "char_of_symbol (data b' ! i) = ?p ! i" if "i < n - k" for i
    using that b'(2) by (subst b'(3) [symmetric]) simp
  then have m: "map (\<lambda>i. char_of_symbol (data b' ! i)) [0..<?m] = d"
    using d by (intro nth_equalityI) (auto simp: nth_append)
  have "process_partial_block n k dec (?m + k) st = Some (SUCCESS, st\<lparr>fd_block := b', fd_buffer := d @ drop ?m buf,
      fd_in := drop (?m + k) (fd_in st), fd_out := fd_out st @ take ?m (d @ drop ?m buf)\<rparr>)"
    using d unfolding process_partial_block_def Let_def bf add_diff_cancel_right' b1_def [symmetric] b2_def [symmetric]
    by (simp only: if_True b3_def [symmetric] b'(1) bind.bind_lunit prod.case m) simp
  then show ?thesis by simp
qed

lemma decode_rest_ok:
  assumes "length (data (fd_block st)) = n" and "length (fd_buffer st) = n"
    and "survivable n t (coded n k par xs) (fd_in st)"
  shows "\<exists>r st1 st2. dec_loop n k dec (length (fd_in st)) st = Some (SUCCESS, r, st1) \<and>
     (if r > 0 then process_partial_block n k dec r st1 else Some (SUCCESS, st1)) = Some (SUCCESS, st2) \<and>
     fd_out st2 = fd_out st @ xs"
  using assms
proof (induction "length xs" arbitrary: st xs rule: less_induct)
  case less
  let ?d = "take (n - k) xs"
  have len: "length (fd_in st) = length (coded n k par xs)" using less.prems(3) by (simp add: survivable_def)
  show ?case
  proof (cases "length xs \<ge> n - k")
    case True
    have ld: "length ?d = n - k" using True by simp
    have c: "coded n k par xs = (?d @ par ?d) @ coded n k par (drop (n - k) xs)"
      using True lengths by (subst coded.simps) auto
    have lb: "length (?d @ par ?d) = n" using length_par [OF ld] ld lengths by simp
    have s: "hamming (?d @ par ?d) (take n (fd_in st)) \<le> t" "survivable n t (coded n k par (drop (n - k) xs)) (drop n (fd_in st))"
      using survivable_block [OF less.prems(3) [unfolded c] lb] lengths by auto
    have nl: "n \<le> length (fd_in st)" using len lb by (simp add: c)
    obtain st' where st': "process_complete_block n k dec st = Some (SUCCESS, st')" "fd_out st' = fd_out st @ ?d"
      "fd_in st' = drop n (fd_in st)" "length (data (fd_block st')) = n" "length (fd_buffer st') = n"
      using process_complete_block_ok [OF less.prems(1,2) nl s(1) ld] by blast
    let ?s = "st'\<lparr>current_block_index := current_block_index st' + 1\<rparr>"
    have "length (drop (n - k) xs) < length xs" using True lengths by simp
    from less.hyps [OF this, of ?s] st' s(2) obtain r st1 st2 where
      "dec_loop n k dec (length (fd_in st')) ?s = Some (SUCCESS, r, st1)"
      "(if r > 0 then process_partial_block n k dec r st1 else Some (SUCCESS, st1)) = Some (SUCCESS, st2)"
      "fd_out st2 = fd_out st' @ drop (n - k) xs" by auto
    moreover have "dec_loop n k dec (length (fd_in st)) st = dec_loop n k dec (length (fd_in st')) ?s"
      using st'(1,3) lengths nl by (subst dec_loop.simps) simp
    ultimately show ?thesis using st'(2) by auto
  next
    case False
    show ?thesis
    proof (cases "xs = []")
      case True
      then show ?thesis using len lengths by (simp add: coded.simps dec_loop.simps)
    next
      case ne: False
      then have c: "coded n k par xs = xs @ par (xs @ replicate (n - k - length xs) 0)"
        using False lengths by (subst coded.simps) auto
      have l: "length (fd_in st) = length xs + k"
        using False length_par [of "xs @ replicate (n - k - length xs) 0"] len by (simp add: c)
      have h: "hamming (xs @ par (xs @ replicate (n - k - length xs) 0)) (fd_in st) \<le> t"
        using survivable_last [OF less.prems(3)] len l False by (simp add: c)
      have "dec_loop n k dec (length (fd_in st)) st = Some (SUCCESS, length xs + k, st)"
        using False lengths l by (subst dec_loop.simps) auto
      then show ?thesis using ne False lengths process_partial_block_ok [OF less.prems(1,2) _ _ l h] by auto
    qed
  qed
qed

lemma decode_file_ok:
  assumes "xs \<noteq> []" and s: "survivable n t (coded n k par xs) r"
  shows "decode_file n k dec True (Some r) = Some (SUCCESS, Some xs)"
proof -
  let ?st = "\<lparr>fd_block = block_ctor (replicate n 0), fd_buffer = replicate n 0, total_detected = 0,
              total_corrected = 0, current_block_index = 0, fd_in = r, fd_out = []\<rparr>"
  have "length (data (fd_block ?st)) = n" "length (fd_buffer ?st) = n" by (simp_all add: block_ctor_def)
  from decode_rest_ok [OF this, of xs] s obtain m st1 st2 where
    "dec_loop n k dec (length r) ?st = Some (SUCCESS, m, st1)"
    "(if m > 0 then process_partial_block n k dec m st1 else Some (SUCCESS, st1)) = Some (SUCCESS, st2)"
    "fd_out st2 = xs" by auto
  moreover have "length r > 0" using s coded_nonempty [OF assms(1)] by (auto simp: survivable_def)
  ultimately show ?thesis by (simp add: decode_file_def file_size_def)
qed

end

section \<open>The Reed-Solomon codes satisfy the contract\<close>

definition rs_encoder :: "nat \<Rightarrow> nat \<Rightarrow> (nat \<Rightarrow> int) \<Rightarrow> (nat \<Rightarrow> int) \<Rightarrow> uint32 \<Rightarrow> encoder" where
  "rs_encoder k a al ix beyond =
     (let f = rs_field al ix beyond
      in encoder_ctor 255 f (the (make_sequential_root_generator_polynomial f a k)))"

definition rs_decoder :: "nat \<Rightarrow> nat \<Rightarrow> (nat \<Rightarrow> int) \<Rightarrow> (nat \<Rightarrow> int) \<Rightarrow> uint32 \<Rightarrow> decoder" where
  "rs_decoder k a al ix beyond = decoder_ctor 255 k (rs_field al ix beyond) a"

definition rs_parity :: "nat \<Rightarrow> nat \<Rightarrow> (nat \<Rightarrow> int) \<Rightarrow> (nat \<Rightarrow> int) \<Rightarrow> uint32 \<Rightarrow> bytes \<Rightarrow> bytes" where
  "rs_parity k a al ix beyond d = map char_of_symbol (parities k (rs_encoder k a al ix beyond) (block_ctor (map uint d)))"

text \<open>The parameters of a code.\<close>

definition rs_code :: "nat \<Rightarrow> nat \<Rightarrow> bool" where
  "rs_code k a \<longleftrightarrow> 0 < k \<and> k < 255 \<and> a + k \<le> 255"

lemma rs_generator_exists: "rs_code k a \<Longrightarrow> \<exists>g. make_sequential_root_generator_polynomial (rs_field al ix beyond) a k = Some g"
  using make_generator_ok [OF rs_field_ok [of al ix beyond], of a k] by (auto simp: rs_code_def)

lemma rs_encoder_ok: "rs_code k a \<Longrightarrow> enc_ok k a (rs_encoder k a al ix beyond)"
  using rs_generator_exists [of k a al ix beyond] encoder_ctor_ok [OF rs_field_ok]
  by (auto simp: rs_encoder_def Let_def rs_code_def)

lemma rs_decoder_full: "rs_code k a \<Longrightarrow> dec_full k a (rs_decoder k a al ix beyond)"
  unfolding rs_decoder_def by (rule decoder_ctor_full [OF rs_field_ok]) (simp_all add: rs_code_def)

lemma rs_decoder_ok: "rs_code k a \<Longrightarrow> dec_ok k a (rs_decoder k a al ix beyond)"
  using rs_decoder_full by (simp add: dec_full_def)

lemma uint_char_of_symbol: "symbol v \<Longrightarrow> uint (char_of_symbol v) = v"
  by (simp add: char_of_symbol_def uint_word_of_int_eq take_bit_eq_mod)

lemma char_of_symbol_mask: "char_of_symbol v = char_of_symbol (v AND 255)"
  by (simp add: char_of_symbol_def symbol_and_255 word_of_int_eq_iff take_bit_eq_mod)

lemma rs_parity_block:
  assumes k: "rs_code k a" and d: "length d = 255 - k" and b: "length (data b) = 255" "take (255 - k) (data b) = map uint d"
  shows "\<exists>ps. encode 255 k (rs_encoder k a al ix beyond) b = Some (True, b\<lparr>data := map uint d @ ps\<rparr>) \<and>
     length ps = k \<and> symbols ps \<and> map char_of_symbol ps = rs_parity k a al ix beyond d \<and>
     codeword 255 k (rs_decoder k a al' ix' beyond') a (b\<lparr>data := map uint d @ ps\<rparr>)"
proof -
  have "parities k (rs_encoder k a al ix beyond) (block_ctor (map uint d)) = parities k (rs_encoder k a al ix beyond) b"
    using d b by (intro parities_cong) (simp add: block_ctor_def)
  then show ?thesis using encode_ok [OF rs_encoder_ok [OF k] rs_decoder_ok [OF k] b(1), of al ix beyond al' ix' beyond'] b
    by (auto simp: rs_parity_def)
qed

text \<open>The damaged symbols of a block are its damaged bytes.\<close>

lemma damaged_bytes:
  assumes "length d + length ps = 255" "symbols ps" and "length c = 255"
    and "data b = map symbol_of_char c" and "data z = map uint d @ ps"
  shows "card (damaged_positions b z) = hamming (d @ map char_of_symbol ps) c"
proof -
  let ?w = "d @ map char_of_symbol ps"
  have "data z = map uint ?w"
    using assms(5) symbols_nth [OF assms(2)] by (auto simp: uint_char_of_symbol intro!: nth_equalityI)
  then have "data z ! p AND 255 = uint (?w ! p)" if "p < 255" for p
    using that assms(1) by (simp only: nth_map length_append length_map mask_uint)
  moreover have "uint (x :: byte) = uint y \<longleftrightarrow> x = y" for x y by (auto intro: word_uint_eqI)
  ultimately have "damaged_positions b z = {p. p < length ?w \<and> ?w ! p \<noteq> c ! p}"
    using assms(1,3,4) by (auto simp: damaged_positions_def mask_symbol_of_char)
  then show ?thesis using hamming_card [of ?w c] assms(1,3) by simp
qed

lemma rs_decode_law:
  assumes k: "rs_code k a" and d: "length d = 255 - k" and c: "length c = 255" "hamming (d @ rs_parity k a al ix beyond d) c \<le> k div 2"
    and b: "data b = map symbol_of_char c"
  shows "\<exists>b'. decode 255 k (rs_decoder k a al' ix' beyond') b = Some (True, b') \<and> length (data b') = 255 \<and>
     map char_of_symbol (take (255 - k) (data b')) = d"
proof -
  let ?z = "block_ctor (map uint d @ replicate k 0)"
  have k': "255 - k + k = 255" using k by (simp add: rs_code_def)
  obtain ps where ps: "length ps = k" "symbols ps" "map char_of_symbol ps = rs_parity k a al ix beyond d"
    "codeword 255 k (rs_decoder k a al' ix' beyond') a (?z\<lparr>data := map uint d @ ps\<rparr>)"
    using rs_parity_block [OF k d, of ?z al ix beyond al' ix' beyond'] d k' by (auto simp: block_ctor_def)
  let ?c = "?z\<lparr>data := map uint d @ ps\<rparr>"
  have "2 * card (damaged_positions b ?c) \<le> k"
    using damaged_bytes [OF _ ps(2) c(1) b, of d ?c] c(2) ps(1,3) d k' by simp
  then obtain b' where b': "decode 255 k (rs_decoder k a al' ix' beyond') b = Some (True, b')" "length (data b') = 255"
    "\<And>p. p < 255 \<Longrightarrow> data b' ! p AND 255 = data ?c ! p AND 255"
    using decode_corrects [OF rs_decoder_full [OF k] ps(4), of b] d ps(1) b c(1) k' by auto
  have "char_of_symbol (data b' ! p) = d ! p" if "p < 255 - k" for p
  proof -
    have "char_of_symbol (data b' ! p) = char_of_symbol (data b' ! p AND 255)" by (rule char_of_symbol_mask)
    also have "\<dots> = d ! p" using b'(3) [of p] that d by (simp add: nth_append mask_uint)
    finally show ?thesis .
  qed
  then show ?thesis using b'(1,2) d by (auto intro!: exI [of _ b'] nth_equalityI)
qed

lemma rs_correcting:
  assumes k: "rs_code k a"
  shows "correcting_code 255 k (encode 255 k (rs_encoder k a al ix beyond)) (rs_parity k a al ix beyond)
    (decode 255 k (rs_decoder k a al' ix' beyond')) (k div 2)"
proof
  show "0 < k" "k < 255" using k by (simp_all add: rs_code_def)
  then have k': "255 - k + k = 255" by simp
  fix d :: bytes assume d: "length d = 255 - k"
  let ?z = "block_ctor (map uint d @ replicate k 0)"
  show "length (rs_parity k a al ix beyond d) = k"
    using rs_parity_block [OF k d, of ?z al ix beyond al' ix' beyond'] d k' by (auto simp: block_ctor_def dest: arg_cong [where f = length])
  fix b :: rsblock
  show "length c = 255 \<Longrightarrow> hamming (d @ rs_parity k a al ix beyond d) c \<le> k div 2 \<Longrightarrow> data b = map symbol_of_char c \<Longrightarrow>
      \<exists>b'. decode 255 k (rs_decoder k a al' ix' beyond') b = Some (True, b') \<and> length (data b') = 255 \<and>
        map char_of_symbol (take (255 - k) (data b')) = d" for c
    by (rule rs_decode_law [OF k d])
  assume "length (data b) = 255" "take (255 - k) (data b) = map uint d"
  then obtain qs where qs: "encode 255 k (rs_encoder k a al ix beyond) b = Some (True, b\<lparr>data := map uint d @ qs\<rparr>)"
    "length qs = k" "symbols qs" "map char_of_symbol qs = rs_parity k a al ix beyond d"
    using rs_parity_block [OF k d, of b al ix beyond al ix beyond] by auto
  have "map (\<lambda>i. char_of_symbol (fec 255 k (b\<lparr>data := map uint d @ qs\<rparr>) i AND 255)) [0..<k] = map char_of_symbol qs"
    using d qs(2) mask_symbol symbols_nth [OF qs(3)] by (intro nth_equalityI) (auto simp: fec_def nth_append)
  then show "\<exists>b'. encode 255 k (rs_encoder k a al ix beyond) b = Some (True, b') \<and> length (data b') = 255 \<and>
      map (\<lambda>i. char_of_symbol (fec 255 k b' i AND 255)) [0..<k] = rs_parity k a al ix beyond d"
    using qs(1,2,4) d k' by auto
qed

text \<open>The code of the program.\<close>

lemma program_code: "rs_code 32 120"
  by (simp add: rs_code_def)

interpretation rs: correcting_code 255 32 "encode 255 32 (rs_encoder 32 120 al ix beyond)" "rs_parity 32 120 al ix beyond"
    "decode 255 32 (rs_decoder 32 120 al' ix' beyond')" 16
  for al ix beyond al' ix' beyond'
  using rs_correcting [OF program_code] by simp

lemmas rs_constants = FIELD_DESCRIPTOR_def GEN_POLY_INDEX_def ROOT_COUNT_def CODE_LENGTH_def FEC_LENGTH_def

lemma addReedSolomon_eq:
  "addReedSolomon al ix beyond mem can_create input = do {
     out \<leftarrow> file_encoder 255 32 (encode 255 32 (rs_encoder 32 120 al ix beyond)) mem can_create input;
     Some (0, out)
   }"
  using rs_generator_exists [OF program_code, of al ix beyond]
  by (auto simp: addReedSolomon_def rs_constants rs_encoder_def rs_field_def [symmetric] Let_def)

lemma ecc_decode_eq:
  "ecc_decode al ix beyond can_create input = decode_file 255 32 (decode 255 32 (rs_decoder 32 120 al ix beyond)) can_create input"
  by (simp add: ecc_decode_def rs_constants rs_decoder_def rs_field_def [symmetric] Let_def)

lemma addReedSolomon_aux:
  "xs \<noteq> [] \<Longrightarrow> addReedSolomon al ix beyond mem True (Some xs) = Some (0, Some (coded 255 32 (rs_parity 32 120 al ix beyond) xs))"
  by (simp add: addReedSolomon_eq rs.file_encoder_ok)

lemma ecc_decode_aux:
  "xs \<noteq> [] \<Longrightarrow> survivable 255 16 (coded 255 32 (rs_parity 32 120 al ix beyond) xs) r \<Longrightarrow>
   ecc_decode al' ix' beyond' True (Some r) = Some (SUCCESS, Some xs)"
  unfolding ecc_decode_eq by (rule rs.decode_file_ok)

text \<open>The recovery of any file ends, whatever the decoder answers for its blocks.\<close>

lemma dec_loop_defined:
  assumes "0 < n" and "\<And>b. dec b \<noteq> None"
  shows "dec_loop n k dec m st \<noteq> None"
proof (induction m arbitrary: st rule: less_induct)
  case (less m)
  have "process_complete_block n k dec st \<noteq> None"
    by (auto simp: process_complete_block_def Let_def assms(2) simp del: not_None_eq split: bind_splits)
  then show ?case using less assms(1) by (subst dec_loop.simps) (fastforce split: bind_splits)
qed

lemma decode_file_defined:
  assumes "0 < n" and "\<And>b. dec b \<noteq> None"
  shows "decode_file n k dec can_create input \<noteq> None"
proof -
  have "process_partial_block n k dec m st \<noteq> None" for m st
    by (auto simp: process_partial_block_def Let_def assms(2) simp del: not_None_eq split: bind_splits)
  then show ?thesis
    by (auto simp: decode_file_def Let_def dec_loop_defined [OF assms] simp del: not_None_eq split: bind_splits option.splits)
qed

section \<open>Properties\<close>

text \<open>
  C2: the error correction layer is a round trip that survives damage. Whatever the memory the master
  and the mounter allocate contains, and whatever word lies behind the primitive polynomial in
  either process, \<^verbatim>\<open>addReedSolomon\<close> succeeds on every nonempty image if its output can be created, makes it longer by 32 bytes for
  every started block of 223 bytes, and \<^verbatim>\<open>decode\<close> writes exactly the image again, from the
  result itself and from every file that differs from it in at most 16 bytes of each block of
  255.
\<close>

theorem ecc_round_trip:
  assumes "xs \<noteq> []"
  shows "\<exists>c. addReedSolomon al ix beyond mem True (Some xs) = Some (0, Some c) \<and>
     length c = length xs + 32 * ((length xs + 222) div 223) \<and>
     ecc_decode al' ix' beyond' True (Some c) = Some (SUCCESS, Some xs) \<and>
     (\<forall>r. survivable 255 16 c r \<longrightarrow> ecc_decode al' ix' beyond' True (Some r) = Some (SUCCESS, Some xs))"
  using addReedSolomon_aux [OF assms, of al ix beyond mem] ecc_decode_aux [OF assms, of al ix beyond _ al' ix' beyond']
    rs.length_coded [of al ix beyond xs] by auto

theorem ecc_round_trip_witness:
  "\<exists>c. addReedSolomon (\<lambda>_. 7) (\<lambda>_. -1) 0 (\<lambda>_. 300) True (Some [1, 2, 255]) = Some (0, Some c) \<and> length c = 35 \<and>
     ecc_decode (\<lambda>_. 0) (\<lambda>_. 9) 4 True (Some c) = Some (SUCCESS, Some [1, 2, 255]) \<and>
     ecc_decode (\<lambda>_. 0) (\<lambda>_. 9) 4 True (Some (c[1 := 77])) = Some (SUCCESS, Some [1, 2, 255])"
proof -
  obtain c where c: "addReedSolomon (\<lambda>_. 7) (\<lambda>_. -1) 0 (\<lambda>_. 300) True (Some [1, 2, 255]) = Some (0, Some c)" "length c = 35"
    "ecc_decode (\<lambda>_. 0) (\<lambda>_. 9) 4 True (Some c) = Some (SUCCESS, Some [1, 2, 255])"
    "\<And>r. survivable 255 16 c r \<Longrightarrow> ecc_decode (\<lambda>_. 0) (\<lambda>_. 9) 4 True (Some r) = Some (SUCCESS, Some [1, 2, 255])"
    using ecc_round_trip [of "[1, 2, 255]" "\<lambda>_. 7" "\<lambda>_. -1" 0 "\<lambda>_. 300" "\<lambda>_. 0" "\<lambda>_. 9" 4] by auto
  have "survivable 255 16 c (c[1 := 77])" using c(2) by (intro survivable_update) simp_all
  then show ?thesis using c by blast
qed

text \<open>
  An image that cannot be opened. Its size is taken as 0 and never told apart from an
  empty image: \<^verbatim>\<open>addReedSolomon\<close> reports success without writing anything, as it does when the
  output cannot be created, and \<^verbatim>\<open>decode_file\<close> reports
  \<^verbatim>\<open>ZERO_SIZE\<close>, so that its status \<^verbatim>\<open>ERR_OPEN\<close> is never returned.
\<close>

lemma ecc_open_error_masked:
  "addReedSolomon al ix beyond mem c None = Some (0, None) \<and>
   addReedSolomon al ix beyond mem c (Some []) = Some (0, None) \<and>
   addReedSolomon al ix beyond mem False inp = Some (0, None) \<and>
   ecc_decode al ix beyond c None = Some (ZERO_SIZE, None) \<and>
   (\<nexists>inp out. ecc_decode al ix beyond c inp = Some (ERR_OPEN, out))"
proof -
  have "ecc_decode al ix beyond c (Some xs) \<noteq> Some (ERR_OPEN, out)" for xs out
    unfolding ecc_decode_eq decode_file_def
    by (auto simp: file_size_def Let_def process_partial_block_def split: bind_splits if_splits prod.splits)
  moreover have "ecc_decode al ix beyond c None = Some (ZERO_SIZE, None)"
    by (simp add: ecc_decode_eq decode_file_def file_size_def)
  ultimately have "ecc_decode al ix beyond c inp \<noteq> Some (ERR_OPEN, out)" for inp out
    by (cases inp) simp_all
  then show ?thesis
    by (simp add: addReedSolomon_eq file_encoder_def file_size_def ecc_decode_eq decode_file_def)
qed

text \<open>
  C20: the recovery of a file always ends with a status. Whatever the file contains, however many
  errors its blocks have, no assertion of the library fails and the loops end.
\<close>

theorem ecc_decode_terminates:
  "\<exists>rc out. ecc_decode al ix beyond can_create input = Some (rc, out)"
  using decode_file_defined [of 255 "decode 255 32 (rs_decoder 32 120 al ix beyond)" 32 can_create input]
    decode_defined [OF rs_decoder_ok [OF program_code]] by (auto simp: ecc_decode_eq)

end
