(* ===== verification/CxxOpts.thy ===== *)
theory CxxOpts
  imports Prelude "HOL-Library.Monad_Syntax"
begin

text \<open>
  The command line parser \<^verbatim>\<open>cxxopts.hpp\<close> the master uses: option specifications, the parse loop
  over \<^verbatim>\<open>argv\<close>, the value parsers and the help text. Exceptions are the left side of a sum. The
  option objects, which the short and the long name of an option share, are in a list and
  the names are mapped to their positions. Regular expressions are the functions that decide a
  full match and give the groups; \<^verbatim>\<open>[[:alnum:]]\<close> is meant in the C locale.
\<close>

section \<open>Exceptions\<close>

text \<open>
  The exceptions, and \<open>signed_overflow\<close>, which is none: it marks a run that has met undefined behaviour, for
  which no result is claimed. Only the integer parser gives it, for signed types of 32 and 64 bits.
\<close>

datatype option_exception =
    option_exists_error bytes
  | invalid_option_format_error bytes
  | option_not_exists_exception bytes
  | missing_argument_exception bytes
  | option_requires_argument_exception bytes
  | option_not_has_argument_exception bytes bytes
  | option_not_present_exception bytes
  | argument_incorrect_type bytes
  | option_required_exception bytes
  | bad_cast
  | out_of_range
  | signed_overflow

text \<open>The quotation marks are \<^verbatim>\<open>U+2018\<close> and \<^verbatim>\<open>U+2019\<close> in UTF-8.\<close>

definition LQUOTE :: bytes where "LQUOTE = [226, 128, 152]"
definition RQUOTE :: bytes where "RQUOTE = [226, 128, 153]"

definition quoted :: "bytes \<Rightarrow> bytes" where
  "quoted s = LQUOTE @ s @ RQUOTE"

fun what :: "option_exception \<Rightarrow> bytes" where
  "what (option_exists_error s) = chars ''Option '' @ quoted s @ chars '' already exists''"
| "what (invalid_option_format_error s) = chars ''Invalid option format '' @ quoted s"
| "what (option_not_exists_exception s) = chars ''Option '' @ quoted s @ chars '' does not exist''"
| "what (missing_argument_exception s) = chars ''Option '' @ quoted s @ chars '' is missing an argument''"
| "what (option_requires_argument_exception s) = chars ''Option '' @ quoted s @ chars '' requires an argument''"
| "what (option_not_has_argument_exception s a) =
     chars ''Option '' @ quoted s @ chars '' does not take an argument, but argument'' @ quoted a @ chars '' given''"
| "what (option_not_present_exception s) = chars ''Option '' @ quoted s @ chars '' not present''"
| "what (argument_incorrect_type s) = chars ''Argument '' @ quoted s @ chars '' failed to parse''"
| "what (option_required_exception s) = chars ''Option '' @ quoted s @ chars '' is required but not present''"
| "what bad_cast = chars ''std::bad_cast''"
| "what out_of_range = chars ''map::at''"
| "what signed_overflow = []"

text \<open>An exception ends the computation.\<close>

definition ebind :: "'e + 'a \<Rightarrow> ('a \<Rightarrow> 'e + 'b) \<Rightarrow> 'e + 'b" where
  "ebind m f = (case m of Inl e \<Rightarrow> Inl e | Inr x \<Rightarrow> f x)"

lemma ebind_simps [simp]: "ebind (Inl e) f = Inl e" "ebind (Inr x) f = f x"
  by (simp_all add: ebind_def)

lemma ebind_cong [fundef_cong]:
  "m = m' \<Longrightarrow> (\<And>x. m' = Inr x \<Longrightarrow> f x = g x) \<Longrightarrow> ebind m f = ebind m' g"
  by (cases m') (auto simp: ebind_def)

lemma ebind_eq_Inr: "ebind m f = Inr y \<longleftrightarrow> (\<exists>x. m = Inr x \<and> f x = Inr y)"
  by (cases m) (simp_all add: ebind_def)

section \<open>Character classes\<close>

abbreviation dash :: byte where "dash \<equiv> 45"

definition digit_char :: "byte \<Rightarrow> bool" where "digit_char c \<longleftrightarrow> 48 \<le> c \<and> c \<le> 57"

definition alnum :: "byte \<Rightarrow> bool" where
  "alnum c \<longleftrightarrow> digit_char c \<or> 65 \<le> c \<and> c \<le> 90 \<or> 97 \<le> c \<and> c \<le> 122"

definition name_char :: "byte \<Rightarrow> bool" where
  "name_char c \<longleftrightarrow> c = dash \<or> c = 95 \<or> alnum c"

section \<open>Value parsers\<close>

text \<open>
  The groups of \<^verbatim>\<open>(-)?(0x)?([1-9a-zA-Z][0-9a-zA-Z]*)|(0)\<close>: whether there is a sign, whether there
  is a prefix, and the digits; for the second alternative the digits are empty.
\<close>

definition integer_pattern :: "bytes \<Rightarrow> (bool \<times> bool \<times> bytes) option" where
  "integer_pattern text =
     (if text = [48] then Some (False, False, [])
      else
        let negative = (take 1 text = [dash]);
            rest = (if negative then drop 1 text else text);
            hex = (take 2 rest = [48, 120]);
            ds = (if hex then drop 2 rest else rest)
        in if ds \<noteq> [] \<and> alnum (hd ds) \<and> hd ds \<noteq> 48 \<and> list_all alnum ds then Some (negative, hex, ds) else None)"

text \<open>A letter beyond \<^verbatim>\<open>f\<close> counts as the digit 0.\<close>

definition digit_value :: "byte \<Rightarrow> nat" where
  "digit_value c =
     (if 48 \<le> c \<and> c \<le> 57 then unat c - 48
      else if 97 \<le> c \<and> c \<le> 102 then unat c - 97 + 10
      else if 65 \<le> c \<and> c \<le> 70 then unat c - 65 + 10
      else 0)"

text \<open>
  The accumulation for an unsigned type of \<open>w\<close> bits. Types of less than 32 bits are computed in
  \<^verbatim>\<open>int\<close>; from 32 bits on \<^verbatim>\<open>result * base\<close> wraps around before the comparison.
\<close>

definition times_base :: "nat \<Rightarrow> nat \<Rightarrow> nat \<Rightarrow> nat" where
  "times_base w r base = (if w < 32 then r * base else r * base mod 2 ^ w)"

fun parse_digits :: "nat \<Rightarrow> nat \<Rightarrow> nat \<Rightarrow> bytes \<Rightarrow> nat option" where
  "parse_digits w base r [] = Some r"
| "parse_digits w base r (c # cs) =
     (let d = digit_value c in
      if 2 ^ w - 1 - d < times_base w r base then None
      else parse_digits w base ((r * base + d) mod 2 ^ w) cs)"

text \<open>
  The limit for a negative number is \<^verbatim>\<open>-std::numeric_limits<T>::min()\<close>. For types of less than 32 bits the
  minimum is promoted to \<^verbatim>\<open>int\<close> and its negation is \<open>2 ^ (w - 1)\<close>; for \<^verbatim>\<open>int\<close> and wider types the negation
  overflows.
\<close>

definition check_signed_range :: "nat \<Rightarrow> bool \<Rightarrow> bool \<Rightarrow> nat \<Rightarrow> bytes \<Rightarrow> option_exception + unit" where
  "check_signed_range w sg negative u text =
     (if \<not> sg then Inr ()
      else if negative then
        if 32 \<le> w then Inl signed_overflow
        else if u > 2 ^ (w - 1) then Inl (argument_incorrect_type text) else Inr ()
      else if u > 2 ^ (w - 1) - 1 then Inl (argument_incorrect_type text) else Inr ())"

definition integer_parser :: "nat \<Rightarrow> bool \<Rightarrow> bytes \<Rightarrow> option_exception + int" where
  "integer_parser w sg text =
     (case integer_pattern text of
        None \<Rightarrow> Inl (argument_incorrect_type text)
      | Some (negative, hex, ds) \<Rightarrow>
          if ds = [] then Inr 0
          else case parse_digits w (if hex then 16 else 10) 0 ds of
            None \<Rightarrow> Inl (argument_incorrect_type text)
          | Some u \<Rightarrow>
              ebind (check_signed_range w sg negative u text) (\<lambda>_.
                if negative then (if sg then Inr (- int u) else Inl (argument_incorrect_type text))
                else Inr (int u)))"

text \<open>The types a value can have, and what is stored.\<close>

datatype value_type = String_t | Bool_t | Int_t nat bool | Vector_t value_type

datatype stored = StrV bytes | BoolV bool | IntV int | VecV "stored list"

primrec initial_value :: "value_type \<Rightarrow> stored" where
  "initial_value String_t = StrV []"
| "initial_value Bool_t = BoolV False"
| "initial_value (Int_t w s) = IntV 0"
| "initial_value (Vector_t t) = VecV []"

fun parse_value :: "value_type \<Rightarrow> bytes \<Rightarrow> stored \<Rightarrow> option_exception + stored" where
  "parse_value String_t text v = Inr (StrV text)"
| "parse_value Bool_t text v = Inr (BoolV True)"
| "parse_value (Int_t w s) text v = ebind (integer_parser w s text) (\<lambda>i. Inr (IntV i))"
| "parse_value (Vector_t t) text v =
     ebind (parse_value t text (initial_value t))
       (\<lambda>x. Inr (VecV ((case v of VecV xs \<Rightarrow> xs | _ \<Rightarrow> []) @ [x])))"

section \<open>Values and option details\<close>

record cx_value =
  v_type :: value_type
  m_store :: stored
  m_default :: bool
  m_default_value :: bytes
  m_implicit :: bool
  m_implicit_value :: bytes

definition mk_value :: "value_type \<Rightarrow> cx_value" where
  "mk_value t = \<lparr>v_type = t, m_store = initial_value t, m_default = False, m_default_value = [],
     m_implicit = False, m_implicit_value = []\<rparr>"

definition set_default_value :: "bytes \<Rightarrow> cx_value \<Rightarrow> cx_value" where
  "set_default_value s v = v\<lparr>m_default := True, m_default_value := s\<rparr>"

definition set_implicit_value :: "bytes \<Rightarrow> cx_value \<Rightarrow> cx_value" where
  "set_implicit_value s v = v\<lparr>m_implicit := True, m_implicit_value := s\<rparr>"

definition value_parse :: "bytes \<Rightarrow> cx_value \<Rightarrow> option_exception + cx_value" where
  "value_parse text v = ebind (parse_value (v_type v) text (m_store v)) (\<lambda>x. Inr (v\<lparr>m_store := x\<rparr>))"

definition value_parse_default :: "cx_value \<Rightarrow> option_exception + cx_value" where
  "value_parse_default v = value_parse (m_default_value v) v"

definition value_has_arg :: "cx_value \<Rightarrow> bool" where
  "value_has_arg v \<longleftrightarrow> v_type v \<noteq> Bool_t"

definition is_container :: "cx_value \<Rightarrow> bool" where
  "is_container v \<longleftrightarrow> (case v_type v of Vector_t t \<Rightarrow> True | _ \<Rightarrow> False)"

record option_details =
  m_desc :: bytes
  m_value :: cx_value
  m_count :: nat

definition mk_details :: "bytes \<Rightarrow> cx_value \<Rightarrow> option_details" where
  "mk_details desc v = \<lparr>m_desc = desc, m_value = v, m_count = 0\<rparr>"

definition details_parse :: "bytes \<Rightarrow> option_details \<Rightarrow> option_exception + option_details" where
  "details_parse text d =
     ebind (value_parse text (m_value d)) (\<lambda>v. Inr (d\<lparr>m_value := v, m_count := m_count d + 1\<rparr>))"

definition details_parse_default :: "option_details \<Rightarrow> option_exception + option_details" where
  "details_parse_default d = ebind (value_parse_default (m_value d)) (\<lambda>v. Inr (d\<lparr>m_value := v\<rparr>))"

text \<open>\<^verbatim>\<open>as<T>\<close>: a cast to another type throws.\<close>

definition as_type :: "value_type \<Rightarrow> option_details \<Rightarrow> option_exception + stored" where
  "as_type t d = (if v_type (m_value d) = t then Inr (m_store (m_value d)) else Inl bad_cast)"

definition as_string :: "option_details \<Rightarrow> option_exception + bytes" where
  "as_string d = ebind (as_type String_t d) (\<lambda>v. case v of StrV s \<Rightarrow> Inr s | _ \<Rightarrow> Inl bad_cast)"

section \<open>Options\<close>

record help_option =
  ho_s :: bytes
  ho_l :: bytes
  ho_desc :: bytes
  ho_has_arg :: bool
  ho_has_default :: bool
  ho_default_value :: bytes
  ho_has_implicit :: bool
  ho_implicit_value :: bytes
  ho_arg_help :: bytes
  ho_is_container :: bool

record options =
  m_program :: bytes
  m_help_string :: bytes
  m_positional_help :: bytes
  m_options :: "(bytes \<times> nat) list"
  objects :: "option_details list"
  m_positional :: "bytes list"
  m_next_positional :: nat
  m_positional_set :: "bytes list"
  m_help :: "(bytes \<times> help_option list) list"

definition mk_options :: "bytes \<Rightarrow> bytes \<Rightarrow> options" where
  "mk_options program help_string =
     \<lparr>m_program = program, m_help_string = help_string, m_positional_help = chars ''positional parameters'',
      m_options = [], objects = [], m_positional = [], m_next_positional = 0, m_positional_set = [], m_help = []\<rparr>"

definition positional_help :: "bytes \<Rightarrow> options \<Rightarrow> options" where
  "positional_help help_text opts = opts\<lparr>m_positional_help := help_text\<rparr>"

text \<open>\<^verbatim>\<open>std::map\<close> with strings as keys: entries in the order of the keys as unsigned bytes.\<close>

fun str_less :: "bytes \<Rightarrow> bytes \<Rightarrow> bool" where
  "str_less xs [] \<longleftrightarrow> False"
| "str_less [] (y # ys) \<longleftrightarrow> True"
| "str_less (x # xs) (y # ys) \<longleftrightarrow> x < y \<or> x = y \<and> str_less xs ys"

fun map_insert :: "bytes \<Rightarrow> 'v \<Rightarrow> (bytes \<times> 'v) list \<Rightarrow> (bytes \<times> 'v) list" where
  "map_insert k v [] = [(k, v)]"
| "map_insert k v ((k', v') # m) =
     (if str_less k k' then (k, v) # (k', v') # m else if k = k' then (k, v) # m else (k', v') # map_insert k v m)"

definition details_at :: "options \<Rightarrow> nat \<Rightarrow> option_details" where
  "details_at opts i = objects opts ! i"

definition opt_count :: "options \<Rightarrow> bytes \<Rightarrow> nat" where
  "opt_count opts o' = (case map_of (m_options opts) o' of None \<Rightarrow> 0 | Some i \<Rightarrow> m_count (details_at opts i))"

definition opt_index :: "options \<Rightarrow> bytes \<Rightarrow> option_exception + option_details" where
  "opt_index opts option =
     (case map_of (m_options opts) option of
        None \<Rightarrow> Inl (option_not_present_exception option)
      | Some i \<Rightarrow> Inr (details_at opts i))"

fun check_required :: "options \<Rightarrow> bytes list \<Rightarrow> option_exception + unit" where
  "check_required opts [] = Inr ()"
| "check_required opts (r # required) =
     (if opt_count opts r = 0 then Inl (option_required_exception r) else check_required opts required)"

section \<open>Adding options\<close>

text \<open>
  The groups 2 and 3 of \<^verbatim>\<open>(([[:alnum:]]),)?[ ]*([[:alnum:]][-_[:alnum:]]*)?\<close>, empty when they do not
  take part.
\<close>

definition option_specifier :: "bytes \<Rightarrow> (bytes \<times> bytes) option" where
  "option_specifier opts =
     (let has_short = (length opts \<ge> 2 \<and> alnum (opts ! 0) \<and> opts ! 1 = 44);
          short = (if has_short then take 1 opts else []);
          rest = dropWhile (\<lambda>c. c = space) (if has_short then drop 2 opts else opts)
      in if rest = [] \<or> alnum (hd rest) \<and> list_all name_char (tl rest) then Some (short, rest) else None)"

definition add_one_option :: "bytes \<Rightarrow> nat \<Rightarrow> options \<Rightarrow> option_exception + options" where
  "add_one_option option i opts =
     (case map_of (m_options opts) option of
        Some _ \<Rightarrow> Inl (option_exists_error option)
      | None \<Rightarrow> Inr (opts\<lparr>m_options := map_insert option i (m_options opts)\<rparr>))"

definition add_option ::
  "bytes \<Rightarrow> bytes \<Rightarrow> bytes \<Rightarrow> bytes \<Rightarrow> cx_value \<Rightarrow> bytes \<Rightarrow> options \<Rightarrow> option_exception + options" where
  "add_option grp s l desc v arg_help opts =
     (let i = length (objects opts);
          opts = opts\<lparr>objects := objects opts @ [mk_details desc v]\<rparr>
      in ebind (if length s > 0 then add_one_option s i opts else Inr opts) (\<lambda>opts.
         ebind (if length l > 0 then add_one_option l i opts else Inr opts) (\<lambda>opts.
           let entry = \<lparr>ho_s = s, ho_l = l, ho_desc = desc, ho_has_arg = value_has_arg v,
                  ho_has_default = m_default v, ho_default_value = m_default_value v,
                  ho_has_implicit = m_implicit v, ho_implicit_value = m_implicit_value v,
                  ho_arg_help = arg_help, ho_is_container = is_container v\<rparr>;
               old = (case map_of (m_help opts) grp of None \<Rightarrow> [] | Some es \<Rightarrow> es)
           in Inr (opts\<lparr>m_help := map_insert grp (old @ [entry]) (m_help opts)\<rparr>))))"

text \<open>The call operator of \<^verbatim>\<open>OptionAdder\<close>.\<close>

definition option_adder ::
  "bytes \<Rightarrow> bytes \<Rightarrow> bytes \<Rightarrow> cx_value \<Rightarrow> bytes \<Rightarrow> options \<Rightarrow> option_exception + options" where
  "option_adder grp spec desc v arg_help opts =
     (case option_specifier spec of
        None \<Rightarrow> Inl (invalid_option_format_error spec)
      | Some (short_match, long_match) \<Rightarrow>
          if short_match = [] \<and> long_match = [] then Inl (invalid_option_format_error spec)
          else if length long_match = 1 \<and> short_match \<noteq> [] then Inl (invalid_option_format_error spec)
          else if length long_match = 1
          then add_option grp long_match short_match desc v arg_help opts
          else add_option grp short_match long_match desc v arg_help opts)"

section \<open>Parsing\<close>

definition parse_option :: "nat \<Rightarrow> bytes \<Rightarrow> options \<Rightarrow> option_exception + options" where
  "parse_option i arg opts =
     ebind (details_parse arg (details_at opts i)) (\<lambda>d. Inr (opts\<lparr>objects := (objects opts)[i := d]\<rparr>))"

text \<open>The argument of an option is the next one, unless there is an implicit value to fall back on.\<close>

definition checked_parse_arg ::
  "bytes list \<Rightarrow> nat \<Rightarrow> nat \<Rightarrow> bytes \<Rightarrow> options \<Rightarrow> option_exception + (options \<times> nat)" where
  "checked_parse_arg argv current i name opts =
     (let v = m_value (details_at opts i) in
      if current + 1 \<ge> length argv then
        if m_implicit v then ebind (parse_option i (m_implicit_value v) opts) (\<lambda>opts. Inr (opts, current))
        else Inl (missing_argument_exception name)
      else
        if take 1 (argv ! (current + 1)) = [dash] \<and> m_implicit v
        then ebind (parse_option i (m_implicit_value v) opts) (\<lambda>opts. Inr (opts, current))
        else ebind (parse_option i (argv ! (current + 1)) opts) (\<lambda>opts. Inr (opts, current + 1)))"

definition add_to_option :: "bytes \<Rightarrow> bytes \<Rightarrow> options \<Rightarrow> option_exception + options" where
  "add_to_option option arg opts =
     (case map_of (m_options opts) option of
        None \<Rightarrow> Inl (option_not_exists_exception option)
      | Some i \<Rightarrow> parse_option i arg opts)"

function consume_positional :: "bytes \<Rightarrow> options \<Rightarrow> option_exception + (bool \<times> options)" where
  "consume_positional a opts =
     (if m_next_positional opts < length (m_positional opts) then
        let name = m_positional opts ! m_next_positional opts;
            advanced = opts\<lparr>m_next_positional := m_next_positional opts + 1\<rparr>
        in case map_of (m_options opts) name of
             None \<Rightarrow> consume_positional a advanced
           | Some i \<Rightarrow>
               if \<not> is_container (m_value (details_at opts i)) then
                 if m_count (details_at opts i) = 0
                 then ebind (add_to_option name a opts)
                        (\<lambda>opts. Inr (True, opts\<lparr>m_next_positional := m_next_positional opts + 1\<rparr>))
                 else consume_positional a advanced
               else ebind (add_to_option name a opts) (\<lambda>opts. Inr (True, opts))
      else Inr (False, opts))"
  by pat_completeness auto
termination by (relation "measure (\<lambda>(a, opts). length (m_positional opts) - m_next_positional opts)") auto

declare consume_positional.simps [simp del]

definition parse_positional :: "bytes list \<Rightarrow> options \<Rightarrow> options" where
  "parse_positional names opts =
     opts\<lparr>m_positional := names, m_next_positional := 0, m_positional_set := m_positional_set opts @ names\<rparr>"

text \<open>
  The groups of \<^verbatim>\<open>--([[:alnum:]][-_[:alnum:]]+)(=(.*))?|-([[:alnum:]]+)\<close>: a long name with the value
  behind the equals sign, empty if there is none, or short names. The dot does not match line
  ends.
\<close>

datatype opt_match = No_match | Long bytes bytes | Short bytes

definition option_matcher :: "bytes \<Rightarrow> opt_match" where
  "option_matcher arg =
     (if take 2 arg = [dash, dash] then
        let name = takeWhile name_char (drop 2 arg);
            rest = dropWhile name_char (drop 2 arg)
        in if length name \<ge> 2 \<and> alnum (hd name) \<and>
              (rest = [] \<or> hd rest = 61 \<and> list_all (\<lambda>c. c \<noteq> 10 \<and> c \<noteq> 13) (tl rest))
           then Long name (tl rest) else No_match
      else if take 1 arg = [dash] \<and> length arg \<ge> 2 \<and> list_all alnum (tl arg) then Short (tl arg)
      else No_match)"

text \<open>The letters of a short option; only the last one can take the next argument.\<close>

fun parse_short ::
  "bytes list \<Rightarrow> nat \<Rightarrow> bytes \<Rightarrow> options \<Rightarrow> option_exception + (options \<times> nat)" where
  "parse_short argv current [] opts = Inr (opts, current)"
| "parse_short argv current (c # cs) opts =
     (case map_of (m_options opts) [c] of
        None \<Rightarrow> Inl (option_not_exists_exception [c])
      | Some i \<Rightarrow>
          let v = m_value (details_at opts i) in
          if \<not> value_has_arg v
          then ebind (parse_option i [] opts) (parse_short argv current cs)
          else if cs = [] then checked_parse_arg argv current i [c] opts
          else if m_implicit v
          then ebind (parse_option i (m_implicit_value v) opts) (parse_short argv current cs)
          else Inl (option_requires_argument_exception [c]))"

definition parse_long ::
  "bytes list \<Rightarrow> nat \<Rightarrow> bytes \<Rightarrow> bytes \<Rightarrow> options \<Rightarrow> option_exception + (options \<times> nat)" where
  "parse_long argv current name arg opts =
     (case map_of (m_options opts) name of
        None \<Rightarrow> Inl (option_not_exists_exception name)
      | Some i \<Rightarrow>
          if length arg \<noteq> 0 then
            if \<not> value_has_arg (m_value (details_at opts i))
            then Inl (option_not_has_argument_exception name arg)
            else ebind (parse_option i arg opts) (\<lambda>opts. Inr (opts, current))
          else
            if value_has_arg (m_value (details_at opts i))
            then checked_parse_arg argv current i name opts
            else ebind (parse_option i [] opts) (\<lambda>opts. Inr (opts, current)))"

text \<open>
  One round of the loop in \<^verbatim>\<open>parse\<close>: arguments that are no options and are not consumed are moved to
  the front of \<^verbatim>\<open>argv\<close>. The result has the options, \<^verbatim>\<open>argv\<close>, \<^verbatim>\<open>current\<close> and \<^verbatim>\<open>nextKeep\<close>.
\<close>

definition parse_arg ::
  "bytes list \<Rightarrow> nat \<Rightarrow> nat \<Rightarrow> options \<Rightarrow> option_exception + (options \<times> bytes list \<times> nat \<times> nat)" where
  "parse_arg argv current nextKeep opts =
     (case option_matcher (argv ! current) of
        No_match \<Rightarrow>
          ebind (consume_positional (argv ! current) opts) (\<lambda>(consumed, opts).
            if consumed then Inr (opts, argv, current, nextKeep)
            else Inr (opts, argv[nextKeep := argv ! current], current, nextKeep + 1))
      | Short s \<Rightarrow>
          ebind (parse_short argv current s opts) (\<lambda>(opts, current). Inr (opts, argv, current, nextKeep))
      | Long name arg \<Rightarrow>
          ebind (parse_long argv current name arg opts) (\<lambda>(opts, current). Inr (opts, argv, current, nextKeep)))"

lemma checked_parse_arg_current:
  "checked_parse_arg argv current i name opts = Inr (opts', current') \<Longrightarrow> current \<le> current'"
  by (auto simp: checked_parse_arg_def Let_def ebind_eq_Inr split: if_splits)

lemma parse_short_current:
  "parse_short argv current s opts = Inr (opts', current') \<Longrightarrow> current \<le> current'"
  by (induction argv current s opts rule: parse_short.induct)
    (auto simp: Let_def ebind_eq_Inr split: option.splits if_splits dest: checked_parse_arg_current)

lemma parse_arg_current:
  "parse_arg argv current k opts = Inr (opts', argv', current', k') \<Longrightarrow>
     current \<le> current' \<and> length argv' = length argv"
  by (auto simp: parse_arg_def parse_long_def ebind_eq_Inr split: opt_match.splits option.splits if_splits
      dest: checked_parse_arg_current parse_short_current)

function parse_loop ::
  "bytes list \<Rightarrow> nat \<Rightarrow> nat \<Rightarrow> options \<Rightarrow> option_exception + (options \<times> bytes list \<times> nat \<times> nat \<times> bool)" where
  "parse_loop argv current nextKeep opts =
     (if current \<ge> length argv then Inr (opts, argv, current, nextKeep, False)
      else if argv ! current = [dash, dash] then Inr (opts, argv, current + 1, nextKeep, True)
      else ebind (parse_arg argv current nextKeep opts) (\<lambda>(opts, argv, current, nextKeep).
             parse_loop argv (current + 1) nextKeep opts))"
  by pat_completeness auto
termination
  by (relation "measure (\<lambda>(argv, current, k, opts). length argv - current)") (auto dest: parse_arg_current)

declare parse_loop.simps [simp del]

text \<open>Defaults are filled in once for every name of an option that was not given.\<close>

fun parse_defaults :: "nat list \<Rightarrow> options \<Rightarrow> option_exception + options" where
  "parse_defaults [] opts = Inr opts"
| "parse_defaults (i # is) opts =
     (let d = details_at opts i in
      if m_count d = 0 \<and> m_default (m_value d)
      then ebind (details_parse_default d)
             (\<lambda>d. parse_defaults is (opts\<lparr>objects := (objects opts)[i := d]\<rparr>))
      else parse_defaults is opts)"

function consume_remaining :: "bytes list \<Rightarrow> nat \<Rightarrow> options \<Rightarrow> option_exception + (options \<times> nat)" where
  "consume_remaining argv current opts =
     (if current < length argv then
        ebind (consume_positional (argv ! current) opts) (\<lambda>(consumed, opts).
          if consumed then consume_remaining argv (current + 1) opts else Inr (opts, current))
      else Inr (opts, current))"
  by pat_completeness auto
termination by (relation "measure (\<lambda>(argv, current, opts). length argv - current)") auto

declare consume_remaining.simps [simp del]

definition keep_rest :: "bytes list \<Rightarrow> nat \<Rightarrow> nat \<Rightarrow> bytes list \<times> nat" where
  "keep_rest argv current nextKeep =
     fold (\<lambda>c (argv, k). (argv[k := argv ! c], k + 1)) [current..<length argv] (argv, nextKeep)"

text \<open>
  \<^verbatim>\<open>parse\<close>: the options and what is left of \<^verbatim>\<open>argv\<close>, the first \<^verbatim>\<open>argc\<close> of its entries. The caller has the
  program name as first entry.
\<close>

definition opt_parse :: "bytes list \<Rightarrow> options \<Rightarrow> option_exception + (options \<times> bytes list)" where
  "opt_parse argv opts =
     ebind (parse_loop argv 1 1 opts) (\<lambda>(opts, argv, current, nextKeep, remaining).
     ebind (parse_defaults (map snd (m_options opts)) opts) (\<lambda>opts.
       if remaining then
         ebind (consume_remaining argv current opts) (\<lambda>(opts, current).
           case keep_rest argv current nextKeep of (argv, nextKeep) \<Rightarrow> Inr (opts, take nextKeep argv))
       else Inr (opts, take nextKeep argv)))"

section \<open>Help text\<close>

definition OPTION_LONGEST :: nat where "OPTION_LONGEST = 30"
definition OPTION_DESC_GAP :: nat where "OPTION_DESC_GAP = 2"

definition format_option :: "help_option \<Rightarrow> bytes" where
  "format_option o' =
     (let result = chars ''  '';
          result = result @ (if length (ho_s o') > 0 then [dash] @ ho_s o' @ chars '','' else chars ''   '');
          result = result @ (if length (ho_l o') > 0 then chars '' --'' @ ho_l o' else []);
          arg = (if length (ho_arg_help o') > 0 then ho_arg_help o' else chars ''arg'')
      in if ho_has_arg o' then
           if ho_has_implicit o' then result @ chars '' [='' @ arg @ chars ''(='' @ ho_implicit_value o' @ chars '')]''
           else result @ [space] @ arg
         else result)"

text \<open>
  A range of iterators appended to a string; a range that ends before it starts has no valid
  length and throws.
\<close>

definition append_range :: "bytes \<Rightarrow> bytes \<Rightarrow> nat \<Rightarrow> nat \<Rightarrow> bytes option" where
  "append_range result desc a b = (if a \<le> b then Some (result @ drop a (take b desc)) else None)"

record wrap =
  startLine :: nat
  lastSpace :: nat
  line_size :: nat
  wrapped :: bytes

definition wrap_char :: "bytes \<Rightarrow> nat \<Rightarrow> nat \<Rightarrow> nat \<Rightarrow> wrap \<Rightarrow> wrap option" where
  "wrap_char desc start width current w =
     (let w = (if desc ! current = space then w\<lparr>lastSpace := current\<rparr> else w) in
      if line_size w > width then
        if lastSpace w = startLine w then do {
          r \<leftarrow> append_range (wrapped w) desc (startLine w) (current + 1);
          Some (w\<lparr>wrapped := r @ [10] @ replicate start space, startLine := current + 1, lastSpace := current + 1,
                  line_size := 0\<rparr>)
        } else do {
          r \<leftarrow> append_range (wrapped w) desc (startLine w) (lastSpace w);
          Some (w\<lparr>wrapped := r @ [10] @ replicate start space, startLine := lastSpace w + 1, line_size := 0\<rparr>)
        }
      else Some (w\<lparr>line_size := line_size w + 1\<rparr>))"

fun wrap_chars :: "bytes \<Rightarrow> nat \<Rightarrow> nat \<Rightarrow> nat list \<Rightarrow> wrap \<Rightarrow> wrap option" where
  "wrap_chars desc start width [] w = Some w"
| "wrap_chars desc start width (i # is) w = do {
     w \<leftarrow> wrap_char desc start width i w;
     wrap_chars desc start width is w
   }"

definition format_description :: "help_option \<Rightarrow> nat \<Rightarrow> nat \<Rightarrow> bytes option" where
  "format_description o' start width = do {
     let desc = ho_desc o' @
           (if ho_has_default o' then chars '' (default: '' @ ho_default_value o' @ chars '')'' else []);
     w \<leftarrow> wrap_chars desc start width [0..<length desc] \<lparr>startLine = 0, lastSpace = 0, line_size = 0, wrapped = []\<rparr>;
     append_range (wrapped w) desc (startLine w) (length desc)
   }"

definition shown_options :: "options \<Rightarrow> help_option list \<Rightarrow> help_option list" where
  "shown_options opts es = filter (\<lambda>e. \<not> (ho_is_container e \<and> ho_l e \<in> set (m_positional_set opts))) es"

fun help_lines :: "nat \<Rightarrow> nat \<Rightarrow> help_option list \<Rightarrow> bytes option" where
  "help_lines longest allowed [] = Some []"
| "help_lines longest allowed (e # es) = do {
     let s = format_option e;
     d \<leftarrow> format_description e (longest + OPTION_DESC_GAP) allowed;
     rest \<leftarrow> help_lines longest allowed es;
     Some (s @ (if length s > longest then [10] @ replicate (longest + OPTION_DESC_GAP) space
                else replicate (longest + OPTION_DESC_GAP - length s) space) @ d @ [10] @ rest)
   }"

definition help_one_group :: "options \<Rightarrow> bytes \<Rightarrow> bytes option" where
  "help_one_group opts g =
     (case map_of (m_help opts) g of
        None \<Rightarrow> Some []
      | Some es \<Rightarrow> do {
          let shown = shown_options opts es;
          let title = (if g \<noteq> [] then [space] @ g @ chars '' options:'' @ [10] else []);
          let longest = min (fold (\<lambda>e m. max m (length (format_option e))) shown 0) OPTION_LONGEST;
          let allowed = 76 - longest - OPTION_DESC_GAP;
          ls \<leftarrow> help_lines longest allowed shown;
          Some (title @ ls)
        })"

fun generate_group_help :: "options \<Rightarrow> bytes list \<Rightarrow> bytes \<Rightarrow> bytes option" where
  "generate_group_help opts [] result = Some result"
| "generate_group_help opts (g # gs) result = do {
     text \<leftarrow> help_one_group opts g;
     if text = [] then generate_group_help opts gs result
     else generate_group_help opts gs (result @ text @ (if gs \<noteq> [] then [10] else []))
   }"

definition groups :: "options \<Rightarrow> bytes list" where
  "groups opts = map fst (m_help opts)"

definition generate_all_groups_help :: "options \<Rightarrow> bytes \<Rightarrow> bytes option" where
  "generate_all_groups_help opts result = generate_group_help opts (map fst (m_help opts)) result"

definition group_help :: "options \<Rightarrow> bytes \<Rightarrow> option_exception + help_option list" where
  "group_help opts g = (case map_of (m_help opts) g of None \<Rightarrow> Inl out_of_range | Some es \<Rightarrow> Inr es)"

definition options_help :: "options \<Rightarrow> bytes list \<Rightarrow> bytes option" where
  "options_help opts help_groups =
     (let result = m_help_string opts @ [10] @ chars ''Usage:'' @ [10] @ chars ''  '' @ m_program opts @ chars '' [OPTION...]'';
          result = result @ (if m_positional opts \<noteq> [] then [space] @ m_positional_help opts else []);
          result = result @ [10, 10]
      in if help_groups = [] then generate_all_groups_help opts result
         else generate_group_help opts help_groups result)"

section \<open>Command lines\<close>

text \<open>
  A command line as its author means it, how it is written, and the settings it stands for. Short
  flags can be run together, also in front of a short option with an argument.
\<close>

datatype cli =
    LongArg bytes bytes
  | LongEq bytes bytes
  | LongFlag bytes
  | ShortArg bytes byte bytes
  | ShortFlags bytes
  | Plain bytes

fun written :: "cli \<Rightarrow> bytes list" where
  "written (LongArg n v) = [[dash, dash] @ n, v]"
| "written (LongEq n v) = [[dash, dash] @ n @ [61] @ v]"
| "written (LongFlag n) = [[dash, dash] @ n]"
| "written (ShortArg fs c v) = [[dash] @ fs @ [c], v]"
| "written (ShortFlags fs) = [[dash] @ fs]"
| "written (Plain a) = [a]"

fun settings :: "cli \<Rightarrow> (bytes \<times> bytes) list" where
  "settings (LongArg n v) = [(n, v)]"
| "settings (LongEq n v) = [(n, v)]"
| "settings (LongFlag n) = [(n, [])]"
| "settings (ShortArg fs c v) = map (\<lambda>f. ([f], [])) fs @ [([c], v)]"
| "settings (ShortFlags fs) = map (\<lambda>f. ([f], [])) fs"
| "settings (Plain a) = []"

fun plains :: "cli \<Rightarrow> bytes list" where
  "plains (Plain a) = [a]"
| "plains _ = []"

text \<open>Making the settings one after the other.\<close>

fun settle :: "(bytes \<times> bytes) list \<Rightarrow> options \<Rightarrow> option_exception + options" where
  "settle [] opts = Inr opts"
| "settle ((n, a) # xs) opts = ebind (add_to_option n a opts) (settle xs)"

definition arg_option :: "options \<Rightarrow> bytes \<Rightarrow> bool" where
  "arg_option opts n \<longleftrightarrow> (case map_of (m_options opts) n of None \<Rightarrow> False
     | Some i \<Rightarrow> i < length (objects opts) \<and> value_has_arg (m_value (details_at opts i)) \<and> \<not> m_implicit (m_value (details_at opts i)))"

definition flag_option :: "options \<Rightarrow> bytes \<Rightarrow> bool" where
  "flag_option opts n \<longleftrightarrow> (case map_of (m_options opts) n of None \<Rightarrow> False
     | Some i \<Rightarrow> i < length (objects opts) \<and> \<not> value_has_arg (m_value (details_at opts i)))"

definition long_name :: "bytes \<Rightarrow> bool" where
  "long_name n \<longleftrightarrow> length n \<ge> 2 \<and> alnum (hd n) \<and> list_all name_char n"

fun valid_cli :: "options \<Rightarrow> cli \<Rightarrow> bool" where
  "valid_cli opts (LongArg n v) \<longleftrightarrow> long_name n \<and> arg_option opts n"
| "valid_cli opts (LongEq n v) \<longleftrightarrow> long_name n \<and> arg_option opts n \<and> v \<noteq> [] \<and> 10 \<notin> set v \<and> 13 \<notin> set v"
| "valid_cli opts (LongFlag n) \<longleftrightarrow> long_name n \<and> flag_option opts n"
| "valid_cli opts (ShortArg fs c v) \<longleftrightarrow>
     list_all alnum (fs @ [c]) \<and> list_all (\<lambda>f. flag_option opts [f]) fs \<and> arg_option opts [c]"
| "valid_cli opts (ShortFlags fs) \<longleftrightarrow> fs \<noteq> [] \<and> list_all alnum fs \<and> list_all (\<lambda>f. flag_option opts [f]) fs"
| "valid_cli opts (Plain a) \<longleftrightarrow> option_matcher a = No_match \<and> a \<noteq> [dash, dash]"

lemma ebind_assoc: "ebind (ebind m f) g = ebind m (\<lambda>x. ebind (f x) g)"
  by (cases m) simp_all

lemma settle_append: "settle (xs @ ys) opts = ebind (settle xs opts) (settle ys)"
  by (induction xs opts rule: settle.induct) (auto simp: ebind_def split: sum.split)

text \<open>Parsing a value changes neither the names nor the kinds of the options.\<close>

lemma details_parse_kind:
  "details_parse a d = Inr d' \<Longrightarrow> v_type (m_value d') = v_type (m_value d) \<and> m_implicit (m_value d') = m_implicit (m_value d)"
  by (auto simp: details_parse_def value_parse_def ebind_eq_Inr)

lemma add_to_option_kind:
  assumes "add_to_option n a opts = Inr opts'"
  shows "arg_option opts' = arg_option opts" and "flag_option opts' = flag_option opts"
    and "m_positional opts' = m_positional opts"
proof -
  from assms obtain i d where d: "details_parse a (details_at opts i) = Inr d"
    "opts' = opts\<lparr>objects := (objects opts)[i := d]\<rparr>"
    by (auto simp: add_to_option_def parse_option_def ebind_eq_Inr split: option.splits)
  have "value_has_arg (m_value (details_at opts' j)) = value_has_arg (m_value (details_at opts j)) \<and>
      m_implicit (m_value (details_at opts' j)) = m_implicit (m_value (details_at opts j))" for j
    using details_parse_kind [OF d(1)] d(2)
    by (cases "j = i \<and> i < length (objects opts)") (auto simp: details_at_def value_has_arg_def nth_list_update list_update_beyond)
  then show "arg_option opts' = arg_option opts" "flag_option opts' = flag_option opts" "m_positional opts' = m_positional opts"
    by (auto simp: fun_eq_iff arg_option_def flag_option_def d(2) split: option.split)
qed

lemma settle_kind:
  assumes "settle xs opts = Inr opts'"
  shows "arg_option opts' = arg_option opts \<and> flag_option opts' = flag_option opts \<and> m_positional opts' = m_positional opts"
  using assms by (induction xs opts rule: settle.induct) (auto simp: ebind_eq_Inr dest: add_to_option_kind)

lemma valid_cli_settled:
  assumes "settle xs opts = Inr opts'"
  shows "valid_cli opts' x = valid_cli opts x"
  using settle_kind [OF assms] by (cases x) simp_all

text \<open>What is written is recognised.\<close>

lemma name_char_61 [simp]: "\<not> name_char 61"
  by (simp add: name_char_def alnum_def digit_char_def)

lemma alnum_dash [simp]: "\<not> alnum dash"
  by (simp add: alnum_def digit_char_def)

lemma takeWhile_name: "list_all P n \<Longrightarrow> takeWhile P (n @ xs) = n @ takeWhile P xs"
  by (induction n) simp_all

lemma dropWhile_name: "list_all P n \<Longrightarrow> dropWhile P (n @ xs) = dropWhile P xs"
  by (induction n) simp_all

lemma option_matcher_long: "long_name n \<Longrightarrow> option_matcher (dash # dash # n) = Long n []"
proof -
  assume n: "long_name n"
  then have "takeWhile name_char n = n" "dropWhile name_char n = []" by (auto simp: long_name_def list_all_iff)
  with n show ?thesis
    by (simp add: option_matcher_def long_name_def Let_def del: takeWhile_eq_all_conv dropWhile_eq_Nil_conv)
qed

lemma option_matcher_eq:
  "long_name n \<Longrightarrow> 10 \<notin> set v \<Longrightarrow> 13 \<notin> set v \<Longrightarrow> option_matcher (dash # dash # n @ 61 # v) = Long n v"
  by (auto simp: option_matcher_def long_name_def Let_def takeWhile_name dropWhile_name list_all_iff)

lemma option_matcher_short: "list_all alnum fs \<Longrightarrow> fs \<noteq> [] \<Longrightarrow> option_matcher (dash # fs) = Short fs"
  by (cases fs) (auto simp: option_matcher_def)

lemma parse_option_add: "map_of (m_options opts) n = Some i \<Longrightarrow> parse_option i a opts = add_to_option n a opts"
  by (simp add: add_to_option_def)

lemma checked_parse_arg_next:
  assumes "arg_option opts n" and "map_of (m_options opts) n = Some i" and "current + 1 < length argv"
  shows "checked_parse_arg argv current i m opts =
     ebind (add_to_option n (argv ! (current + 1)) opts) (\<lambda>opts. Inr (opts, current + 1))"
  using assms by (auto simp: checked_parse_arg_def Let_def arg_option_def parse_option_add)

lemma parse_short_flags:
  "list_all (\<lambda>f. flag_option opts [f]) fs \<Longrightarrow>
     parse_short argv current fs opts = ebind (settle (map (\<lambda>f. ([f], [])) fs) opts) (\<lambda>opts. Inr (opts, current))"
proof (induction fs arbitrary: opts)
  case (Cons f fs)
  then obtain i where i: "map_of (m_options opts) [f] = Some i" "\<not> value_has_arg (m_value (details_at opts i))"
    by (auto simp: flag_option_def split: option.splits)
  have "parse_short argv current fs o' = ebind (settle (map (\<lambda>f. ([f], [])) fs) o') (\<lambda>opts. Inr (opts, current))"
    if "add_to_option [f] [] opts = Inr o'" for o'
    using Cons.IH [of o'] Cons.prems add_to_option_kind [OF that] by simp
  then show ?case using i by (simp add: Let_def parse_option_add ebind_assoc cong: ebind_cong)
qed simp

lemma parse_short_arg:
  "list_all (\<lambda>f. flag_option opts [f]) fs \<Longrightarrow> arg_option opts [c] \<Longrightarrow> current + 1 < length argv \<Longrightarrow>
     parse_short argv current (fs @ [c]) opts =
       ebind (settle (map (\<lambda>f. ([f], [])) fs @ [([c], argv ! (current + 1))]) opts) (\<lambda>opts. Inr (opts, current + 1))"
proof (induction fs arbitrary: opts)
  case Nil
  then obtain i where i: "map_of (m_options opts) [c] = Some i" "value_has_arg (m_value (details_at opts i))"
    by (auto simp: arg_option_def split: option.splits)
  then show ?case using checked_parse_arg_next [OF Nil(2) i(1) Nil(3)] by (simp add: Let_def ebind_assoc cong: ebind_cong)
next
  case (Cons f fs)
  then obtain i where i: "map_of (m_options opts) [f] = Some i" "\<not> value_has_arg (m_value (details_at opts i))"
    by (auto simp: flag_option_def split: option.splits)
  have "parse_short argv current (fs @ [c]) o' =
      ebind (settle (map (\<lambda>f. ([f], [])) fs @ [([c], argv ! (current + 1))]) o') (\<lambda>opts. Inr (opts, current + 1))"
    if "add_to_option [f] [] opts = Inr o'" for o'
    using Cons.IH [of o'] Cons.prems add_to_option_kind [OF that] by simp
  then show ?case using i by (simp add: Let_def parse_option_add ebind_assoc cong: ebind_cong)
qed

lemma parse_long_eq:
  assumes "map_of (m_options opts) n = Some i"
  shows "arg_option opts n \<Longrightarrow> v \<noteq> [] \<Longrightarrow>
      parse_long argv current n v opts = ebind (add_to_option n v opts) (\<lambda>opts. Inr (opts, current))"
    and "arg_option opts n \<Longrightarrow> current + 1 < length argv \<Longrightarrow> parse_long argv current n [] opts =
      ebind (add_to_option n (argv ! (current + 1)) opts) (\<lambda>opts. Inr (opts, current + 1))"
    and "flag_option opts n \<Longrightarrow>
      parse_long argv current n [] opts = ebind (add_to_option n [] opts) (\<lambda>opts. Inr (opts, current))"
  using assms checked_parse_arg_next [OF _ assms]
  by (auto simp: parse_long_def arg_option_def flag_option_def parse_option_add)

lemma option_known:
  "arg_option opts n \<Longrightarrow> \<exists>i. map_of (m_options opts) n = Some i"
  "flag_option opts n \<Longrightarrow> \<exists>i. map_of (m_options opts) n = Some i"
  by (auto simp: arg_option_def flag_option_def split: option.splits)

text \<open>One item of the command line.\<close>

lemma parse_arg_item:
  assumes x: "valid_cli opts x" and p: "m_positional opts = []" and c: "current = length pre"
    and a: "argv = pre @ written x @ rest"
  shows "parse_arg argv current k opts =
     ebind (settle (settings x) opts) (\<lambda>opts.
       Inr (opts, (case x of Plain a \<Rightarrow> argv[k := a] | _ \<Rightarrow> argv), current + length (written x) - 1, k + length (plains x)))"
proof (cases x)
  case (LongArg n v)
  obtain i where "map_of (m_options opts) n = Some i" using x LongArg option_known(1) [of opts n] by auto
  from parse_long_eq(2) [OF this, of current argv] show ?thesis
    using x LongArg c a by (simp add: parse_arg_def nth_append option_matcher_long ebind_assoc)
next
  case (LongEq n v)
  obtain i where "map_of (m_options opts) n = Some i" using x LongEq option_known(1) [of opts n] by auto
  from parse_long_eq(1) [OF this, of v argv current] show ?thesis
    using x LongEq c a by (simp add: parse_arg_def nth_append option_matcher_eq ebind_assoc)
next
  case (LongFlag n)
  obtain i where "map_of (m_options opts) n = Some i" using x LongFlag option_known(2) [of opts n] by auto
  from parse_long_eq(3) [OF this, of argv current] show ?thesis
    using x LongFlag c a by (simp add: parse_arg_def nth_append option_matcher_long ebind_assoc)
next
  case (ShortArg fs ch v)
  then show ?thesis using x c a parse_short_arg [of opts fs ch current argv]
    by (simp add: parse_arg_def nth_append option_matcher_short ebind_assoc)
next
  case (ShortFlags fs)
  then show ?thesis using x c a parse_short_flags [of opts fs argv current]
    by (simp add: parse_arg_def nth_append option_matcher_short ebind_assoc)
next
  case (Plain b)
  then show ?thesis using x p c a
    by (simp add: parse_arg_def nth_append consume_positional.simps)
qed

lemma written_first:
  assumes "valid_cli opts x"
  shows "\<exists>a as. written x = a # as \<and> a \<noteq> [dash, dash]"
proof (cases x)
  case (ShortArg fs c v)
  then show ?thesis using assms by (cases fs) auto
next
  case (ShortFlags fs)
  then show ?thesis using assms by (cases fs) auto
qed (use assms in \<open>auto simp: long_name_def\<close>)

text \<open>The whole loop: the settings are made in order, and the other arguments move to the front.\<close>

lemma take_keep: "k \<le> length pre \<Longrightarrow> take (Suc k) ((pre @ [b])[k := b]) = take k pre @ [b]"
  by (rule nth_equalityI) (auto simp: nth_append nth_list_update min_def)

lemma parse_loop_items:
  assumes "list_all (valid_cli opts) items" and "m_positional opts = []" and "k \<le> length pre"
  shows "\<exists>argv'. parse_loop (pre @ concat (map written items)) (length pre) k opts =
       ebind (settle (concat (map settings items)) opts) (\<lambda>opts.
         Inr (opts, argv', length (pre @ concat (map written items)), k + length (concat (map plains items)), False)) \<and>
     take (k + length (concat (map plains items))) argv' = take k pre @ concat (map plains items)"
  using assms
proof (induction items arbitrary: pre k opts)
  case Nil
  then show ?case by (simp add: parse_loop.simps)
next
  case (Cons x items)
  let ?rest = "concat (map written items)"
  let ?argv = "pre @ written x @ ?rest"
  have vx: "valid_cli opts x" using Cons.prems(1) by simp
  obtain a as where ra: "written x = a # as" "a \<noteq> [dash, dash]" using written_first [OF vx] by blast
  define pre' where "pre' = (case x of Plain b \<Rightarrow> (pre @ written x)[k := b] | _ \<Rightarrow> pre @ written x)"
  have lp: "length pre' = length pre + length (written x)" by (cases x) (auto simp: pre'_def)
  have k': "k + length (plains x) \<le> length pre'" using Cons.prems(3) by (cases x) (auto simp: lp)
  have tk: "take (k + length (plains x)) pre' = take k pre @ plains x"
    using Cons.prems(3) take_keep [of k pre] by (cases x) (auto simp: pre'_def)
  have argv': "(case x of Plain b \<Rightarrow> ?argv[k := b] | _ \<Rightarrow> ?argv) = pre' @ ?rest"
    using Cons.prems(3) by (cases x) (auto simp: pre'_def list_update_append split: nat.split)
  have step: "parse_loop ?argv (length pre) k opts = ebind (settle (settings x) opts)
      (parse_loop (pre' @ ?rest) (length pre') (k + length (plains x)))"
    using parse_arg_item [OF vx Cons.prems(2) refl refl, of pre ?rest k] ra
    by (subst parse_loop.simps) (simp add: nth_append ebind_assoc argv' lp)
  show ?case
  proof (cases "settle (settings x) opts")
    case (Inl e)
    then show ?thesis using step Cons.prems(3)
      by (intro exI [of _ "take k pre @ concat (map plains (x # items))"])
        (simp add: settle_append min.absorb2 take_all_iff)
  next
    case (Inr o')
    have "list_all (valid_cli o') items" "m_positional o' = []"
      using Cons.prems(1,2) valid_cli_settled [OF Inr] settle_kind [OF Inr] by (auto simp: list_all_iff)
    from Cons.IH [OF this k'] step Inr tk lp show ?thesis by (auto simp: settle_append add.assoc)
  qed
qed

section \<open>Integers\<close>

lemma digit_of_nat:
  assumes "d < 10"
  shows "digit_char (of_nat (48 + d))" and "digit_value (of_nat (48 + d)) = d" and "of_nat (48 + d) = (48 :: byte) \<longleftrightarrow> d = 0"
proof -
  have u: "unat (of_nat (48 + d) :: byte) = 48 + d" using assms by (simp add: unat_of_nat take_bit_eq_mod del: of_nat_add)
  then have w: "(48 :: byte) \<le> of_nat (48 + d)" "of_nat (48 + d) \<le> (57 :: byte)" using assms by (simp_all add: word_le_nat_alt del: of_nat_add)
  then show "digit_char (of_nat (48 + d))" "digit_value (of_nat (48 + d)) = d"
    using u by (simp_all add: digit_char_def digit_value_def del: of_nat_add)
  show "of_nat (48 + d) = (48 :: byte) \<longleftrightarrow> d = 0" 
  proof
    assume "of_nat (48 + d) = (48 :: byte)"
    then have "unat (of_nat (48 + d) :: byte) = unat (48 :: byte)" by (rule arg_cong)
    then show "d = 0" unfolding u by simp
  qed simp
qed

lemma decimal_digits: "decimal n \<noteq> [] \<and> list_all digit_char (decimal n) \<and> (hd (decimal n) = 48 \<longleftrightarrow> n = 0)"
proof (induction n rule: decimal.induct)
  case (1 n)
  show ?case
  proof (cases "n < 10")
    case True
    then show ?thesis using digit_of_nat [of n] by (subst (1 2 3) decimal.simps) (simp del: of_nat_add)
  next
    case False
    then have "n div 10 \<noteq> 0" by simp
    then show ?thesis using 1 [OF False] False digit_of_nat [of "n mod 10"]
      by (subst (1 2 3) decimal.simps) (simp del: of_nat_add)
  qed
qed

lemma parse_digits_append:
  "parse_digits w base r (xs @ ys) = Option.bind (parse_digits w base r xs) (\<lambda>r. parse_digits w base r ys)"
  by (induction xs arbitrary: r) (simp_all add: Let_def)

lemma parse_digits_decimal:
  assumes "4 \<le> w"
  shows "n < 2 ^ w \<Longrightarrow> parse_digits w 10 0 (decimal n) = Some n"
proof (induction n rule: decimal.induct)
  case (1 n)
  have w: "(16 :: nat) \<le> 2 ^ w" using assms power_increasing [of 4 w "2 :: nat"] by simp
  show ?case
  proof (cases "n < 10")
    case True
    then show ?thesis using w digit_of_nat(2) [of n] by (subst decimal.simps) (simp add: times_base_def Let_def del: of_nat_add)
  next
    case False
    have d: "parse_digits w 10 0 (decimal (n div 10)) = Some (n div 10)" using 1(1) [OF False] 1(2) by simp
    have n: "n div 10 * 10 + n mod 10 = n" by simp
    then have "times_base w (n div 10) 10 = n div 10 * 10" using 1(2) by (simp add: times_base_def)
    moreover have "\<not> 2 ^ w - 1 - n mod 10 < n div 10 * 10" using n 1(2) by linarith
    ultimately show ?thesis using False d n 1(2) digit_of_nat(2) [of "n mod 10"]
      by (subst decimal.simps) (simp add: parse_digits_append Let_def del: of_nat_add)
  qed
qed

lemma parse_digits_overflow:
  assumes "4 \<le> w" and "w < 32"
  shows "2 ^ w \<le> n \<Longrightarrow> parse_digits w 10 0 (decimal n) = None"
proof (induction n rule: decimal.induct)
  case (1 n)
  have w: "(16 :: nat) \<le> 2 ^ w" using assms(1) power_increasing [of 4 w "2 :: nat"] by simp
  then have ge: "\<not> n < 10" using 1(2) by linarith
  show ?case
  proof (cases "2 ^ w \<le> n div 10")
    case True
    then show ?thesis using 1(1) [OF ge True] ge by (subst decimal.simps) (simp add: parse_digits_append del: of_nat_add)
  next
    case False
    have d: "parse_digits w 10 0 (decimal (n div 10)) = Some (n div 10)"
      using parse_digits_decimal [OF assms(1), of "n div 10"] False by simp
    have "2 ^ w - 1 - n mod 10 < n div 10 * 10" using 1(2) w mod_less_divisor [of 10 n] div_mult_mod_eq [of n 10] by linarith
    then show ?thesis using ge d assms(2) digit_of_nat(2) [of "n mod 10"]
      by (subst decimal.simps) (simp add: parse_digits_append times_base_def Let_def del: of_nat_add)
  qed
qed

lemma digit_alnum: "list_all digit_char ds \<Longrightarrow> list_all alnum ds"
  by (auto simp: list_all_iff alnum_def)

lemma integer_pattern_decimal:
  assumes "0 < n"
  shows "integer_pattern (decimal n) = Some (False, False, decimal n)"
    and "integer_pattern (dash # decimal n) = Some (True, False, decimal n)"
proof -
  obtain c cs where c: "decimal n = c # cs" "digit_char c" "c \<noteq> 48" "list_all alnum (c # cs)"
    using decimal_digits [of n] assms digit_alnum [of "decimal n"] by (cases "decimal n") auto
  then have "c \<noteq> dash" by (auto simp: digit_char_def)
  with c show "integer_pattern (decimal n) = Some (False, False, decimal n)"
    "integer_pattern (dash # decimal n) = Some (True, False, decimal n)"
    by (auto simp: integer_pattern_def Let_def take_Cons')
qed

lemma parse_reads_aux:
  assumes "list_all (valid_cli opts) items" and "m_positional opts = []"
  shows "opt_parse (prog # concat (map written items)) opts =
     ebind (settle (concat (map settings items)) opts) (\<lambda>opts.
     ebind (parse_defaults (map snd (m_options opts)) opts) (\<lambda>opts.
       Inr (opts, prog # concat (map plains items))))"
proof -
  from parse_loop_items [OF assms, of 1 "[prog]"] obtain argv' where
    "parse_loop (prog # concat (map written items)) 1 1 opts =
       ebind (settle (concat (map settings items)) opts) (\<lambda>opts.
         Inr (opts, argv', length (prog # concat (map written items)), Suc (length (concat (map plains items))), False))"
    "take (Suc (length (concat (map plains items)))) argv' = prog # concat (map plains items)" by auto
  then show ?thesis by (simp add: opt_parse_def ebind_assoc)
qed

section \<open>Strings and flags\<close>

text \<open>
  A program whose options are strings and flags: no setting fails, an option counts its settings
  under all of its names, and a string holds the last one.
\<close>

definition hits :: "options \<Rightarrow> nat \<Rightarrow> (bytes \<times> bytes) list \<Rightarrow> bytes list" where
  "hits opts i xs = map snd (filter (\<lambda>(n, a). map_of (m_options opts) n = Some i) xs)"

definition plain_details :: "option_details \<Rightarrow> bool" where
  "plain_details d \<longleftrightarrow> v_type (m_value d) \<in> {String_t, Bool_t} \<and> \<not> m_default (m_value d)"

definition settled :: "options \<Rightarrow> (bytes \<times> bytes) list \<Rightarrow> options \<Rightarrow> bool" where
  "settled opts xs opts' \<longleftrightarrow> m_options opts' = m_options opts \<and> length (objects opts') = length (objects opts) \<and>
     (\<forall>i<length (objects opts). let d = objects opts ! i; d' = objects opts' ! i in
        v_type (m_value d') = v_type (m_value d) \<and> m_default (m_value d') = m_default (m_value d) \<and>
        m_count d' = m_count d + length (hits opts i xs) \<and>
        (v_type (m_value d) = String_t \<longrightarrow>
           m_store (m_value d') = (if hits opts i xs = [] then m_store (m_value d) else StrV (last (hits opts i xs)))))"

lemma details_parse_plain:
  assumes "plain_details d"
  shows "\<exists>d'. details_parse a d = Inr d' \<and> plain_details d' \<and> v_type (m_value d') = v_type (m_value d) \<and>
     m_default (m_value d') = m_default (m_value d) \<and> m_count d' = m_count d + 1 \<and>
     (v_type (m_value d) = String_t \<longrightarrow> m_store (m_value d') = StrV a)"
  using assms by (auto simp: plain_details_def details_parse_def value_parse_def)

lemma settle_settled:
  assumes "list_all plain_details (objects opts)"
    and "\<And>n a. (n, a) \<in> set xs \<Longrightarrow> \<exists>i<length (objects opts). map_of (m_options opts) n = Some i"
  shows "\<exists>opts'. settle xs opts = Inr opts' \<and> list_all plain_details (objects opts') \<and> settled opts xs opts'"
  using assms
proof (induction xs arbitrary: opts)
  case Nil
  then show ?case by (simp add: settled_def hits_def)
next
  case (Cons x xs)
  obtain n a where x: "x = (n, a)" by (cases x)
  obtain i where i: "i < length (objects opts)" "map_of (m_options opts) n = Some i" using Cons.prems(2) x by auto
  have "plain_details (objects opts ! i)" using Cons.prems(1) i(1) by (simp add: list_all_length)
  from details_parse_plain [OF this, of a] obtain d where
    d: "details_parse a (objects opts ! i) = Inr d" "plain_details d" "v_type (m_value d) = v_type (m_value (objects opts ! i))"
      "m_default (m_value d) = m_default (m_value (objects opts ! i))" "m_count d = m_count (objects opts ! i) + 1"
      "v_type (m_value (objects opts ! i)) = String_t \<longrightarrow> m_store (m_value d) = StrV a" by blast
  let ?o = "opts\<lparr>objects := (objects opts)[i := d]\<rparr>"
  have s: "settle (x # xs) opts = settle xs ?o"
    using i d(1) by (simp add: x add_to_option_def parse_option_def details_at_def)
  have "list_all plain_details (objects ?o)" using Cons.prems(1) d(2) set_update_subset_insert [of "objects opts" i d]
    by (auto simp: list_all_iff)
  from Cons.IH [OF this] Cons.prems(2) obtain o' where o': "settle xs ?o = Inr o'" "list_all plain_details (objects o')" "settled ?o xs o'"
    by fastforce
  have "hits opts j (x # xs) = (if j = i then a # hits ?o j xs else hits ?o j xs)" for j using i(2) by (simp add: hits_def x)
  then have "settled opts (x # xs) o'" using o'(3) d i(1) unfolding settled_def Let_def
    by (auto simp: nth_list_update)
  then show ?case using s o' by auto
qed

lemma parse_defaults_none:
  "list_all (\<lambda>d. \<not> m_default (m_value d)) (objects opts) \<Longrightarrow> \<forall>i\<in>set is. i < length (objects opts) \<Longrightarrow>
     parse_defaults is opts = Inr opts"
  by (induction "is") (auto simp: Let_def details_at_def list_all_length)

lemma valid_cli_known:
  assumes "valid_cli opts x" and "(n, a) \<in> set (settings x)"
  shows "\<exists>i<length (objects opts). map_of (m_options opts) n = Some i"
  using assms by (cases x) (auto simp: arg_option_def flag_option_def list_all_iff split: option.splits)

text \<open>The arguments a command line gives to an option, under any of its names.\<close>

definition given :: "options \<Rightarrow> cli list \<Rightarrow> bytes \<Rightarrow> bytes list" where
  "given opts items name =
     map snd (filter (\<lambda>(n, a). map_of (m_options opts) n = map_of (m_options opts) name) (concat (map settings items)))"

lemma parse_plain_options:
  assumes v: "list_all (valid_cli opts) items" "m_positional opts = []" and p: "list_all plain_details (objects opts)"
    and m: "\<forall>i\<in>snd ` set (m_options opts). i < length (objects opts)" and z: "\<forall>d\<in>set (objects opts). m_count d = 0"
  shows "\<exists>opts'. opt_parse (prog # concat (map written items)) opts = Inr (opts', prog # concat (map plains items)) \<and>
     (\<forall>name \<in> fst ` set (m_options opts). opt_count opts' name = length (given opts items name) \<and>
        (\<forall>i s. map_of (m_options opts) name = Some i \<longrightarrow> v_type (m_value (objects opts ! i)) = String_t \<longrightarrow>
           given opts items name = [s] \<longrightarrow> ebind (opt_index opts' name) as_string = Inr s))"
proof -
  let ?xs = "concat (map settings items)"
  have "\<exists>i<length (objects opts). map_of (m_options opts) n = Some i" if "(n, a) \<in> set ?xs" for n a
    using that valid_cli_known v(1) by (fastforce simp: list_all_iff)
  then obtain o' where o': "settle ?xs opts = Inr o'" "list_all plain_details (objects o')" "settled opts ?xs o'"
    using settle_settled [OF p] by blast
  have d: "parse_defaults (map snd (m_options o')) o' = Inr o'"
    using o'(2,3) m by (intro parse_defaults_none) (auto simp: list_all_iff plain_details_def settled_def)
  have r: "opt_parse (prog # concat (map written items)) opts = Inr (o', prog # concat (map plains items))"
    using parse_reads_aux [OF v] o'(1) d by simp
  have "opt_count o' name = length (given opts items name) \<and>
        (\<forall>i s. map_of (m_options opts) name = Some i \<longrightarrow> v_type (m_value (objects opts ! i)) = String_t \<longrightarrow>
           given opts items name = [s] \<longrightarrow> ebind (opt_index o' name) as_string = Inr s)"
    if name: "name \<in> fst ` set (m_options opts)" for name
  proof -
    obtain i where i: "map_of (m_options opts) name = Some i" using name by (metis map_of_eq_None_iff not_None_eq)
    then have il: "i < length (objects opts)" using m map_of_SomeD [OF i] by force
    have h: "hits opts i ?xs = given opts items name" using i by (simp add: hits_def given_def)
    have "m_count (objects opts ! i) = 0" using z il by simp
    then show ?thesis using i il o'(3) h
      by (auto simp: settled_def Let_def opt_count_def opt_index_def details_at_def as_string_def as_type_def)
  qed
  with r show ?thesis by blast
qed

section \<open>Properties\<close>

text \<open>
  C18: the parser reads a command line as it was meant. For options without positional parameters,
  a command line made of long options with their argument behind it or behind an equals sign,
  flags, short options with flags in front of them, and other arguments, in any order and with
  any values, has exactly the effect of making the settings one after the other, failures of
  the value parsers included, and then filling in the defaults; what is left of \<^verbatim>\<open>argv\<close> is the
  program name and the other arguments in their order.
\<close>

theorem parse_reads_command_line:
  assumes "list_all (valid_cli opts) items" and "m_positional opts = []"
  shows "opt_parse (prog # concat (map written items)) opts =
     ebind (settle (concat (map settings items)) opts) (\<lambda>opts.
     ebind (parse_defaults (map snd (m_options opts)) opts) (\<lambda>opts.
       Inr (opts, prog # concat (map plains items))))"
  by (rule parse_reads_aux [OF assms])

text \<open>Options of a small program, for an instance.\<close>

definition sample_options :: options where
  "sample_options = projr
     (ebind (option_adder [] (chars ''o,output'') [] (mk_value String_t) [] (mk_options [] []))
       (option_adder [] (chars ''n,necc'') [] (mk_value Bool_t) []))"

theorem parse_reads_command_line_witness:
  "let r = opt_parse (map chars [''prog'', ''x'', ''-no'', ''-f'', ''--necc'', ''--output=g'']) sample_options; opts = fst (projr r)
   in isl r = False \<and> snd (projr r) = [chars ''prog'', chars ''x''] \<and>
      opt_count opts (chars ''necc'') = 2 \<and> opt_count opts (chars ''o'') = 2 \<and>
      ebind (opt_index opts (chars ''output'')) (as_type String_t) = Inr (StrV (chars ''g''))"
proof -
  let ?items = "[Plain (chars ''x''), ShortArg (chars ''n'') (of_char (CHR ''o'')) (chars ''-f''), LongFlag (chars ''necc''),
      LongEq (chars ''output'') (chars ''g'')]"
  have v: "list_all (valid_cli sample_options) ?items" "m_positional sample_options = []" by code_simp+
  have r: "map chars [''prog'', ''x'', ''-no'', ''-f'', ''--necc'', ''--output=g''] = chars ''prog'' # concat (map written ?items)"
    by code_simp
  show ?thesis unfolding r parse_reads_command_line [OF v] by code_simp
qed

text \<open>
  C32: integers. For types of 8 and 16 bits, signed or not, the decimal digits of a number, with or without a
  sign, are read as that number if it is in the range of the type, and rejected in every other case, a
  negative number for an unsigned type included. For types of 32 and 64 bits numbers without a sign
  are read exactly when they are in range, and a signed type rejects those from the sign bit up to the range
  of the unsigned type; the product that checks larger ones can wrap, and for negative ones the check of the
  library overflows.
\<close>

theorem integer_parser_decimal:
  assumes "w \<in> {8, 16, 32, 64}"
  shows "(n < 2 ^ w \<longrightarrow> integer_parser w False (decimal n) = Inr (int n) \<and>
        integer_parser w True (decimal n) = (if n < 2 ^ (w - 1) then Inr (int n) else Inl (argument_incorrect_type (decimal n)))) \<and>
     (w < 32 \<and> 2 ^ w \<le> n \<longrightarrow> integer_parser w sg (decimal n) = Inl (argument_incorrect_type (decimal n))) \<and>
     (w < 32 \<and> 0 < n \<longrightarrow> integer_parser w sg (dash # decimal n) =
        (if sg \<and> n \<le> 2 ^ (w - 1) then Inr (- int n) else Inl (argument_incorrect_type (dash # decimal n))))"
proof (cases "n = 0")
  case True
  have "integer_pattern (decimal 0) = Some (False, False, [])" by (simp add: integer_pattern_def decimal.simps)
  then show ?thesis using True by (simp add: integer_parser_def)
next
  case False
  have w: "4 \<le> w" "(2 :: nat) ^ w = 2 * 2 ^ (w - 1)" "(0 :: nat) < 2 ^ (w - 1)" using assms by auto
  note d = decimal_digits [of n]
  note p = integer_pattern_decimal [of n]
  note in_range = parse_digits_decimal [OF w(1), of n]
  note too_large = parse_digits_overflow [OF w(1), of n]
  have small: "integer_parser w False (decimal n) = Inr (int n) \<and>
      integer_parser w True (decimal n) = (if n < 2 ^ (w - 1) then Inr (int n) else Inl (argument_incorrect_type (decimal n)))"
    if "n < 2 ^ w"
    using False d p in_range that w(3) by (auto simp: integer_parser_def check_signed_range_def)
  have large: "integer_parser w sg (decimal n) = Inl (argument_incorrect_type (decimal n))" if "w < 32" "2 ^ w \<le> n"
    using False d p too_large that by (simp add: integer_parser_def)
  have neg: "integer_parser w sg (dash # decimal n) =
      (if sg \<and> n \<le> 2 ^ (w - 1) then Inr (- int n) else Inl (argument_incorrect_type (dash # decimal n)))" if l: "w < 32"
  proof (cases "n < 2 ^ w")
    case True
    then show ?thesis using False d p in_range l by (simp add: integer_parser_def check_signed_range_def)
  next
    case gt: False
    then have "\<not> n \<le> 2 ^ (w - 1)" using w(2,3) by linarith
    then show ?thesis using False d p too_large l gt by (simp add: integer_parser_def)
  qed
  show ?thesis using small large neg by blast
qed

theorem integer_parser_decimal_witness:
  "integer_parser 8 True (dash # decimal 128) = Inr (- 128) \<and>
   integer_parser 8 True (decimal 128) = Inl (argument_incorrect_type (decimal 128)) \<and>
   integer_parser 8 True (dash # decimal 129) = Inl (argument_incorrect_type (dash # decimal 129)) \<and>
   integer_parser 32 True (decimal 3000000000) = Inl (argument_incorrect_type (decimal 3000000000))"
  using integer_parser_decimal [of 8 128 True] integer_parser_decimal [of 8 129 True] integer_parser_decimal [of 32 3000000000 True]
  by simp

text \<open>
  For a signed type of 32 or 64 bits every negative number leads to the overflow in the check of the range.
\<close>

lemma integer_parser_negative_overflows:
  assumes "w \<in> {32, 64}" and "0 < n" and "n < 2 ^ w"
  shows "integer_parser w True (dash # decimal n) = Inl signed_overflow"
proof -
  have "4 \<le> w" "32 \<le> w" using assms(1) by auto
  then show ?thesis using assms(2,3) decimal_digits [of n] integer_pattern_decimal(2) [of n] parse_digits_decimal [of w n]
    by (simp add: integer_parser_def check_signed_range_def)
qed

text \<open>
  Where the integer parser goes wrong: the product wraps around before it is compared, so that a number beyond
  32 bits is accepted, and letters are digits, also in a decimal number.
\<close>

theorem integer_parser_wraps:
  "integer_parser 32 False (chars ''5000000000'') = Inr 705032704 \<and>
   integer_parser 32 False (chars ''1a'') = Inr 20 \<and> integer_parser 32 False (chars ''1z'') = Inr 10"
  by (simp add: integer_parser_def integer_pattern_def alnum_def digit_char_def digit_value_def times_base_def
      check_signed_range_def)

text \<open>
  The default of an option with a short and a long name is parsed for each of the names, so that a
  list gets it twice.
\<close>

theorem default_parsed_twice:
  "ebind (option_adder [] (chars ''l,list'') [] (set_default_value (chars ''x'') (mk_value (Vector_t String_t))) [] (mk_options [] []))
     (\<lambda>opts. ebind (opt_parse [chars ''prog''] opts) (\<lambda>(opts, _). ebind (opt_index opts (chars ''list''))
       (as_type (Vector_t String_t)))) = Inr (VecV [StrV (chars ''x''), StrV (chars ''x'')])"
  by code_simp

text \<open>
  The line breaks of a description: a word longer than the line, after a line that was broken at a space, leads
  to a range that ends before it starts.
\<close>

theorem description_breaks_badly:
  "format_description \<lparr>ho_s = [], ho_l = [], ho_desc = chars ''a bcdefghijkl'', ho_has_arg = False, ho_has_default = False,
     ho_default_value = [], ho_has_implicit = False, ho_implicit_value = [], ho_arg_help = [], ho_is_container = False\<rparr> 2 3 = None"
  by code_simp

end
