(* ===== verification/Pipeline.thy ===== *)
theory Pipeline
  imports Traversal Mounter Hashing FileCodec CxxOpts
begin

text \<open>
  The two programs as a whole. The master: \<^verbatim>\<open>main\<close> and \<^verbatim>\<open>run\<close> of \<^verbatim>\<open>master.cpp\<close>, which traverse a
  directory, write the image, append the hashes and add the error correction. The mounter:
  \<^verbatim>\<open>main\<close> of \<^verbatim>\<open>mounter.c\<close>, which recovers the image, checks the hashes and mounts it. Files are
  a map from real paths to contents: what a name leads to, through links and relative parts, is
  looked up at \<open>realpath\<close> of the name. What the two programs take from elsewhere is an argument: the
  parsed command line, the calls \<^verbatim>\<open>nftw\<close> makes, \<^verbatim>\<open>realpath\<close>, which files can be created, whether \<^verbatim>\<open>malloc\<close>
  succeeds, the keyed hash, the keys and answers typed in, and the contents of fresh memory.
\<close>

type_synonym files = "bytes \<rightharpoonup> bytes"

text \<open>Whatever is typed in, the prompt is repeated until the key has at least 4 characters.\<close>

fun get_key :: "bytes list \<Rightarrow> bytes option" where
  "get_key [] = None"
| "get_key (key # keys) = (if length key < 4 then get_key keys else Some key)"

section \<open>The master\<close>

text \<open>The memory a process finds: what its allocations contain and the word behind the polynomial.\<close>

record memory =
  mem_alpha :: "nat \<Rightarrow> int"
  mem_index :: "nat \<Rightarrow> int"
  mem_beyond :: uint32
  mem_block :: "nat \<Rightarrow> int"

text \<open>
  \<^verbatim>\<open>run\<close>: the status of every stage is ignored. The image is opened for writing, which empties it,
  before the first source file is read. If that fails, the writer uses a null stream; if the
  image is itself one of the source files, the writer reads what it is about to write, and if it
  is also the file with the error correction, the encoder does. There is no result then: \<^term>\<open>None\<close>.
  All other source files are read as they were.
\<close>

definition run ::
  "(bytes \<Rightarrow> bytes \<Rightarrow> bytes) \<Rightarrow> memory \<Rightarrow> (bytes \<Rightarrow> ftw_event list) \<Rightarrow> (bytes \<Rightarrow> bytes) \<Rightarrow> (bytes \<Rightarrow> bool) \<Rightarrow>
   bool \<Rightarrow> bytes \<Rightarrow> bytes \<Rightarrow> bytes \<Rightarrow> files \<Rightarrow> (int \<times> files) option" where
  "run hmac m walk realpath can_create ECC root_directory wofs_filename key files = do {
     (root, st) \<leftarrow> traverse (walk root_directory);
     let pre_filename = wofs_filename @ chars ''.necc'';
     let pre_file = realpath pre_filename;
     if \<not> can_create pre_filename then None
     else do {
       image \<leftarrow> imageDFS (\<lambda>p. if realpath p = pre_file then None else files (realpath p))
         (header_count st) (subitems_count st) root;
       (image, _) \<leftarrow> hashAndAppend hmac key DEF_HASH_BLOCK_SIZE image;
       let files = files(pre_file \<mapsto> image);
       if ECC then
         if realpath wofs_filename = pre_file then None
         else do {
           (_, out) \<leftarrow> addReedSolomon (mem_alpha m) (mem_index m) (mem_beyond m) (mem_block m)
             (can_create wofs_filename) (files pre_file);
           Some (0, case out of None \<Rightarrow> files | Some c \<Rightarrow> files(realpath wofs_filename \<mapsto> c))
         }
       else Some (0, files)
     }
   }"

text \<open>The options \<^verbatim>\<open>main\<close> declares.\<close>

definition master_cli :: "option_exception + options" where
  "master_cli =
     ebind (option_adder [] (chars ''o,output'') (chars ''Name of output filename'') (mk_value String_t) []
       (mk_options (chars ''Master'') (chars ''Takes in a directory and outputs an imaged File System''))) (\<lambda>opts.
     ebind (option_adder [] (chars ''p,path'') (chars ''relative path to directory to master'') (mk_value String_t) [] opts) (\<lambda>opts.
     ebind (option_adder [] (chars ''n,necc'') (chars ''No ECC codes'') (mk_value Bool_t) [] opts)
       (option_adder [] (chars ''h,help'') (chars ''Show help'') (mk_value Bool_t) [])))"

text \<open>
  The exit status; every exception ends in the same handler. No option of the master holds an
  integer, so the parser of integers is not reached.
\<close>

definition master_main ::
  "(bytes \<Rightarrow> bytes \<Rightarrow> bytes) \<Rightarrow> memory \<Rightarrow> (bytes \<Rightarrow> ftw_event list) \<Rightarrow> (bytes \<Rightarrow> bytes) \<Rightarrow> (bytes \<Rightarrow> bool) \<Rightarrow>
   (bytes \<Rightarrow> bool) \<Rightarrow> bytes list \<Rightarrow> bytes list \<Rightarrow> files \<Rightarrow> (int \<times> files) option" where
  "master_main hmac m walk realpath can_create exists argv keys files =
     (case ebind master_cli (opt_parse argv) of
        Inl e \<Rightarrow> Some (1, files)
      | Inr (options, argv) \<Rightarrow>
          if opt_count options (chars ''help'') = 1 then Some (1, files)
          else if opt_count options (chars ''output'') \<noteq> 1 then Some (0, files)
          else if opt_count options (chars ''path'') \<noteq> 1 then Some (0, files)
          else do {
            let ECC = (opt_count options (chars ''necc'') \<noteq> 1);
            key \<leftarrow> get_key keys;
            (case ebind (opt_index options (chars ''path'')) as_string of
               Inl e \<Rightarrow> Some (1, files)
             | Inr path \<Rightarrow>
                 if \<not> exists path then Some (0, files)
                 else case ebind (opt_index options (chars ''output'')) as_string of
                   Inl e \<Rightarrow> Some (1, files)
                 | Inr output \<Rightarrow> do {
                     (_, files) \<leftarrow> run hmac m walk realpath can_create ECC path output key files;
                     Some (0, files)
                   })
          })"

section \<open>The mounter\<close>

primrec return_code :: "return_type \<Rightarrow> int" where
  "return_code SUCCESS = 0"
| "return_code ZERO_SIZE = 1"
| "return_code ERR_OPEN = 2"
| "return_code ERR_CREATE = 3"
| "return_code ERR_DECODE = 4"

record mount_options =
  opt_filename :: "bytes option"
  opt_help :: bool
  opt_no_ecc :: bool

datatype mount_outcome = Exited int | Mounted mnt

text \<open>
  The answer to \<^verbatim>\<open>Continue? [y/n]\<close>: its first character, or \<^term>\<open>None\<close> at the end of the input,
  where the program looks at an uninitialised buffer.
\<close>

definition wants_on :: "byte option \<Rightarrow> bool option" where
  "wants_on yn = map_option (\<lambda>c. c = of_char (CHR ''y'')) yn"

text \<open>
  The recovery stage: the name of the file to mount, the files, and whether to go on. It has no
  result if the recovered file is the image itself, through a link, and is overwritten while it
  is read.
\<close>

definition recover ::
  "memory \<Rightarrow> bool \<Rightarrow> (bytes \<Rightarrow> bytes) \<Rightarrow> bool \<Rightarrow> bytes \<Rightarrow> byte option \<Rightarrow> files \<Rightarrow> (bytes \<times> files \<times> bool) option" where
  "recover m can_create realpath no_ecc file_name yn files =
     (if no_ecc then Some (file_name, files, True)
      else if realpath (file_name @ chars ''.rec'') = realpath file_name then None
      else do {
        let outfile = file_name @ chars ''.rec'';
        (rc, out) \<leftarrow> ecc_decode (mem_alpha m) (mem_index m) (mem_beyond m) can_create (files (realpath file_name));
        let files = (case out of None \<Rightarrow> files | Some c \<Rightarrow> files(realpath outfile \<mapsto> c));
        if return_code rc \<noteq> 0 then do {
          go \<leftarrow> wants_on yn;
          Some (outfile, files, go)
        } else Some (outfile, files, True)
      })"

text \<open>
  The stage that opens and verifies the image. A file that is not there leaves a null stream,
  which the check reads from.
\<close>

definition verify ::
  "(uint64 \<Rightarrow> bool) \<Rightarrow> (bytes \<Rightarrow> bytes \<Rightarrow> bytes) \<Rightarrow> bytes \<Rightarrow> (bytes \<Rightarrow> bytes) \<Rightarrow> bytes \<Rightarrow> byte option \<Rightarrow> files \<Rightarrow>
   mount_outcome option" where
  "verify malloc hmac key realpath outfile yn files = do {
     image \<leftarrow> files (realpath outfile);
     checked \<leftarrow> checkHash malloc hmac key DEF_HASH_BLOCK_SIZE (fopen_r image);
     (case checked of
        Inl status \<Rightarrow> Some (Exited status)
      | Inr (hash_correct, _, f) \<Rightarrow> do {
          go \<leftarrow> (if hash_correct = 0 then wants_on yn else Some True);
          Some (if go then Mounted \<lparr>fp = f, image_file_size = of_nat (length image), prev_offset = 0\<rparr>
                else Exited 0)
        })
   }"

definition mounter_main ::
  "(uint64 \<Rightarrow> bool) \<Rightarrow> (bytes \<Rightarrow> bytes \<Rightarrow> bytes) \<Rightarrow> memory \<Rightarrow> bool \<Rightarrow> (bytes \<Rightarrow> bytes) \<Rightarrow> mount_options option \<Rightarrow> bytes list \<Rightarrow>
   byte option \<Rightarrow> byte option \<Rightarrow> files \<Rightarrow> (mount_outcome \<times> files) option" where
  "mounter_main malloc hmac m can_create realpath options keys yn1 yn2 files =
     (case options of
        None \<Rightarrow> Some (Exited 1, files)
      | Some options \<Rightarrow>
          if opt_help options then Some (Exited 0, files)
          else case opt_filename options of
            None \<Rightarrow> Some (Exited 0, files)
          | Some original_path \<Rightarrow>
              if files (realpath original_path) = None then Some (Exited 0, files)
              else do {
                let file_name = realpath original_path;
                key \<leftarrow> get_key keys;
                (outfile, files, go) \<leftarrow> recover m can_create realpath (opt_no_ecc options) file_name yn1 files;
                if \<not> go then Some (Exited 0, files)
                else do {
                  r \<leftarrow> verify malloc hmac key realpath outfile yn2 files;
                  Some (r, files)
                }
              })"

section \<open>The command line of the master\<close>

definition master_opts :: options where
  "master_opts = projr master_cli"

abbreviation master_given :: "cli list \<Rightarrow> string \<Rightarrow> bytes list" where
  "master_given items name \<equiv> given master_opts items (chars name)"

lemma master_opts_eval:
  shows "master_cli = Inr master_opts" and "m_positional master_opts = []"
    and "m_options master_opts = [(chars ''h'', 3), (chars ''help'', 3), (chars ''n'', 2), (chars ''necc'', 2), (chars ''o'', 0),
        (chars ''output'', 0), (chars ''p'', 1), (chars ''path'', 1)]"
    and "objects master_opts = [mk_details (chars ''Name of output filename'') (mk_value String_t),
        mk_details (chars ''relative path to directory to master'') (mk_value String_t),
        mk_details (chars ''No ECC codes'') (mk_value Bool_t), mk_details (chars ''Show help'') (mk_value Bool_t)]"
  by (simp_all add: master_opts_def master_cli_def option_adder_def option_specifier_def add_option_def add_one_option_def
      alnum_def digit_char_def name_char_def mk_options_def Let_def)

lemma master_opts_facts:
  shows "list_all plain_details (objects master_opts)"
    and "\<forall>i\<in>snd ` set (m_options master_opts). i < length (objects master_opts)"
    and "\<forall>d\<in>set (objects master_opts). m_count d = 0"
    and "{chars ''help'', chars ''output'', chars ''path'', chars ''necc''} \<subseteq> fst ` set (m_options master_opts)"
    and "map_of (m_options master_opts) (chars ''output'') = Some 0" and "v_type (m_value (objects master_opts ! 0)) = String_t"
    and "map_of (m_options master_opts) (chars ''path'') = Some 1" and "v_type (m_value (objects master_opts ! 1)) = String_t"
  by (simp_all add: master_opts_eval plain_details_def mk_details_def mk_value_def)

lemma master_parse:
  assumes "list_all (valid_cli master_opts) items"
  shows "\<exists>opts rest. ebind master_cli (opt_parse (prog # concat (map written items))) = Inr (opts, rest) \<and>
     opt_count opts (chars ''help'') = length (master_given items ''help'') \<and>
     opt_count opts (chars ''output'') = length (master_given items ''output'') \<and>
     opt_count opts (chars ''path'') = length (master_given items ''path'') \<and>
     opt_count opts (chars ''necc'') = length (master_given items ''necc'') \<and>
     (\<forall>s. master_given items ''output'' = [s] \<longrightarrow> ebind (opt_index opts (chars ''output'')) as_string = Inr s) \<and>
     (\<forall>s. master_given items ''path'' = [s] \<longrightarrow> ebind (opt_index opts (chars ''path'')) as_string = Inr s)"
proof -
  note mf = master_opts_facts
  from parse_plain_options [OF assms master_opts_eval(2) mf(1-3), of prog] obtain opts where
    o: "opt_parse (prog # concat (map written items)) master_opts = Inr (opts, prog # concat (map plains items))"
    and c: "\<And>name. name \<in> fst ` set (m_options master_opts) \<Longrightarrow> opt_count opts name = length (given master_opts items name)"
    and v: "\<And>name i s. name \<in> fst ` set (m_options master_opts) \<Longrightarrow> map_of (m_options master_opts) name = Some i \<Longrightarrow>
      v_type (m_value (objects master_opts ! i)) = String_t \<Longrightarrow> given master_opts items name = [s] \<Longrightarrow>
      ebind (opt_index opts name) as_string = Inr s"
    by blast
  have k: "chars ''help'' \<in> fst ` set (m_options master_opts)" "chars ''output'' \<in> fst ` set (m_options master_opts)"
    "chars ''path'' \<in> fst ` set (m_options master_opts)" "chars ''necc'' \<in> fst ` set (m_options master_opts)"
    using mf(4) by blast+
  show ?thesis unfolding master_opts_eval(1) ebind_simps o
    using c [OF k(1)] c [OF k(2)] c [OF k(3)] c [OF k(4)] v [OF k(2) mf(5,6)] v [OF k(3) mf(7,8)] by blast
qed

text \<open>A command line that asks for a directory to be mastered.\<close>

definition master_command :: "cli list \<Rightarrow> bool \<Rightarrow> bytes \<Rightarrow> bytes \<Rightarrow> bool" where
  "master_command items ecc out path \<longleftrightarrow> list_all (valid_cli master_opts) items \<and>
     master_given items ''output'' = [out] \<and> master_given items ''path'' = [path] \<and>
     length (master_given items ''help'') \<noteq> 1 \<and> (length (master_given items ''necc'') \<noteq> 1 \<longleftrightarrow> ecc)"

lemma master_main_runs:
  assumes "master_command items ecc out path" and "get_key keys = Some key" and "exists path"
  shows "master_main hmac m walk realpath can_create exists (prog # concat (map written items)) keys files =
     map_option (\<lambda>(_, files). (0, files)) (run hmac m walk realpath can_create ecc path out key files)"
  using master_parse [of items prog] assms
  by (cases "run hmac m walk realpath can_create ecc path out key files") (auto simp: master_main_def master_command_def)

section \<open>From a directory to the mounted image\<close>

text \<open>The directory trees the program can master: names, sizes and counts within its limits.\<close>

definition masterable :: "fsnode \<Rightarrow> bool" where
  "masterable t \<longleftrightarrow> plain_tree t \<and> ok_tree t \<and> hsize t + length (dbytes t) < 2 ^ 31"

definition mastered :: "(bytes \<Rightarrow> bytes \<Rightarrow> bytes) \<Rightarrow> bytes \<Rightarrow> fsnode \<Rightarrow> bytes" where
  "mastered hmac key t = image_of t @ hash_trailer hmac key (image_of t)"

lemma image_of_nonempty: "masterable t \<Longrightarrow> image_of t \<noteq> []"
  using length_image_of [of t] by (cases t) (auto simp: masterable_def)

text \<open>The stages of \<^verbatim>\<open>run\<close> up to the hashes.\<close>

lemma master_stages:
  assumes t: "masterable t" and fs: "holds_at files path t" and p: "parse_name path = fn_name t"
    and hm: "\<And>d. length (hmac key d) = 32"
  shows "\<exists>st H. traverse (events path t) = Some (node_of path t, st) \<and>
     imageDFS files (header_count st) (subitems_count st) (node_of path t) = Some (image_of t) \<and>
     hashAndAppend hmac key DEF_HASH_BLOCK_SIZE (image_of t) = Some (mastered hmac key t, H)"
proof -
  have m: "plain_tree t" "ok_tree t" "hsize t + length (dbytes t) < 2 ^ 31" using t by (auto simp: masterable_def)
  obtain st where st: "traverse (events path t) = Some (node_of path t, st)"
    "sint (header_count st) = int (nnodes t)" "sint (subitems_count st) = int (nsubs t)"
    using traverse_tree_aux [OF m(1) p] m(3) hsize_counts [of t] by auto
  have "imageDFS files (header_count st) (subitems_count st) (node_of path t) = Some (image_of t)"
    using m fs st(2,3) by (intro imageDFS_image_of_aux) auto
  moreover have "length (image_of t) < 2 ^ 31" using m length_image_of [OF m(2)] by simp
  ultimately show ?thesis using st hashAndAppend_aux [of hmac key "image_of t"] hm
    by (auto simp: mastered_def)
qed

lemma length_hash_trailer:
  assumes "\<And>d. length (hmac key d) = 32"
  shows "length (hash_trailer hmac key img) = 32 * length (hash_blocks img) + 4"
proof -
  have "length (concat (map (hmac key) bs)) = 32 * length bs" for bs
    using assms by (induction bs) simp_all
  then show ?thesis by (simp add: hash_trailer_def)
qed

lemma mastered_holds_tree:
  assumes t: "masterable t" and hm: "\<And>d. length (hmac key d) = 32"
  shows "holds_tree (mastered hmac key t) t"
proof -
  have m: "ok_tree t" "length (image_of t) < 2 ^ 31"
    using t length_image_of [of t] by (auto simp: masterable_def)
  have "length (hash_blocks (image_of t)) \<le> length (image_of t)" by (rule length_hash_blocks)
  then show ?thesis using m length_hash_trailer [of hmac key "image_of t"] hm
    by (auto simp: mastered_def intro!: image_of_holds)
qed

text \<open>The files of a tree found at a path.\<close>

fun file_paths :: "bytes \<Rightarrow> fsnode \<Rightarrow> bytes list" where
  "file_paths path (FileN n tm c) = [path]"
| "file_paths path (DirN n tm ts) = concat (map (\<lambda>t. file_paths (path @ slash # fn_name t) t) ts)"

lemma holds_at_cong:
  "holds_at fs path t \<Longrightarrow> (\<And>p. p \<in> set (file_paths path t) \<Longrightarrow> fs' p = fs p) \<Longrightarrow> holds_at fs' path t"
  by (induction path t rule: file_paths.induct) (auto simp: list_all_iff)

text \<open>
  The files the master writes can be created, and are none of those it reads: the image is not in
  the tree, and the file with the error correction is another one.
\<close>

definition output_apart :: "(bytes \<Rightarrow> bytes) \<Rightarrow> (bytes \<Rightarrow> bool) \<Rightarrow> bool \<Rightarrow> bytes \<Rightarrow> bytes \<Rightarrow> fsnode \<Rightarrow> bool" where
  "output_apart realpath can_create ecc out path t \<longleftrightarrow>
     can_create (out @ chars ''.necc'') \<and>
     (\<forall>p \<in> set (file_paths path t). realpath p \<noteq> realpath (out @ chars ''.necc'')) \<and>
     (ecc \<longrightarrow> can_create out \<and> realpath out \<noteq> realpath (out @ chars ''.necc''))"

lemma run_files:
  assumes "masterable t" and "holds_at (\<lambda>p. files (realpath p)) path t" and "parse_name path = fn_name t"
    and "\<And>d. length (hmac key d) = 32" and "walk path = events path t" and "output_apart realpath can_create ecc out path t"
  shows "\<exists>files'. run hmac m walk realpath can_create ecc path out key files = Some (0, files') \<and>
     files' (realpath (out @ chars ''.necc'')) = Some (mastered hmac key t) \<and>
     (ecc \<longrightarrow> files' (realpath out) =
        Some (coded 255 32 (rs_parity 32 120 (mem_alpha m) (mem_index m) (mem_beyond m)) (mastered hmac key t)))"
proof -
  let ?fs = "\<lambda>p. if realpath p = realpath (out @ chars ''.necc'') then None else files (realpath p)"
  have "holds_at ?fs path t" using assms(6) by (intro holds_at_cong [OF assms(2)]) (simp add: output_apart_def)
  then obtain st H where st: "traverse (walk path) = Some (node_of path t, st)"
    "imageDFS ?fs (header_count st) (subitems_count st) (node_of path t) = Some (image_of t)"
    "hashAndAppend hmac key DEF_HASH_BLOCK_SIZE (image_of t) = Some (mastered hmac key t, H)"
    using master_stages [OF assms(1) _ assms(3), of ?fs hmac key] assms(4,5) by auto
  have "mastered hmac key t \<noteq> []" using image_of_nonempty [OF assms(1)] by (simp add: mastered_def)
  with st assms(6) show ?thesis by (auto simp: run_def addReedSolomon_aux Let_def output_apart_def)
qed

text \<open>
  The name of the file to hand to the mounter: without error correction the image keeps the
  name it has between the stages.
\<close>

definition image_name :: "bool \<Rightarrow> bytes \<Rightarrow> bytes" where
  "image_name ecc out = (if ecc then out else out @ chars ''.necc'')"

lemma mounter_mounts:
  fixes c :: bytes
  assumes "masterable t" and hm: "\<And>d. length (hmac key d) = 32" and k: "get_key keys = Some key"
    and f: "files (realpath img) = Some c"
      "if ecc then survivable 255 16 (coded 255 32 (rs_parity 32 120 al ix beyond) (mastered hmac key t)) c
       else c = mastered hmac key t"
    and r: "realpath (realpath img) = realpath img" "ecc \<Longrightarrow> realpath (realpath img @ chars ''.rec'') \<noteq> realpath img"
    and ma: "\<And>n. n \<le> DEF_HASH_BLOCK_SIZE \<Longrightarrow> malloc n"
  shows "\<exists>files' st. mounter_main malloc hmac m True realpath
       (Some \<lparr>opt_filename = Some img, opt_help = False, opt_no_ecc = (\<not> ecc)\<rparr>) keys yn1 yn2 files =
       Some (Mounted st, files') \<and> holds_tree (contents (fp st)) t"
proof -
  have ne: "mastered hmac key t \<noteq> []" using image_of_nonempty [OF assms(1)] by (simp add: mastered_def)
  have "length (image_of t) < 2 ^ 31" using assms(1) length_image_of [of t] by (simp add: masterable_def)
  moreover have "malloc (of_nat (min 1048576 (length (image_of t))))"
    by (intro ma) (simp add: DEF_HASH_BLOCK_SIZE_def word_le_nat_alt unat_of_nat take_bit_nat_eq_self_iff)
  ultimately obtain H g where h: "checkHash malloc hmac key DEF_HASH_BLOCK_SIZE (fopen_r (mastered hmac key t)) = Some (Inr (1, H, g))"
    "contents g = mastered hmac key t" using checkHash_mastered_aux [of hmac key "image_of t" malloc] hm
    by (auto simp: mastered_def)
  show ?thesis
  proof (cases ecc)
    case True
    then show ?thesis using f r k h mastered_holds_tree [OF assms(1), of hmac key] hm ecc_decode_aux [OF ne]
      by (simp add: mounter_main_def recover_def verify_def Let_def)
  next
    case False
    then show ?thesis using f r k h mastered_holds_tree [OF assms(1), of hmac key] hm
      by (simp add: mounter_main_def recover_def verify_def Let_def)
  qed
qed

text \<open>What the mounted file system serves below its mount point.\<close>

lemma served_file:
  assumes "holds_tree (contents (fp st)) t" and "distinct_names t"
    and "(names, FileN n tm c) \<in> set (paths t)" and "list_all path_name names"
    and "unat sz < 2 ^ 31" and "unat off < 2 ^ 63"
  shows "\<exists>st2. mount_read (Some (join_path names)) sz off st =
     Some (int (length (window c (unat off) (unat sz))), window c (unat off) (unat sz), st2)"
  using mount_read_file_aux [of st t "join_path names" n tm c sz off] assms resolve_paths_aux [OF assms(2,3)]
  by (auto simp: strtok_all_join)

lemma served_directory:
  assumes "holds_tree (contents (fp st)) t" and "distinct_names t"
    and "(names, DirN n tm ts) \<in> set (paths t)" and "list_all path_name names"
  shows "\<exists>st2. mount_readdir (join_path names) st = Some (0, dot_entry # dotdot_entry # map fn_name ts, st2)"
proof -
  have "join_path names \<noteq> [slash]"
    using assms(3,4) paths_hd by (cases names) (auto simp: join_path_def path_name_def)
  then show ?thesis using mount_readdir_dir_aux [of st t "join_path names" n tm ts] assms
      resolve_paths_aux [OF assms(2,3)] by (auto simp: strtok_all_join)
qed

text \<open>
  What a mount promises for a tree: whatever operations were served before, a read of any of its
  files at any offset returns that part of the file, and a listing of any of its directories
  gives the entries.
\<close>

definition serves_tree :: "mnt \<Rightarrow> fsnode \<Rightarrow> bool" where
  "serves_tree st t \<longleftrightarrow> (\<forall>st'. fuse_run st st' \<longrightarrow>
     (\<forall>names n tm c. (names, FileN n tm c) \<in> set (paths t) \<longrightarrow> list_all path_name names \<longrightarrow>
        (\<forall>sz off. unat sz < 2 ^ 31 \<longrightarrow> unat off < 2 ^ 63 \<longrightarrow>
          (\<exists>st2. mount_read (Some (join_path names)) sz off st' =
             Some (int (length (window c (unat off) (unat sz))), window c (unat off) (unat sz), st2)))) \<and>
     (\<forall>names n tm ts. (names, DirN n tm ts) \<in> set (paths t) \<longrightarrow> list_all path_name names \<longrightarrow>
        (\<exists>st2. mount_readdir (join_path names) st' =
           Some (0, dot_entry # dotdot_entry # map fn_name ts, st2))))"

lemma holds_tree_serves:
  assumes "holds_tree (contents (fp st)) t" and "distinct_names t"
  shows "serves_tree st t"
proof -
  have "holds_tree (contents (fp st')) t" if "fuse_run st st'" for st'
    using assms(1) fuse_run_contents [OF that] by simp
  then show ?thesis unfolding serves_tree_def using served_file [OF _ assms(2)] served_directory [OF _ assms(2)] by blast
qed

section \<open>Properties\<close>

text \<open>
  C1: the whole way of a directory tree. The master, run with any command line that names an output and
  a directory once, with or without error correction, leaves an image; the mounter run on that image, or with error correction on any
  file that differs from it in at most 16 bytes of each block of 255, with the same key and in
  a process with any other memory, ends in a mounted image; and from then on, whatever operations
  were served before, a read of any file at any offset returns exactly that part of the file
  and a listing of any directory below the mount point gives exactly its entries. The tree has to
  stay within the program's limits: names without separators, files and image below 2 GiB, no
  two entries of a directory with the same name. The output can be created, and the image the
  master writes between its stages is not one of the files it reads, under any name; with error
  correction the recovered image and the image are different files, and buffers of at
  most 1 MiB can be allocated.
\<close>

theorem master_then_mount:
  assumes t: "masterable t" "distinct_names t" and fs: "holds_at (\<lambda>p. files (realpath p)) path t"
    and a: "output_apart realpath can_create ecc out path t"
    and p: "parse_name path = fn_name t" "walk path = events path t" "exists path"
    and c: "master_command items ecc out path"
    and k: "get_key keys = Some key" and hm: "\<forall>d. length (hmac key d) = 32"
    and r: "realpath (realpath (image_name ecc out)) = realpath (image_name ecc out)"
      "ecc \<longrightarrow> realpath (realpath out @ chars ''.rec'') \<noteq> realpath out"
    and ma: "\<forall>n \<le> DEF_HASH_BLOCK_SIZE. malloc n"
  shows "\<exists>files1 image.
     master_main hmac m1 walk realpath can_create exists (prog # concat (map written items)) keys files = Some (0, files1) \<and>
     files1 (realpath (image_name ecc out)) = Some image \<and>
     (\<forall>files1' image'. files1' (realpath (image_name ecc out)) = Some image' \<longrightarrow>
        (if ecc then survivable 255 16 image image' else image' = image) \<longrightarrow>
        (\<exists>files2 st. mounter_main malloc hmac m2 True realpath (Some \<lparr>opt_filename = Some (image_name ecc out), opt_help = False,
           opt_no_ecc = (\<not> ecc)\<rparr>) keys yn1 yn2 files1' = Some (Mounted st, files2) \<and>
         serves_tree st t))"
proof -
  let ?c = "coded 255 32 (rs_parity 32 120 (mem_alpha m1) (mem_index m1) (mem_beyond m1)) (mastered hmac key t)"
  let ?image = "if ecc then ?c else mastered hmac key t"
  obtain files1 where f1: "run hmac m1 walk realpath can_create ecc path out key files = Some (0, files1)"
    "files1 (realpath (out @ chars ''.necc'')) = Some (mastered hmac key t)" "ecc \<longrightarrow> files1 (realpath out) = Some ?c"
    using run_files [where hmac = hmac and key = key and m = m1 and files = files and realpath = realpath and walk = walk, OF t(1) fs p(1) _ p(2) a] hm by blast
  have m: "master_main hmac m1 walk realpath can_create exists (prog # concat (map written items)) keys files = Some (0, files1)"
    using f1(1) master_main_runs [where exists = exists and path = path and items = items, OF c k p(3)] by simp
  have i: "files1 (realpath (image_name ecc out)) = Some ?image" using f1(2,3) by (simp add: image_name_def)
  have "\<exists>files2 st. mounter_main malloc hmac m2 True realpath (Some \<lparr>opt_filename = Some (image_name ecc out),
      opt_help = False, opt_no_ecc = (\<not> ecc)\<rparr>) keys yn1 yn2 files1' = Some (Mounted st, files2) \<and>
      holds_tree (contents (fp st)) t"
    if "files1' (realpath (image_name ecc out)) = Some image'" "if ecc then survivable 255 16 ?image image' else image' = ?image" for files1' image'
    using that hm r ma by (intro mounter_mounts [where al = "mem_alpha m1" and ix = "mem_index m1" and beyond = "mem_beyond m1", OF t(1) _ k])
      (auto simp: image_name_def)
  then show ?thesis using m i holds_tree_serves [OF _ t(2)] by blast
qed

theorem master_then_mount_witness:
  "let path = chars ''/r''; t = DirN (chars ''r'') 5 [FileN (chars ''f'') 7 [1, 2, 3]];
       files = [chars ''/r/f'' \<mapsto> [1, 2, 3]]; m = \<lparr>mem_alpha = \<lambda>_. 7, mem_index = \<lambda>_. -1, mem_beyond = 0, mem_block = \<lambda>_. 3\<rparr>;
       keys = [chars ''abc'', chars ''abcd'']
   in \<exists>files1 image files2 st st2.
     master_main sample_mac m (\<lambda>p. events p t) (\<lambda>p. p) (\<lambda>_. True) (\<lambda>_. True)
       [chars ''master'', chars ''-o'', chars ''/o'', chars ''--path=/r''] keys files = Some (0, files1) \<and> files1 (chars ''/o'') = Some image \<and>
     mounter_main (\<lambda>_. True) sample_mac m True (\<lambda>p. p) (Some \<lparr>opt_filename = Some (chars ''/o''), opt_help = False,
       opt_no_ecc = False\<rparr>) keys None None (files1(chars ''/o'' \<mapsto> image)) = Some (Mounted st, files2) \<and>
     mount_read (Some (chars ''/r/f'')) 5 1 st = Some (2, [2, 3], st2)"
proof -
  let ?t = "DirN (chars ''r'') 5 [FileN (chars ''f'') 7 [1, 2, 3]]"
  let ?fs = "[chars ''/r/f'' \<mapsto> [1, 2, 3]] :: files"
  let ?m = "\<lparr>mem_alpha = \<lambda>_. 7, mem_index = \<lambda>_. -1, mem_beyond = 0, mem_block = \<lambda>_. 3\<rparr> :: memory"
  let ?k = "[chars ''abc'', chars ''abcd''] :: bytes list"
  let ?items = "[ShortArg [] (of_char (CHR ''o'')) (chars ''/o''), LongEq (chars ''path'') (chars ''/r'')]"
  have c: "master_command ?items True (chars ''/o'') (chars ''/r'')"
    by (simp add: master_command_def given_def master_opts_eval arg_option_def details_at_def long_name_def mk_details_def
        mk_value_def value_has_arg_def alnum_def digit_char_def name_char_def)
  have t: "masterable ?t" "distinct_names ?t"
    by (simp_all add: masterable_def plain_name_def ok_name_def)
  have h: "holds_at (\<lambda>p. ?fs p) (chars ''/r'') ?t" by simp
  have a: "output_apart (\<lambda>p. p) (\<lambda>_. True) True (chars ''/o'') (chars ''/r'') ?t" by (simp add: output_apart_def)
  have rec: "True \<longrightarrow> chars ''/o'' @ chars ''.rec'' \<noteq> chars ''/o''" by simp
  have ma: "\<forall>n \<le> DEF_HASH_BLOCK_SIZE. (\<lambda>_. True) n" by simp
  have p: "parse_name (chars ''/r'') = fn_name ?t" using parse_name_child [of "chars ''r''" "[]"]
    by (simp add: plain_name_def ok_name_def)
  have k: "get_key ?k = Some (chars ''abcd'')" by simp
  have mac: "\<forall>d. length (sample_mac (chars ''abcd'') d) = 32" by simp
  from master_then_mount [where hmac = sample_mac and key = "chars ''abcd''" and t = ?t and walk = "\<lambda>p. events p ?t" and exists = "\<lambda>_. True" and realpath = "\<lambda>p. p" and ecc = True
      and can_create = "\<lambda>_. True" and malloc = "\<lambda>_. True" and files = ?fs
      and out = "chars ''/o''" and prog = "chars ''master''" and ?m1.0 = ?m and ?m2.0 = ?m and ?yn1.0 = None and ?yn2.0 = None,
      OF t h a p refl TrueI c k mac refl rec ma]
  obtain files1 image where r:
    "master_main sample_mac ?m (\<lambda>p. events p ?t) (\<lambda>p. p) (\<lambda>_. True) (\<lambda>_. True) (chars ''master'' # concat (map written ?items)) ?k ?fs = Some (0, files1)"
    "files1 (image_name True (chars ''/o'')) = Some image"
    and q: "\<And>files1' image'. files1' (image_name True (chars ''/o'')) = Some image' \<Longrightarrow>
      (if True then survivable 255 16 image image' else image' = image) \<Longrightarrow>
      \<exists>files2 st. mounter_main (\<lambda>_. True) sample_mac ?m True (\<lambda>p. p) (Some \<lparr>opt_filename = Some (image_name True (chars ''/o'')),
        opt_help = False, opt_no_ecc = (\<not> True)\<rparr>) ?k None None files1' = Some (Mounted st, files2) \<and>
        serves_tree st ?t"
    by - (elim exE conjE, rule that, assumption, assumption, blast)
  let ?f = "files1(chars ''/o'' \<mapsto> image)"
  obtain files2 st where m: "mounter_main (\<lambda>_. True) sample_mac ?m True (\<lambda>p. p) (Some \<lparr>opt_filename = Some (image_name True (chars ''/o'')),
        opt_help = False, opt_no_ecc = (\<not> True)\<rparr>) ?k None None ?f = Some (Mounted st, files2)"
    and "serves_tree st ?t"
    using q [of ?f image] by (auto simp: image_name_def)
  then have s: "(names, FileN n tm c) \<in> set (paths ?t) \<Longrightarrow>
      list_all path_name names \<Longrightarrow> unat (sz :: uint64) < 2 ^ 31 \<Longrightarrow> unat (off :: uint64) < 2 ^ 63 \<Longrightarrow>
      \<exists>st2. mount_read (Some (join_path names)) sz off st =
        Some (int (length (window c (unat off) (unat sz))), window c (unat off) (unat sz), st2)" for names n tm c sz off
    using fuse_refl [of st] unfolding serves_tree_def by blast
  obtain st2 where "mount_read (Some (join_path [chars ''r'', chars ''f''])) 5 1 st =
      Some (int (length (window [1, 2, 3 :: byte] 1 5)), window [1, 2, 3] 1 5, st2)"
    using s [of "[chars ''r'', chars ''f'']" "chars ''f''" 7 "[1, 2, 3]" 5 1]
    by (auto simp: path_name_def)
  then show ?thesis unfolding Let_def using r m by (auto simp: window_def join_path_def image_name_def)
qed

text \<open>
  C28: replaced contents are caught before mounting. For an image without error correction, below
  2 GiB, whose contents were replaced by others of the same length while the hashes of the original
  and their number still stand behind them, the mounter run with the key exits with status 0 and
  leaves all files as they are, if the user answers anything but \<^verbatim>\<open>y\<close>, provided no block of the
  new contents has the keyed hash of a different block of the old ones. (A changed number of hashes
  is not caught: see \<open>checkHash\<close> in theory \<open>Hashing\<close>.)
\<close>

theorem mounter_refuses_tampered:
  assumes "\<forall>d. length (hmac key d) = 32" and "length img < 2 ^ 31" and "length img' = length img" and "img' \<noteq> img"
    and "\<forall>b \<in> set (hash_blocks img). \<forall>b' \<in> set (hash_blocks img'). hmac key b' = hmac key b \<longrightarrow> b' = b"
    and "get_key keys = Some key" and "files (realpath name) = Some (img' @ hash_trailer hmac key img)"
    and "realpath (realpath name) = realpath name" and "c \<noteq> of_char (CHR ''y'')"
  shows "mounter_main malloc hmac m can_create realpath (Some \<lparr>opt_filename = Some name, opt_help = False, opt_no_ecc = True\<rparr>)
     keys yn1 (Some c) files = Some (Exited 0, files)"
proof -
  from checkHash_change_aux [where hmac = hmac and key = key, OF assms(1-5)] obtain H f' where
    "checkHash malloc hmac key DEF_HASH_BLOCK_SIZE (fopen_r (img' @ hash_trailer hmac key img)) =
     Some (if malloc (of_nat (min 1048576 (length img))) then Inr (0, H, f') else Inl 0)" by blast
  with assms(6-9) show ?thesis
    by (simp add: mounter_main_def recover_def verify_def wants_on_def)
qed

theorem mounter_refuses_tampered_witness:
  "mounter_main (\<lambda>_. True) sample_mac \<lparr>mem_alpha = \<lambda>_. 7, mem_index = \<lambda>_. -1, mem_beyond = 0, mem_block = \<lambda>_. 3\<rparr> True (\<lambda>p. p)
     (Some \<lparr>opt_filename = Some [111], opt_help = False, opt_no_ecc = True\<rparr>) [[1, 2, 3, 4]] None (Some 110)
     [[111] \<mapsto> [1, 9, 3] @ hash_trailer sample_mac [1, 2, 3, 4] [1, 2, 3]] =
   Some (Exited 0, [[111] \<mapsto> [1, 9, 3] @ hash_trailer sample_mac [1, 2, 3, 4] [1, 2, 3]])"
  by (rule mounter_refuses_tampered [where key = "[1, 2, 3, 4]" and img = "[1, 2, 3]" and img' = "[1, 9, 3]"])
    (simp_all add: hash_blocks_def chunks.simps sample_mac_def byte_at_def upt_rec)

text \<open>
  C29: the master touches no file unless it is told everything it needs: with a command line the
  parser rejects, a request for help, or not exactly one output name and one path, and for a
  path that does not exist, it ends without writing.
\<close>

theorem master_main_refuses:
  assumes "isl (opt_parse argv master_opts) \<or> (\<exists>prog items. argv = prog # concat (map written items) \<and>
      list_all (valid_cli master_opts) items \<and> (length (master_given items ''help'') = 1 \<or>
        length (master_given items ''output'') \<noteq> 1 \<or> length (master_given items ''path'') \<noteq> 1 \<or>
        (\<exists>key. get_key keys = Some key) \<and> \<not> exists (hd (master_given items ''path''))))"
  shows "\<exists>rc. master_main hmac m walk realpath can_create exists argv keys files = Some (rc, files)"
  using assms
proof
  assume "isl (opt_parse argv master_opts)"
  then show ?thesis by (cases "opt_parse argv master_opts") (auto simp: master_main_def master_opts_eval(1))
next
  assume "\<exists>prog items. argv = prog # concat (map written items) \<and>
      list_all (valid_cli master_opts) items \<and> (length (master_given items ''help'') = 1 \<or>
        length (master_given items ''output'') \<noteq> 1 \<or> length (master_given items ''path'') \<noteq> 1 \<or>
        (\<exists>key. get_key keys = Some key) \<and> \<not> exists (hd (master_given items ''path'')))"
  then obtain prog items where i: "argv = prog # concat (map written items)" "list_all (valid_cli master_opts) items"
    and r: "length (master_given items ''help'') = 1 \<or>
        length (master_given items ''output'') \<noteq> 1 \<or> length (master_given items ''path'') \<noteq> 1 \<or>
        (\<exists>key. get_key keys = Some key) \<and> \<not> exists (hd (master_given items ''path''))" by blast
  show ?thesis
  proof (cases "length (master_given items ''path'') = 1")
    case True
    then obtain s where "master_given items ''path'' = [s]" by (cases "master_given items ''path''") auto
    then show ?thesis using master_parse [OF i(2), of prog] r by (auto simp: master_main_def i(1))
  next
    case False
    then show ?thesis using master_parse [OF i(2), of prog] by (auto simp: master_main_def i(1))
  qed
qed

theorem master_main_refuses_witness:
  "\<exists>rc. master_main sample_mac \<lparr>mem_alpha = \<lambda>_. 7, mem_index = \<lambda>_. -1, mem_beyond = 0, mem_block = \<lambda>_. 3\<rparr> (\<lambda>_. [])
     (\<lambda>p. p) (\<lambda>_. True) (\<lambda>_. False) (map chars [''master'', ''--output'', ''x'', ''--nosuch'']) [[1, 2, 3, 4]] Map.empty = Some (rc, Map.empty)"
proof -
  have "isl (opt_parse (map chars [''master'', ''--output'', ''x'', ''--nosuch'']) master_opts)" by code_simp
  then show ?thesis by (intro master_main_refuses disjI1)
qed

end
