(* ===== verification/TreeTool.thy ===== *)
theory TreeTool
  imports ImageFormat
begin

text \<open>
  \<^verbatim>\<open>tree.cpp\<close>: the program that prints the tree of an image. It reads whole header structures
  from a C++ stream, whose fail state is part of the model. The broken-down local time of a time
  stamp comes from \<^verbatim>\<open>localtime\<close>, which depends on the time zone and gives no result for a time whose
  year is not an \<^verbatim>\<open>int\<close>: it is a parameter, as is the room on the stack.
\<close>

section \<open>Input streams\<close>

record fstream =
  st_contents :: bytes
  gpos :: nat
  failed :: bool

text \<open>
  \<^verbatim>\<open>seekg\<close> does nothing on a failed stream; a negative position fails. \<^verbatim>\<open>read\<close> delivers what
  there is and fails the stream when that is less than asked for.
\<close>

definition seekg :: "uint64 \<Rightarrow> fstream \<Rightarrow> fstream" where
  "seekg off f =
     (if failed f then f else if unat off < 2 ^ 63 then f\<lparr>gpos := unat off\<rparr> else f\<lparr>failed := True\<rparr>)"

definition st_read :: "nat \<Rightarrow> fstream \<Rightarrow> bytes \<times> fstream" where
  "st_read n f =
     (if failed f then ([], f)
      else let bs = window (st_contents f) (gpos f) n
           in (bs, f\<lparr>gpos := gpos f + length bs, failed := length bs < n\<rparr>))"

section \<open>Reading headers and offsets\<close>

definition toBigEndian64 :: "uint64 \<Rightarrow> uint64" where
  "toBigEndian64 v = htobe64 v"

definition toBigEndian32 :: "uint32 \<Rightarrow> uint32" where
  "toBigEndian32 v = htobe32 v"

text \<open>
  \<^verbatim>\<open>sizeof(m_hdr)\<close> is 288: the 284 bytes of the fields and four bytes of padding. The fields are
  determined as soon as the first 284 bytes are read.
\<close>

definition tree_readHeader :: "fstream \<Rightarrow> uint64 \<Rightarrow> (m_hdr \<times> fstream) option" where
  "tree_readHeader input offset =
     (let input = seekg offset input;
          (bs, input) = st_read 288 input
      in if length bs < 284 then None
         else Some (\<lparr>hdr_name = window bs 0 256,
                     hdr_length = toBigEndian64 (from_le (window bs 256 8)),
                     hdr_time = toBigEndian64 (from_le (window bs 264 8)),
                     hdr_offset = toBigEndian64 (from_le (window bs 272 8)),
                     hdr_type = toBigEndian32 (from_le (window bs 280 4))\<rparr>, input))"

definition readOffset :: "fstream \<Rightarrow> uint64 \<Rightarrow> (uint64 \<times> fstream) option" where
  "readOffset input offset =
     (let (bs, input) = st_read 8 (seekg offset input)
      in if length bs < 8 then None else Some (toBigEndian64 (from_le bs), input))"

interpretation tree_reader: image_reader tree_readHeader readOffset st_contents "\<lambda>f. \<not> failed f"
proof unfold_locales
  fix s :: fstream and q hr
  assume g: "\<not> failed s" and h: "header_at (st_contents s) q hr"
  let ?c = "st_contents s"
  let ?b = "window ?c (unat q) 288"
  have lim: "unat q + 288 \<le> length ?c" "unat q < 2 ^ 63" using h by (auto simp: header_at_def)
  have w: "window ?c (unat q) (256 + 28) = hdr_name hr @ be64 (hdr_length hr) @ be64 (hdr_time hr) @
      be64 (hdr_offset hr) @ be32 (hdr_type hr)" and ln: "length (hdr_name hr) = 256"
    using h by (auto simp: header_at_def hdr_bytes_def)
  note w1 = window_append_split [OF w ln, simplified]
  note w2 = window_append_split [OF w1(2), of 8, simplified]
  note w3 = window_append_split [OF w2(2), of 8, simplified]
  note w4 = window_append_split [OF w3(2), of 8, simplified]
  have f: "window ?b 0 256 = hdr_name hr" "window ?b 256 8 = be64 (hdr_length hr)"
    "window ?b 264 8 = be64 (hdr_time hr)" "window ?b 272 8 = be64 (hdr_offset hr)"
    "window ?b 280 4 = be32 (hdr_type hr)"
    using w1 w2 w3 w4 by (simp_all add: slice_window add.commute)
  have "tree_readHeader s q = Some (hr, s\<lparr>gpos := unat q + 288\<rparr>)"
    using g lim f by (simp add: tree_readHeader_def seekg_def st_read_def Let_def toBigEndian64_def
        toBigEndian32_def)
  then show "\<exists>hr' s'. tree_readHeader s q = Some (hr', s') \<and> same_hdr hr hr' \<and>
      st_contents s' = st_contents s \<and> \<not> failed s'"
    using g by (simp add: same_hdr_def)
next
  fix s :: fstream and q v :: uint64
  assume "\<not> failed s" "unat q + 8 \<le> length (st_contents s)" "length (st_contents s) < 2 ^ 63"
    "window (st_contents s) (unat q) 8 = be64 v"
  then show "\<exists>s'. readOffset s q = Some (v, s') \<and> st_contents s' = st_contents s \<and> \<not> failed s'"
    by (simp add: readOffset_def seekg_def st_read_def Let_def toBigEndian64_def)
qed

section \<open>Printing\<close>

abbreviation newline :: bytes where "newline \<equiv> [10]"

definition empty_indent :: bytes where "empty_indent = chars ''    ''"
definition child_line :: bytes where "child_line = chars ''|___''"

text \<open>
  \<^verbatim>\<open>trimSpaces\<close>. For a string of spaces \<^verbatim>\<open>last\<close> is \<^verbatim>\<open>npos\<close> and the length argument of
  \<^verbatim>\<open>substr\<close> wraps around; \<^verbatim>\<open>substr\<close> takes at most what there is.
\<close>

definition find_first_not_of :: "byte \<Rightarrow> bytes \<Rightarrow> nat option" where
  "find_first_not_of b s = (let is = filter (\<lambda>i. s ! i \<noteq> b) [0..<length s] in if is = [] then None else Some (hd is))"

definition find_last_not_of :: "byte \<Rightarrow> bytes \<Rightarrow> nat option" where
  "find_last_not_of b s = (let is = filter (\<lambda>i. s ! i \<noteq> b) [0..<length s] in if is = [] then None else Some (last is))"

definition npos :: uint64 where "npos = - 1"

definition trimSpaces :: "bytes \<Rightarrow> bytes" where
  "trimSpaces s =
     (let first = (case find_first_not_of space s of None \<Rightarrow> length s | Some i \<Rightarrow> i);
          last_pos = (case find_last_not_of space s of None \<Rightarrow> npos | Some i \<Rightarrow> of_nat i)
      in window s first (unat (last_pos - of_nat first + 1)))"

definition indent :: "nat \<Rightarrow> bytes" where
  "indent n = concat (replicate n empty_indent)"

text \<open>
  The fields of \<^verbatim>\<open>struct tm\<close> the program prints, and \<^verbatim>\<open>strftime\<close> with its format: the year as it is,
  the other numbers with two digits. The text has at most 26 characters, so the buffer of 30 holds it.
  A null pointer from \<^verbatim>\<open>localtime\<close> is passed on to \<^verbatim>\<open>strftime\<close> and read there: \<^term>\<open>None\<close>.
\<close>

record tm =
  tm_year :: int
  tm_mon :: nat
  tm_mday :: nat
  tm_hour :: nat
  tm_min :: nat
  tm_sec :: nat

definition two_digits :: "nat \<Rightarrow> bytes" where
  "two_digits n = (if n < 10 then chars ''0'' else []) @ decimal n"

definition strftime :: "tm \<Rightarrow> bytes" where
  "strftime d =
     (let year = tm_year d + 1900 in (if year < 0 then chars ''-'' else []) @ decimal (nat \<bar>year\<bar>)) @ chars ''-'' @
     two_digits (tm_mon d + 1) @ chars ''-'' @ two_digits (tm_mday d) @ chars '' '' @
     two_digits (tm_hour d) @ chars '':'' @ two_digits (tm_min d) @ chars '':'' @ two_digits (tm_sec d)"

definition unixTimeToHumanTime :: "(uint64 \<Rightarrow> tm option) \<Rightarrow> uint64 \<Rightarrow> bytes option" where
  "unixTimeToHumanTime localtime time = do {
     datetime \<leftarrow> localtime time;
     Some (strftime datetime)
   }"

text \<open>What the process gives the printer: the local time and the bytes the stack has for an array.\<close>

record tree_env =
  env_localtime :: "uint64 \<Rightarrow> tm option"
  env_stack :: nat

text \<open>
  \<^verbatim>\<open>printHeader\<close>: with the contents flag, the file is read into an array of its length on the stack,
  which is then used as a C string. An array beyond the stack is undefined.
\<close>

definition printHeader ::
  "tree_env \<Rightarrow> bool \<Rightarrow> bool \<Rightarrow> fstream \<Rightarrow> m_hdr \<Rightarrow> nat \<Rightarrow> (bytes \<times> fstream) option" where
  "printHeader env disp_verbose disp_content input hdr depth = do {
     name \<leftarrow> c_str (hdr_name hdr);
     let out = trimSpaces name @ newline;
     human_time \<leftarrow> (if disp_verbose then unixTimeToHumanTime (env_localtime env) (hdr_time hdr) else Some []);
     let out = out @ (if disp_verbose then
            indent depth @ chars '' *Time: '' @ human_time @ newline @
            (if hdr_type hdr = PLAIN_FILE
             then indent depth @ chars '' *Size: '' @ decimal (unat (hdr_length hdr)) @ chars '' B'' @ newline
             else [])
          else []);
     if disp_content \<and> hdr_type hdr = PLAIN_FILE then if unat (hdr_length hdr) > env_stack env then None else do {
       let (buffer, input) = st_read (unat (hdr_length hdr)) (seekg (hdr_offset hdr) input);
       text \<leftarrow> c_str buffer;
       Some (out @ indent depth @ chars '' *Contents: '' @ trimSpaces text @ newline, input)
     } else Some (out, input)
   }"

text \<open>
  \<^verbatim>\<open>print_metadata\<close> follows the offsets of the image, which a damaged image can make circular:
  \<open>fuel\<close> bounds the depth of the recursion and running out of it is the result \<^term>\<open>None\<close>.
  The counter of the loop is a 32-bit number, so a length of \<open>2 ^ 32\<close> or more never ends.
\<close>

fun print_metadata ::
    "nat \<Rightarrow> tree_env \<Rightarrow> bool \<Rightarrow> bool \<Rightarrow> fstream \<Rightarrow> m_hdr \<Rightarrow> nat \<Rightarrow> (bytes \<times> fstream) option"
  and print_children ::
    "nat \<Rightarrow> tree_env \<Rightarrow> bool \<Rightarrow> bool \<Rightarrow> fstream \<Rightarrow> uint64 \<Rightarrow> nat \<Rightarrow> nat \<Rightarrow> nat \<Rightarrow> (bytes \<times> fstream) option"
where
  "print_metadata 0 ht dv dc input hdr depth = None"
| "print_metadata (Suc fuel) ht dv dc input hdr depth = do {
     let out = concat (replicate (depth - 1) empty_indent) @ (if depth > 0 then child_line else []);
     (line, input) \<leftarrow> printHeader ht dv dc input hdr depth;
     let out = out @ line;
     if hdr_type hdr = PLAIN_FILE then Some (out, input)
     else if hdr_type hdr = DIRECTORY then
       if unat (hdr_length hdr) < 2 ^ 32 then do {
         (sub, input) \<leftarrow> print_children fuel ht dv dc input (hdr_offset hdr) depth 0 (unat (hdr_length hdr));
         Some (out @ sub, input)
       } else None
     else Some (out, input)
   }"
| "print_children fuel ht dv dc input init_offset depth i 0 = Some ([], input)"
| "print_children fuel ht dv dc input init_offset depth i (Suc n) = do {
     let next_offset = init_offset + of_nat i * 8;
     (next_header_block, input) \<leftarrow> readOffset input next_offset;
     (sub, input) \<leftarrow> tree_readHeader input next_header_block;
     (out, input) \<leftarrow> print_metadata fuel ht dv dc input sub (depth + 1);
     (rest, input) \<leftarrow> print_children fuel ht dv dc input init_offset depth (i + 1) n;
     Some (out @ rest, input)
   }"

text \<open>\<^verbatim>\<open>main\<close> after the arguments: the flags, the opened image, the exit through the printout.\<close>

datatype tree_exit = Usage_failure | Open_failure | Printed bytes

definition tree_main ::
  "nat \<Rightarrow> tree_env \<Rightarrow> (bytes \<rightharpoonup> bytes) \<Rightarrow> bytes list \<Rightarrow> tree_exit option" where
  "tree_main fuel ht files argv =
     (if length argv < 2 then Some Usage_failure
      else if length argv > 3 then Some Usage_failure
      else do {
        let flag = argv ! 1;
        let disp_verbose = (length argv = 3 \<and> (flag = chars ''-v'' \<or> flag = chars ''-vc''));
        let disp_content = (length argv = 3 \<and> flag = chars ''-vc'');
        let filename = (if length argv = 2 then argv ! 1 else argv ! 2);
        (case files filename of
           None \<Rightarrow> Some Open_failure
         | Some c \<Rightarrow> do {
             let input = seekg 0 \<lparr>st_contents = c, gpos = 0, failed = False\<rparr>;
             (root, input) \<leftarrow> tree_readHeader input 0;
             (out, input) \<leftarrow> print_metadata fuel ht disp_verbose disp_content input root 0;
             Some (Printed out)
           })
      })"

section \<open>The printout of a tree\<close>

definition trimmed :: "bytes \<Rightarrow> bytes" where
  "trimmed s = rev (dropWhile (\<lambda>b. b = space) (rev (dropWhile (\<lambda>b. b = space) s)))"

definition lead :: "nat \<Rightarrow> bytes" where
  "lead depth = concat (replicate (depth - 1) empty_indent) @ (if depth > 0 then child_line else [])"

definition text_of :: "bytes \<Rightarrow> bytes" where
  "text_of c = trimmed (takeWhile (\<lambda>b. b \<noteq> 0) c)"

fun entry_text :: "(uint64 \<Rightarrow> bytes) \<Rightarrow> bool \<Rightarrow> bool \<Rightarrow> nat \<Rightarrow> fsnode \<Rightarrow> bytes" where
  "entry_text ht dv dc depth t = trimmed (fn_name t) @ newline @
     (if dv then indent depth @ chars '' *Time: '' @ ht (fn_time t) @ newline @
        (case t of
           FileN n tm c \<Rightarrow> indent depth @ chars '' *Size: '' @ decimal (length c) @ chars '' B'' @ newline
         | DirN n tm ts \<Rightarrow> [])
      else []) @
     (case t of
        FileN n tm c \<Rightarrow> if dc then indent depth @ chars '' *Contents: '' @ text_of c @ newline else []
      | DirN n tm ts \<Rightarrow> [])"

fun render :: "(uint64 \<Rightarrow> bytes) \<Rightarrow> bool \<Rightarrow> bool \<Rightarrow> nat \<Rightarrow> fsnode \<Rightarrow> bytes" where
  "render ht dv dc depth (FileN n tm c) = lead depth @ entry_text ht dv dc depth (FileN n tm c)"
| "render ht dv dc depth (DirN n tm ts) = lead depth @ entry_text ht dv dc depth (DirN n tm ts) @
     concat (map (render ht dv dc (depth + 1)) ts)"

fun height :: "fsnode \<Rightarrow> nat" where
  "height (FileN n tm c) = 1"
| "height (DirN n tm ts) = Suc (foldr max (map height ts) 0)"

text \<open>
  Every file of the tree contains a NUL, so that its bytes are a C string, and fits on the stack;
  every time of the tree has a local time.
\<close>

fun c_texts :: "nat \<Rightarrow> fsnode \<Rightarrow> bool" where
  "c_texts stack (FileN n tm c) \<longleftrightarrow> 0 \<in> set c \<and> length c \<le> stack"
| "c_texts stack (DirN n tm ts) \<longleftrightarrow> list_all (c_texts stack) ts"

fun shown_times :: "tree_env \<Rightarrow> fsnode \<Rightarrow> bool" where
  "shown_times env (FileN n tm c) \<longleftrightarrow> env_localtime env tm \<noteq> None"
| "shown_times env (DirN n tm ts) \<longleftrightarrow> env_localtime env tm \<noteq> None \<and> list_all (shown_times env) ts"

definition clock :: "tree_env \<Rightarrow> uint64 \<Rightarrow> bytes" where
  "clock env time = strftime (the (env_localtime env time))"

lemma shown_time: "shown_times env t \<Longrightarrow> unixTimeToHumanTime (env_localtime env) (fn_time t) = Some (clock env (fn_time t))"
  by (cases t) (auto simp: unixTimeToHumanTime_def clock_def)

lemma upt_split: "i < n \<Longrightarrow> [0..<n] = [0..<i] @ i # [Suc i..<n]"
  using upt_add_eq_append [of 0 i "n - i"] by (simp add: upt_conv_Cons)

lemma hd_filter_upt:
  assumes "i < n" and "P i" and "\<And>k. k < i \<Longrightarrow> \<not> P k"
  shows "filter P [0..<n] \<noteq> []" and "hd (filter P [0..<n]) = i"
proof -
  have "filter P [0..<i] = []" using assms(3) by (auto simp: filter_empty_conv)
  then show "filter P [0..<n] \<noteq> []" "hd (filter P [0..<n]) = i"
    using upt_split [OF assms(1)] assms(2) by simp_all
qed

lemma last_filter_upt:
  assumes "i < n" and "P i" and "\<And>k. i < k \<Longrightarrow> k < n \<Longrightarrow> \<not> P k"
  shows "last (filter P [0..<n]) = i"
proof -
  have "filter P [Suc i..<n] = []" using assms(3) by (auto simp: filter_empty_conv)
  then show ?thesis using upt_split [OF assms(1)] assms(2) by simp
qed

text \<open>A string with a character other than a space is a core between two runs of spaces.\<close>

lemma trimmed_core:
  assumes "m \<noteq> []" and "hd m \<noteq> space" and "last m \<noteq> space"
  shows "trimmed (replicate i space @ m @ replicate j space) = m"
proof -
  have d: "dropWhile (\<lambda>b. b = space) (replicate n space @ xs) = dropWhile (\<lambda>b. b = space) xs" for n xs
    by (induction n) auto
  have h: "dropWhile (\<lambda>b. b = space) (xs @ ys) = xs @ ys" if "xs \<noteq> []" "hd xs \<noteq> space" for xs ys
    using that by (cases xs) auto
  have "rev m \<noteq> []" "hd (rev m) \<noteq> space" using assms by (auto simp: hd_rev)
  then show ?thesis using assms h [of "rev m" "[]"] by (simp add: trimmed_def d h)
qed

lemma spaces_split:
  assumes "\<not> (\<forall>b \<in> set s. b = space)"
  obtains i m j where "s = replicate i space @ m @ replicate j space" "m \<noteq> []" "hd m \<noteq> space" "last m \<noteq> space"
proof -
  let ?P = "\<lambda>b. b = space"
  let ?d = "dropWhile ?P s"
  let ?m = "rev (dropWhile ?P (rev ?d))"
  have tw: "takeWhile ?P xs = replicate (length (takeWhile ?P xs)) space" for xs :: bytes
    by (induction xs) auto
  have ne: "?d \<noteq> []" using assms by (auto simp: dropWhile_eq_Nil_conv)
  then have hd: "hd ?d \<noteq> space" by (rule hd_dropWhile)
  have "hd ?d \<in> set (rev ?d)" using ne by simp
  then have ne': "dropWhile ?P (rev ?d) \<noteq> []" using hd by (auto simp: dropWhile_eq_Nil_conv)
  have eq: "?d = ?m @ rev (takeWhile ?P (rev ?d))"
    by (metis rev_append rev_rev_ident takeWhile_dropWhile_id)
  then have "hd ?m = hd ?d" using ne' by (metis hd_append2 rev_is_Nil_conv)
  moreover have "last ?m \<noteq> space" using hd_dropWhile [OF ne'] ne' by (simp add: last_rev)
  moreover have "s = replicate (length (takeWhile ?P s)) space @ ?m @
      replicate (length (takeWhile ?P (rev ?d))) space"
    using eq tw [of s] tw [of "rev ?d"] by (metis rev_replicate takeWhile_dropWhile_id)
  ultimately show thesis using that ne' hd by (metis rev_is_Nil_conv)
qed

lemma trimSpaces_eq:
  assumes "length s < 2 ^ 63"
  shows "trimSpaces s = trimmed s"
proof (cases "\<forall>b \<in> set s. b = space")
  case True
  then have fl: "filter (\<lambda>i. s ! i \<noteq> space) [0..<length s] = []" by (auto simp: filter_empty_conv)
  have dw: "dropWhile (\<lambda>b. b = space) s = []" using True by (simp add: dropWhile_eq_Nil_conv)
  have "trimmed s = []" unfolding trimmed_def dw by simp
  with fl show ?thesis
    by (simp add: trimSpaces_def find_first_not_of_def find_last_not_of_def window_def)
next
  case False
  then obtain i m j where s: "s = replicate i space @ m @ replicate j space"
    and m: "m \<noteq> []" "hd m \<noteq> space" "last m \<noteq> space" by (rule spaces_split)
  obtain k where k: "length m = Suc k" using m by (cases m) auto
  let ?P = "\<lambda>k. s ! k \<noteq> space" and ?l = "i + k"
  have len: "length s = i + length m + j" using s by simp
  have Pi: "i < length s" "?P i" using m len s by (auto simp: nth_append hd_conv_nth)
  have lt: "\<not> ?P k" if "k < i" for k using that s by (simp add: nth_append)
  have Pl: "?l < length s" "?P ?l"
    using m len s k by (auto simp: nth_append last_conv_nth)
  have gt: "\<not> ?P k" if "?l < k" "k < length s" for k
  proof -
    have "i + length m \<le> k" "k - i - length m < j" using that k len by simp_all
    moreover from this(1) have "\<not> k - i < length m" "\<not> k < i" by simp_all
    ultimately show ?thesis using s by (simp add: nth_append)
  qed
  have f: "find_first_not_of space s = Some i"
    using hd_filter_upt [of i "length s" ?P] Pi lt by (simp add: find_first_not_of_def Let_def)
  have l: "find_last_not_of space s = Some ?l"
    using last_filter_upt [of ?l "length s" ?P] hd_filter_upt(1) [of i "length s" ?P] Pi lt Pl gt
    by (simp add: find_last_not_of_def Let_def)
  have "(of_nat ?l :: uint64) - of_nat i + 1 = of_nat (length m)"
    using k by simp
  moreover have "unat (of_nat (length m) :: uint64) = length m"
    using assms len by (simp add: unat_of_nat_small)
  ultimately have "trimSpaces s = window s i (length m)" by (simp add: trimSpaces_def f l)
  also have "\<dots> = m" using s by (simp add: window_def)
  finally show ?thesis using trimmed_core [OF m] s by simp
qed

section \<open>print\_metadata prints the tree\<close>

lemma printHeader_eq:
  assumes t: "node_ok (st_contents f) hr t" "length (fn_name t) < 2 ^ 63" and c: "dv \<longrightarrow> shown_times env t" "dc \<longrightarrow> c_texts (env_stack env) t"
    and g: "\<not> failed f"
  shows "\<exists>f'. printHeader env dv dc f hr depth = Some (entry_text (clock env) dv dc depth t, f') \<and>
     st_contents f' = st_contents f \<and> \<not> failed f'"
proof (cases t)
  case (FileN n tm c)
  let ?text = "takeWhile (\<lambda>b. b \<noteq> 0) c"
  have tm: "dv \<longrightarrow> unixTimeToHumanTime (env_localtime env) (hdr_time hr) = Some (clock env tm)"
    using t(1) FileN shown_time [of env t] c(1) by simp
  have len: "unat (hdr_length hr) = length c" "length c < 2 ^ 63" "unat (hdr_offset hr) < 2 ^ 63"
    using t(1) FileN by (auto simp: unat_of_nat_small)
  have w: "window (st_contents f) (unat (hdr_offset hr)) (length c) = c" using t(1) FileN by simp
  have rd: "st_read (unat (hdr_length hr)) (seekg (hdr_offset hr) f) =
      (c, f\<lparr>gpos := unat (hdr_offset hr) + length c\<rparr>)"
    using g len w by (simp add: st_read_def seekg_def Let_def)
  have "length ?text < 2 ^ 63" using len(2) length_takeWhile_le [of "\<lambda>b. b \<noteq> 0" c] by linarith
  then have tr: "trimSpaces ?text = text_of c" by (simp add: text_of_def trimSpaces_eq)
  show ?thesis
  proof (cases dc)
    case True
    then have "c_str c = Some ?text" "length c \<le> env_stack env" using c(2) FileN by (simp_all add: c_str_def)
    with True FileN t len(1) rd tr g tm show ?thesis by (simp add: printHeader_def trimSpaces_eq)
  qed (use FileN t len(1) g tm in \<open>simp add: printHeader_def trimSpaces_eq\<close>)
next
  case (DirN n tm ts)
  have "dv \<longrightarrow> unixTimeToHumanTime (env_localtime env) (hdr_time hr) = Some (clock env tm)"
    using t(1) DirN shown_time [of env t] c(1) by simp
  with DirN t g show ?thesis by (simp add: printHeader_def trimSpaces_eq PLAIN_FILE_def DIRECTORY_def)
qed

lemma height_child: "t \<in> set ts \<Longrightarrow> height t < height (DirN n tm ts)"
  by (induction ts) (auto simp: less_Suc_eq_le le_max_iff_disj)

lemma print_children_correct:
  assumes IH: "\<And>u f hr depth. u \<in> set ts \<Longrightarrow> \<not> failed f \<Longrightarrow> node_ok (st_contents f) hr u \<Longrightarrow>
      \<exists>f'. print_metadata fuel env dv dc f hr depth = Some (render (clock env) dv dc depth u, f') \<and>
        st_contents f' = st_contents f \<and> \<not> failed f'"
    and g: "\<not> failed f" and d: "node_ok (st_contents f) hr (DirN nm tm ts)" and i: "i + n = length ts"
  shows "\<exists>f'. print_children fuel env dv dc f (hdr_offset hr) depth i n =
      Some (concat (map (render (clock env) dv dc (depth + 1)) (drop i ts)), f') \<and>
     st_contents f' = st_contents f \<and> \<not> failed f'"
  using g d i
proof (induction n arbitrary: f i)
  case (Suc n)
  then have i: "i < length ts" by simp
  from tree_reader.child_header [OF Suc.prems(1,2) i] obtain q f1 cr f2 where
    rd: "readOffset f (hdr_offset hr + of_nat i * 8) = Some (q, f1)" "tree_readHeader f1 q = Some (cr, f2)"
    and cr: "node_ok (st_contents f) cr (ts ! i)" "st_contents f2 = st_contents f" "\<not> failed f2" by blast
  have u: "ts ! i \<in> set ts" "node_ok (st_contents f2) cr (ts ! i)" using i cr by simp_all
  from IH [OF u(1) cr(3) u(2), of "depth + 1"] obtain f3 where
    f3: "print_metadata fuel env dv dc f2 cr (depth + 1) = Some (render (clock env) dv dc (depth + 1) (ts ! i), f3)"
      "st_contents f3 = st_contents f2" "\<not> failed f3" by blast
  have "node_ok (st_contents f3) hr (DirN nm tm ts)" using Suc.prems(2) cr(2) f3(2) by simp
  from Suc.IH [OF f3(3) this, of "Suc i"] Suc.prems(3) obtain f4 where
    "print_children fuel env dv dc f3 (hdr_offset hr) depth (Suc i) n =
      Some (concat (map (render (clock env) dv dc (depth + 1)) (drop (Suc i) ts)), f4)"
    "st_contents f4 = st_contents f3" "\<not> failed f4" by auto
  moreover have "drop i ts = ts ! i # drop (Suc i) ts" using i by (simp add: Cons_nth_drop_Suc)
  ultimately show ?case using rd cr(2) f3 by simp
qed simp

lemma print_metadata_correct:
  assumes "ok_tree t" and "height t \<le> fuel" and "\<not> failed f" and "node_ok (st_contents f) hr t"
    and "dv \<longrightarrow> shown_times env t" and "dc \<longrightarrow> c_texts (env_stack env) t"
  shows "\<exists>f'. print_metadata fuel env dv dc f hr depth = Some (render (clock env) dv dc depth t, f') \<and>
     st_contents f' = st_contents f \<and> \<not> failed f'"
  using assms
proof (induction t arbitrary: fuel f hr depth)
  case (FileN n tm c)
  then obtain k where k: "fuel = Suc k" by (cases fuel) auto
  have "length (fn_name (FileN n tm c)) < 2 ^ 63" using FileN.prems(1) by (simp add: ok_name_def)
  from printHeader_eq [OF FileN.prems(4) this FileN.prems(5,6,3), of depth] FileN.prems(4)
  show ?case by (auto simp: k lead_def)
next
  case (DirN n tm ts)
  then obtain k where k: "fuel = Suc k" by (cases fuel) auto
  have "length (fn_name (DirN n tm ts)) < 2 ^ 63" using DirN.prems(1) by (simp add: ok_name_def)
  from printHeader_eq [OF DirN.prems(4) this DirN.prems(5,6,3), of depth] obtain f1 where
    ph: "printHeader env dv dc f hr depth = Some (entry_text (clock env) dv dc depth (DirN n tm ts), f1)"
      "st_contents f1 = st_contents f" "\<not> failed f1" by blast
  have l: "unat (hdr_length hr) = length ts" "length ts < 2 ^ 32"
    using DirN.prems(4) by (auto simp: unat_of_nat_small)
  have ty: "hdr_type hr = DIRECTORY" "DIRECTORY \<noteq> PLAIN_FILE"
    using DirN.prems(4) by (simp_all add: DIRECTORY_def PLAIN_FILE_def)
  have n1: "node_ok (st_contents f1) hr (DirN n tm ts)" using DirN.prems(4) ph(2) by simp
  have "\<exists>f'. print_children k env dv dc f1 (hdr_offset hr) depth 0 (length ts) =
      Some (concat (map (render (clock env) dv dc (depth + 1)) (drop 0 ts)), f') \<and>
     st_contents f' = st_contents f1 \<and> \<not> failed f'"
  proof (rule print_children_correct [OF _ ph(3) n1])
    fix u f' hr' depth'
    assume u: "u \<in> set ts" and "\<not> failed (f' :: fstream)" "node_ok (st_contents f') hr' u"
    moreover have "ok_tree u" "dv \<longrightarrow> shown_times env u" "dc \<longrightarrow> c_texts (env_stack env) u" using DirN.prems(1,5,6) u by (simp_all add: list_all_iff)
    moreover have "height u \<le> k" using height_child [OF u, of n tm] DirN.prems(2) k by simp
    ultimately show "\<exists>f''. print_metadata k env dv dc f' hr' depth' = Some (render (clock env) dv dc depth' u, f'') \<and>
        st_contents f'' = st_contents f' \<and> \<not> failed f''" using DirN.IH [OF u] by blast
  qed simp
  then show ?case using ph l ty by (auto simp: k lead_def)
qed

text \<open>
  Without a NUL in the file, the array of its bytes is no C string: with the contents flag the
  printer reads past the end of the array.
\<close>

theorem printHeader_unterminated:
  assumes "node_ok (st_contents f) hr (FileN n tm c)" and "0 \<notin> set c" and "\<not> failed f"
  shows "printHeader env dv True f hr depth = None"
proof -
  have "unat (hdr_length hr) = length c" "unat (hdr_offset hr) < 2 ^ 63"
    using assms(1) by (auto simp: unat_of_nat_small)
  moreover have "c_str c = None" using assms(2) by (simp add: c_str_def)
  ultimately show ?thesis
    using assms(1,3) by (simp add: printHeader_def st_read_def seekg_def Let_def)
qed

section \<open>Properties\<close>

text \<open>
  C31: the program, started with one argument, or with \<^verbatim>\<open>-v\<close> or \<^verbatim>\<open>-vc\<close> and a file name,
  prints the rendering of the tree the image holds: with either flag the times, provided \<^verbatim>\<open>localtime\<close>
  gives a result for each of them, and with \<^verbatim>\<open>-vc\<close> also the contents of the files, provided each
  contains a NUL and fits on the stack. A recursion depth of the tree's height is enough.
\<close>

theorem tree_main_prints:
  assumes "ok_tree t" and "holds_tree img t" and "height t \<le> fuel" and "files name = Some img"
    and args: "argv = [prog, name] \<and> \<not> dv \<and> \<not> dc \<or> argv = [prog, chars ''-v'', name] \<and> dv \<and> \<not> dc \<and> shown_times env t \<or>
      argv = [prog, chars ''-vc'', name] \<and> dv \<and> dc \<and> shown_times env t \<and> c_texts (env_stack env) t"
  shows "tree_main fuel env files argv = Some (Printed (render (clock env) dv dc 0 t))"
proof -
  let ?f = "\<lparr>st_contents = img, gpos = 0, failed = False\<rparr>"
  from tree_reader.root_header [of ?f t] assms(2) obtain hr f1 where
    h: "tree_readHeader ?f 0 = Some (hr, f1)" "node_ok img hr t" "st_contents f1 = img" "\<not> failed f1"
    by auto
  have "node_ok (st_contents f1) hr t" "dv \<longrightarrow> shown_times env t" "dc \<longrightarrow> c_texts (env_stack env) t" using h args by auto
  from print_metadata_correct [OF assms(1,3) h(4) this, of 0] obtain f2 where
    "print_metadata fuel env dv dc f1 hr 0 = Some (render (clock env) dv dc 0 t, f2)" by blast
  then show ?thesis using assms(4) args h(1) by (auto simp: tree_main_def Let_def seekg_def)
qed

definition sample_env :: tree_env where
  "sample_env = \<lparr>env_localtime = \<lambda>tm. if tm < 60 then Some \<lparr>tm_year = 70, tm_mon = 0, tm_mday = 1, tm_hour = 0, tm_min = 0,
     tm_sec = unat tm\<rparr> else None, env_stack = 8000000\<rparr>"

theorem tree_main_prints_witness:
  "tree_main 2 sample_env [[105] \<mapsto> image_of (DirN [114] 5 [FileN [97] 16 [66, 0]]) @ [0, 0, 0, 0]]
       [[], chars ''-vc'', [105]] =
     Some (Printed (chars ''r'' @ newline @ chars '' *Time: 1970-01-01 00:00:05'' @ newline @
       chars ''|___a'' @ newline @ chars ''     *Time: 1970-01-01 00:00:16'' @ newline @ chars ''     *Size: 2 B'' @ newline @
       chars ''     *Contents: B'' @ newline))"
proof -
  let ?t = "DirN [114] 5 [FileN [97] 16 [66, 0]]"
  have ok: "ok_tree ?t" by (simp add: ok_name_def)
  have "length (image_of ?t) = 578" using length_image_of [OF ok] by simp
  then have holds: "holds_tree (image_of ?t @ [0, 0, 0, 0]) ?t" by (intro image_of_holds [OF ok]) simp_all
  have sh: "shown_times sample_env ?t" "c_texts (env_stack sample_env) ?t" by (simp_all add: sample_env_def)
  have cl: "clock sample_env 5 = chars ''1970-01-01 00:00:05''" "clock sample_env 16 = chars ''1970-01-01 00:00:16''"
    by (simp_all add: clock_def sample_env_def strftime_def two_digits_def decimal.simps)
  have "render (clock sample_env) True True 0 ?t = chars ''r'' @ newline @ chars '' *Time: 1970-01-01 00:00:05'' @ newline @
       chars ''|___a'' @ newline @ chars ''     *Time: 1970-01-01 00:00:16'' @ newline @ chars ''     *Size: 2 B'' @ newline @
       chars ''     *Contents: B'' @ newline"
    by (simp add: lead_def trimmed_def text_of_def child_line_def indent_def empty_indent_def cl
        decimal.simps [of 2] numeral_2_eq_2 [symmetric])
  with tree_main_prints [OF ok holds, of 2 "[[105] \<mapsto> image_of ?t @ [0, 0, 0, 0]]" "[105]"
      "[[], chars ''-vc'', [105]]" "[]" True True sample_env] sh
  show ?thesis by simp
qed

end
