(* ===== verification/Generate.thy ===== *)
theory Generate
  imports ImageFormat
begin

text \<open>
  \<^verbatim>\<open>generate.cpp\<close>: the generator of three hand-laid test images. A header it builds holds 255
  name bytes; \<^verbatim>\<open>writeHeader\<close> adds the terminating NUL. The output stream is written front to
  back, so its state is the bytes written so far.
\<close>

section \<open>Headers\<close>

text \<open>Copying a name of more than 255 bytes over the buffer is undefined.\<close>

definition createHeader :: "bytes \<Rightarrow> file_type \<Rightarrow> uint64 \<Rightarrow> uint64 \<Rightarrow> uint64 \<Rightarrow> m_hdr option" where
  "createHeader str ty len tm off =
     (if length str \<le> 255
      then let buffer = replicate 255 space;
               buffer = str @ drop (length str) buffer
           in Some \<lparr>hdr_name = buffer, hdr_length = len, hdr_time = tm, hdr_offset = off, hdr_type = ty\<rparr>
      else None)"

definition os_write :: "bytes \<Rightarrow> bytes \<Rightarrow> bytes" where
  "os_write bs output = output @ bs"

text \<open>The time is written as it is in memory, the other numbers in big-endian order.\<close>

definition writeHeader :: "m_hdr \<Rightarrow> bytes \<Rightarrow> bytes" where
  "writeHeader header output =
     (let output = os_write (take 255 (hdr_name header)) output;
          output = os_write [0] output;
          output = os_write (le_bytes 8 (htobe64 (hdr_length header))) output;
          output = os_write (le_bytes 8 (hdr_time header)) output;
          output = os_write (le_bytes 8 (htobe64 (hdr_offset header))) output;
          output = os_write (le_bytes 4 (htobe32 (hdr_type header))) output
      in output)"

section \<open>The test images\<close>

text \<open>
  Whether the output file could be opened is an argument. The result is the file written, or on the
  left side what is printed instead.
\<close>

definition m_hdrSize :: uint64 where "m_hdrSize = 284"

definition createTest1 :: "bool \<Rightarrow> (bytes + bytes) option" where
  "createTest1 is_open = do {
     root_ptr \<leftarrow> createHeader (chars ''root'') DIRECTORY 1 0 m_hdrSize;
     let offset0 = 8 + m_hdrSize;
     let file_offset = 2 * m_hdrSize + 8;
     file_ptr \<leftarrow> createHeader (chars ''test.txt'') PLAIN_FILE 11 0 file_offset;
     if \<not> is_open then Some (Inl (chars ''fail'' @ [10]))
     else do {
       let output = [];
       let output = writeHeader root_ptr output;
       let output = os_write (le_bytes 8 (htobe64 offset0)) output;
       let output = writeHeader file_ptr output;
       let output = os_write (chars ''I am a file'') output;
       Some (Inr output)
     }
   }"

definition createTest2 :: "bool \<Rightarrow> (bytes + bytes) option" where
  "createTest2 is_open = do {
     let file1Size = 16;
     let file2Size = 16;
     root_ptr \<leftarrow> createHeader (chars ''root'') DIRECTORY 2 0 m_hdrSize;
     let endArrayOffset = 2 * 8 + m_hdrSize;
     let offset0 = endArrayOffset;
     let offset1 = endArrayOffset + m_hdrSize;
     let endHeadersOffset = endArrayOffset + 2 * m_hdrSize;
     file_ptr \<leftarrow> createHeader (chars ''a.txt'') PLAIN_FILE file1Size 0 endHeadersOffset;
     file_ptr2 \<leftarrow> createHeader (chars ''b.txt'') PLAIN_FILE file2Size 0 (endHeadersOffset + file1Size);
     if \<not> is_open then Some (Inl (chars ''fail'' @ [10]))
     else do {
       let output = [];
       let output = writeHeader root_ptr output;
       let output = os_write (le_bytes 8 (htobe64 offset0)) output;
       let output = os_write (le_bytes 8 (htobe64 offset1)) output;
       let output = writeHeader file_ptr output;
       let output = writeHeader file_ptr2 output;
       let output = os_write (chars ''I am a file     '') output;
       let output = os_write (chars ''ryan            '') output;
       Some (Inr output)
     }
   }"

definition createTest3 :: "bool \<Rightarrow> (bytes + bytes) option" where
  "createTest3 is_open = do {
     let file1Size = 16;
     let numSubDirectories = 1;
     root_ptr \<leftarrow> createHeader (chars ''root'') DIRECTORY numSubDirectories 0 m_hdrSize;
     let endArrayOffset = 8 + m_hdrSize;
     let offset0 = endArrayOffset;
     let endHeadersOffset = endArrayOffset + m_hdrSize;
     sub_dir_ptr \<leftarrow> createHeader (chars ''Desktop'') DIRECTORY 1 0 endHeadersOffset;
     let desktop_offset0 = endHeadersOffset + 8;
     let file1Offset = endHeadersOffset + 8 + m_hdrSize;
     file_ptr \<leftarrow> createHeader (chars ''hw.txt'') PLAIN_FILE file1Size 0 file1Offset;
     if \<not> is_open then Some (Inl (chars ''fail'' @ [10]))
     else do {
       let output = [];
       let output = writeHeader root_ptr output;
       let output = os_write (le_bytes 8 (htobe64 offset0)) output;
       let output = writeHeader sub_dir_ptr output;
       let output = os_write (le_bytes 8 (htobe64 desktop_offset0)) output;
       let output = writeHeader file_ptr output;
       let output = os_write (chars ''Important hw!!!!'') output;
       Some (Inr output)
     }
   }"

section \<open>What a generated header says\<close>

definition spaced :: "bytes \<Rightarrow> bytes" where
  "spaced s = s @ replicate (255 - length s) space"

lemma createHeader_eq:
  "length str \<le> 255 \<Longrightarrow> createHeader str ty len tm off =
     Some \<lparr>hdr_name = spaced str, hdr_length = len, hdr_time = tm, hdr_offset = off, hdr_type = ty\<rparr>"
  by (simp add: createHeader_def spaced_def Let_def)

lemma length_spaced [simp]: "length s \<le> 255 \<Longrightarrow> length (spaced s) = 255"
  by (simp add: spaced_def)

lemma be64_htobe64: "be64 (htobe64 w) = le_bytes 8 w"
  using le_bytes_htobe64 [of "htobe64 w"] by simp

lemma writeHeader_eq:
  "length (hdr_name h) = 255 \<Longrightarrow> writeHeader h output = output @
     hdr_bytes (hdr_name h @ [0]) (hdr_length h) (htobe64 (hdr_time h)) (hdr_offset h) (hdr_type h)"
  by (simp add: writeHeader_def os_write_def hdr_bytes_def Let_def be64_htobe64)

lemma of_nat_unat_le: "(of_nat k :: uint64) = q \<Longrightarrow> k < 2 ^ 63 \<Longrightarrow> unat q = k"
  by (auto simp: unat_of_nat_small)

text \<open>
  The generated images put a header where the image has its 284 bytes, with four more bytes
  behind it.
\<close>

lemma header_at_spaced:
  assumes "img = pre @ hdr_bytes (spaced n @ [0]) len tm off ty @ post" and "length pre = unat q"
    and "length n \<le> 255" and "4 \<le> length post" and "length img < 2 ^ 63"
  shows "header_at img q \<lparr>hdr_name = spaced n @ [0], hdr_length = len, hdr_time = tm, hdr_offset = off, hdr_type = ty\<rparr>"
  using assms window_at [of pre "unat q" "hdr_bytes (spaced n @ [0]) len tm off ty" 284 post]
  by (simp add: header_at_def)

lemma c_str_spaced: "0 \<notin> set n \<Longrightarrow> c_str (spaced n @ [0]) = Some (spaced n)"
  by (rule c_str_nul) (simp add: spaced_def)

definition tree1 :: fsnode where
  "tree1 = DirN (spaced (chars ''root'')) 0 [FileN (spaced (chars ''test.txt'')) 0 (chars ''I am a file'')]"

definition tree2 :: fsnode where
  "tree2 = DirN (spaced (chars ''root'')) 0
     [FileN (spaced (chars ''a.txt'')) 0 (chars ''I am a file     ''),
      FileN (spaced (chars ''b.txt'')) 0 (chars ''ryan            '')]"

definition tree3 :: fsnode where
  "tree3 = DirN (spaced (chars ''root'')) 0
     [DirN (spaced (chars ''Desktop'')) 0 [FileN (spaced (chars ''hw.txt'')) 0 (chars ''Important hw!!!!'')]]"

abbreviation ghdr :: "bytes \<Rightarrow> uint64 \<Rightarrow> uint64 \<Rightarrow> file_type \<Rightarrow> m_hdr" where
  "ghdr n len off ty \<equiv> \<lparr>hdr_name = spaced n @ [0], hdr_length = len, hdr_time = 0, hdr_offset = off, hdr_type = ty\<rparr>"

abbreviation gbytes :: "bytes \<Rightarrow> uint64 \<Rightarrow> uint64 \<Rightarrow> file_type \<Rightarrow> bytes" where
  "gbytes n len off ty \<equiv> hdr_bytes (spaced n @ [0]) len 0 off ty"

lemma htobe64_0 [simp]: "htobe64 0 = 0"
  by (simp add: htobe64_def le_bytes_def upt_rec)

lemma createTest1_eq:
  "createTest1 True = Some (Inr (gbytes (chars ''root'') 1 284 DIRECTORY @ be64 292 @
     gbytes (chars ''test.txt'') 11 576 PLAIN_FILE @ chars ''I am a file''))"
  by (simp add: createTest1_def createHeader_eq writeHeader_eq os_write_def m_hdrSize_def Let_def)

lemma createTest2_eq:
  "createTest2 True = Some (Inr (gbytes (chars ''root'') 2 284 DIRECTORY @ be64 300 @ be64 584 @
     gbytes (chars ''a.txt'') 16 868 PLAIN_FILE @ gbytes (chars ''b.txt'') 16 884 PLAIN_FILE @
     chars ''I am a file     '' @ chars ''ryan            ''))"
  by (simp add: createTest2_def createHeader_eq writeHeader_eq os_write_def m_hdrSize_def Let_def)

lemma createTest3_eq:
  "createTest3 True = Some (Inr (gbytes (chars ''root'') 1 284 DIRECTORY @ be64 292 @
     gbytes (chars ''Desktop'') 1 576 DIRECTORY @ be64 584 @
     gbytes (chars ''hw.txt'') 16 868 PLAIN_FILE @ chars ''Important hw!!!!''))"
  by (simp add: createTest3_def createHeader_eq writeHeader_eq os_write_def m_hdrSize_def Let_def)

lemma length_gbytes: "length n \<le> 255 \<Longrightarrow> length (gbytes n len off ty) = 284"
  by simp

text \<open>
  The layouts with the file contents left open; \<open>a\<close>, \<open>b\<close> and \<open>c\<close> stand for the headers.
\<close>

lemma layout1_holds:
  assumes l: "length a = 284" "length b = 284" "length d = 11"
    and ha: "a = gbytes (chars ''root'') 1 284 DIRECTORY"
    and hb: "b = gbytes (chars ''test.txt'') 11 576 PLAIN_FILE"
  shows "holds_tree (a @ be64 292 @ b @ d)
     (DirN (spaced (chars ''root'')) 0 [FileN (spaced (chars ''test.txt'')) 0 d])"
proof -
  let ?img = "a @ be64 292 @ b @ d"
  have "header_at ?img 292 (ghdr (chars ''test.txt'') 11 576 PLAIN_FILE)"
    by (rule header_at_spaced [of _ "a @ be64 292" _ _ _ _ _ d]) (use l in \<open>simp_all add: hb\<close>)
  moreover have "window ?img 576 11 = d"
    using window_at [of "a @ be64 292 @ b" 576 d 11 "[]"] l by simp
  then have "node_ok ?img (ghdr (chars ''test.txt'') 11 576 PLAIN_FILE)
      (FileN (spaced (chars ''test.txt'')) 0 d)" using l by (simp add: c_str_spaced)
  moreover have "window ?img 284 8 = be64 292" by (rule window_at) (use l in simp_all)
  ultimately have "entries_ok ?img 284 [FileN (spaced (chars ''test.txt'')) 0 d]"
    unfolding entries_ok.simps by blast
  then have "node_ok ?img (ghdr (chars ''root'') 1 284 DIRECTORY)
      (DirN (spaced (chars ''root'')) 0 [FileN (spaced (chars ''test.txt'')) 0 d])"
    by (simp add: c_str_spaced)
  moreover have "header_at ?img 0 (ghdr (chars ''root'') 1 284 DIRECTORY)"
    by (rule header_at_spaced [of _ "[]" _ _ _ _ _ "be64 292 @ b @ d"]) (use l in \<open>simp_all add: ha\<close>)
  ultimately show ?thesis unfolding holds_tree_def by blast
qed

lemma layout2_holds:
  assumes l: "length a = 284" "length b = 284" "length c = 284" "length d = 16" "length e = 16"
    and ha: "a = gbytes (chars ''root'') 2 284 DIRECTORY"
    and hb: "b = gbytes (chars ''a.txt'') 16 868 PLAIN_FILE"
    and hc: "c = gbytes (chars ''b.txt'') 16 884 PLAIN_FILE"
  shows "holds_tree (a @ be64 300 @ be64 584 @ b @ c @ d @ e)
     (DirN (spaced (chars ''root'')) 0
       [FileN (spaced (chars ''a.txt'')) 0 d, FileN (spaced (chars ''b.txt'')) 0 e])"
proof -
  let ?img = "a @ be64 300 @ be64 584 @ b @ c @ d @ e"
  have "header_at ?img 300 (ghdr (chars ''a.txt'') 16 868 PLAIN_FILE)"
    by (rule header_at_spaced [of _ "a @ be64 300 @ be64 584" _ _ _ _ _ "c @ d @ e"])
      (use l in \<open>simp_all add: hb\<close>)
  moreover have "window ?img 868 16 = d"
    using window_at [of "a @ be64 300 @ be64 584 @ b @ c" 868 d 16 e] l by simp
  then have "node_ok ?img (ghdr (chars ''a.txt'') 16 868 PLAIN_FILE)
      (FileN (spaced (chars ''a.txt'')) 0 d)" using l by (simp add: c_str_spaced)
  moreover have "window ?img 284 8 = be64 300" by (rule window_at) (use l in simp_all)
  ultimately have e1: "\<exists>q hr. window ?img 284 8 = be64 q \<and> header_at ?img q hr \<and>
      node_ok ?img hr (FileN (spaced (chars ''a.txt'')) 0 d)" by blast
  have "header_at ?img 584 (ghdr (chars ''b.txt'') 16 884 PLAIN_FILE)"
    by (rule header_at_spaced [of _ "a @ be64 300 @ be64 584 @ b" _ _ _ _ _ "d @ e"])
      (use l in \<open>simp_all add: hc\<close>)
  moreover have "window ?img 884 16 = e"
    using window_at [of "a @ be64 300 @ be64 584 @ b @ c @ d" 884 e 16 "[]"] l by simp
  then have "node_ok ?img (ghdr (chars ''b.txt'') 16 884 PLAIN_FILE)
      (FileN (spaced (chars ''b.txt'')) 0 e)" using l by (simp add: c_str_spaced)
  moreover have "window ?img (284 + 8) 8 = be64 584"
    using window_at [of "a @ be64 300" 292 "be64 584" 8 "b @ c @ d @ e"] l by simp
  ultimately have e2: "\<exists>q hr. window ?img (284 + 8) 8 = be64 q \<and> header_at ?img q hr \<and>
      node_ok ?img hr (FileN (spaced (chars ''b.txt'')) 0 e)" by blast
  have "entries_ok ?img 284
      [FileN (spaced (chars ''a.txt'')) 0 d, FileN (spaced (chars ''b.txt'')) 0 e]"
    unfolding entries_ok.simps using e1 e2 by blast
  then have "node_ok ?img (ghdr (chars ''root'') 2 284 DIRECTORY) (DirN (spaced (chars ''root'')) 0
       [FileN (spaced (chars ''a.txt'')) 0 d, FileN (spaced (chars ''b.txt'')) 0 e])"
    by (simp add: c_str_spaced)
  moreover have "header_at ?img 0 (ghdr (chars ''root'') 2 284 DIRECTORY)"
    by (rule header_at_spaced [of _ "[]" _ _ _ _ _ "be64 300 @ be64 584 @ b @ c @ d @ e"])
      (use l in \<open>simp_all add: ha\<close>)
  ultimately show ?thesis unfolding holds_tree_def by blast
qed

lemma layout3_holds:
  assumes l: "length a = 284" "length b = 284" "length c = 284" "length d = 16"
    and ha: "a = gbytes (chars ''root'') 1 284 DIRECTORY"
    and hb: "b = gbytes (chars ''Desktop'') 1 576 DIRECTORY"
    and hc: "c = gbytes (chars ''hw.txt'') 16 868 PLAIN_FILE"
  shows "holds_tree (a @ be64 292 @ b @ be64 584 @ c @ d)
     (DirN (spaced (chars ''root'')) 0 [DirN (spaced (chars ''Desktop'')) 0
       [FileN (spaced (chars ''hw.txt'')) 0 d]])"
proof -
  let ?img = "a @ be64 292 @ b @ be64 584 @ c @ d"
  have "header_at ?img 584 (ghdr (chars ''hw.txt'') 16 868 PLAIN_FILE)"
    by (rule header_at_spaced [of _ "a @ be64 292 @ b @ be64 584" _ _ _ _ _ d])
      (use l in \<open>simp_all add: hc\<close>)
  moreover have "window ?img 868 16 = d"
    using window_at [of "a @ be64 292 @ b @ be64 584 @ c" 868 d 16 "[]"] l by simp
  then have "node_ok ?img (ghdr (chars ''hw.txt'') 16 868 PLAIN_FILE)
      (FileN (spaced (chars ''hw.txt'')) 0 d)" using l by (simp add: c_str_spaced)
  moreover have "window ?img 576 8 = be64 584"
    using window_at [of "a @ be64 292 @ b" 576 "be64 584" 8 "c @ d"] l by simp
  ultimately have "entries_ok ?img 576 [FileN (spaced (chars ''hw.txt'')) 0 d]"
    unfolding entries_ok.simps by blast
  then have "node_ok ?img (ghdr (chars ''Desktop'') 1 576 DIRECTORY)
      (DirN (spaced (chars ''Desktop'')) 0 [FileN (spaced (chars ''hw.txt'')) 0 d])"
    by (simp add: c_str_spaced)
  moreover have "header_at ?img 292 (ghdr (chars ''Desktop'') 1 576 DIRECTORY)"
    by (rule header_at_spaced [of _ "a @ be64 292" _ _ _ _ _ "be64 584 @ c @ d"])
      (use l in \<open>simp_all add: hb\<close>)
  moreover have "window ?img 284 8 = be64 292" by (rule window_at) (use l in simp_all)
  ultimately have "entries_ok ?img 284 [DirN (spaced (chars ''Desktop'')) 0
      [FileN (spaced (chars ''hw.txt'')) 0 d]]"
    unfolding entries_ok.simps by blast
  then have "node_ok ?img (ghdr (chars ''root'') 1 284 DIRECTORY) (DirN (spaced (chars ''root'')) 0
      [DirN (spaced (chars ''Desktop'')) 0 [FileN (spaced (chars ''hw.txt'')) 0 d]])"
    by (simp add: c_str_spaced)
  moreover have "header_at ?img 0 (ghdr (chars ''root'') 1 284 DIRECTORY)"
    by (rule header_at_spaced [of _ "[]" _ _ _ _ _ "be64 292 @ b @ be64 584 @ c @ d"])
      (use l in \<open>simp_all add: ha\<close>)
  ultimately show ?thesis unfolding holds_tree_def by blast
qed

section \<open>Properties\<close>

text \<open>
  The generator's three test images hold the trees they are meant to hold, with the
  names as \<^verbatim>\<open>createHeader\<close> pads them.
\<close>

lemma generated_images_hold_trees:
  "\<exists>img1 img2 img3. createTest1 True = Some (Inr img1) \<and> holds_tree img1 tree1 \<and>
     createTest2 True = Some (Inr img2) \<and> holds_tree img2 tree2 \<and>
     createTest3 True = Some (Inr img3) \<and> holds_tree img3 tree3"
proof -
  have "holds_tree (projr (the (createTest1 True))) tree1" unfolding createTest1_eq option.sel sum.sel tree1_def
    by (rule layout1_holds) (rule refl length_gbytes | simp)+
  moreover have "holds_tree (projr (the (createTest2 True))) tree2" unfolding createTest2_eq option.sel sum.sel tree2_def
    by (rule layout2_holds) (rule refl length_gbytes | simp)+
  moreover have "holds_tree (projr (the (createTest3 True))) tree3" unfolding createTest3_eq option.sel sum.sel tree3_def
    by (rule layout3_holds) (rule refl length_gbytes | simp)+
  ultimately show ?thesis unfolding createTest1_eq createTest2_eq createTest3_eq option.sel sum.sel by blast
qed

text \<open>
  \<^verbatim>\<open>writeHeader\<close> of the generator stores the time without the byte swap every other number
  gets: \<^verbatim>\<open>readHeader\<close> reads back the header with the bytes of the time reversed.
\<close>

theorem generated_time_swapped:
  assumes "createHeader n ty len tm off = Some h"
  shows "\<exists>f'. readHeader (fopen_r (writeHeader h [])) 0 =
     Some (\<lparr>hdr_name = strncpy (spaced n @ [0]) 256, hdr_length = len, hdr_time = htobe64 tm,
            hdr_offset = off, hdr_type = ty\<rparr>, f')"
proof -
  have n: "length n \<le> 255" using assms by (simp add: createHeader_def split: if_splits)
  with assms have h: "h = \<lparr>hdr_name = spaced n, hdr_length = len, hdr_time = tm, hdr_offset = off, hdr_type = ty\<rparr>"
    by (simp add: createHeader_eq)
  have "window (contents (fopen_r (writeHeader h []))) (unat (0 :: uint64)) 284 =
      hdr_bytes (spaced n @ [0]) len (htobe64 tm) off ty"
    using n by (simp add: fopen_r_def writeHeader_eq h window_0_all)
  from readHeader_at [OF this] n show ?thesis by simp
qed

end
