(* ===== verification/DataCheck.thy ===== *)
theory DataCheck
  imports Prelude
begin

text \<open>
  \<^verbatim>\<open>DataCheck.cpp\<close>: the Fletcher checksum used to compare file systems. The code reduces its
  32-bit sums once per 360 words only; the sums never wrap before they are reduced, so the
  result is the checksum defined over the integers.
\<close>

type_synonym uint16 = "16 word"

text \<open>One word: \<^verbatim>\<open>c0 = c0 + *data++; c1 = c1 + c0\<close>, in 32 bits.\<close>

fun add_words :: "uint16 list \<Rightarrow> uint32 \<Rightarrow> uint32 \<Rightarrow> uint32 \<times> uint32" where
  "add_words [] c0 c1 = (c0, c1)"
| "add_words (w # ws) c0 c1 = (let c0 = c0 + ucast w; c1 = c1 + c0 in add_words ws c0 c1)"

function fletcher_blocks :: "uint16 list \<Rightarrow> uint32 \<Rightarrow> uint32 \<Rightarrow> uint32 \<times> uint32" where
  "fletcher_blocks data c0 c1 =
     (if length data \<ge> 360 then
        let (c0, c1) = add_words (take 360 data) c0 c1;
            c0 = c0 mod 65535;
            c1 = c1 mod 65535
        in fletcher_blocks (drop 360 data) c0 c1
      else let (c0, c1) = add_words data c0 c1 in (c0 mod 65535, c1 mod 65535))"
  by pat_completeness auto
termination by (relation "measure (\<lambda>(d, c0, c1). length d)") auto

declare fletcher_blocks.simps [simp del]

text \<open>Reading more words than the array has is undefined.\<close>

definition fletcher32 :: "uint16 list \<Rightarrow> nat \<Rightarrow> uint32 option" where
  "fletcher32 data len =
     (if len \<le> length data
      then let (c0, c1) = fletcher_blocks (take len data) 0 0 in Some (push_bit 16 c1 OR c0)
      else None)"

definition checkSum :: "uint16 list \<Rightarrow> nat \<Rightarrow> uint16 list \<Rightarrow> nat \<Rightarrow> bool option" where
  "checkSum data1 len1 data2 len2 =
     (case (fletcher32 data1 len1, fletcher32 data2 len2) of
        (Some a, Some b) \<Rightarrow> Some (a = b)
      | _ \<Rightarrow> None)"

section \<open>The checksum over the integers\<close>

definition sum0 :: "uint16 list \<Rightarrow> nat" where
  "sum0 ws = sum_list (map unat ws)"

text \<open>The second sum weights every word by the number of words from it to the end.\<close>

fun sum1 :: "uint16 list \<Rightarrow> nat" where
  "sum1 [] = 0"
| "sum1 (w # ws) = Suc (length ws) * unat w + sum1 ws"

definition fletcher_spec :: "uint16 list \<Rightarrow> nat" where
  "fletcher_spec ws = 65536 * (sum1 ws mod 65535) + sum0 ws mod 65535"

lemma uint16_bound: "unat (w :: uint16) \<le> 65535"
proof -
  have "unat w < 2 ^ LENGTH(16)" by (rule unsigned_less)
  then show ?thesis by simp
qed

lemma sum0_bound: "sum0 ws \<le> 65535 * length ws"
  by (induction ws) (auto simp: sum0_def intro: add_mono [OF uint16_bound, simplified])

lemma sum1_bound: "2 * sum1 ws \<le> 65535 * (length ws * Suc (length ws))"
proof (induction ws)
  case (Cons w ws)
  have "Suc (length ws) * unat w \<le> Suc (length ws) * 65535" by (intro mult_le_mono2 uint16_bound)
  then show ?case using Cons by (simp add: algebra_simps)
qed simp

lemma sum1_append: "sum1 (xs @ ys) = sum1 xs + length ys * sum0 xs + sum1 ys"
  by (induction xs) (simp_all add: sum0_def algebra_simps)

lemma sum0_append: "sum0 (xs @ ys) = sum0 xs + sum0 ys"
  by (simp add: sum0_def)

lemma add_words_no_wrap:
  assumes "unat c1 + length ws * unat c0 + sum1 ws < 2 ^ 32" and "unat c0 + sum0 ws < 2 ^ 32"
  shows "map_prod unat unat (add_words ws c0 c1) = (unat c0 + sum0 ws, unat c1 + length ws * unat c0 + sum1 ws)"
  using assms
proof (induction ws arbitrary: c0 c1)
  case (Cons w ws)
  have s0: "sum0 (w # ws) = unat w + sum0 ws" by (simp add: sum0_def)
  have w: "unat (ucast w :: uint32) = unat w" using uint16_bound [of w] by (simp add: unsigned_ucast_eq take_bit_nat_eq_self_iff)
  have u0: "unat (c0 + ucast w) = unat c0 + unat w"
    using Cons.prems(2) s0 w by (simp add: unat_word_ariths)
  have "unat c1 + (unat c0 + unat w) \<le> unat c1 + length (w # ws) * unat c0 + sum1 (w # ws)" by simp
  then have u1: "unat (c1 + (c0 + ucast w)) = unat c1 + (unat c0 + unat w)"
    using Cons.prems(1) u0 by (simp add: unat_word_ariths(1) [of c1] del: unat_add_lem)
  have e: "unat c1 + (unat c0 + unat w) + length ws * (unat c0 + unat w) + sum1 ws =
      unat c1 + length (w # ws) * unat c0 + sum1 (w # ws)" by (simp add: algebra_simps)
  have "map_prod unat unat (add_words ws (c0 + ucast w) (c1 + (c0 + ucast w))) =
      (unat c0 + unat w + sum0 ws, unat c1 + (unat c0 + unat w) + length ws * (unat c0 + unat w) + sum1 ws)"
    using Cons.IH [of "c1 + (c0 + ucast w)" "c0 + ucast w"] Cons.prems u0 u1 e s0 by (simp add: add.assoc)
  then show ?case unfolding e s0 by (simp add: Let_def add.assoc)
qed (simp add: sum0_def)

text \<open>At most 360 words on top of reduced sums stay below \<open>2 ^ 32\<close>.\<close>

lemma block_no_wrap:
  assumes "length ws \<le> 360" and "c0 < 65535" and "c1 < (65535 :: nat)"
  shows "c1 + length ws * c0 + sum1 ws < 2 ^ 32" and "c0 + sum0 ws < 2 ^ 32"
proof -
  have "length ws * c0 \<le> 360 * 65534" using assms by (intro mult_le_mono) auto
  moreover have "length ws * Suc (length ws) \<le> 360 * 361" using assms(1) by (intro mult_le_mono) auto
  ultimately show "c1 + length ws * c0 + sum1 ws < 2 ^ 32" using sum1_bound [of ws] assms(3) by simp
  show "c0 + sum0 ws < 2 ^ 32" using sum0_bound [of ws] assms by simp
qed

lemma add_words_block:
  assumes "length ws \<le> 360" and "unat c0 < 65535" and "unat c1 < 65535"
  shows "\<exists>d0 d1. add_words ws c0 c1 = (d0, d1) \<and>
     unat (d0 mod 65535) = (unat c0 + sum0 ws) mod 65535 \<and>
     unat (d1 mod 65535) = (unat c1 + length ws * unat c0 + sum1 ws) mod 65535"
proof -
  obtain d0 d1 where d: "add_words ws c0 c1 = (d0, d1)" by fastforce
  then show ?thesis using add_words_no_wrap [OF block_no_wrap [OF assms]] by (simp add: unat_mod_distrib)
qed

lemma fletcher_blocks_correct:
  assumes "unat c0 < 65535" and "unat c1 < 65535"
  shows "map_prod unat unat (fletcher_blocks ws c0 c1) =
     ((unat c0 + sum0 ws) mod 65535, (unat c1 + length ws * unat c0 + sum1 ws) mod 65535)"
  using assms
proof (induction "length ws" arbitrary: ws c0 c1 rule: less_induct)
  case less
  show ?case
  proof (cases "360 \<le> length ws")
    case False
    from add_words_block [of ws, OF _ less.prems] False obtain d0 d1 where
      d: "add_words ws c0 c1 = (d0, d1)" "unat (d0 mod 65535) = (unat c0 + sum0 ws) mod 65535"
        "unat (d1 mod 65535) = (unat c1 + length ws * unat c0 + sum1 ws) mod 65535" by auto
    then show ?thesis using False by (subst fletcher_blocks.simps) simp
  next
    case True
    let ?a = "take 360 ws" and ?b = "drop 360 ws"
    have la: "length ?a = 360" "length ws = 360 + length ?b" using True by simp_all
    have "length ?a \<le> 360" using la(1) by simp
    from add_words_block [OF this less.prems, unfolded la(1)] obtain d0 d1 where
      d: "add_words ?a c0 c1 = (d0, d1)" "unat (d0 mod 65535) = (unat c0 + sum0 ?a) mod 65535"
        "unat (d1 mod 65535) = (unat c1 + 360 * unat c0 + sum1 ?a) mod 65535" by blast
    have lt: "unat (d0 mod 65535) < 65535" "unat (d1 mod 65535) < 65535" unfolding d by simp_all
    have ws: "sum0 ws = sum0 ?a + sum0 ?b" "sum1 ws = sum1 ?a + length ?b * sum0 ?a + sum1 ?b"
      using sum0_append [of ?a ?b] sum1_append [of ?a ?b] by simp_all
    have "fletcher_blocks ws c0 c1 = fletcher_blocks ?b (d0 mod 65535) (d1 mod 65535)"
      using True d(1) by (subst fletcher_blocks.simps) simp
    moreover have "length ?b < length ws" using True by simp
    note less.hyps [OF this lt]
    ultimately have "map_prod unat unat (fletcher_blocks ws c0 c1) =
        (((unat c0 + sum0 ?a) mod 65535 + sum0 ?b) mod 65535,
         ((unat c1 + 360 * unat c0 + sum1 ?a) mod 65535 +
           length ?b * ((unat c0 + sum0 ?a) mod 65535) + sum1 ?b) mod 65535)" by (simp only: d)
    also have "((unat c0 + sum0 ?a) mod 65535 + sum0 ?b) mod 65535 = (unat c0 + sum0 ws) mod 65535"
      by (simp only: ws mod_add_left_eq add.assoc)
    also have "((unat c1 + 360 * unat c0 + sum1 ?a) mod 65535 +
           length ?b * ((unat c0 + sum0 ?a) mod 65535) + sum1 ?b) mod 65535 =
        (unat c1 + 360 * unat c0 + sum1 ?a + length ?b * (unat c0 + sum0 ?a) + sum1 ?b) mod 65535"
      by (intro mod_add_cong refl) (simp_all only: mod_mod_trivial mod_mult_right_eq)
    also have "unat c1 + 360 * unat c0 + sum1 ?a + length ?b * (unat c0 + sum0 ?a) + sum1 ?b =
        unat c1 + length ws * unat c0 + sum1 ws" by (simp only: ws la(2) algebra_simps)
    finally show ?thesis .
  qed
qed

lemma unat_pack:
  fixes a b :: uint32
  assumes "unat a < 2 ^ 16" and "unat b < 2 ^ 16"
  shows "unat (push_bit 16 b OR a) = 65536 * unat b + unat a"
proof -
  have "push_bit 16 b OR a = push_bit 16 b + a"
  proof (rule disjunctive_add [symmetric])
    fix n
    have "\<not> bit a n" if "16 \<le> n"
    proof -
      have "take_bit 16 (unat a) = unat a" using assms(1) by (simp add: take_bit_nat_eq_self_iff)
      then have "take_bit 16 a = a" by (metis unsigned_take_bit_eq word_unat_eq_iff)
      with that show ?thesis by (metis bit_take_bit_iff not_less)
    qed
    then show "\<not> bit (push_bit 16 b) n \<or> \<not> bit a n" by (auto simp: bit_simps)
  qed
  moreover have "unat (push_bit 16 b) = 65536 * unat b"
    using assms(2) by (simp add: push_bit_eq_mult unat_word_ariths)
  ultimately show ?thesis using assms by (simp add: unat_word_ariths)
qed

lemma fletcher32_aux:
  assumes "len \<le> length data"
  shows "\<exists>s. fletcher32 data len = Some s \<and> unat s = fletcher_spec (take len data)"
proof -
  obtain c0 c1 where c: "fletcher_blocks (take len data) 0 0 = (c0, c1)" by fastforce
  with fletcher_blocks_correct [of 0 0 "take len data"]
  have "unat c0 = sum0 (take len data) mod 65535" "unat c1 = sum1 (take len data) mod 65535" by simp_all
  moreover from this have "unat c0 < 2 ^ 16" "unat c1 < 2 ^ 16"
    using mod_less_divisor [of 65535 "sum0 (take len data)", simplified]
      mod_less_divisor [of 65535 "sum1 (take len data)", simplified] by simp_all
  ultimately show ?thesis using assms c unat_pack [of c0 c1]
    by (simp add: fletcher32_def fletcher_spec_def)
qed

lemma checkSum_spec:
  assumes "n \<le> length xs" and "m \<le> length ys"
  shows "checkSum xs n ys m = Some (fletcher_spec (take n xs) = fletcher_spec (take m ys))"
  using fletcher32_aux [OF assms(1)] fletcher32_aux [OF assms(2)]
  by (auto simp: checkSum_def word_unat_eq_iff)

lemma fletcher_spec_eq_iff:
  "fletcher_spec xs = fletcher_spec ys \<longleftrightarrow>
     sum1 xs mod 65535 = sum1 ys mod 65535 \<and> sum0 xs mod 65535 = sum0 ys mod 65535"
proof -
  have "65536 * a + b = 65536 * c + d \<longleftrightarrow> a = c \<and> b = d"
    if "b < 65536" "d < 65536" for a b c d :: nat
  proof
    assume eq: "65536 * a + b = 65536 * c + d"
    have "(65536 * a + b) div 65536 = a" "(65536 * c + d) div 65536 = c" using that by simp_all
    then have "a = c" using eq by simp
    with eq show "a = c \<and> b = d" by simp
  qed simp
  moreover have "x mod 65535 < 65536" for x :: nat using mod_less_divisor [of 65535 x] by simp
  ultimately show ?thesis by (simp only: fletcher_spec_def)
qed

lemma mod_cancel_left: "((k + a) mod m = (k + b) mod m) \<longleftrightarrow> (a mod m = (b :: nat) mod m)"
proof -
  have "(int k + int a) mod int m = (int k + int b) mod int m \<longleftrightarrow> int a mod int m = int b mod int m"
    by (simp add: mod_eq_dvd_iff)
  then show ?thesis by (metis of_nat_add of_nat_eq_iff of_nat_mod)
qed

section \<open>Properties\<close>

text \<open>
  C36: \<^verbatim>\<open>fletcher32\<close> computes the Fletcher checksum of the unbounded sums: reducing once per
  360 words never lets a 32-bit sum wrap around.
\<close>

theorem fletcher32_exact:
  assumes "len \<le> length data"
  shows "\<exists>s. fletcher32 data len = Some s \<and> unat s = fletcher_spec (take len data)"
  using assms by (rule fletcher32_aux)

theorem fletcher32_exact_witness:
  "\<exists>s. fletcher32 [1, 65535, 3] 3 = Some s \<and> unat s = 65536 * 6 + 4"
  using fletcher32_exact [of 3 "[1, 65535, 3]"] by (simp add: fletcher_spec_def sum0_def)

text \<open>
  \<^verbatim>\<open>checkSum\<close> tells apart data that differ in one word, unless the two words agree
  modulo 65535 (that is, unless one is 0 and the other 65535).
\<close>

lemma checkSum_single_change:
  assumes "length (xs @ x # ys) = n" and "unat x mod 65535 \<noteq> unat y mod 65535"
  shows "checkSum (xs @ x # ys) n (xs @ y # ys) n = Some False"
proof -
  have "(sum0 (xs @ ys) + unat x) mod 65535 \<noteq> (sum0 (xs @ ys) + unat y) mod 65535"
    using assms(2) by (simp add: mod_cancel_left)
  then have "sum0 (xs @ x # ys) mod 65535 \<noteq> sum0 (xs @ y # ys) mod 65535"
    by (simp add: sum0_def ac_simps)
  then show ?thesis using assms(1) by (simp add: checkSum_spec fletcher_spec_eq_iff)
qed

text \<open>
  \<^verbatim>\<open>checkSum\<close> is sensitive to the order of the data: exchanging two neighbouring words
  that differ modulo 65535 is noticed.
\<close>

theorem checkSum_swap:
  assumes "length (xs @ x # y # ys) = n" and "unat x mod 65535 \<noteq> unat y mod 65535"
  shows "checkSum (xs @ x # y # ys) n (xs @ y # x # ys) n = Some False"
proof -
  let ?k = "sum1 xs + Suc (Suc (length ys)) * sum0 xs + sum1 ys + Suc (length ys) * (unat x + unat y)"
  have s: "sum1 (xs @ a # b # ys) = sum1 xs + Suc (Suc (length ys)) * sum0 xs + sum1 ys +
      Suc (length ys) * (unat a + unat b) + unat a" for a b
    by (simp add: sum1_append algebra_simps)
  have "sum1 (xs @ x # y # ys) = ?k + unat x" "sum1 (xs @ y # x # ys) = ?k + unat y"
    unfolding s by (simp_all add: add.commute)
  then have "sum1 (xs @ x # y # ys) mod 65535 \<noteq> sum1 (xs @ y # x # ys) mod 65535"
    using assms(2) by (simp only: mod_cancel_left) simp
  then show ?thesis using assms(1) by (simp add: checkSum_spec fletcher_spec_eq_iff)
qed

end
