(* ===== verification/FieldMemory.thy ===== *)
theory FieldMemory
  imports GF256
begin

text \<open>
  The rest of \<^verbatim>\<open>schifra_galois_field.hpp\<close>: how the constructor places the lookup tables in one
  buffer, and the operations of a build with \<^verbatim>\<open>NO_GFLUT\<close>, which compute with logarithms instead
  of looking up tables. The layout shows that the tables can
  be modelled as separate lists, as \<open>GaloisField\<close> does, for the fields that fit the buffer.
\<close>

section \<open>The buffer of the tables\<close>

text \<open>
  \<^verbatim>\<open>create_array\<close> and \<^verbatim>\<open>create_2d_array\<close> place arrays of \<^verbatim>\<open>int\<close> from an offset on. The model gives
  the offset of the array, or of each row, and the offset behind it.
\<close>

definition create_array :: "uint64 \<Rightarrow> uint64 \<Rightarrow> uint64 \<times> uint64" where
  "create_array len offset = (let row_size = len * 4 in (offset, row_size + offset))"

definition create_2d_array :: "uint64 \<Rightarrow> uint64 \<Rightarrow> uint64 \<Rightarrow> uint64 list \<times> uint64" where
  "create_2d_array row_cnt col_cnt offset =
     (let row_size = col_cnt * 4
      in (map (\<lambda>i. offset + of_nat i * row_size) [0..<unat row_cnt], row_cnt * row_size + offset))"

record field_layout =
  mul_rows :: "uint64 list"
  div_rows :: "uint64 list"
  exp_rows :: "uint64 list"
  linear_rows :: "uint64 list"
  inverse_at :: uint64

definition field_order :: "nat \<Rightarrow> uint32" where
  "field_order pwr = (push_bit pwr 1 - 1) + 1"

text \<open>
  The size of the buffer is computed in 32-bit arithmetic up to the factor \<^verbatim>\<open>sizeof\<close>, and it is a
  static constant: the first field that is constructed fixes it for all others.
\<close>

definition buffer_size :: "bool \<Rightarrow> nat \<Rightarrow> uint64" where
  "buffer_size linear pwr =
     (let s = field_order pwr in ucast ((if linear then 6 else 4) * s * s + s * 2) * 4)"

definition place_tables :: "bool \<Rightarrow> uint64 option \<Rightarrow> nat \<Rightarrow> field_layout \<times> uint64" where
  "place_tables linear static_size pwr =
     (let sz = (case static_size of None \<Rightarrow> buffer_size linear pwr | Some n \<Rightarrow> n);
          s = ucast (field_order pwr);
          offset = 0;
          (ms, offset) = create_2d_array s s offset;
          (ds, offset) = create_2d_array s s offset;
          (es, offset) = create_2d_array s s offset;
          (ls, offset) = (if linear then create_2d_array s (ucast (field_order pwr * 2)) offset else ([], offset));
          (iv, offset) = create_array (ucast (field_order pwr * 2)) offset
      in (\<lparr>mul_rows = ms, div_rows = ds, exp_rows = es, linear_rows = ls, inverse_at = iv\<rparr>, sz))"

text \<open>The arrays of a layout for a field with \<open>s\<close> elements: where each begins and how many bytes it has.\<close>

definition arrays :: "nat \<Rightarrow> field_layout \<Rightarrow> (nat \<times> nat) list" where
  "arrays s l =
     map (\<lambda>a. (unat a, 4 * s)) (mul_rows l) @ map (\<lambda>a. (unat a, 4 * s)) (div_rows l) @
     map (\<lambda>a. (unat a, 4 * s)) (exp_rows l) @ map (\<lambda>a. (unat a, 8 * s)) (linear_rows l) @
     [(unat (inverse_at l), 8 * s)]"

definition apart :: "(nat \<times> nat) list \<Rightarrow> bool" where
  "apart as \<longleftrightarrow> sorted_wrt (\<lambda>(a, n) (b, m). a + n \<le> b) as"

definition inside :: "(nat \<times> nat) list \<Rightarrow> uint64 \<Rightarrow> bool" where
  "inside as sz \<longleftrightarrow> list_all (\<lambda>(a, n). a + n \<le> unat sz) as"

section \<open>Consecutive arrays\<close>

text \<open>Arrays that follow each other without a gap from one position to another.\<close>

fun tiles :: "nat \<Rightarrow> (nat \<times> nat) list \<Rightarrow> nat \<Rightarrow> bool" where
  "tiles p [] q \<longleftrightarrow> p = q"
| "tiles p ((a, n) # as) q \<longleftrightarrow> a = p \<and> tiles (p + n) as q"

lemma tiles_append: "tiles p (as @ bs) r \<longleftrightarrow> (\<exists>q. tiles p as q \<and> tiles q bs r)"
  by (induction as arbitrary: p) auto

lemma tiles_bounds: "tiles p as q \<Longrightarrow> p \<le> q \<and> (\<forall>(a, n) \<in> set as. p \<le> a \<and> a + n \<le> q)"
  by (induction p as q rule: tiles.induct) fastforce+

lemma tiles_apart: "tiles p as q \<Longrightarrow> apart as"
proof (induction p as q rule: tiles.induct)
  case (2 p a n as q)
  then show ?case using tiles_bounds [of "p + n" as q] by (auto simp: apart_def)
qed (simp add: apart_def)

lemma tiles_inside: "tiles p as q \<Longrightarrow> q \<le> unat sz \<Longrightarrow> inside as sz"
  using tiles_bounds [of p as q] by (fastforce simp: inside_def list_all_iff)

lemma tiles_last: "tiles p (as @ [(a, n)]) q \<Longrightarrow> a + n = q"
  by (auto simp: tiles_append)

lemma tiles_rows: "tiles p (map (\<lambda>i. (p + i * w, w)) [0..<n]) (p + n * w)"
proof (induction n)
  case (Suc n)
  then show ?case by (auto simp: tiles_append algebra_simps)
qed simp

lemma create_2d_array_tiles:
  assumes "p + r * (4 * c) < 2 ^ 63" and "r < 2 ^ 32" and "c < 2 ^ 32"
  shows "\<exists>rows. create_2d_array (of_nat r) (of_nat c) (of_nat p) = (rows, of_nat (p + r * (4 * c))) \<and>
     tiles p (map (\<lambda>a. (unat a, 4 * c)) rows) (p + r * (4 * c))"
proof -
  have r: "unat (of_nat r :: uint64) = r" using assms(2) by (simp add: unat_of_nat_small)
  have u: "unat (of_nat p + of_nat i * (of_nat c * 4) :: uint64) = p + i * (4 * c)" if "i < r" for i
  proof -
    have "i * (4 * c) \<le> r * (4 * c)" using that by simp
    then have "p + i * (4 * c) < 2 ^ 63" using assms(1) by linarith
    then have "unat (of_nat (p + i * (4 * c)) :: uint64) = p + i * (4 * c)" by (rule unat_of_nat_small)
    moreover have "of_nat p + of_nat i * (of_nat c * 4) = (of_nat (p + i * (4 * c)) :: uint64)"
      by (simp add: algebra_simps)
    ultimately show ?thesis by (simp only:)
  qed
  let ?rows = "map (\<lambda>i. of_nat p + of_nat i * (of_nat c * 4) :: uint64) [0..<r]"
  have "map (\<lambda>a. (unat a, 4 * c)) ?rows = map (\<lambda>i. (p + i * (4 * c), 4 * c)) [0..<r]" using u by simp
  then have "tiles p (map (\<lambda>a. (unat a, 4 * c)) ?rows) (p + r * (4 * c))" by (simp only: tiles_rows)
  moreover have "of_nat r * (of_nat c * 4) + of_nat p = (of_nat (p + r * (4 * c)) :: uint64)"
    by (simp add: algebra_simps)
  ultimately show ?thesis unfolding create_2d_array_def Let_def r by simp
qed

lemma create_array_tiles:
  assumes "p + 4 * c < 2 ^ 63"
  shows "\<exists>a e. create_array (of_nat c) (of_nat p) = (a, e) \<and> tiles p [(unat a, 4 * c)] (p + 4 * c)"
  using assms by (simp add: create_array_def unat_of_nat_small)

lemma field_order_eq: "field_order pwr = 2 ^ pwr"
  by (simp add: field_order_def push_bit_eq_mult)

lemma unat_field_order:
  assumes "pwr < 32"
  shows "unat (field_order pwr) = 2 ^ pwr"
proof -
  have "(2 :: nat) ^ pwr < 2 ^ 32" using assms by (rule power_strict_increasing) simp
  then show ?thesis using unat_of_nat [of "2 ^ pwr", where 'a = 32]
    by (simp add: field_order_eq take_bit_nat_eq_self_iff)
qed

lemma ucast_field_order:
  assumes "pwr \<le> 16"
  shows "ucast (field_order pwr) = (of_nat (2 ^ pwr) :: uint64)"
    and "ucast (field_order pwr * 2) = (of_nat (2 * 2 ^ pwr) :: uint64)"
proof -
  have p: "2 ^ pwr \<le> (2 :: nat) ^ 16" using assms by (rule power_increasing) simp
  have u: "unat (field_order pwr) = 2 ^ pwr" using assms by (simp add: unat_field_order)
  then show "ucast (field_order pwr) = (of_nat (2 ^ pwr) :: uint64)" by (metis of_nat_unat)
  have "unat (field_order pwr * 2) = 2 * 2 ^ pwr"
    using p u unat_mult_lem [of "field_order pwr" 2] by simp
  then show "ucast (field_order pwr * 2) = (of_nat (2 * 2 ^ pwr) :: uint64)" by (metis of_nat_unat)
qed

text \<open>How many bytes the tables take.\<close>

definition table_bytes :: "bool \<Rightarrow> nat \<Rightarrow> nat" where
  "table_bytes linear s = 3 * (s * (4 * s)) + (if linear then s * (8 * s) else 0) + 8 * s"

lemma table_bytes_fit:
  assumes "s \<le> r"
  shows "table_bytes linear s \<le> 4 * ((if linear then 6 else 4) * (r * r) + 2 * r)"
  using assms mult_le_mono [OF assms assms] by (simp add: table_bytes_def)

lemma table_bytes_overrun:
  assumes "2 * s \<le> r" and "0 < s"
  shows "4 * ((if linear then 6 else 4) * (s * s) + 2 * s) < table_bytes linear r"
  using assms mult_le_mono [OF assms(1,1)] by (simp add: table_bytes_def)

lemma place_tables_tiles:
  assumes "pwr \<le> 16" and "s = 2 ^ pwr"
  shows "tiles 0 (arrays s (fst (place_tables linear st pwr))) (table_bytes linear s)"
proof -
  define d where "d = s * (4 * s)"
  have s: "s \<le> 2 ^ 16" using assms power_increasing [of pwr 16 "2 :: nat"] by simp
  then have "s * s \<le> 2 ^ 16 * 2 ^ 16" by (rule mult_le_mono) (rule s)
  then have d: "d \<le> 2 ^ 34" by (simp add: d_def)
  let ?w = "of_nat s :: uint64"
  have sq: "create_2d_array ?w ?w (of_nat p) = (rows, e) \<Longrightarrow> e = of_nat (p + d) \<and>
      tiles p (map (\<lambda>a. (unat a, 4 * s)) rows) (p + d)" if "p \<le> 2 ^ 36" for p rows e
    using create_2d_array_tiles [of p s s] that s d by (auto simp: d_def)
  obtain ms e1 where m: "create_2d_array ?w ?w 0 = (ms, e1)" by fastforce
  then have m': "e1 = of_nat d" "tiles 0 (map (\<lambda>a. (unat a, 4 * s)) ms) d" using sq [of 0 ms e1] by simp_all
  obtain ds e2 where ds: "create_2d_array ?w ?w (of_nat d) = (ds, e2)" by fastforce
  then have ds': "e2 = of_nat (d + d)" "tiles d (map (\<lambda>a. (unat a, 4 * s)) ds) (d + d)"
    using sq [of d ds e2] d by simp_all
  obtain es e3 where es: "create_2d_array ?w ?w (of_nat (d + d)) = (es, e3)" by fastforce
  then have es': "e3 = of_nat (d + d + d)" "tiles (d + d) (map (\<lambda>a. (unat a, 4 * s)) es) (d + d + d)"
    using sq [of "d + d" es e3] d by simp_all
  define l where "l = (if linear then 2 * d else 0)"
  obtain ls where ls: "(if linear then create_2d_array ?w (of_nat (2 * s)) (of_nat (d + d + d)) else ([], of_nat (d + d + d))) =
      (ls, of_nat (d + d + d + l))" "tiles (d + d + d) (map (\<lambda>a. (unat a, 8 * s)) ls) (d + d + d + l)"
    using create_2d_array_tiles [of "d + d + d" s "2 * s"] s d by (cases linear) (auto simp: l_def d_def)
  have "d + d + d + l + 4 * (2 * s) < 2 ^ 63" using d s by (simp add: l_def)
  from create_array_tiles [OF this] obtain iv e4 where
    iv: "create_array (of_nat (2 * s)) (of_nat (d + d + d + l)) = (iv, e4)"
      "tiles (d + d + d + l) [(unat iv, 8 * s)] (d + d + d + l + 8 * s)" by auto
  have "fst (place_tables linear st pwr) =
      \<lparr>mul_rows = ms, div_rows = ds, exp_rows = es, linear_rows = ls, inverse_at = iv\<rparr>"
    using m m'(1) ds ds'(1) es es'(1) ls(1) iv(1) ucast_field_order [OF assms(1)]
    by (simp only: place_tables_def Let_def split_beta fst_conv snd_conv flip: assms(2))
  moreover have "table_bytes linear s = d + d + d + l + 8 * s" by (simp add: table_bytes_def d_def l_def)
  ultimately show ?thesis using m'(2) ds'(2) es'(2) ls(2) iv(2)
    by (simp only: arrays_def field_layout.simps tiles_append) blast
qed

lemma arrays_overrun:
  assumes "tiles 0 (arrays s l) q" and "unat sz < q"
  shows "\<not> inside (arrays s l) sz"
proof -
  obtain as a n where as: "arrays s l = as @ [(a, n)]" by (simp add: arrays_def)
  then have "a + n = q" using assms(1) tiles_last by metis
  then show ?thesis using as assms(2) by (simp add: inside_def)
qed

lemma unat_buffer_size:
  assumes "pwr \<le> 14" and "s = 2 ^ pwr"
  shows "unat (buffer_size linear pwr) = 4 * ((if linear then 6 else 4) * (s * s) + 2 * s)"
proof -
  let ?n = "(if linear then 6 else 4) * (s * s) + 2 * s"
  have s: "s \<le> 2 ^ 14" using assms power_increasing [of pwr 14 "2 :: nat"] by simp
  then have "s * s \<le> 2 ^ 14 * 2 ^ 14" by (rule mult_le_mono) (rule s)
  then have n: "?n < 2 ^ 31" using s by simp
  have "(if linear then 6 else 4) * field_order pwr * field_order pwr + field_order pwr * 2 = of_nat ?n"
    by (simp add: field_order_eq assms(2) algebra_simps)
  moreover have "unat (of_nat ?n :: uint32) = ?n"
    using n by (simp only: unat_of_nat) (simp add: take_bit_nat_eq_self_iff)
  then have "ucast (of_nat ?n :: uint32) = (of_nat ?n :: uint64)" by (metis of_nat_unat)
  ultimately have "buffer_size linear pwr = of_nat (4 * ?n)" by (simp add: buffer_size_def Let_def)
  moreover have "4 * ?n < 4 * 2 ^ 31" using n by (rule mult_strict_left_mono) simp
  then have "4 * ?n < 2 ^ 63" by (rule less_trans) simp
  ultimately show ?thesis by (simp only: unat_of_nat_small)
qed

section \<open>Computing without tables\<close>

definition mul_direct :: "gfield \<Rightarrow> field_symbol \<Rightarrow> field_symbol \<Rightarrow> field_symbol" where
  "mul_direct f a b =
     (if a = 0 \<or> b = 0 then 0
      else at (alpha_to f) (normalize f (at (index_of f) a + at (index_of f) b)))"

definition div_direct :: "gfield \<Rightarrow> field_symbol \<Rightarrow> field_symbol \<Rightarrow> field_symbol" where
  "div_direct f a b =
     (if a = 0 \<or> b = 0 then 0
      else at (alpha_to f) (normalize f (at (index_of f) a - at (index_of f) b + field_size f)))"

definition exp_direct :: "gfield \<Rightarrow> field_symbol \<Rightarrow> int \<Rightarrow> field_symbol" where
  "exp_direct f a n =
     (if a \<noteq> 0 then
        if n < 0 then
          let n = norm_neg (gf_power f) n
          in if n \<noteq> 0 then at (alpha_to f) (normalize f (at (index_of f) a * n)) else 1
        else if n \<noteq> 0 then at (alpha_to f) (normalize f (at (index_of f) a * n))
        else 1
      else 0)"

definition inverse_direct :: "gfield \<Rightarrow> field_symbol \<Rightarrow> field_symbol" where
  "inverse_direct f v = at (alpha_to f) (normalize f (field_size f - at (index_of f) v))"

lemma direct_is_gen:
  "mul_direct f a b = gen_mul f a b" "div_direct f a b = gen_div f a b"
  "inverse_direct f a = gen_inverse f a" "0 \<le> n \<Longrightarrow> exp_direct f a n = gen_exp f a n"
  by (simp_all add: mul_direct_def gen_mul_def div_direct_def gen_div_def inverse_direct_def gen_inverse_def
      exp_direct_def gen_exp_def)

lemma table_is_gen:
  assumes "field_ok f" and "symbol a" and "symbol b"
  shows "mul f a b = gen_mul f a b" and "div_sym f a b = gen_div f a b"
    and "exp_sym f a b = gen_exp f a b" and "inverse_sym f a = gen_inverse f a"
proof -
  have "b AND 255 = take_bit 8 b" by (simp add: take_bit_eq_mask mask_eq_exp_minus_1)
  then have "b AND 255 = b" using assms(3) by (simp add: take_bit_int_eq_self_iff)
  then show "mul f a b = gen_mul f a b" "div_sym f a b = gen_div f a b" "exp_sym f a b = gen_exp f a b"
    "inverse_sym f a = gen_inverse f a"
    using assms by (simp_all add: mul_def div_sym_def exp_sym_def inverse_sym_def field_ok_def at_map_upto
        del: upto_rec_numeral)
qed

lemma gf_power_255: "symbol a \<Longrightarrow> a \<noteq> 0 \<Longrightarrow> gf a ^ 255 = 1"
proof -
  assume "symbol a" "a \<noteq> 0"
  then have "gf a = gen ^ dlog a" using aseq_dlog(1) [of a] by (simp flip: gf_aseq)
  then have "gf a ^ 255 = (gen ^ 255) ^ dlog a" by (metis power_mult mult.commute)
  then show ?thesis by (simp add: gen_power_255)
qed

lemma gf_gen_exp:
  assumes "field_ok f" and "symbol a" and "a \<noteq> 0"
  shows "gf (gen_exp f a (int n)) = gf a ^ n"
proof (cases "n = 0")
  case False
  then have "gen_exp f a (int n) = aseq (dlog a * n)"
    using assms alpha_normalize [OF assms(1), of "dlog a * n"] index_ok [OF assms]
    by (simp add: gen_exp_def index_def)
  then show ?thesis using aseq_dlog(1) [OF assms(2,3)] by (metis gf_aseq power_mult)
qed (use assms in \<open>simp add: gen_exp_def\<close>)

lemma gf_exp_direct:
  assumes "field_ok f" and "symbol a" and "a \<noteq> 0"
  shows "gf (exp_direct f a n) = gf a powi n"
proof (cases "n < 0")
  case False
  then show ?thesis using gf_gen_exp [OF assms, of "nat n"] direct_is_gen(4) [of n f a]
    by (simp add: power_int_def)
next
  case True
  let ?m = "norm_neg 8 n"
  have m: "?m mod 255 = n mod 255" "0 \<le> ?m" using norm_neg_8 [of n] by auto
  then have "255 dvd ?m - n" by (simp add: mod_eq_dvd_iff)
  then obtain k where k: "?m = n + 255 * k" by (auto elim!: dvdE) (metis diff_add_cancel add.commute)
  have nz: "gf a \<noteq> 0" using assms(2,3) by (simp add: gf_eq_0)
  have "gf (exp_direct f a n) = gf (gen_exp f a (int (nat ?m)))"
    using True assms m(2) by (simp add: exp_direct_def gen_exp_def field_ok_def Let_def)
  also have "\<dots> = gf a powi ?m" using gf_gen_exp [OF assms, of "nat ?m"] m(2) by (simp add: power_int_def)
  also have "\<dots> = gf a powi n * (gf a powi 255) powi k" using nz by (simp add: k power_int_add power_int_mult)
  also have "gf a powi 255 = 1" using gf_power_255 [OF assms(2,3)] by (simp add: power_int_def)
  finally show ?thesis by simp
qed

section \<open>Properties\<close>

text \<open>
  A field of power 15 or 16, for which the library has primitive polynomials, overruns its buffer
  because the size wraps around; so does every field that is larger than the first one
  constructed, whose size the static constant keeps.
\<close>

theorem field_tables_overrun:
  assumes "pwr \<le> 16" and "st = None \<and> 15 \<le> pwr \<or> st = Some (buffer_size linear p0) \<and> p0 \<le> 14 \<and> p0 < pwr"
    and "place_tables linear st pwr = (l, sz)"
  shows "\<not> inside (arrays (2 ^ pwr) l) sz"
proof (rule arrays_overrun)
  show "tiles 0 (arrays (2 ^ pwr) l) (table_bytes linear (2 ^ pwr))"
    using place_tables_tiles [OF assms(1) refl, of linear st] assms(3) by simp
  have sz: "sz = (case st of None \<Rightarrow> buffer_size linear pwr | Some n \<Rightarrow> n)"
    using assms(3) by (auto simp: place_tables_def Let_def split_beta)
  consider "st = None" "pwr = 15 \<or> pwr = 16" | "st = Some (buffer_size linear p0)" "p0 \<le> 14" "p0 < pwr"
    using assms(1,2) by linarith
  then show "unat sz < table_bytes linear (2 ^ pwr)"
  proof cases
    case 1
    then show ?thesis using sz by (cases linear) (auto simp: buffer_size_def field_order_def table_bytes_def Let_def)
  next
    case 2
    have "2 * 2 ^ p0 \<le> (2 :: nat) ^ pwr" using power_increasing [of "Suc p0" pwr "2 :: nat"] 2(3) by simp
    from table_bytes_overrun [OF this, of linear] show ?thesis
      using sz 2(1) unat_buffer_size [OF 2(2) refl, of linear] by simp
  qed
qed

text \<open>
  C34: for the powers up to 14 the lookup tables of a field do not overlap and lie inside the
  buffer, provided no smaller field was constructed before (the size of the buffer is a static
  constant). The program's only field, of power 8, is a case of this.
\<close>

theorem field_tables_separate:
  assumes "pwr \<le> p0" and "p0 \<le> 14" and "st = None \<and> p0 = pwr \<or> st = Some (buffer_size linear p0)"
    and "place_tables linear st pwr = (l, sz)"
  shows "apart (arrays (2 ^ pwr) l) \<and> inside (arrays (2 ^ pwr) l) sz"
proof -
  have t: "tiles 0 (arrays (2 ^ pwr) l) (table_bytes linear (2 ^ pwr))"
    using place_tables_tiles [of pwr "2 ^ pwr" linear st] assms by simp
  have sz: "sz = buffer_size linear p0"
    using assms(3,4) by (auto simp: place_tables_def Let_def split_beta)
  have "(2 :: nat) ^ pwr \<le> 2 ^ p0" using assms(1) by (rule power_increasing) simp
  then have "table_bytes linear (2 ^ pwr) \<le> unat sz"
    unfolding sz unat_buffer_size [OF assms(2) refl] by (rule table_bytes_fit)
  then show ?thesis using tiles_apart [OF t] tiles_inside [OF t] by simp
qed

theorem field_tables_separate_witness:
  "inside (arrays 256 (fst (place_tables False None 8))) (buffer_size False 8)"
proof -
  have "place_tables False None 8 = (fst (place_tables False None 8), buffer_size False 8)"
    by (simp add: place_tables_def Let_def split_beta)
  from field_tables_separate [of 8 8, OF _ _ _ this] show ?thesis by simp
qed

text \<open>
  C37: a build without lookup tables computes the same as one with them, in the field of the program: products, quotients,
  inverses and the powers up to 255 of symbols agree. For every \<^verbatim>\<open>int\<close> exponent for which the
  product with a logarithm does not overflow, negative ones included, the direct power of a
  non-zero symbol is the power in the field, where the masked table lookup is wrong from 256 on.
\<close>

theorem direct_matches_tables:
  assumes "f = rs_field al ix beyond" and "symbol a" and "symbol b"
    and "\<bar>n\<bar> * 255 < 2 ^ 31"
  shows "mul_direct f a b = mul f a b \<and> div_direct f a b = div_sym f a b \<and>
     inverse_direct f a = inverse_sym f a \<and> exp_direct f a b = exp_sym f a b \<and>
     (a \<noteq> 0 \<longrightarrow> gf (exp_direct f a n) = gf a powi n)"
proof -
  have f: "field_ok f" unfolding assms(1) by (rule rs_field_ok)
  show ?thesis using table_is_gen [OF f assms(2,3)] gf_exp_direct [OF f assms(2)] assms(3)
    by (simp add: direct_is_gen)
qed

theorem direct_matches_tables_witness:
  "let f = rs_field (\<lambda>_. 7) (\<lambda>_. 0) 1 in
     mul_direct f 200 17 = mul f 200 17 \<and> gf (exp_direct f 200 (- 300)) = gf 200 powi (- 300)"
  using direct_matches_tables [of "rs_field (\<lambda>_. 7) (\<lambda>_. 0) 1" "\<lambda>_. 7" "\<lambda>_. 0" 1 200 17 "- 300"] by (simp add: Let_def)

end
