(* ===== verification/Interleaver.thy ===== *)
theory Interleaver
  imports RSDecode
begin

text \<open>
  The interleavers of \<^verbatim>\<open>schifra_reed_solomon_interleaving.hpp\<close>. A stack of blocks is a list of rows;
  an access outside of it is undefined: \<^term>\<open>None\<close>. The auxiliary stack the functions write
  to starts with whatever the memory contains. The header has each function for \<^verbatim>\<open>block\<close>, for
  \<^verbatim>\<open>data_block\<close> and for pointers, with the same loops; the versions with pointers are modelled.
\<close>

section \<open>Stacks\<close>

type_synonym 'a stack = "'a list list"
type_synonym cell = "nat \<times> nat"

definition in_stack :: "'a stack \<Rightarrow> cell \<Rightarrow> bool" where
  "in_stack s p \<longleftrightarrow> fst p < length s \<and> snd p < length (s ! fst p)"

definition cell_at :: "'a stack \<Rightarrow> cell \<Rightarrow> 'a" where
  "cell_at s p = s ! fst p ! snd p"

definition set_cell :: "cell \<Rightarrow> 'a \<Rightarrow> 'a stack \<Rightarrow> 'a stack" where
  "set_cell p v s = s[fst p := (s ! fst p)[snd p := v]]"

definition move :: "'a stack \<Rightarrow> cell \<Rightarrow> cell \<Rightarrow> 'a stack \<Rightarrow> 'a stack option" where
  "move src p q dst = (if in_stack src p \<and> in_stack dst q then Some (set_cell q (cell_at src p) dst) else None)"

definition swap :: "cell \<Rightarrow> cell \<Rightarrow> 'a stack \<Rightarrow> 'a stack option" where
  "swap p q s =
     (if in_stack s p \<and> in_stack s q
      then let tmp = cell_at s p; s = set_cell p (cell_at s q) s in Some (set_cell q tmp s)
      else None)"

section \<open>Interleaving\<close>

text \<open>The two ways to advance a pair of counters: along a row, and down a column.\<close>

definition next_index :: "nat \<Rightarrow> nat \<Rightarrow> cell \<Rightarrow> cell" where
  "next_index n first p = (if snd p + 1 = n then (fst p + 1, first) else (fst p, snd p + 1))"

definition next_row :: "nat \<Rightarrow> cell \<Rightarrow> cell" where
  "next_row rows p = (if fst p + 1 = rows then (0, snd p + 1) else (fst p + 1, snd p))"

text \<open>The nested loops of the source: column by column, and row by row.\<close>

definition columns :: "nat \<Rightarrow> nat \<Rightarrow> nat \<Rightarrow> cell list" where
  "columns m n rows = concat (map (\<lambda>i. map (\<lambda>row. (row, i)) [0..<rows]) [m..<n])"

definition rows_of :: "nat \<Rightarrow> nat \<Rightarrow> nat \<Rightarrow> cell list" where
  "rows_of m n rows = concat (map (\<lambda>row. map (\<lambda>i. (row, i)) [m..<n]) [0..<rows])"

text \<open>One symbol from \<open>p\<close> to the current place of the auxiliary stack, whose counters then advance.\<close>

definition gather :: "(cell \<Rightarrow> cell) \<Rightarrow> 'a stack \<Rightarrow> cell \<Rightarrow> 'a stack \<times> cell \<Rightarrow> ('a stack \<times> cell) option" where
  "gather nxt s p st = map_option (\<lambda>aux. (aux, nxt (snd st))) (move s p (snd st) (fst st))"

definition copy_back :: "'a stack \<Rightarrow> cell list \<Rightarrow> 'a stack \<Rightarrow> 'a stack option" where
  "copy_back aux = fold_opt (\<lambda>p. move aux p p)"

definition interleave :: "nat \<Rightarrow> nat \<Rightarrow> 'a stack \<Rightarrow> 'a stack \<Rightarrow> 'a stack option" where
  "interleave n rows aux s = do {
     (aux, q) \<leftarrow> fold_opt (gather (next_index n 0) s) (columns 0 n rows) (aux, (0, 0));
     copy_back aux (rows_of 0 n rows) s
   }"

text \<open>Without rows, \<^verbatim>\<open>row_count - 1\<close> is the largest number and the loops leave the stack.\<close>

definition interleave_partial :: "nat \<Rightarrow> nat \<Rightarrow> nat \<Rightarrow> 'a stack \<Rightarrow> 'a stack \<Rightarrow> 'a stack option" where
  "interleave_partial n rows part aux s =
     (if rows = 0 then None
      else do {
        (aux, q) \<leftarrow> fold_opt (gather (next_index n 0) s) (columns 0 part rows) (aux, (0, 0));
        (aux, q) \<leftarrow> fold_opt (gather (next_index n 0) s) (columns part n (rows - 1)) (aux, q);
        s \<leftarrow> copy_back aux (rows_of 0 n (rows - 1)) s;
        copy_back aux (map (\<lambda>i. (rows - 1, i)) [0..<part]) s
      })"

definition deinterleave :: "nat \<Rightarrow> nat \<Rightarrow> 'a stack \<Rightarrow> 'a stack \<Rightarrow> 'a stack option" where
  "deinterleave n rows aux s = do {
     (aux, q) \<leftarrow> fold_opt (gather (next_row rows) s) (rows_of 0 n rows) (aux, (0, 0));
     copy_back aux (rows_of 0 n rows) s
   }"

text \<open>
  The partial deinterleaver advances the counters of both stacks. Its second loop runs until the
  column counter reaches the end; the model does not assume that it does.
\<close>

definition exchange :: "nat \<Rightarrow> nat \<Rightarrow> 'a stack \<Rightarrow> 'a stack \<times> cell \<times> cell \<Rightarrow> ('a stack \<times> cell \<times> cell) option" where
  "exchange n rows s st = (case st of (aux, q1, q2) \<Rightarrow>
     map_option (\<lambda>aux. (aux, next_row rows q1, next_index n 0 q2)) (move s q2 q1 aux))"

partial_function (option) exchange_rest ::
  "nat \<Rightarrow> nat \<Rightarrow> 'a stack \<Rightarrow> 'a stack \<times> cell \<times> cell \<Rightarrow> ('a stack \<times> cell \<times> cell) option" where
  "exchange_rest n rows s st =
     (if snd (fst (snd st)) < n then Option.bind (exchange n rows s st) (exchange_rest n rows s) else Some st)"

definition deinterleave_partial :: "nat \<Rightarrow> nat \<Rightarrow> nat \<Rightarrow> 'a stack \<Rightarrow> 'a stack \<Rightarrow> 'a stack option" where
  "deinterleave_partial n rows part aux s =
     (if rows = 1 then Some s
      else if rows = 0 then None
      else do {
        st \<leftarrow> fold_opt (\<lambda>i. exchange n rows s) [0..<part * rows] (aux, (0, 0), (0, 0));
        (aux, q1, q2) \<leftarrow> exchange_rest n (rows - 1) s st;
        s \<leftarrow> copy_back aux (rows_of 0 n (rows - 1)) s;
        copy_back aux (map (\<lambda>i. (rows - 1, i)) [0..<part]) s
      })"

text \<open>The square stacks, interleaved in place, and the versions that leave out the first columns.\<close>

definition above_diagonal :: "nat \<Rightarrow> nat \<Rightarrow> cell list" where
  "above_diagonal m n = concat (map (\<lambda>i. map (\<lambda>j. (i, j)) [i + 1..<n]) [m..<n])"

definition interleave_square :: "nat \<Rightarrow> 'a stack \<Rightarrow> 'a stack option" where
  "interleave_square n = fold_opt (\<lambda>(i, j). swap (i, j) (j, i)) (above_diagonal 0 n)"

definition deinterleave_square :: "nat \<Rightarrow> 'a stack \<Rightarrow> 'a stack \<Rightarrow> 'a stack option" where
  "deinterleave_square n aux s = do {
     aux \<leftarrow> fold_opt (\<lambda>(row, i). move s (row, i) (i, row)) (rows_of 0 n n) aux;
     copy_back aux (rows_of 0 n n) s
   }"

definition interleave_columnskip_square :: "nat \<Rightarrow> nat \<Rightarrow> 'a stack \<Rightarrow> 'a stack option" where
  "interleave_columnskip_square n skip =
     fold_opt (\<lambda>(i, j). let x1 = i + skip; x2 = j + skip in swap (i, x2) (j, x1)) (above_diagonal 0 n)"

definition interleave_columnskip :: "nat \<Rightarrow> nat \<Rightarrow> nat \<Rightarrow> 'a stack \<Rightarrow> 'a stack \<Rightarrow> 'a stack option" where
  "interleave_columnskip n skip rows aux s = do {
     (aux, q) \<leftarrow> fold_opt (gather (next_index n skip) s) (columns skip n rows) (aux, (0, skip));
     copy_back aux (rows_of skip n rows) s
   }"

definition interleave_columnskip_data :: "nat \<Rightarrow> nat \<Rightarrow> 'a stack \<Rightarrow> 'a stack option" where
  "interleave_columnskip_data n skip = fold_opt (\<lambda>(i, j). swap (i, j) (j, i)) (above_diagonal skip n)"

section \<open>Moving symbols\<close>

lemma in_stack_cong: "map length s = map length t \<Longrightarrow> in_stack s p \<longleftrightarrow> in_stack t p"
  unfolding in_stack_def by (metis length_map nth_map)

lemma shape_set_cell [simp]: "map length (set_cell p v s) = map length s"
  by (simp add: set_cell_def map_update list_update_same_conv) (metis length_list_update list_update_id map_update)

lemma cell_at_set_cell: "in_stack s p \<Longrightarrow> cell_at (set_cell p v s) q = (if q = p then v else cell_at s q)"
  by (cases p; cases q) (auto simp: cell_at_def set_cell_def in_stack_def nth_list_update)

lemma stack_eqI:
  assumes "map length s = map length t" and "\<And>p. in_stack s p \<Longrightarrow> cell_at s p = cell_at t p"
  shows "s = t"
proof (rule nth_equalityI)
  show l: "length s = length t" using assms(1) by (rule map_eq_imp_length_eq)
  fix i assume i: "i < length s"
  then have "length (s ! i) = length (t ! i)" using assms(1) l by (metis nth_map)
  then show "s ! i = t ! i" using i assms(2) [of "(i, j)" for j] by (intro nth_equalityI) (auto simp: in_stack_def cell_at_def)
qed

definition moves :: "'a stack \<Rightarrow> (cell \<times> cell) list \<Rightarrow> 'a stack \<Rightarrow> 'a stack option" where
  "moves src = fold_opt (\<lambda>(p, q). move src p q)"

text \<open>\<open>d\<close> differs from \<open>s\<close> in that the cells \<open>qs\<close> hold the symbols of the cells \<open>ps\<close> of \<open>src\<close>.\<close>

definition placed :: "'a stack \<Rightarrow> cell list \<Rightarrow> cell list \<Rightarrow> 'a stack \<Rightarrow> 'a stack \<Rightarrow> bool" where
  "placed src ps qs s d \<longleftrightarrow> map length d = map length s \<and>
     (\<forall>i<length ps. cell_at d (qs ! i) = cell_at src (ps ! i)) \<and> (\<forall>q. q \<notin> set qs \<longrightarrow> cell_at d q = cell_at s q)"

lemma moves_placed:
  assumes "length ps = length qs" and "distinct qs" and "list_all (in_stack src) ps" and "list_all (in_stack s) qs"
  shows "\<exists>d. moves src (zip ps qs) s = Some d \<and> placed src ps qs s d"
  using assms
proof (induction ps qs arbitrary: s rule: list_induct2)
  case (Cons p ps q qs)
  let ?s = "set_cell q (cell_at src p) s"
  have q: "in_stack src p" "in_stack s q" using Cons.prems by simp_all
  have "list_all (in_stack ?s) qs"
    using Cons.prems(3) in_stack_cong [OF shape_set_cell, of q "cell_at src p" s] by (simp add: list_all_iff)
  then obtain d where d: "moves src (zip ps qs) ?s = Some d" "placed src ps qs ?s d"
    using Cons.IH [of ?s] Cons.prems by auto
  moreover have "cell_at d q = cell_at src p"
    using d(2) Cons.prems(1) cell_at_set_cell [OF q(2)] by (cases q) (auto simp: placed_def)
  ultimately have "placed src (p # ps) (q # qs) s d"
    using Cons.prems(1) q cell_at_set_cell [OF q(2)] by (auto simp: placed_def nth_Cons' less_Suc_eq_0_disj)
  with d(1) q show ?case by (simp add: moves_def move_def)
qed (simp add: moves_def placed_def)

lemma copy_back_moves: "copy_back aux qs = moves aux (zip qs qs)"
proof
  fix s show "copy_back aux qs s = moves aux (zip qs qs) s"
    by (induction qs arbitrary: s) (simp_all add: copy_back_def moves_def split: Option.bind_split)
qed

primrec iter :: "('b \<Rightarrow> 'b) \<Rightarrow> 'b \<Rightarrow> nat \<Rightarrow> 'b list" where
  "iter nxt q 0 = []"
| "iter nxt q (Suc k) = q # iter nxt (nxt q) k"

lemma length_iter [simp]: "length (iter nxt q k) = k"
  by (induction k arbitrary: q) simp_all

lemma iter_eq: "iter nxt q k = map (\<lambda>i. (nxt ^^ i) q) [0..<k]"
proof (induction k arbitrary: q)
  case (Suc k)
  have "[0..<Suc k] = 0 # map Suc [0..<k]" by (simp add: upt_conv_Cons map_Suc_upt del: upt_Suc)
  then show ?case using Suc by (simp add: funpow_swap1 del: upt_Suc)
qed simp

lemma gather_moves:
  "fold_opt (gather nxt s) ps (aux, q) =
     map_option (\<lambda>aux. (aux, (nxt ^^ length ps) q)) (moves s (zip ps (iter nxt q (length ps))) aux)"
  by (induction ps arbitrary: aux q)
    (simp_all add: gather_def moves_def funpow_swap1 map_option_bind option.map_comp o_def split: Option.bind_split)

lemma exchange_moves:
  "fold_opt (\<lambda>i. exchange n rows s) is (aux, q1, q2) =
     map_option (\<lambda>aux. (aux, (next_row rows ^^ length is) q1, (next_index n 0 ^^ length is) q2))
       (moves s (zip (iter (next_index n 0) q2 (length is)) (iter (next_row rows) q1 (length is))) aux)"
  by (induction "is" arbitrary: aux q1 q2)
    (simp_all add: exchange_def moves_def funpow_swap1 map_option_bind option.map_comp o_def split: Option.bind_split)

section \<open>Orders of the cells\<close>

text \<open>The cells a column counter that wraps around visits, and those a row counter visits.\<close>

definition flat :: "nat \<Rightarrow> nat \<Rightarrow> cell list" where
  "flat n k = map (\<lambda>i. (i div n, i mod n)) [0..<k]"

lemma funpow_next_index: "0 < n \<Longrightarrow> (next_index n 0 ^^ i) (0, 0) = (i div n, i mod n)"
  by (induction i) (auto simp: next_index_def div_Suc mod_Suc)

lemma funpow_next_row: "0 < rows \<Longrightarrow> (next_row rows ^^ i) (0, m) = (i mod rows, m + i div rows)"
  by (induction i) (auto simp: next_row_def div_Suc mod_Suc)

lemma iter_next_index: "0 < n \<Longrightarrow> iter (next_index n 0) (0, 0) k = flat n k"
  by (simp add: iter_eq flat_def funpow_next_index)

lemma iter_append: "iter nxt q (a + b) = iter nxt q a @ iter nxt ((nxt ^^ a) q) b"
  by (induction a arbitrary: q) (simp_all add: funpow_swap1)

lemma flat_add: "flat n (a + b) = flat n a @ map (\<lambda>i. ((a + i) div n, (a + i) mod n)) [0..<b]"
  by (rule nth_equalityI) (auto simp: flat_def nth_append)

lemma rows_of_flat: "0 < n \<Longrightarrow> rows_of 0 n rows = flat n (rows * n)"
proof (induction rows)
  case (Suc rows)
  have "map (\<lambda>i. ((rows * n + i) div n, (rows * n + i) mod n)) [0..<n] = map (\<lambda>i. (rows, i)) [0..<n]"
    using Suc.prems by simp
  then show ?case using Suc flat_add [of n "rows * n" n] by (simp add: rows_of_def add.commute)
qed (simp add: rows_of_def flat_def)

lemma partial_flat:
  assumes "0 < rows" and "0 < n" and "part \<le> n"
  shows "rows_of 0 n (rows - 1) @ map (\<lambda>i. (rows - 1, i)) [0..<part] = flat n ((rows - 1) * n + part)"
proof (cases "part = n")
  case True
  then show ?thesis using flat_add [of n "(rows - 1) * n" part] assms(2) by (simp add: rows_of_flat)
next
  case False
  then show ?thesis using flat_add [of n "(rows - 1) * n" part] assms by (auto simp: rows_of_flat)
qed

lemma columns_iter:
  assumes "0 < rows" and "m \<le> n"
  shows "columns m n rows = iter (next_row rows) (0, m) ((n - m) * rows)"
    and "(next_row rows ^^ ((n - m) * rows)) (0, m) = (0, n)"
proof -
  have "columns m (m + k) rows = iter (next_row rows) (0, m) (k * rows)" for k
  proof (induction k)
    case (Suc k)
    have "iter (next_row rows) (0, m + k) rows = map (\<lambda>row. (row, m + k)) [0..<rows]"
      using assms(1) by (simp add: iter_eq funpow_next_row)
    moreover have "(next_row rows ^^ (k * rows)) (0, m) = (0, m + k)" using assms(1) by (simp add: funpow_next_row)
    ultimately show ?case using Suc iter_append [of "next_row rows" "(0, m)" "k * rows" rows]
      by (simp add: columns_def add.commute)
  qed (simp add: columns_def)
  from this [of "n - m"] assms(2) show "columns m n rows = iter (next_row rows) (0, m) ((n - m) * rows)" by simp
  show "(next_row rows ^^ ((n - m) * rows)) (0, m) = (0, n)" using assms by (simp add: funpow_next_row)
qed

lemma distinct_flat: "0 < n \<Longrightarrow> distinct (flat n k)"
  unfolding flat_def distinct_map by (auto simp: inj_on_def) (metis div_mult_mod_eq)

lemma distinct_columns: "distinct (columns m n rows)"
proof (cases "rows = 0 \<or> n \<le> m")
  case False
  then have "columns m n rows = map (\<lambda>i. (i mod rows, m + i div rows)) [0..<(n - m) * rows]"
    using columns_iter(1) [of rows m n] by (simp add: iter_eq funpow_next_row)
  moreover have "inj_on (\<lambda>i. (i mod rows, m + i div rows)) {0..<(n - m) * rows}"
    by (rule inj_onI) (simp, metis div_mult_mod_eq)
  ultimately show ?thesis by (simp add: distinct_map)
next
  case True
  then have "columns m n rows = []" by (auto simp: columns_def)
  then show ?thesis by simp
qed

text \<open>The order in which the symbols are taken, the last row only up to \<open>part\<close>.\<close>

definition spread :: "nat \<Rightarrow> nat \<Rightarrow> nat \<Rightarrow> cell list" where
  "spread n rows part = columns 0 part rows @ columns part n (rows - 1)"

definition box :: "nat \<Rightarrow> nat \<Rightarrow> 'a stack \<Rightarrow> bool" where
  "box n rows s \<longleftrightarrow> length s = rows \<and> list_all (\<lambda>r. length r = n) s"

lemma in_box: "box n rows s \<Longrightarrow> in_stack s p \<longleftrightarrow> fst p < rows \<and> snd p < n"
  by (auto simp: box_def in_stack_def list_all_length)

lemma set_columns: "set (columns m n rows) = {0..<rows} \<times> {m..<n}"
  by (auto simp: columns_def)

lemma set_rows_of: "set (rows_of m n rows) = {0..<rows} \<times> {m..<n}"
  by (auto simp: rows_of_def)

lemma length_columns: "length (columns m n rows) = (n - m) * rows"
  by (induction n) (auto simp: columns_def Suc_diff_le)

lemma set_flat:
  assumes "0 < n" and "part \<le> n"
  shows "set (flat n (r * n + part)) = {0..<r} \<times> {0..<n} \<union> {r} \<times> {0..<part}"
proof -
  have "flat n (r * n + part) = rows_of 0 n r @ map (\<lambda>i. (r, i)) [0..<part]"
    using partial_flat [of "Suc r" n part] assms by simp
  then show ?thesis by (auto simp: set_rows_of)
qed

lemma spread_ok:
  assumes "0 < n" and "part \<le> n"
  shows "length (spread n (Suc r) part) = r * n + part" and "distinct (spread n (Suc r) part)"
    and "set (spread n (Suc r) part) = set (flat n (r * n + part))"
proof -
  obtain d where "n = part + d" using assms(2) le_Suc_ex by blast
  then show "length (spread n (Suc r) part) = r * n + part" by (simp add: spread_def length_columns algebra_simps)
  show "distinct (spread n (Suc r) part)" by (auto simp: spread_def distinct_columns set_columns)
  show "set (spread n (Suc r) part) = set (flat n (r * n + part))"
    using assms(2) by (auto simp: spread_def set_columns set_flat [OF assms])
qed

section \<open>What the functions compute\<close>

lemma box_cong: "map length s = map length t \<Longrightarrow> box n rows s \<Longrightarrow> box n rows t"
  unfolding box_def list_all_length by (metis length_map nth_map)

text \<open>A stack that may have more rows than those a function works on.\<close>

definition holds :: "nat \<Rightarrow> nat \<Rightarrow> 'a stack \<Rightarrow> bool" where
  "holds n rows s \<longleftrightarrow> (\<forall>i<rows. \<forall>j<n. in_stack s (i, j))"

lemma box_holds: "box n m s \<Longrightarrow> rows \<le> m \<Longrightarrow> holds n rows s"
  by (simp add: holds_def in_box)

lemma in_holds: "holds n rows s \<Longrightarrow> fst p < rows \<Longrightarrow> snd p < n \<Longrightarrow> in_stack s p"
  by (cases p) (simp add: holds_def)

lemma gather_copy:
  assumes b: "box n rows aux" "holds n rows s" and q: "length ps = length qs" "distinct qs" "set ps = set qs"
    and c: "distinct cs" "set cs = set qs" and i: "\<And>p. p \<in> set qs \<Longrightarrow> fst p < rows \<and> snd p < n"
  shows "\<exists>a d. moves s (zip ps qs) aux = Some a \<and> copy_back a cs s = Some d \<and> placed s ps qs s d"
proof -
  have "list_all (in_stack s) ps" "list_all (in_stack aux) qs"
    using i q(3) in_box [OF b(1)] in_holds [OF b(2)] by (auto simp: list_all_iff)
  from moves_placed [OF q(1,2) this] obtain a where
    a: "moves s (zip ps qs) aux = Some a" "placed s ps qs aux a" by blast
  have "box n rows a" using box_cong [OF _ b(1)] a(2) by (metis placed_def)
  then have "list_all (in_stack a) cs" "list_all (in_stack s) cs"
    using i c(2) in_box [of n rows a] in_holds [OF b(2)] by (auto simp: list_all_iff)
  from moves_placed [OF refl c(1) this] obtain d where
    d: "copy_back a cs s = Some d" "placed a cs cs s d" by (auto simp: copy_back_moves)
  have "cell_at d q = cell_at a q" if "q \<in> set cs" for q
    using d(2) that by (auto simp: placed_def in_set_conv_nth)
  then have "placed s ps qs s d"
    using a(2) d(2) c(2) q(1) by (auto simp: placed_def)
  with a(1) d(1) show ?thesis by blast
qed

lemma interleave_partial_spec_holds:
  assumes "box n (Suc r) aux" "holds n (Suc r) s" and n: "0 < n" "part \<le> n"
  shows "\<exists>d. interleave_partial n (Suc r) part aux s = Some d \<and>
     placed s (spread n (Suc r) part) (flat n (r * n + part)) s d"
proof -
  let ?ps = "spread n (Suc r) part" and ?qs = "flat n (r * n + part)"
  note sp = spread_ok [OF n, of r]
  have lf: "length ?qs = r * n + part" by (simp add: flat_def)
  have i: "fst p < Suc r \<and> snd p < n" if "p \<in> set ?qs" for p using that n(2) by (auto simp: set_flat [OF n])
  from gather_copy [OF assms(1,2), of ?ps ?qs ?qs] sp lf i distinct_flat [OF n(1)] obtain a d where
    d: "moves s (zip ?ps ?qs) aux = Some a" "copy_back a ?qs s = Some d" "placed s ?ps ?qs s d" by auto
  have "fold_opt (gather (next_index n 0) s) ?ps (aux, 0, 0) = Some (a, (next_index n 0 ^^ (r * n + part)) (0, 0))"
    using d(1) by (simp add: gather_moves sp(1) iter_next_index [OF n(1)])
  moreover have "copy_back a (rows_of 0 n r @ map (\<lambda>i. (r, i)) [0..<part]) s = Some d"
    using d(2) partial_flat [of "Suc r" n part] n by simp
  ultimately have "interleave_partial n (Suc r) part aux s = Some d"
    by (auto simp: interleave_partial_def spread_def fold_opt_append copy_back_def split_beta bind_eq_Some_conv)
  with d(3) show ?thesis by blast
qed

lemmas interleave_partial_spec = interleave_partial_spec_holds [OF _ box_holds [OF _ order_refl]]

lemma interleave_full: "0 < rows \<Longrightarrow> interleave n rows aux s = interleave_partial n rows n aux s"
  by (cases rows)
    (simp_all add: interleave_def interleave_partial_def columns_def rows_of_def copy_back_def fold_opt_append split_beta)

lemma box_interleave:
  assumes "interleave n rows aux s = Some d" and "box n rows aux" "box n rows s" and "0 < n" "0 < rows"
  shows "box n rows d"
proof -
  obtain r where r: "rows = Suc r" using assms(5) by (cases rows) auto
  from interleave_partial_spec [of n r aux s n] assms have "\<exists>ps qs. placed s ps qs s d"
    unfolding interleave_full [OF assms(5)] by (auto simp: r)
  then show ?thesis using box_cong assms(3) by (metis placed_def)
qed

lemma exchange_rest_eq:
  assumes "\<And>j. j < length is \<Longrightarrow> snd ((next_row rows ^^ j) q1) < n" and "\<not> snd ((next_row rows ^^ length is) q1) < n"
  shows "exchange_rest n rows s (aux, q1, q2) = fold_opt (\<lambda>i. exchange n rows s) is (aux, q1, q2)"
  using assms
proof (induction "is" arbitrary: aux q1 q2)
  case (Cons i "is")
  have "snd q1 < n" using Cons.prems(1) [of 0] by simp
  moreover have "exchange_rest n rows s (a, next_row rows q1, q) = fold_opt (\<lambda>i. exchange n rows s) is (a, next_row rows q1, q)"
    for a q
  proof (rule Cons.IH)
    fix j assume "j < length is"
    then show "snd ((next_row rows ^^ j) (next_row rows q1)) < n" using Cons.prems(1) [of "Suc j"] by (simp add: funpow_swap1)
  qed (use Cons.prems(2) in \<open>simp add: funpow_swap1\<close>)
  ultimately show ?case
    by (subst exchange_rest.simps) (simp add: exchange_def bind_map_option o_def split: Option.bind_split)
qed (simp add: exchange_rest.simps)

lemma deinterleave_partial_spec_holds:
  assumes "box n (Suc (Suc r)) aux" "holds n (Suc (Suc r)) s" and n: "0 < n" "part \<le> n"
  shows "\<exists>d. deinterleave_partial n (Suc (Suc r)) part aux s = Some d \<and>
     placed s (flat n (Suc r * n + part)) (spread n (Suc (Suc r)) part) s d"
proof -
  let ?qs = "spread n (Suc (Suc r)) part" and ?ps = "flat n (Suc r * n + part)"
  let ?a = "part * Suc (Suc r)" and ?b = "(n - part) * Suc r"
  note sp = spread_ok [OF n, of "Suc r"]
  have lf: "length ?ps = Suc r * n + part" by (simp add: flat_def)
  have ab: "Suc r * n + part = ?a + ?b" using sp(1) by (simp add: spread_def length_columns)
  have i: "fst p < Suc (Suc r) \<and> snd p < n" if "p \<in> set ?qs" for p
    using that n(2) by (auto simp: spread_def set_columns)
  from gather_copy [OF assms(1,2), of ?ps ?qs ?ps] sp lf i distinct_flat [OF n(1)] obtain a d where
    d: "moves s (zip ?ps ?qs) aux = Some a" "copy_back a ?ps s = Some d" "placed s ?ps ?qs s d" by auto
  define q2 where "q2 = (next_index n 0 ^^ ?a) (0, 0)"
  have c1: "columns 0 part (Suc (Suc r)) = iter (next_row (Suc (Suc r))) (0, 0) ?a"
      "(next_row (Suc (Suc r)) ^^ ?a) (0, 0) = (0, part)"
    using columns_iter [of "Suc (Suc r)" 0 part] by simp_all
  have c2: "columns part n (Suc r) = iter (next_row (Suc r)) (0, part) ?b"
    using columns_iter(1) [of "Suc r" part n] n(2) by simp
  have f: "?ps = iter (next_index n 0) (0, 0) ?a @ iter (next_index n 0) q2 ?b"
    using iter_append [of "next_index n 0" "(0, 0)" ?a ?b] iter_next_index [OF n(1), of "?a + ?b"]
    by (simp only: q2_def ab)
  have "moves s (zip ?ps ?qs) aux =
      Option.bind (moves s (zip (iter (next_index n 0) (0, 0) ?a) (columns 0 part (Suc (Suc r)))) aux)
        (moves s (zip (iter (next_index n 0) q2 ?b) (columns part n (Suc r))))"
    unfolding f spread_def moves_def by (simp add: length_columns fold_opt_append)
  then obtain a1 where a1: "moves s (zip (iter (next_index n 0) (0, 0) ?a) (columns 0 part (Suc (Suc r)))) aux = Some a1"
    "moves s (zip (iter (next_index n 0) q2 ?b) (columns part n (Suc r))) a1 = Some a"
    using d(1) by (auto simp: bind_eq_Some_conv)
  have s1: "fold_opt (\<lambda>i. exchange n (Suc (Suc r)) s) [0..<?a] (aux, (0, 0), (0, 0)) = Some (a1, (0, part), q2)"
    using a1(1) c1 by (simp add: exchange_moves q2_def)
  have "exchange_rest n (Suc r) s (a1, (0, part), q2) = fold_opt (\<lambda>i. exchange n (Suc r) s) [0..<?b] (a1, (0, part), q2)"
  proof (rule exchange_rest_eq)
    show "snd ((next_row (Suc r) ^^ j) (0, part)) < n" if "j < length [0..<?b]" for j
    proof -
      have "j div Suc r < n - part" using that less_mult_imp_div_less [of j "n - part" "Suc r"] by simp
      then show ?thesis by (simp add: funpow_next_row)
    qed
    show "\<not> snd ((next_row (Suc r) ^^ length [0..<?b]) (0, part)) < n"
      using columns_iter(2) [of "Suc r" part n] n(2) by simp
  qed
  also have "\<dots> = Some (a, (next_row (Suc r) ^^ ?b) (0, part), (next_index n 0 ^^ ?b) q2)"
    using a1(2) c2 by (simp add: exchange_moves)
  finally have s2: "exchange_rest n (Suc r) s (a1, (0, part), q2) =
      Some (a, (next_row (Suc r) ^^ ?b) (0, part), (next_index n 0 ^^ ?b) q2)" .
  have "copy_back a (rows_of 0 n (Suc r) @ map (\<lambda>i. (Suc r, i)) [0..<part]) s = Some d"
    using d(2) partial_flat [of "Suc (Suc r)" n part] n by simp
  then have "deinterleave_partial n (Suc (Suc r)) part aux s = Some d"
    using s1 s2 by (simp add: deinterleave_partial_def split_beta copy_back_def fold_opt_append)
  with d(3) show ?thesis by blast
qed

lemmas deinterleave_partial_spec = deinterleave_partial_spec_holds [OF _ box_holds [OF _ order_refl]]

lemma deinterleave_spec_holds:
  assumes "box n (Suc r) aux" "holds n (Suc r) s" and n: "0 < n"
  shows "\<exists>d. deinterleave n (Suc r) aux s = Some d \<and> placed s (flat n (Suc r * n)) (columns 0 n (Suc r)) s d"
proof -
  let ?qs = "columns 0 n (Suc r)" and ?ps = "flat n (Suc r * n)"
  have k: "Suc r * n = r * n + n" by simp
  have sp: "spread n (Suc r) n = ?qs" by (simp add: spread_def columns_def)
  note so = spread_ok [OF n order_refl, of r, unfolded sp, folded k]
  have i: "fst p < Suc r \<and> snd p < n" if "p \<in> set ?qs" for p using that by (auto simp: set_columns)
  have lf: "length ?ps = Suc r * n" by (simp add: flat_def)
  from gather_copy [OF assms(1,2), of ?ps ?qs ?ps] so lf i distinct_flat [OF n] obtain a d where
    d: "moves s (zip ?ps ?qs) aux = Some a" "copy_back a ?ps s = Some d" "placed s ?ps ?qs s d" by auto
  moreover have "rows_of 0 n (Suc r) = ?ps" by (rule rows_of_flat [OF n])
  moreover have "?qs = iter (next_row (Suc r)) (0, 0) (Suc r * n)"
    using columns_iter(1) [of "Suc r" 0 n] by (simp add: mult.commute)
  ultimately show ?thesis using lf by (auto simp: deinterleave_def gather_moves)
qed

lemmas deinterleave_spec = deinterleave_spec_holds [OF _ box_holds [OF _ order_refl]]

lemma placed_back:
  assumes "placed s ps qs s d" and "placed d qs ps d e" and "set ps = set qs" and "length ps = length qs"
  shows "e = s"
proof (rule stack_eqI)
  show "map length e = map length s" using assms(1,2) by (simp add: placed_def)
  fix p
  show "cell_at e p = cell_at s p"
  proof (cases "p \<in> set ps")
    case True
    then obtain i where "i < length ps" "p = ps ! i" by (auto simp: in_set_conv_nth)
    then show ?thesis using assms(1,2,4) by (simp add: placed_def)
  next
    case False
    then show ?thesis using assms(1-3) by (cases p) (simp add: placed_def)
  qed
qed

lemma spread_one_row:
  assumes "0 < n" "part \<le> n"
  shows "spread n 1 part = flat n part"
proof -
  have "columns part n 0 = []" by (auto simp: columns_def)
  moreover have "columns 0 part 1 = flat n part"
    using assms by (auto simp: columns_def flat_def concat_map_singleton)
  ultimately show ?thesis by (simp add: spread_def)
qed

lemma interleave_one_row:
  assumes "box n 1 aux" "box n 1 s" "0 < n" "part \<le> n"
  shows "interleave_partial n 1 part aux s = Some s"
proof -
  from interleave_partial_spec [of n 0 aux s part] assms obtain d where
    d: "interleave_partial n 1 part aux s = Some d" "placed s (spread n 1 part) (flat n part) s d" by auto
  then have "d = s" using placed_back [of s "flat n part" "flat n part" s d] spread_one_row [OF assms(3,4)] by (simp add: placed_def)
  with d(1) show ?thesis by simp
qed

lemma deinterleave_interleave:
  assumes b: "box n rows s" "box n rows aux" "box n rows aux'" and n: "0 < n" "part \<le> n" "0 < rows"
  shows "Option.bind (interleave_partial n rows part aux s) (deinterleave_partial n rows part aux') = Some s"
    and "Option.bind (interleave n rows aux s) (deinterleave n rows aux') = Some s"
proof -
  obtain r where r: "rows = Suc r" using n(3) by (cases rows) auto
  have bd: "box n rows d" if "placed s ps qs s d" for ps qs d
    using that b(1) box_cong by (metis placed_def)
  show "Option.bind (interleave_partial n rows part aux s) (deinterleave_partial n rows part aux') = Some s"
  proof (cases r)
    case 0
    then show ?thesis using b n interleave_one_row [of n aux s part] by (simp add: r deinterleave_partial_def)
  next
    case (Suc q)
    from interleave_partial_spec [of n r aux s part] b n obtain d where
      d: "interleave_partial n rows part aux s = Some d" "placed s (spread n rows part) (flat n (r * n + part)) s d"
      unfolding r by blast
    from deinterleave_partial_spec [of n q aux' d part] bd [OF d(2)] b(3) n obtain e where
      e: "deinterleave_partial n rows part aux' d = Some e" "placed d (flat n (r * n + part)) (spread n rows part) d e"
      unfolding r Suc by blast
    have "e = s" using placed_back [OF d(2) e(2)] spread_ok [OF n(1,2), of r] by (simp add: r flat_def)
    with d(1) e(1) show ?thesis by simp
  qed
  from interleave_partial_spec [of n r aux s n] b n(1) obtain d where
    d: "interleave n rows aux s = Some d" "placed s (spread n rows n) (flat n (r * n + n)) s d"
    unfolding interleave_full [OF n(3)] unfolding r by blast
  have sp: "spread n rows n = columns 0 n rows" by (simp add: spread_def columns_def)
  from deinterleave_spec [of n r aux' d] bd [OF d(2)] b(3) n(1) obtain e where
    e: "deinterleave n rows aux' d = Some e" "placed d (flat n (r * n + n)) (spread n rows n) d e"
    unfolding sp unfolding r by (auto simp: add.commute)
  have "e = s" using placed_back [OF d(2) e(2)] spread_ok [OF n(1) order_refl, of r] by (simp add: r flat_def)
  with d(1) e(1) show "Option.bind (interleave n rows aux s) (deinterleave n rows aux') = Some s" by simp
qed

section \<open>Bursts\<close>

text \<open>Two stacks that agree outside \<open>w\<close> consecutive symbols, counted row by row.\<close>

definition burst :: "nat \<Rightarrow> nat \<Rightarrow> nat \<Rightarrow> 'a stack \<Rightarrow> 'a stack \<Rightarrow> bool" where
  "burst n p w x y \<longleftrightarrow>
     (\<forall>i < length x * n. i \<notin> {p..<p + w} \<longrightarrow> cell_at y (i div n, i mod n) = cell_at x (i div n, i mod n))"

lemma card_stride:
  assumes "0 < m" and "w \<le> t * m"
  shows "card {c. c < n \<and> p \<le> c * m + j \<and> c * m + j < p + w} \<le> t"
proof -
  let ?S = "{c. c < n \<and> p \<le> c * m + j \<and> c * m + j < p + w}"
  show ?thesis
  proof (cases "?S = {}")
    case False
    have fin: "finite ?S" by simp
    let ?c = "Min ?S"
    have c: "?c \<in> ?S" by (rule Min_in [OF fin False])
    have "?S \<subseteq> {?c..<?c + t}"
    proof
      fix d assume d: "d \<in> ?S"
      then have "d * m + j < ?c * m + j + t * m" using c assms(2) by simp
      then have "d * m < (?c + t) * m" by (simp add: add_mult_distrib)
      then show "d \<in> {?c..<?c + t}" using Min_le [OF fin d] by simp
    qed
    then have "card ?S \<le> card {?c..<?c + t}" by (intro card_mono) auto
    then show ?thesis by simp
  next
    case True
    then show ?thesis by (simp only: card.empty)
  qed
qed

lemma stride_bound: "c < n \<Longrightarrow> j < (m :: nat) \<Longrightarrow> c * m + j < n * m"
proof -
  assume "c < n" and j: "j < m"
  then have "Suc c * m \<le> n * m" by (intro mult_le_mono1) simp
  with j show ?thesis by simp
qed

lemma nth_columns: "j < rows \<Longrightarrow> c < n \<Longrightarrow> columns 0 n rows ! (c * rows + j) = (j, c)"
proof -
  assume j: "j < rows" and c: "c < n"
  have "c * rows + j < n * rows" using stride_bound [OF c j] .
  then show ?thesis using columns_iter(1) [of rows 0 n] j by (simp add: iter_eq funpow_next_row)
qed

lemma deinterleave_spreads:
  assumes x: "box n rows x" "deinterleave n rows aux x = Some d" and y: "box n rows y" "box n rows aux'"
    and a: "box n rows aux" and n: "0 < n" "0 < rows" and w: "burst n p w x y" "w \<le> t * rows"
  shows "\<exists>e. deinterleave n rows aux' y = Some e \<and> box n rows e \<and>
     (\<forall>j<rows. card {c. c < n \<and> e ! j ! c \<noteq> d ! j ! c} \<le> t)"
proof -
  obtain r where r: "rows = Suc r" using n(2) by (cases rows) auto
  let ?ps = "flat n (rows * n)" and ?qs = "columns 0 n rows"
  have d: "placed x ?ps ?qs x d" using deinterleave_spec [of n r aux x] x a n(1) by (auto simp: r)
  from deinterleave_spec [of n r aux' y] y n(1) obtain e where
    e: "deinterleave n rows aux' y = Some e" "placed y ?ps ?qs y e" unfolding r by blast
  have at: "d ! j ! c = cell_at x ((c * rows + j) div n, (c * rows + j) mod n)"
    "e ! j ! c = cell_at y ((c * rows + j) div n, (c * rows + j) mod n)" "c * rows + j < rows * n" if "j < rows" "c < n" for j c
  proof -
    have i: "c * rows + j < rows * n" using stride_bound [OF that(2,1)] by (simp add: mult.commute)
    then show "c * rows + j < rows * n" .
    have "?qs ! (c * rows + j) = (j, c)" "?ps ! (c * rows + j) = ((c * rows + j) div n, (c * rows + j) mod n)"
      using nth_columns [OF that] i by (simp_all add: flat_def)
    then show "d ! j ! c = cell_at x ((c * rows + j) div n, (c * rows + j) mod n)"
      "e ! j ! c = cell_at y ((c * rows + j) div n, (c * rows + j) mod n)"
      using d e(2) i unfolding placed_def cell_at_def [of d] cell_at_def [of e] by (auto simp: flat_def)
  qed
  have "card {c. c < n \<and> e ! j ! c \<noteq> d ! j ! c} \<le> t" if j: "j < rows" for j
  proof -
    have "{c. c < n \<and> e ! j ! c \<noteq> d ! j ! c} \<subseteq> {c. c < n \<and> p \<le> c * rows + j \<and> c * rows + j < p + w}"
    proof
      fix c assume "c \<in> {c. c < n \<and> e ! j ! c \<noteq> d ! j ! c}"
      then have c: "c < n" "e ! j ! c \<noteq> d ! j ! c" by simp_all
      have "c * rows + j \<in> {p..<p + w}"
        using at [OF j c(1)] c(2) w(1) x(1) unfolding burst_def box_def by metis
      then show "c \<in> {c. c < n \<and> p \<le> c * rows + j \<and> c * rows + j < p + w}" using c(1) by simp
    qed
    then have "card {c. c < n \<and> e ! j ! c \<noteq> d ! j ! c} \<le> card {c. c < n \<and> p \<le> c * rows + j \<and> c * rows + j < p + w}"
      by (intro card_mono) auto
    also have "\<dots> \<le> t" by (rule card_stride [OF n(2) w(2)])
    finally show ?thesis .
  qed
  moreover have "box n rows e" using e(2) y(1) box_cong by (metis placed_def)
  ultimately show ?thesis using e(1) by blast
qed

section \<open>Square stacks\<close>

lemma cell_at_swap:
  assumes "swap p q s = Some d" and "p \<noteq> q"
  shows "cell_at d x = (if x = p then cell_at s q else if x = q then cell_at s p else cell_at s x) \<and> map length d = map length s"
proof -
  have i: "in_stack s p" "in_stack s q" and d: "d = set_cell q (cell_at s p) (set_cell p (cell_at s q) s)"
    using assms(1) by (auto simp: swap_def Let_def split: if_splits)
  have "in_stack (set_cell p (cell_at s q) s) q" using i(2) in_stack_cong [OF shape_set_cell] by metis
  then show ?thesis unfolding d using i assms(2) by (simp add: cell_at_set_cell)
qed

lemma swaps_transpose:
  assumes "box n n s" and "distinct L" and "list_all (\<lambda>(i, j). i < j \<and> j < n) L"
  shows "\<exists>d. fold_opt (\<lambda>(i, j). swap (i, j) (j, i)) L s = Some d \<and> map length d = map length s \<and>
     (\<forall>a b. cell_at d (a, b) = (if (a, b) \<in> set L \<or> (b, a) \<in> set L then cell_at s (b, a) else cell_at s (a, b)))"
  using assms
proof (induction L arbitrary: s)
  case (Cons x L)
  obtain i j where x: "x = (i, j)" "i < j" "j < n" using Cons.prems(3) by (cases x) auto
  have "in_stack s (i, j)" "in_stack s (j, i)" using x in_box [OF Cons.prems(1)] by auto
  then obtain s1 where s1: "swap (i, j) (j, i) s = Some s1" by (simp add: swap_def Let_def)
  have c: "cell_at s1 y = (if y = (i, j) then cell_at s (j, i) else if y = (j, i) then cell_at s (i, j) else cell_at s y) \<and>
      map length s1 = map length s" for y
    using cell_at_swap [OF s1] x(2) by blast
  have len: "map length s1 = map length s" using c x(2) by blast
  have "box n n s1" by (rule box_cong [OF len [symmetric] Cons.prems(1)])
  from Cons.IH [OF this] Cons.prems(2,3) obtain d where
    d: "fold_opt (\<lambda>(i, j). swap (i, j) (j, i)) L s1 = Some d" "map length d = map length s1"
      "\<And>a b. cell_at d (a, b) = (if (a, b) \<in> set L \<or> (b, a) \<in> set L then cell_at s1 (b, a) else cell_at s1 (a, b))"
    by auto
  have n: "(i, j) \<notin> set L" "(j, i) \<notin> set L" using Cons.prems(2,3) x by (auto simp: list_all_iff)
  have "cell_at d (a, b) = (if (a, b) \<in> set (x # L) \<or> (b, a) \<in> set (x # L) then cell_at s (b, a) else cell_at s (a, b))" for a b
    using d(3) [of a b] c x(1,2) n by auto
  then show ?case using s1 d(1,2) len x(1) by simp
qed simp

lemma above_diagonal_ok: "distinct (above_diagonal m n)" "set (above_diagonal m n) = {(i, j). m \<le> i \<and> i < j \<and> j < n}"
proof -
  have "distinct (concat (map (\<lambda>i. map (\<lambda>j. (i, j)) [i + 1..<n]) [m..<k]))" for k
    by (induction k) (auto simp: distinct_map inj_on_def)
  then show "distinct (above_diagonal m n)" by (simp add: above_diagonal_def)
  show "set (above_diagonal m n) = {(i, j). m \<le> i \<and> i < j \<and> j < n}" unfolding above_diagonal_def by fastforce
qed

text \<open>The transposed square stack, which is unique.\<close>

definition transposed :: "nat \<Rightarrow> 'a stack \<Rightarrow> 'a stack \<Rightarrow> bool" where
  "transposed n s d \<longleftrightarrow> map length d = map length s \<and> (\<forall>a<n. \<forall>b<n. cell_at d (a, b) = cell_at s (b, a))"

lemma transposed_unique:
  assumes "box n n s" and "transposed n s d" and "transposed n s e"
  shows "d = e"
proof (rule stack_eqI)
  show len: "map length d = map length e" using assms(2,3) by (simp add: transposed_def)
  have "box n n d" using assms(2) box_cong [OF _ assms(1)] by (metis transposed_def)
  then show "in_stack d p \<Longrightarrow> cell_at d p = cell_at e p" for p
    using assms(2,3) in_box [of n n d p] by (cases p) (simp add: transposed_def)
qed

lemma interleave_square_transposes:
  assumes "box n n s"
  shows "\<exists>d. interleave_square n s = Some d \<and> transposed n s d"
  using swaps_transpose [OF assms above_diagonal_ok(1) [of 0 n]]
  by (auto simp: interleave_square_def above_diagonal_ok(2) list_all_iff transposed_def)

lemma interleave_transposes:
  assumes "box n n s" and "box n n aux" and "0 < n"
  shows "\<exists>d. interleave n n aux s = Some d \<and> transposed n s d"
proof -
  obtain r where r: "n = Suc r" using assms(3) by (cases n) auto
  from interleave_partial_spec [of n r aux s n] assms obtain e where
    e: "interleave n n aux s = Some e" "placed s (spread n n n) (flat n (n * n)) s e"
    using interleave_full [of n n aux s] by (auto simp: r add.commute)
  have cols: "spread n n n = columns 0 n n" by (simp add: spread_def columns_def)
  have "cell_at e (a, b) = cell_at s (b, a)" if "a < n" "b < n" for a b
  proof -
    have i: "a * n + b < n * n" by (rule stride_bound [OF that])
    have "columns 0 n n ! (a * n + b) = (b, a)" "flat n (n * n) ! (a * n + b) = (a, b)"
      using nth_columns [OF that(2,1)] i that by (simp_all add: flat_def)
    moreover have "a * n + b < length (columns 0 n n)" using i by (simp add: length_columns)
    ultimately show ?thesis using e(2) by (auto simp: placed_def cols)
  qed
  then show ?thesis using e by (auto simp: transposed_def placed_def)
qed

lemma deinterleave_square_transposes:
  assumes "box n n s" and "box n n aux" and "0 < n"
  shows "\<exists>d. deinterleave_square n aux s = Some d \<and> transposed n s d"
proof -
  let ?ps = "rows_of 0 n n" and ?t = "\<lambda>(row, i). (i, row) :: cell"
  have ps: "distinct ?ps" "set ?ps = {0..<n} \<times> {0..<n}"
    using distinct_flat [OF assms(3), of "n * n"] rows_of_flat [OF assms(3), of n] set_rows_of [of 0 n n] by simp_all
  have tp: "distinct (map ?t ?ps)" "set (map ?t ?ps) = set ?ps"
    using ps by (auto simp: distinct_map inj_on_def image_iff)
  from gather_copy [OF assms(2) box_holds [OF assms(1) order_refl], of ?ps "map ?t ?ps" ?ps] ps tp obtain a d where
    d: "moves s (zip ?ps (map ?t ?ps)) aux = Some a" "copy_back a ?ps s = Some d" "placed s ?ps (map ?t ?ps) s d" by auto
  have "fold_opt (\<lambda>(row, i). move s (row, i) (i, row)) qs x = moves s (zip qs (map ?t qs)) x" for qs x
    by (induction qs arbitrary: x) (auto simp: moves_def split: Option.bind_split)
  then have "deinterleave_square n aux s = Some d" using d(1,2) by (simp add: deinterleave_square_def)
  moreover have "cell_at d (b, c) = cell_at s (c, b)" if "b < n" "c < n" for b c
  proof -
    have "(c, b) \<in> set ?ps" using that by (simp add: ps(2))
    then obtain i where i: "i < length ?ps" "?ps ! i = (c, b)" by (auto simp: in_set_conv_nth)
    then have "cell_at d (map ?t ?ps ! i) = cell_at s (?ps ! i)" using d(3) unfolding placed_def by blast
    then show ?thesis by (simp add: i)
  qed
  ultimately show ?thesis using d(3) by (auto simp: transposed_def placed_def)
qed

text \<open>
  For a square stack the version in place computes the same as the one with an auxiliary stack,
  and as the square deinterleaver.
\<close>

theorem interleave_square_eq:
  assumes "box n n s" and "box n n aux" and "box n n aux'" and "0 < n"
  shows "interleave_square n s = interleave n n aux s" and "deinterleave_square n aux' s = interleave n n aux s"
  using interleave_square_transposes [OF assms(1)] interleave_transposes [OF assms(1,2,4)]
    deinterleave_square_transposes [OF assms(1,3,4)] transposed_unique [OF assms(1)] by metis+

text \<open>
  The square version that leaves out columns counts the columns from \<open>skip\<close> on up to the whole
  length, so that it leaves the block as soon as it leaves out a column.
\<close>

lemma fold_opt_None:
  assumes "x \<in> set xs" and "\<And>y s s'. y \<in> set xs \<Longrightarrow> P s \<Longrightarrow> f y s = Some s' \<Longrightarrow> P s'"
    and "\<And>s. P s \<Longrightarrow> f x s = None" and "P s"
  shows "fold_opt f xs s = None"
  using assms
proof (induction xs arbitrary: s)
  case (Cons y xs)
  show ?case
  proof (cases "f y s")
    case (Some s')
    then have "P s'" "x \<noteq> y" using Cons.prems(2) [of y s s'] Cons.prems(3) [OF Cons.prems(4)] Cons.prems(4) by auto
    moreover have "x \<in> set xs" using Cons.prems(1) \<open>x \<noteq> y\<close> by simp
    moreover have "\<And>z t t'. z \<in> set xs \<Longrightarrow> P t \<Longrightarrow> f z t = Some t' \<Longrightarrow> P t'"
      by (rule Cons.prems(2)) simp_all
    ultimately have "fold_opt f xs s' = None" using Cons.IH Cons.prems(3) by blast
    then show ?thesis by (simp add: Some)
  qed simp
qed simp

theorem columnskip_square_overruns:
  assumes "box n n s" and "2 \<le> n" and "0 < skip"
  shows "interleave_columnskip_square n skip s = None"
  unfolding interleave_columnskip_square_def
proof (rule fold_opt_None [where P = "box n n" and x = "(0, n - 1)"])
  show "(0, n - 1) \<in> set (above_diagonal 0 n)" using assms(2) by (simp add: above_diagonal_ok)
  fix s' :: "'a stack"
  assume "box n n s'"
  then have "\<not> in_stack s' (0, n - 1 + skip)" using in_box [of n n s' "(0, n - 1 + skip)"] assms(2,3) by simp
  then show "(case (0, n - 1) of (i, j) \<Rightarrow> let x1 = i + skip; x2 = j + skip in swap (i, x2) (j, x1)) s' = None"
    by (simp only: prod.case Let_def swap_def if_False simp_thms)
next
  fix y :: cell and s1 s2 :: "'a stack"
  assume y: "y \<in> set (above_diagonal 0 n)" "box n n s1"
    "(case y of (i, j) \<Rightarrow> let x1 = i + skip; x2 = j + skip in swap (i, x2) (j, x1)) s1 = Some s2"
  obtain i j where ij: "y = (i, j)" by fastforce
  have "map length s2 = map length s1" using y(1,3) cell_at_swap [of "(i, j + skip)" "(j, i + skip)" s1 s2]
    by (auto simp: ij Let_def above_diagonal_ok)
  then show "box n n s2" using box_cong y(2) by metis
qed (rule assms(1))

section \<open>Properties\<close>

text \<open>
  C35: deinterleaving undoes interleaving, for full stacks and for stacks whose last row is only
  partly used, with any number of rows and whatever the auxiliary memory contains. All accesses
  stay inside the stacks and the loop that advances both counters ends.
\<close>

theorem deinterleave_undoes_interleave:
  assumes "box n rows s" and "box n rows aux" and "box n rows aux'" and "0 < n" and "0 < rows" and "part \<le> n"
  shows "Option.bind (interleave n rows aux s) (deinterleave n rows aux') = Some s \<and>
     Option.bind (interleave_partial n rows part aux s) (deinterleave_partial n rows part aux') = Some s"
  using deinterleave_interleave [OF assms(1-4,6,5)] by blast

theorem deinterleave_undoes_interleave_witness:
  "Option.bind (interleave_partial 3 2 1 [[0, 0, 0], [0, 0, 0]] [[1, 2, 3], [4, 9, 9]])
     (deinterleave_partial 3 2 1 [[5, 5, 5], [5, 5, 5]]) = Some [[1, 2, 3], [4, 9, 9 :: nat]]"
  using deinterleave_undoes_interleave [of 3 2 "[[1, 2, 3], [4, 9, 9 :: nat]]" "[[0, 0, 0], [0, 0, 0]]" "[[5, 5, 5], [5, 5, 5]]" 1]
  by (simp add: box_def)

text \<open>
  Interleaving turns a burst into errors the code can repair. If blocks with correct parity
  symbols are interleaved and then at most \<open>k div 2\<close> times as many consecutive symbols as there are
  blocks are damaged, deinterleaving succeeds and the decoder restores every block.
\<close>

lemma interleaving_repairs_bursts:
  assumes "0 < k" and "a + k \<le> 255" and "cs \<noteq> []"
    and "make_sequential_root_generator_polynomial (rs_field al ix beyond) a k = Some g"
    and enc: "\<forall>c \<in> set cs. length (data c) = 255 \<and>
      (\<exists>b. length (data b) = 255 \<and> encode 255 k (encoder_ctor 255 (rs_field al ix beyond) g) b = Some (True, c))"
    and "interleave 255 (length cs) aux (map data cs) = Some sent"
    and "box 255 (length cs) aux" and "box 255 (length cs) aux'" and "box 255 (length cs) received"
    and "burst 255 p w sent received" and "w \<le> (k div 2) * length cs"
  shows "\<exists>back. deinterleave 255 (length cs) aux' received = Some back \<and>
     (\<forall>j<length cs. \<exists>b'. decode 255 k (decoder_ctor 255 k (rs_field al' ix' beyond') a) (block_ctor (back ! j)) = Some (True, b') \<and>
        map (\<lambda>v. v AND 255) (data b') = map (\<lambda>v. v AND 255) (data (cs ! j)))"
proof -
  let ?n = "length cs"
  have n: "0 < ?n" using assms(3) by simp
  have b: "box 255 ?n (map data cs)" using enc by (simp add: box_def list_all_iff)
  have d: "deinterleave 255 ?n aux sent = Some (map data cs)"
    using deinterleave_interleave(2) [OF b assms(7,7) _ order_refl n] assms(6) by simp
  have "box 255 ?n sent" by (rule box_interleave [OF assms(6,7) b _ n]) simp
  from deinterleave_spreads [OF this d assms(9,8,7) _ n assms(10,11)] obtain e where
    e: "deinterleave 255 ?n aux' received = Some e" "box 255 ?n e"
      "\<And>j. j < ?n \<Longrightarrow> card {c. c < 255 \<and> e ! j ! c \<noteq> map data cs ! j ! c} \<le> k div 2" by fastforce
  have "\<exists>b'. decode 255 k (decoder_ctor 255 k (rs_field al' ix' beyond') a) (block_ctor (e ! j)) = Some (True, b') \<and>
        map (\<lambda>v. v AND 255) (data b') = map (\<lambda>v. v AND 255) (data (cs ! j))" if j: "j < ?n" for j
  proof -
    let ?r = "block_ctor (e ! j)" and ?c = "cs ! j"
    obtain m where m: "length (data m) = 255" "encode 255 k (encoder_ctor 255 (rs_field al ix beyond) g) m = Some (True, ?c)"
      using enc nth_mem [OF j] by blast
    have r: "data ?r = e ! j" "length (data ?r) = 255" using e(2) j by (simp_all add: box_def block_ctor_def list_all_length)
    have "{p. p < 255 \<and> data ?r ! p AND 255 \<noteq> data ?c ! p AND 255} \<subseteq> {c. c < 255 \<and> e ! j ! c \<noteq> map data cs ! j ! c}"
      unfolding r(1) using j by (intro Collect_mono) (metis nth_map)
    then have "card {p. p < 255 \<and> data ?r ! p AND 255 \<noteq> data ?c ! p AND 255} \<le>
        card {c. c < 255 \<and> e ! j ! c \<noteq> map data cs ! j ! c}" by (rule card_mono [rotated]) simp
    with e(3) [OF j] have "2 * card {p. p < 255 \<and> data ?r ! p AND 255 \<noteq> data ?c ! p AND 255} \<le> k" by simp
    from decode_repairs_aux [OF assms(1,2) m(1) r(2) assms(4) m(2) this] show ?thesis by blast
  qed
  with e(1) show ?thesis by blast
qed

end
