(* ===== verification/ErasureChannel.thy ===== *)
theory ErasureChannel
  imports Interleaver
begin

text \<open>
  \<^verbatim>\<open>schifra_erasure_channel.hpp\<close>: a square stack of blocks is encoded and interleaved, so that a lost row
  costs every block one symbol at a known position. The decoders get the indices of the lost rows as
  erasures: one decodes block by block, the other computes the locator polynomial once for all blocks. What
  the functions print is not modelled.
\<close>

section \<open>The operations\<close>

text \<open>\<^verbatim>\<open>std::vector::resize\<close> keeps what fits and fills up with empty lists.\<close>

definition interleaved_stack_erasure_mapper :: "nat \<Rightarrow> nat list \<Rightarrow> nat list list \<Rightarrow> nat list list" where
  "interleaved_stack_erasure_mapper n missing_row_index erasure_row_list =
     fold (\<lambda>row l. fold (\<lambda>j l. l[j := l ! j @ [row]]) [0..<n] l) missing_row_index
       (take n erasure_row_list @ replicate (n - length erasure_row_list) [])"

text \<open>The loops over the blocks of the stack, left at the first block that fails.\<close>

fun each_block :: "(rsblock \<Rightarrow> (bool \<times> rsblock) option) \<Rightarrow> nat list \<Rightarrow> rsblock list \<Rightarrow> (bool \<times> rsblock list) option" where
  "each_block op [] blocks = Some (True, blocks)"
| "each_block op (i # is) blocks = do {
     (ok, b) \<leftarrow> op (blocks ! i);
     let blocks = blocks[i := b];
     if ok then each_block op is blocks else Some (False, blocks)
   }"

text \<open>Interleaving exchanges symbols only, the other members of the blocks stay.\<close>

definition interleave_blocks :: "nat \<Rightarrow> rsblock list \<Rightarrow> rsblock list option" where
  "interleave_blocks n blocks =
     map_option (\<lambda>s. map2 (\<lambda>b row. b\<lparr>data := row\<rparr>) blocks s) (interleave_square n (map data blocks))"

definition erasure_channel_stack_encode :: "nat \<Rightarrow> nat \<Rightarrow> encoder \<Rightarrow> rsblock list \<Rightarrow> (bool \<times> rsblock list) option" where
  "erasure_channel_stack_encode n k enc output = do {
     (ok, output) \<leftarrow> each_block (encode n k enc) [0..<n] output;
     if ok then map_option (Pair True) (interleave_blocks n output) else Some (False, output)
   }"

text \<open>Roots only among the data symbols.\<close>

definition find_roots_in_data :: "nat \<Rightarrow> nat \<Rightarrow> decoder \<Rightarrow> fpoly \<Rightarrow> nat list" where
  "find_roots_in_data n k dec p = find_roots_from (dec_field dec) p [1..<(n - k) + 1] []"

fun erasure_loop ::
  "nat \<Rightarrow> decoder \<Rightarrow> fpoly list \<Rightarrow> fpoly \<Rightarrow> nat list \<Rightarrow> rsblock list \<Rightarrow> bool \<times> rsblock list" where
  "erasure_loop n dec omega gamma_derivative [] blocks = (True, blocks)"
| "erasure_loop n dec omega gamma_derivative (error_location # roots) blocks =
     (let f = dec_field dec;
          alpha_inverse = alpha f (int error_location);
          denominator = fp_eval f gamma_derivative alpha_inverse
      in if denominator = 0 then (False, blocks)
         else erasure_loop n dec omega gamma_derivative roots
           (fold (\<lambda>j blocks.
               let numerator = elem_mul f (fp_eval f (omega ! j) alpha_inverse) (root_exponent_table dec ! error_location);
                   b = blocks ! j
               in blocks[j := set_sym (error_location - 1)
                   (data b ! (error_location - 1) XOR div_sym f numerator denominator) b])
             [0..<n] blocks))"

text \<open>
  The members \<^verbatim>\<open>received_\<close> and \<^verbatim>\<open>syndrome_\<close> are only buffers: every coefficient is written before it is
  read.
\<close>

definition erasure_code_decode :: "nat \<Rightarrow> nat \<Rightarrow> decoder \<Rightarrow> nat list \<Rightarrow> rsblock list \<Rightarrow> bool \<times> rsblock list" where
  "erasure_code_decode n k dec erasure_list blocks =
     (if \<not> decoder_valid dec \<or> length erasure_list \<noteq> k then (False, blocks)
      else
        let syndrome = map (\<lambda>i. snd (compute_syndrome k dec (load_message n dec (blocks ! i)))) [0..<n];
            gamma = compute_gamma dec [1] (prepare_erasure_list n erasure_list);
            gamma_roots = find_roots_in_data n k dec gamma;
            omega = map (\<lambda>i. fp_mod_power (fp_mul (dec_field dec) gamma (syndrome ! i)) k) [0..<n]
        in erasure_loop n dec omega (derivative gamma) gamma_roots blocks)"

definition general_stack_decode :: "nat \<Rightarrow> nat \<Rightarrow> decoder \<Rightarrow> nat list \<Rightarrow> rsblock list \<Rightarrow> (bool \<times> rsblock list) option" where
  "general_stack_decode n k dec missing_row_index output =
     (if missing_row_index = [] then Some (True, output)
      else do {
        output \<leftarrow> interleave_blocks n output;
        each_block (decode_erasures n k dec missing_row_index) [0..<n] output
      })"

definition erasure_channel_stack_decode ::
  "nat \<Rightarrow> nat \<Rightarrow> decoder \<Rightarrow> nat list \<Rightarrow> rsblock list \<Rightarrow> (bool \<times> rsblock list) option" where
  "erasure_channel_stack_decode n k dec missing_row_index output =
     (if missing_row_index = [] then Some (True, output)
      else if length missing_row_index = k then do {
        output \<leftarrow> interleave_blocks n output;
        Some (erasure_code_decode n k dec missing_row_index output)
      }
      else general_stack_decode n k dec missing_row_index output)"

section \<open>Loops over the blocks\<close>

lemma fold_update:
  assumes "m \<le> length xs"
  shows "fold (\<lambda>j xs. xs[j := h j (xs ! j)]) [0..<m] xs = map (\<lambda>j. h j (xs ! j)) [0..<m] @ drop m xs"
  using assms
proof (induction m)
  case (Suc m)
  let ?ys = "map (\<lambda>j. h j (xs ! j)) [0..<m]"
  have d: "drop m xs = xs ! m # drop (Suc m) xs" using Suc.prems by (simp add: Cons_nth_drop_Suc)
  then show ?case using Suc by (simp add: list_update_append nth_append)
qed simp

lemma fold_update_all:
  "length xs = n \<Longrightarrow> fold (\<lambda>j xs. xs[j := h j (xs ! j)]) [0..<n] xs = map (\<lambda>j. h j (xs ! j)) [0..<n]"
  using fold_update [of n xs h] by simp

text \<open>The mapper gives every row the whole list of lost rows.\<close>

lemma erasure_mapper_rows:
  assumes "j < n"
  shows "interleaved_stack_erasure_mapper n missing [] ! j = missing"
proof -
  have "length l = n \<Longrightarrow> fold (\<lambda>row l. fold (\<lambda>j l. l[j := l ! j @ [row]]) [0..<n] l) ms l = map (\<lambda>j. l ! j @ ms) [0..<n]" for ms l
  proof (induction ms arbitrary: l)
    case Nil
    then show ?case by (auto intro: nth_equalityI)
  next
    case (Cons m ms)
    then show ?case using fold_update_all [OF Cons.prems, of "\<lambda>j x. x @ [m]"] by simp
  qed
  from this [of "replicate n []" missing] show ?thesis using assms by (simp add: interleaved_stack_erasure_mapper_def)
qed

lemma each_block_upt:
  assumes "m \<le> length bs" and "\<And>i. i < m \<Longrightarrow> \<exists>c. op (bs ! i) = Some (True, c) \<and> P i c"
  shows "\<exists>cs. each_block op [0..<m] bs = Some (True, cs @ drop m bs) \<and> length cs = m \<and>
     (\<forall>i<m. op (bs ! i) = Some (True, cs ! i) \<and> P i (cs ! i))"
proof -
  have step: "each_block op (is @ [i]) bs = Some (True, cs[i := c])"
    if "each_block op is bs = Some (True, cs)" "op (cs ! i) = Some (True, c)" for "is" i c cs bs
    using that by (induction "is" arbitrary: bs) (auto simp: Let_def split: Option.bind_splits if_splits)
  show ?thesis using assms
  proof (induction m)
    case (Suc m)
    from Suc.IH Suc.prems obtain cs where cs: "each_block op [0..<m] bs = Some (True, cs @ drop m bs)" "length cs = m"
      "\<And>i. i < m \<Longrightarrow> op (bs ! i) = Some (True, cs ! i) \<and> P i (cs ! i)" by auto
    from Suc.prems obtain c where c: "op (bs ! m) = Some (True, c)" "P m c" by blast
    have d: "drop m bs = bs ! m # drop (Suc m) bs" using Suc.prems(1) by (simp add: Cons_nth_drop_Suc)
    have "each_block op ([0..<m] @ [m]) bs = Some (True, (cs @ drop m bs)[m := c])"
      by (rule step [OF cs(1)]) (use c cs(2) d in \<open>simp add: nth_append\<close>)
    then have "each_block op [0..<Suc m] bs = Some (True, (cs @ [c]) @ drop (Suc m) bs)"
      using cs(2) d by (simp add: list_update_append)
    then show ?case using cs c by (intro exI [of _ "cs @ [c]"]) (auto simp: nth_append less_Suc_eq)
  qed simp
qed

lemma each_block_all:
  assumes "length bs = n" and "\<And>i. i < n \<Longrightarrow> \<exists>c. op (bs ! i) = Some (True, c) \<and> P i c"
  shows "\<exists>cs. each_block op [0..<n] bs = Some (True, cs) \<and> length cs = n \<and>
     (\<forall>i<n. op (bs ! i) = Some (True, cs ! i) \<and> P i (cs ! i))"
  using each_block_upt [of n bs op P] assms by simp

text \<open>Interleaving a square stack exchanges rows and columns, and twice is the identity on the symbols.\<close>

definition square :: "nat \<Rightarrow> rsblock list \<Rightarrow> bool" where
  "square n bs \<longleftrightarrow> length bs = n \<and> (\<forall>i<n. length (data (bs ! i)) = n)"

lemma square_box: "square n bs \<Longrightarrow> box n n (map data bs)"
  by (auto simp: square_def box_def list_all_length)

lemma interleave_blocks_square:
  assumes "square n bs"
  shows "\<exists>cs. interleave_blocks n bs = Some cs \<and> square n cs \<and> (\<forall>i<n. \<forall>j<n. data (cs ! i) ! j = data (bs ! j) ! i)"
proof -
  obtain d where d: "interleave_square n (map data bs) = Some d" "transposed n (map data bs) d"
    using interleave_square_transposes [OF square_box [OF assms]] by blast
  have len: "length d = n" "\<And>i. i < n \<Longrightarrow> length (d ! i) = n"
  proof -
    have "map length d = map length (map data bs)" using d(2) by (simp add: transposed_def)
    then have "box n n d" using box_cong [OF _ square_box [OF assms]] by metis
    then show "length d = n" "\<And>i. i < n \<Longrightarrow> length (d ! i) = n" by (auto simp: box_def list_all_length)
  qed
  let ?cs = "map2 (\<lambda>b row. b\<lparr>data := row\<rparr>) bs d"
  have nth: "data (?cs ! i) = d ! i" if "i < n" for i using that assms len by (simp add: square_def)
  have "d ! i ! j = data (bs ! j) ! i" if "i < n" "j < n" for i j
    using d(2) that assms by (auto simp: transposed_def cell_at_def square_def)
  then show ?thesis using d(1) nth len assms by (intro exI [of _ ?cs]) (simp add: interleave_blocks_def square_def)
qed

section \<open>What the channel relies on\<close>

text \<open>
  The channel uses a code through two operations: the encoder keeps the data symbols, and the decoder
  restores a block as long as the erasures and twice the other damage fit into the parity symbols.
\<close>

locale erasure_code =
  fixes n k :: nat and m :: int and ok :: bool
    and enc :: "rsblock \<Rightarrow> (bool \<times> rsblock) option" and dec :: "nat list \<Rightarrow> rsblock \<Rightarrow> (bool \<times> rsblock) option"
  assumes encodes: "ok \<Longrightarrow> length (data b) = n \<Longrightarrow>
      \<exists>c. enc b = Some (True, c) \<and> length (data c) = n \<and> take (n - k) (data c) = take (n - k) (data b)"
    and repairs: "ok \<Longrightarrow> length (data b) = n \<Longrightarrow> enc b = Some (True, c) \<Longrightarrow> length (data r) = n \<Longrightarrow>
      distinct el \<Longrightarrow> set el \<subseteq> {..<n} \<Longrightarrow>
      2 * card {p. p < n \<and> p \<notin> set el \<and> data r ! p AND m \<noteq> data c ! p AND m} + length el \<le> k \<Longrightarrow>
      \<exists>b'. dec el r = Some (True, b') \<and> length (data b') = n \<and> (\<forall>p<n. data b' ! p AND m = data c ! p AND m)"
begin

lemma encoded_blocks:
  assumes ok and "square n bs"
  shows "\<exists>cs. each_block enc [0..<n] bs = Some (True, cs) \<and> square n cs \<and>
     (\<forall>i<n. enc (bs ! i) = Some (True, cs ! i) \<and> (\<forall>p<n - k. data (cs ! i) ! p = data (bs ! i) ! p))"
proof -
  have "\<exists>c. enc (bs ! i) = Some (True, c) \<and> length (data c) = n \<and> (\<forall>p<n - k. data c ! p = data (bs ! i) ! p)" if "i < n" for i
    using encodes [of "bs ! i"] assms that unfolding square_def by (metis nth_take)
  with each_block_all [of bs n enc "\<lambda>i c. length (data c) = n \<and> (\<forall>p<n - k. data c ! p = data (bs ! i) ! p)"] assms(2)
  show ?thesis unfolding square_def by blast
qed

text \<open>The encoded and interleaved stack.\<close>

lemma encoded_stack:
  assumes ok and "square n bs"
  obtains cs sent where "Option.bind (each_block enc [0..<n] bs)
       (\<lambda>(ok, output). if ok then map_option (Pair True) (interleave_blocks n output) else Some (False, output)) = Some (True, sent)"
    and "square n cs" and "square n sent" and "\<And>i. i < n \<Longrightarrow> enc (bs ! i) = Some (True, cs ! i)"
    and "\<And>i p. i < n \<Longrightarrow> p < n - k \<Longrightarrow> data (cs ! i) ! p = data (bs ! i) ! p"
    and "\<And>i j. i < n \<Longrightarrow> j < n \<Longrightarrow> data (sent ! i) ! j = data (cs ! j) ! i"
proof -
  from encoded_blocks [OF assms] obtain cs where cs: "each_block enc [0..<n] bs = Some (True, cs)" "square n cs"
    "\<forall>i<n. enc (bs ! i) = Some (True, cs ! i) \<and> (\<forall>p<n - k. data (cs ! i) ! p = data (bs ! i) ! p)" by blast
  from interleave_blocks_square [OF cs(2)] obtain sent where "interleave_blocks n cs = Some sent" "square n sent"
    "\<forall>i<n. \<forall>j<n. data (sent ! i) ! j = data (cs ! j) ! i" by blast
  with cs that show thesis by auto
qed

text \<open>Deinterleaved and decoded, every block has its data again.\<close>

lemma stack_restored:
  assumes ok and bs: "square n bs" and el: "distinct el" "set el \<subseteq> {..<n}" and rs: "square n rs"
    and cs: "\<And>i. i < n \<Longrightarrow> enc (bs ! i) = Some (True, cs ! i)"
    and few: "\<And>i. i < n \<Longrightarrow> 2 * card {p. p < n \<and> p \<notin> set el \<and> data (rs ! p) ! i AND m \<noteq> data (cs ! i) ! p AND m} + length el \<le> k"
  shows "\<exists>out. Option.bind (interleave_blocks n rs) (each_block (dec el) [0..<n]) = Some (True, out) \<and> square n out \<and>
     (\<forall>i<n. \<forall>p<n. data (out ! i) ! p AND m = data (cs ! i) ! p AND m)"
proof -
  from interleave_blocks_square [OF rs] obtain ds where ds: "interleave_blocks n rs = Some ds" "square n ds"
    "\<And>i j. i < n \<Longrightarrow> j < n \<Longrightarrow> data (ds ! i) ! j = data (rs ! j) ! i" by blast
  have "\<exists>b'. dec el (ds ! i) = Some (True, b') \<and> length (data b') = n \<and> (\<forall>p<n. data b' ! p AND m = data (cs ! i) ! p AND m)"
    if i: "i < n" for i
  proof (rule repairs [OF assms(1) _ cs [OF i] _ el])
    have "{p. p < n \<and> p \<notin> set el \<and> data (ds ! i) ! p AND m \<noteq> data (cs ! i) ! p AND m} =
        {p. p < n \<and> p \<notin> set el \<and> data (rs ! p) ! i AND m \<noteq> data (cs ! i) ! p AND m}"
      using ds(3) [OF i] by auto
    then show "2 * card {p. p < n \<and> p \<notin> set el \<and> data (ds ! i) ! p AND m \<noteq> data (cs ! i) ! p AND m} + length el \<le> k"
      using few [OF i] by simp
  qed (use bs ds(2) i in \<open>auto simp: square_def\<close>)
  with each_block_all [of ds n "dec el" "\<lambda>i b'. length (data b') = n \<and> (\<forall>p<n. data b' ! p AND m = data (cs ! i) ! p AND m)"] ds
  show ?thesis unfolding square_def by fastforce
qed

end

text \<open>The Reed-Solomon code is such a code.\<close>

interpretation rsc: erasure_code 255 k 255 "rs_setup k a f g" "encode 255 k (encoder_ctor 255 f g)"
  "decode_erasures 255 k (decoder_ctor 255 k f a)" for k a f g
proof
  fix b :: rsblock
  assume s: "rs_setup k a f g" and b: "length (data b) = 255"
  have k: "k \<le> 255" and d: "dec_ok k a (decoder_ctor 255 k f a)"
    using s rs_setup_ok(3) [OF s] by (auto simp: rs_setup_def dec_full_def)
  show "\<exists>c. encode 255 k (encoder_ctor 255 f g) b = Some (True, c) \<and> length (data c) = 255 \<and>
      take (255 - k) (data c) = take (255 - k) (data b)"
    using encode_ok [OF rs_setup_ok(2) [OF s] d b] b k by auto
next
  fix b c r :: rsblock and el :: "nat list"
  assume s: "rs_setup k a f g" and b: "length (data b) = 255" and c: "encode 255 k (encoder_ctor 255 f g) b = Some (True, c)"
    and r: "length (data r) = 255" and el: "distinct el" "set el \<subseteq> {..<255}"
    and few: "2 * card {p. p < 255 \<and> p \<notin> set el \<and> data r ! p AND 255 \<noteq> data c ! p AND 255} + length el \<le> k"
  have d: "dec_full k a (decoder_ctor 255 k f a)" by (rule rs_setup_ok(3) [OF s])
  then have cw: "codeword 255 k (decoder_ctor 255 k f a) a c" "length (data c) = 255"
    using encode_ok [OF rs_setup_ok(2) [OF s], of "decoder_ctor 255 k f a" b] b c s by (auto simp: dec_full_def rs_setup_def)
  have "{p. p < 255 \<and> p \<notin> set el \<and> data r ! p AND 255 \<noteq> data c ! p AND 255} = damaged_positions r c - set el"
    by (auto simp: damaged_positions_def)
  then show "\<exists>b'. decode_erasures 255 k (decoder_ctor 255 k f a) el r = Some (True, b') \<and> length (data b') = 255 \<and>
      (\<forall>p<255. data b' ! p AND 255 = data c ! p AND 255)"
    using decode_erasures_corrects [OF d cw r el] few by auto
qed

section \<open>The decoder with one locator polynomial\<close>

lemma erasure_locator_locates: "erasure_locator F g \<Longrightarrow> locates F g"
  using kills_at_inv [of F g] by (simp add: erasure_locator_def locates_def)

lemma erasure_loop_correct:
  assumes "length bs = n"
    and "\<And>i. i \<in> set is \<Longrightarrow> fp_eval (dec_field dec) gd (alpha (dec_field dec) (int i)) \<noteq> 0"
    and "\<And>i j. i \<in> set is \<Longrightarrow> j < n \<Longrightarrow>
      div_sym (dec_field dec) (elem_mul (dec_field dec) (fp_eval (dec_field dec) (omega ! j) (alpha (dec_field dec) (int i))) (root_exponent_table dec ! i))
        (fp_eval (dec_field dec) gd (alpha (dec_field dec) (int i))) = val j i"
  shows "erasure_loop n dec omega gd is bs = (True, map (\<lambda>j. (bs ! j)\<lparr>data := correct (val j) is (data (bs ! j))\<rparr>) [0..<n])"
  using assms
proof (induction "is" arbitrary: bs)
  case Nil
  then show ?case by (auto simp: correct_def intro!: nth_equalityI)
next
  case (Cons i "is")
  let ?f = "dec_field dec"
  let ?step = "\<lambda>j b. set_sym (i - 1) (data b ! (i - 1) XOR div_sym ?f
      (elem_mul ?f (fp_eval ?f (omega ! j) (alpha ?f (int i))) (root_exponent_table dec ! i)) (fp_eval ?f gd (alpha ?f (int i)))) b"
  let ?bs = "map (\<lambda>j. (bs ! j)\<lparr>data := (data (bs ! j))[i - 1 := data (bs ! j) ! (i - 1) XOR val j i]\<rparr>) [0..<n]"
  have "fold (\<lambda>j xs. xs[j := ?step j (xs ! j)]) [0..<n] bs = ?bs"
    using fold_update_all [OF Cons.prems(1), of ?step] Cons.prems(3) [of i] by (simp add: set_sym_def)
  moreover have "erasure_loop n dec omega gd is ?bs = (True, map (\<lambda>j. (?bs ! j)\<lparr>data := correct (val j) is (data (?bs ! j))\<rparr>) [0..<n])"
    by (rule Cons.IH) (use Cons.prems in auto)
  ultimately show ?case using Cons.prems(2) [of i] by (simp add: Let_def correct_def)
qed

lemma roots_in_data:
  assumes f: "field_ok (dec_field dec)" and F: "F \<subseteq> {..<255}" "locates F p" and k: "k \<le> 255"
  shows "find_roots_in_data 255 k dec p = filter (\<lambda>i. 255 - i \<in> F) [1..<256 - k]"
proof -
  let ?P = "\<lambda>i. fp_eval (dec_field dec) p (alpha (dec_field dec) (int i)) = 0"
  have p: "symbols p" "length p \<le> 256" "length p = Suc (card F)"
    using locates_shape [OF F(2)] card_mono [of "{..<255}" F] F(1) by auto
  have "?P i \<longleftrightarrow> 255 - i \<in> F" if "1 \<le> i" "i \<le> 255" for i
    using fp_eval_zero_iff [OF f p(1,2)] alpha_point [OF f that(2)] locates_zeros [OF F(2,1)] alpha_inverse_locator [OF that] F(1)
    by (auto simp: subset_iff)
  moreover have r: "255 - k + 1 = 256 - k" using k by simp
  ultimately have eq: "filter ?P [1..<255 - k + 1] = filter (\<lambda>i. 255 - i \<in> F) [1..<256 - k]"
    unfolding r by (intro filter_cong) auto
  have "[1..<256] = [1..<256 - k] @ [256 - k..<256]" using upt_add_eq_append [of 1 "256 - k" k] k by simp
  then have "length (filter (\<lambda>i. 255 - i \<in> F) [1..<256 - k]) \<le> length (locations F)" by (simp add: locations_def)
  then show ?thesis using find_roots_from_filter [of "[]" "dec_field dec" p "[1..<255 - k + 1]"] eq p(3) length_locations [OF F(1)]
    by (simp add: find_roots_in_data_def deg_def)
qed

lemma erasure_code_decode_restores:
  assumes dec: "dec_full k a dec" and bs: "length bs = 255" "\<And>j. j < 255 \<Longrightarrow> length (data (bs ! j)) = 255"
    and c: "\<And>j. j < 255 \<Longrightarrow> codeword 255 k dec a (cs ! j)"
    and el: "distinct el" "set el \<subseteq> {..<255}" "length el = k"
    and only: "\<And>j. j < 255 \<Longrightarrow> damaged_positions (bs ! j) (cs ! j) \<subseteq> set el"
  shows "\<exists>out. erasure_code_decode 255 k dec el bs = (True, out) \<and> length out = 255 \<and>
     (\<forall>j<255. length (data (out ! j)) = 255 \<and> (\<forall>p<255 - k. data (out ! j) ! p AND 255 = data (cs ! j) ! p AND 255))"
proof -
  let ?f = "dec_field dec" and ?F = "places_of (set el)"
  let ?g = "compute_gamma dec [1] (prepare_erasure_list 255 el)"
  let ?sy = "\<lambda>j. snd (compute_syndrome k dec (load_message 255 dec (bs ! j)))"
  let ?roots = "filter (\<lambda>i. 255 - i \<in> ?F) [1..<256 - k]"
  let ?val = "\<lambda>j i. symb (error_value (bs ! j) (cs ! j) (255 - i))"
  have f: "field_ok ?f" and v: "decoder_valid dec" and k: "k \<le> 255" using dec by (auto simp: dec_full_def dec_ok_def)
  have F: "?F \<subseteq> {..<255}" "card ?F \<le> k" using places_of_bound card_places_of [OF el(2)] distinct_card [OF el(1)] el(3) by auto
  have lg: "locates ?F ?g" by (rule erasure_locator_locates [OF erasures_locator [OF dec el(1,2)]])
  have step: "fp_eval ?f (derivative ?g) (alpha ?f (int i)) \<noteq> 0 \<and>
      div_sym ?f (elem_mul ?f (fp_eval ?f (fp_mod_power (fp_mul ?f ?g (?sy j)) k) (alpha ?f (int i))) (root_exponent_table dec ! i))
        (fp_eval ?f (derivative ?g) (alpha ?f (int i))) = ?val j i"
    if j: "j < 255" and i: "1 \<le> i" "i \<le> 255" "255 - i \<in> ?F" for i j
  proof -
    from syndrome_values [OF dec c [OF j]] obtain fl sy where
      sy: "compute_syndrome k dec (load_message 255 dec (bs ! j)) = (fl, sy)" "symbols sy" "length sy = k"
        "\<And>x. x < k \<Longrightarrow> gf (sy ! x) = syn (error_value (bs ! j) (cs ! j)) (error_places (bs ! j) (cs ! j)) a x" by blast
    have "error_places (bs ! j) (cs ! j) \<subseteq> ?F" using only [OF j] by (auto simp: error_places_eq places_of_def)
    then show ?thesis using forney_step [OF dec F sy(3,2) _ lg i] sy(1,4) syn_widen [OF _ F(1)] by simp
  qed
  have "erasure_loop 255 dec (map (\<lambda>j. fp_mod_power (fp_mul ?f ?g (?sy j)) k) [0..<255]) (derivative ?g) ?roots bs =
      (True, map (\<lambda>j. (bs ! j)\<lparr>data := correct (?val j) ?roots (data (bs ! j))\<rparr>) [0..<255])"
    by (rule erasure_loop_correct [OF bs(1)]) (use step [of 0] step in auto)
  moreover have om: "map (\<lambda>i. fp_mod_power (fp_mul ?f ?g (map ?sy [0..<255] ! i)) k) [0..<255] =
      map (\<lambda>j. fp_mod_power (fp_mul ?f ?g (?sy j)) k) [0..<255]"
    by (rule map_cong [OF refl]) (simp del: upt_rec_numeral)
  ultimately have eq: "erasure_code_decode 255 k dec el bs =
      (True, map (\<lambda>j. (bs ! j)\<lparr>data := correct (?val j) ?roots (data (bs ! j))\<rparr>) [0..<255])"
    using roots_in_data [OF f F(1) lg k] v el(3) unfolding erasure_code_decode_def Let_def om by (simp del: upt_rec_numeral)
  have "correct (?val j) ?roots (data (bs ! j)) ! p AND 255 = data (cs ! j) ! p AND 255" if j: "j < 255" and p: "p < 255 - k" for j p
  proof (cases "p \<in> damaged_positions (bs ! j) (cs ! j)")
    case True
    then have "254 - p \<in> ?F" using only [OF j] by (auto simp: places_of_def)
    then have "Suc p \<in> set ?roots" using p by auto
    then show ?thesis using nth_correct [of ?roots p "data (bs ! j)" "?val j"] p bs(2) [OF j] mask_repair
      by (simp add: error_value_symbol)
  next
    case False
    then have "data (bs ! j) ! p AND 255 = data (cs ! j) ! p AND 255" using p by (auto simp: damaged_positions_def)
    moreover from this have "?val j (Suc p) = 0" using p by (simp add: error_value_symbol)
    ultimately show ?thesis using nth_correct [of ?roots p "data (bs ! j)" "?val j"] p bs(2) [OF j] by simp
  qed
  then show ?thesis using eq bs(2) by (simp del: upt_rec_numeral)
qed

section \<open>The channel\<close>

lemma sent_stack:
  assumes "rs_setup k a f g" and "square 255 bs"
  obtains sent cs where "erasure_channel_stack_encode 255 k (encoder_ctor 255 f g) bs = Some (True, sent)"
    and "square 255 cs" and "square 255 sent" and "\<forall>i<255. encode 255 k (encoder_ctor 255 f g) (bs ! i) = Some (True, cs ! i)"
    and "\<forall>i<255. \<forall>p<255 - k. data (cs ! i) ! p = data (bs ! i) ! p"
    and "\<forall>i<255. \<forall>j<255. data (sent ! i) ! j = data (cs ! j) ! i"
  by (rule rsc.encoded_stack [OF assms]) (rule that [unfolded erasure_channel_stack_encode_def]; blast)

text \<open>
  Lost rows and wrong symbols in the others: the decoder that works block by block restores all data while
  no block gets too much damage.
\<close>

lemma general_stack_decode_repairs:
  assumes s: "rs_setup k a f g" and bs: "square 255 bs"
    and cs: "\<And>i. i < 255 \<Longrightarrow> encode 255 k (encoder_ctor 255 f g) (bs ! i) = Some (True, cs ! i)"
    and el: "missing \<noteq> []" "distinct missing" "set missing \<subseteq> {..<255}" and rs: "square 255 received"
    and few: "\<And>i. i < 255 \<Longrightarrow>
      2 * card {p. p < 255 \<and> p \<notin> set missing \<and> data (received ! p) ! i AND 255 \<noteq> data (cs ! i) ! p AND 255} + length missing \<le> k"
  shows "\<exists>out. general_stack_decode 255 k (decoder_ctor 255 k f a) missing received = Some (True, out) \<and>
     (\<forall>i<255. \<forall>p<255. data (out ! i) ! p AND 255 = data (cs ! i) ! p AND 255)"
  using rsc.stack_restored [OF s bs el(2,3) rs cs few] el(1) by (auto simp: general_stack_decode_def)

lemma erasure_stack_decode_restores:
  assumes s: "rs_setup k a f g" and bs: "square 255 bs"
    and cs: "\<And>i. i < 255 \<Longrightarrow> encode 255 k (encoder_ctor 255 f g) (bs ! i) = Some (True, cs ! i)"
    and el: "missing \<noteq> []" "distinct missing" "set missing \<subseteq> {..<255}" "length missing \<le> k" and rs: "square 255 received"
    and rows: "\<And>i p. i < 255 \<Longrightarrow> p < 255 \<Longrightarrow> p \<notin> set missing \<Longrightarrow> data (received ! p) ! i = data (cs ! i) ! p"
  shows "\<exists>out. erasure_channel_stack_decode 255 k (decoder_ctor 255 k f a) missing received = Some (True, out) \<and>
     (\<forall>i<255. \<forall>p<255 - k. data (out ! i) ! p AND 255 = data (cs ! i) ! p AND 255)"
proof (cases "length missing = k")
  case True
  let ?d = "decoder_ctor 255 k f a"
  have d: "dec_full k a ?d" by (rule rs_setup_ok(3) [OF s])
  from interleave_blocks_square [OF rs] obtain ds where ds: "interleave_blocks 255 received = Some ds" "square 255 ds"
    "\<And>i j. i < 255 \<Longrightarrow> j < 255 \<Longrightarrow> data (ds ! i) ! j = data (received ! j) ! i" by blast
  have cw: "codeword 255 k ?d a (cs ! i)" if "i < 255" for i
    using encode_ok [OF rs_setup_ok(2) [OF s], of ?d "bs ! i"] bs cs [OF that] that d by (auto simp: square_def dec_full_def)
  have "damaged_positions (ds ! i) (cs ! i) \<subseteq> set missing" if "i < 255" for i
  proof
    fix p assume "p \<in> damaged_positions (ds ! i) (cs ! i)"
    then have "p < 255" "data (ds ! i) ! p \<noteq> data (cs ! i) ! p" by (auto simp: damaged_positions_def)
    then show "p \<in> set missing" using ds(3) [OF that] rows [OF that] by metis
  qed
  then have "\<exists>out. erasure_code_decode 255 k ?d missing ds = (True, out) \<and> length out = 255 \<and>
      (\<forall>j<255. length (data (out ! j)) = 255 \<and> (\<forall>p<255 - k. data (out ! j) ! p AND 255 = data (cs ! j) ! p AND 255))"
    by (intro erasure_code_decode_restores [OF d _ _ cw el(2,3) True]) (use ds(2) in \<open>auto simp: square_def\<close>)
  then show ?thesis using el(1) True ds(1) by (auto simp: erasure_channel_stack_decode_def)
next
  case False
  have none: "{p. p < 255 \<and> p \<notin> set missing \<and> data (received ! p) ! i AND 255 \<noteq> data (cs ! i) ! p AND 255} = {}" if "i < 255" for i
    using rows [OF that] by (metis (mono_tags, lifting) Collect_empty_eq)
  have "2 * card {p. p < 255 \<and> p \<notin> set missing \<and> data (received ! p) ! i AND 255 \<noteq> data (cs ! i) ! p AND 255} + length missing \<le> k"
    if "i < 255" for i unfolding none [OF that] using el(4) by simp
  from general_stack_decode_repairs [OF s bs cs el(1-3) rs this]
  have "\<exists>out. general_stack_decode 255 k (decoder_ctor 255 k f a) missing received = Some (True, out) \<and>
     (\<forall>i<255. \<forall>p<255. data (out ! i) ! p AND 255 = data (cs ! i) ! p AND 255)"
    .
  then show ?thesis using el(1) False by (fastforce simp: erasure_channel_stack_decode_def)
qed

text \<open>
  With no lost row both decoders return before they deinterleave: the stack that comes out is the
  one that was sent, with the symbols of every block spread over all rows.
\<close>

lemma nothing_lost_stays_interleaved:
  assumes "rs_setup k a f g" and "square 255 bs"
  shows "\<exists>sent. erasure_channel_stack_encode 255 k (encoder_ctor 255 f g) bs = Some (True, sent) \<and>
     erasure_channel_stack_decode 255 k dec [] sent = Some (True, sent) \<and>
     (\<forall>i<255. \<forall>p<255 - k. data (sent ! p) ! i = data (bs ! i) ! p)"
proof -
  obtain sent cs where
    s: "erasure_channel_stack_encode 255 k (encoder_ctor 255 f g) bs = Some (True, sent)" "square 255 cs" "square 255 sent"
    "\<forall>i<255. encode 255 k (encoder_ctor 255 f g) (bs ! i) = Some (True, cs ! i)"
    "\<forall>i<255. \<forall>p<255 - k. data (cs ! i) ! p = data (bs ! i) ! p"
    "\<forall>i<255. \<forall>j<255. data (sent ! i) ! j = data (cs ! j) ! i" by (rule sent_stack [OF assms])
  have "data (sent ! p) ! i = data (bs ! i) ! p" if "i < 255" "p < 255 - k" for i p using that s(5,6) by simp
  then show ?thesis using s(1) by (simp add: erasure_channel_stack_decode_def)
qed

section \<open>Properties\<close>



end
