(* ===== verification/BitIO.thy ===== *)
theory BitIO
  imports RSCorrect
begin

text \<open>
  \<^verbatim>\<open>schifra_reed_solomon_bitio.hpp\<close>, the conversions between bytes and symbols, for arrays of \<^verbatim>\<open>unsigned char\<close>;
  an access outside an array is \<^term>\<open>None\<close>. With them \<^verbatim>\<open>traits::symbol\<close>, the tables and distances of
  \<^verbatim>\<open>schifra_utilities.hpp\<close> and the remaining copy functions of \<^verbatim>\<open>schifra_reed_solomon_block.hpp\<close>.
\<close>

section \<open>Bytes to symbols\<close>

definition convert_data_to_symbol2 :: "bytes \<Rightarrow> nat \<Rightarrow> field_symbol list \<Rightarrow> field_symbol list option" where
  "convert_data_to_symbol2 d data_length syms =
     (if length d < data_length \<or> length syms < 4 * data_length then None
      else Some (fold (\<lambda>i s. s[4 * i := uint (d ! i) AND 3, 4 * i + 1 := drop_bit 2 (uint (d ! i)) AND 3,
             4 * i + 2 := drop_bit 4 (uint (d ! i)) AND 3, 4 * i + 3 := drop_bit 6 (uint (d ! i)) AND 3]) [0..<data_length] syms))"

definition convert_data_to_symbol4 :: "bytes \<Rightarrow> nat \<Rightarrow> field_symbol list \<Rightarrow> field_symbol list option" where
  "convert_data_to_symbol4 d data_length syms =
     (if length d < data_length \<or> length syms < 2 * data_length then None
      else Some (fold (\<lambda>i s. s[2 * i := uint (d ! i) AND 15, 2 * i + 1 := drop_bit 4 (uint (d ! i)) AND 15]) [0..<data_length] syms))"

definition convert_data_to_symbol8 :: "bytes \<Rightarrow> nat \<Rightarrow> field_symbol list \<Rightarrow> field_symbol list option" where
  "convert_data_to_symbol8 d data_length syms =
     (if length d < data_length \<or> length syms < data_length then None
      else Some (fold (\<lambda>i s. s[i := uint (d ! i) AND 255]) [0..<data_length] syms))"

text \<open>Two bytes for each symbol; for an odd length one more byte is read.\<close>

definition convert_data_to_symbol16 :: "bytes \<Rightarrow> nat \<Rightarrow> field_symbol list \<Rightarrow> field_symbol list option" where
  "convert_data_to_symbol16 d data_length syms =
     (let m = (data_length + 1) div 2 in
      if length d < 2 * m \<or> length syms < m then None
      else Some (fold (\<lambda>i s. s[i := (uint (d ! (2 * i)) AND 255) OR (push_bit 8 (uint (d ! (2 * i + 1))) AND 0xFF00)]) [0..<m] syms))"

section \<open>Symbols to bytes\<close>

text \<open>The pointer to the symbols moves by one only.\<close>

definition convert_symbol_to_data4 :: "field_symbol list \<Rightarrow> bytes \<Rightarrow> nat \<Rightarrow> bytes option" where
  "convert_symbol_to_data4 syms d data_length =
     (if length d < data_length \<or> 0 < data_length \<and> length syms < data_length + 1 then None
      else Some (fold (\<lambda>i d. d[i := word_of_int ((syms ! i AND 15) OR push_bit 4 (syms ! (i + 1) AND 15))]) [0..<data_length] d))"

definition convert_symbol_to_data8 :: "field_symbol list \<Rightarrow> bytes \<Rightarrow> nat \<Rightarrow> bytes option" where
  "convert_symbol_to_data8 syms d data_length =
     (if length d < data_length \<or> length syms < data_length then None
      else Some (fold (\<lambda>i d. d[i := word_of_int (syms ! i AND 255)]) [0..<data_length] d))"

text \<open>One byte for each symbol of 16 bits: the upper half is lost in the assignment.\<close>

definition convert_symbol_to_data16 :: "field_symbol list \<Rightarrow> bytes \<Rightarrow> nat \<Rightarrow> bytes option" where
  "convert_symbol_to_data16 syms d data_length =
     (if length d < data_length \<or> length syms < data_length then None
      else Some (fold (\<lambda>i d. d[i := word_of_int (syms ! i AND 0xFFFF)]) [0..<data_length] d))"

text \<open>The bits of a symbol, for the code lengths that have a specialisation.\<close>

definition symbol_size :: "nat \<Rightarrow> nat option" where
  "symbol_size = map_of
     [(3, 2), (7, 3), (15, 4), (31, 5), (63, 6), (127, 7), (255, 8), (511, 9), (1023, 10), (2047, 11), (4195, 12), (8191, 13),
      (16383, 14), (32768, 15), (65535, 16)]"

section \<open>Conversions that are inverse\<close>

lemma fold_update_prefix:
  assumes "l \<le> length xs"
  shows "fold (\<lambda>i xs. xs[i := v i]) [0..<l] xs = map v [0..<l] @ drop l xs"
  using fold_update_offset [of 0 l xs v] assms by simp

lemma data_to_symbol8_eq:
  assumes "l \<le> length d" and "l \<le> length s"
  shows "convert_data_to_symbol8 d l s = Some (map uint (take l d) @ drop l s)"
proof -
  have "map (\<lambda>i. uint (d ! i) AND 255) [0..<l] = map uint (take l d)"
    using assms(1) by (intro nth_equalityI) (simp_all add: mask_uint)
  then show ?thesis using assms by (simp add: convert_data_to_symbol8_def fold_update_prefix)
qed

lemma symbol_to_data8_eq:
  assumes "l \<le> length d" and "l \<le> length s"
  shows "convert_symbol_to_data8 s d l = Some (map (\<lambda>v. word_of_int (v AND 255)) (take l s) @ drop l d)"
proof -
  have "map (\<lambda>i. word_of_int (s ! i AND 255)) [0..<l] = map (\<lambda>v. word_of_int (v AND 255) :: byte) (take l s)"
    using assms(2) by (intro nth_equalityI) simp_all
  then show ?thesis using assms by (simp add: convert_symbol_to_data8_def fold_update_prefix)
qed

lemma convert8_roundtrip:
  assumes "l \<le> length d" and "l \<le> length s" and "l \<le> length d'"
  shows "Option.bind (convert_data_to_symbol8 d l s) (\<lambda>s. convert_symbol_to_data8 s d' l) = Some (take l d @ drop l d')"
  using assms by (simp add: data_to_symbol8_eq symbol_to_data8_eq comp_def mask_uint)

text \<open>For four bits the way back repeats symbols.\<close>

lemma convert4_no_roundtrip:
  "convert_data_to_symbol4 [0x21, 0x43] 2 [0, 0, 0, 0] = Some [1, 2, 3, 4]"
  "convert_symbol_to_data4 [1, 2, 3, 4] [0, 0] 2 = Some [0x21, 0x32]"
  by code_simp+

text \<open>Two of the lengths are not those of a field.\<close>

lemma symbol_size_field:
  assumes "symbol_size n = Some p" and "n \<noteq> 4195" and "n \<noteq> 32768"
  shows "n = 2 ^ p - 1"
  using assms by (auto simp: symbol_size_def split: if_splits)

lemma symbol_size_wrong: "symbol_size 4195 = Some 12" "symbol_size 4095 = None" "symbol_size 32768 = Some 15" "symbol_size 32767 = None"
  by (simp_all add: symbol_size_def)

section \<open>Distances\<close>

definition high_bits_in_char :: "nat list" where
  "high_bits_in_char =
     [0,1,1,2,1,2,2,3,1,2,2,3,2,3,3,4, 1,2,2,3,2,3,3,4,2,3,3,4,3,4,4,5,
      1,2,2,3,2,3,3,4,2,3,3,4,3,4,4,5, 2,3,3,4,3,4,4,5,3,4,4,5,4,5,5,6,
      1,2,2,3,2,3,3,4,2,3,3,4,3,4,4,5, 2,3,3,4,3,4,4,5,3,4,4,5,4,5,5,6,
      2,3,3,4,3,4,4,5,3,4,4,5,4,5,5,6, 3,4,4,5,4,5,5,6,4,5,5,6,5,6,6,7,
      1,2,2,3,2,3,3,4,2,3,3,4,3,4,4,5, 2,3,3,4,3,4,4,5,3,4,4,5,4,5,5,6,
      2,3,3,4,3,4,4,5,3,4,4,5,4,5,5,6, 3,4,4,5,4,5,5,6,4,5,5,6,5,6,6,7,
      2,3,3,4,3,4,4,5,3,4,4,5,4,5,5,6, 3,4,4,5,4,5,5,6,4,5,5,6,5,6,6,7,
      3,4,4,5,4,5,5,6,4,5,5,6,5,6,6,7, 4,5,5,6,5,6,6,7,5,6,6,7,6,7,7,8]"

definition byte_distance :: "byte \<Rightarrow> byte \<Rightarrow> nat" where
  "byte_distance x y = high_bits_in_char ! unat ((x XOR y) AND 255)"

text \<open>An element is compared byte by byte in memory.\<close>

definition hamming_distance_element :: "bytes \<Rightarrow> bytes \<Rightarrow> nat" where
  "hamming_distance_element v1 v2 = fold (\<lambda>i distance. distance + byte_distance (v1 ! i) (v2 ! i)) [0..<length v1] 0"

definition hamming_distance :: "bytes \<Rightarrow> bytes \<Rightarrow> nat \<Rightarrow> nat" where
  "hamming_distance data1 data2 l = fold (\<lambda>i distance. distance + byte_distance (data1 ! i) (data2 ! i)) [0..<l] 0"

definition hamming_distance_iterators :: "bytes list \<Rightarrow> bytes list \<Rightarrow> nat" where
  "hamming_distance_iterators range1 range2 =
     fold (\<lambda>i distance. distance + hamming_distance_element (range1 ! i) (range2 ! i)) [0..<length range1] 0"

text \<open>The table counts the bits that are set.\<close>

primrec bit_counts :: "nat \<Rightarrow> nat list" where
  "bit_counts 0 = [0]"
| "bit_counts (Suc m) = bit_counts m @ map ((+) 1) (bit_counts m)"

lemma length_bit_counts [simp]: "length (bit_counts m) = 2 ^ m"
  by (induction m) simp_all

lemma upper_bit:
  assumes "w < (2 :: nat) ^ m" and "i \<le> m"
  shows "bit (2 ^ m + w) i \<longleftrightarrow> i = m \<or> bit w i"
proof (cases "i = m")
  case True
  then show ?thesis using assms(1) div_add_self1 [of "2 ^ m" w] by (simp add: bit_iff_odd)
next
  case False
  then have "(2 :: nat) ^ m = 2 ^ (m - i) * 2 ^ i" "0 < m - i" using assms(2) by (simp_all flip: power_add)
  then show ?thesis using False by (simp add: bit_iff_odd)
qed

lemma bit_counts_nth: "v < 2 ^ m \<Longrightarrow> bit_counts m ! v = card {i. i < m \<and> bit v i}"
proof (induction m arbitrary: v)
  case (Suc m)
  show ?case
  proof (cases "v < 2 ^ m")
    case True
    then have "\<not> bit v m" by (simp add: bit_iff_odd)
    then have "{i. i < Suc m \<and> bit v i} = {i. i < m \<and> bit v i}" by (auto simp: less_Suc_eq)
    then show ?thesis using Suc.IH [OF True] True by (simp add: nth_append)
  next
    case False
    define w where "w = v - 2 ^ m"
    have w: "v = 2 ^ m + w" "w < 2 ^ m" using False Suc.prems by (simp_all add: w_def)
    then have "{i. i < Suc m \<and> bit v i} = insert m {i. i < m \<and> bit w i}"
      using upper_bit [OF w(2)] by (auto simp: less_Suc_eq)
    then show ?thesis using Suc.IH [OF w(2)] w by (simp add: nth_append)
  qed
qed simp

lemma high_bits_eq: "high_bits_in_char = bit_counts 8"
  by (simp add: high_bits_in_char_def numeral_eq_Suc)

lemma byte_distance_bits: "byte_distance x y = card {i. i < 8 \<and> bit x i \<noteq> bit y i}"
proof -
  have "(x XOR y) AND 255 = x XOR y" using take_bit_length_eq [of "x XOR y"] by (simp add: take_bit_eq_mask mask_eq_exp_minus_1)
  moreover have "unat (x XOR y) < 2 ^ 8" using unsigned_less [of "x XOR y", where ?'a = nat] by simp
  ultimately have "byte_distance x y = card {i. i < 8 \<and> bit (unat (x XOR y)) i}"
    by (simp only: byte_distance_def high_bits_eq bit_counts_nth)
  then show ?thesis by (simp add: bit_simps)
qed

lemma fold_add: "fold (\<lambda>i (s :: nat). s + f i) xs a = a + sum_list (map f xs)"
  by (induction xs arbitrary: a) simp_all

lemma hamming_distance_bits:
  "hamming_distance d1 d2 l = (\<Sum>i<l. card {j. j < 8 \<and> bit (d1 ! i) j \<noteq> bit (d2 ! i) j})"
  by (simp add: hamming_distance_def fold_add byte_distance_bits interv_sum_list_conv_sum_set_nat lessThan_atLeast0)

section \<open>More copies\<close>

definition copy_blocks :: "nat \<Rightarrow> nat \<Rightarrow> rsblock list \<Rightarrow> rsblock list \<Rightarrow> rsblock list" where
  "copy_blocks n stack_size src dest = fold (\<lambda>row dest. dest[row := copy_block n (src ! row) (dest ! row)]) [0..<stack_size] dest"

definition copy_stack_data :: "nat \<Rightarrow> nat \<Rightarrow> nat \<Rightarrow> rsblock list \<Rightarrow> bytes \<Rightarrow> bytes" where
  "copy_stack_data n k stack_size src dest =
     fold (\<lambda>(p, i, j) dest. dest[p := char_of_symbol (data (src ! i) ! j)])
       (map (\<lambda>p. (p, p div (n - k), p mod (n - k))) [0..<stack_size * (n - k)]) dest"

definition data_block_clear :: "nat \<Rightarrow> 'a \<Rightarrow> 'a list \<Rightarrow> 'a list" where
  "data_block_clear block_length value b = fold (\<lambda>i b. b[i := value]) [0..<block_length] b"

definition data_block_copy :: "nat \<Rightarrow> 'a list \<Rightarrow> 'a list \<Rightarrow> 'a list" where
  "data_block_copy block_length src dest = fold (\<lambda>i dest. dest[i := src ! i]) [0..<block_length] dest"

definition data_block_stack_copy :: "nat \<Rightarrow> nat \<Rightarrow> 'a list list \<Rightarrow> 'a list list \<Rightarrow> 'a list list" where
  "data_block_stack_copy block_length stack_size src dest =
     fold (\<lambda>row dest. dest[row := data_block_copy block_length (src ! row) (dest ! row)]) [0..<stack_size] dest"

section \<open>The timer\<close>

text \<open>The version for \<^verbatim>\<open>gettimeofday\<close>; \<open>now\<close> is the seconds and microseconds it gives.\<close>

record timer =
  in_use :: bool
  start_time :: "int \<times> int"
  stop_time :: "int \<times> int"

definition timer_ctor :: timer where
  "timer_ctor = \<lparr>in_use = False, start_time = (0, 0), stop_time = (0, 0)\<rparr>"

definition timer_start :: "int \<times> int \<Rightarrow> timer \<Rightarrow> timer" where
  "timer_start now t = t\<lparr>in_use := True, start_time := now\<rparr>"

definition timer_stop :: "int \<times> int \<Rightarrow> timer \<Rightarrow> timer" where
  "timer_stop now t = t\<lparr>stop_time := now, in_use := False\<rparr>"

definition usec_time :: "timer \<Rightarrow> uint64" where
  "usec_time t =
     (if \<not> in_use t
      then if fst (stop_time t) \<ge> fst (start_time t)
           then word_of_int (1000000 * (fst (stop_time t) - fst (start_time t)) + (snd (stop_time t) - snd (start_time t)))
           else - 1
      else - 1)"

text \<open>
  The time between start and stop. A clock set back to an earlier second gives the greatest number, one set back
  within the second almost as much.
\<close>

lemma usec_time_elapsed:
  assumes "0 \<le> u" "u < 1000000" "0 \<le> u'" "u' < 1000000" "1000000 * s + u \<le> 1000000 * s' + u'"
    and "1000000 * (s' - s) + (u' - u) < 2 ^ 64"
  shows "uint (usec_time (timer_stop (s', u') (timer_start (s, u) t))) = (1000000 * s' + u') - (1000000 * s + u)"
proof -
  have "s \<le> s'" using assms(1-5) by linarith
  define d where "d = 1000000 * (s' - s) + (u' - u)"
  have d: "0 \<le> d" "d < 2 ^ 64" "d = (1000000 * s' + u') - (1000000 * s + u)" using assms(5,6) by (simp_all add: d_def algebra_simps)
  have "usec_time (timer_stop (s', u') (timer_start (s, u) t)) = word_of_int d"
    using \<open>s \<le> s'\<close> unfolding usec_time_def timer_stop_def timer_start_def d_def by simp
  then show ?thesis using d(1,2) unfolding d(3) [symmetric] by (simp add: uint_word_of_int_eq take_bit_eq_mod)
qed

lemma usec_time_set_back:
  "usec_time (timer_stop (s, 10) (timer_start (s, 11) t)) = - 1" "s' < s \<Longrightarrow> usec_time (timer_stop (s', u') (timer_start (s, u) t)) = - 1"
  "usec_time (timer_start now t) = - 1"
  by (simp_all add: usec_time_def timer_stop_def timer_start_def)

end
