(* ===== verification/ProductCode.thy ===== *)
theory ProductCode
  imports ErasureChannel BitIO
begin

text \<open>
  \<^verbatim>\<open>schifra_reed_solomon_product_code.hpp\<close>: a square of data, each row of which becomes a code word; the columns are
  encoded too. The encoder and the decoder of the blocks are arguments. The symbols have eight bits, the data are
  arrays of \<^verbatim>\<open>unsigned char\<close>.
\<close>

section \<open>The encoder\<close>

type_synonym block_fun = "rsblock \<Rightarrow> (bool \<times> rsblock) option"

definition copy_uchars :: "bytes \<Rightarrow> nat \<Rightarrow> rsblock \<Rightarrow> rsblock" where
  "copy_uchars src src_length b = fold (\<lambda>i. set_sym i (uint (src ! i))) [0..<src_length] b"

fun encode_rows :: "nat \<Rightarrow> block_fun \<Rightarrow> bytes \<Rightarrow> nat list \<Rightarrow> rsblock list \<Rightarrow> (bool \<times> rsblock list) option" where
  "encode_rows data_length enc d [] stack = Some (True, stack)"
| "encode_rows data_length enc d (row # rows) stack = do {
     (ok, b) \<leftarrow> enc (copy_uchars (drop (row * data_length) d) data_length (stack ! row));
     let stack = stack[row := b];
     if ok then encode_rows data_length enc d rows stack else Some (False, stack)
   }"

text \<open>The parity symbol with number \<open>i\<close> of each column goes to the same place of row \<open>data_length + i\<close>.\<close>

fun encode_columns :: "nat \<Rightarrow> nat \<Rightarrow> block_fun \<Rightarrow> nat list \<Rightarrow> rsblock \<Rightarrow> rsblock list \<Rightarrow> (bool \<times> rsblock list) option" where
  "encode_columns n k enc [] vertical_block stack = Some (True, stack)"
| "encode_columns n k enc (col # cols) vertical_block stack = do {
     (ok, vertical_block) \<leftarrow> enc (fold (\<lambda>row. set_sym row (data (stack ! row) ! col)) [0..<n - k] vertical_block);
     if ok then
       encode_columns n k enc cols vertical_block
         (fold (\<lambda>i stack. stack[n - k + i := set_fec n k i (fec n k vertical_block i) (stack ! (n - k + i))]) [0..<k] stack)
     else Some (False, stack)
   }"

definition product_encode :: "nat \<Rightarrow> nat \<Rightarrow> block_fun \<Rightarrow> field_symbol list \<Rightarrow> bytes \<Rightarrow> rsblock list \<Rightarrow> (bool \<times> rsblock list) option" where
  "product_encode n k enc mem d stack = do {
     (ok, stack) \<leftarrow> encode_rows (n - k) enc d [0..<n - k] stack;
     if ok then encode_columns n k enc [0..<n] (block_ctor mem) stack else Some (False, stack)
   }"

definition product_encode_and_interleave ::
  "nat \<Rightarrow> nat \<Rightarrow> block_fun \<Rightarrow> field_symbol list \<Rightarrow> bytes \<Rightarrow> rsblock list \<Rightarrow> (bool \<times> rsblock list) option" where
  "product_encode_and_interleave n k enc mem d stack = do {
     (ok, stack) \<leftarrow> product_encode n k enc mem d stack;
     if ok then map_option (Pair True) (interleave_blocks n stack) else Some (False, stack)
   }"

text \<open>\<open>rows\<close> rows with the first \<open>l\<close> symbols each, one behind the other in the array.\<close>

definition output_rows :: "nat \<Rightarrow> nat \<Rightarrow> rsblock list \<Rightarrow> bytes \<Rightarrow> bytes option" where
  "output_rows rows l stack output_data =
     fold_opt (\<lambda>row out. map_option ((@) (take (row * l) out)) (convert_symbol_to_data8 (data (stack ! row)) (drop (row * l) out) l))
       [0..<rows] output_data"

definition product_encoder_output :: "nat \<Rightarrow> rsblock list \<Rightarrow> bytes \<Rightarrow> bytes option" where
  "product_encoder_output n = output_rows n n"

definition product_clear :: "nat \<Rightarrow> rsblock list \<Rightarrow> rsblock list" where
  "product_clear n stack = fold (\<lambda>i stack. stack[i := clear n 0 (stack ! i)]) [0..<n] stack"

section \<open>The decoder\<close>

definition copy_proxy :: "nat \<Rightarrow> bytes \<Rightarrow> rsblock list \<Rightarrow> rsblock list option" where
  "copy_proxy n d stack =
     fold_opt (\<lambda>row stack. map_option (\<lambda>s. stack[row := (stack ! row)\<lparr>data := s\<rparr>])
         (convert_data_to_symbol8 (drop (row * n) d) n (data (stack ! row)))) [0..<n] stack"

text \<open>The rows; a failure is remembered and the next row decoded.\<close>

definition decode_rows :: "nat \<Rightarrow> block_fun \<Rightarrow> rsblock list \<Rightarrow> (bool \<times> rsblock list) option" where
  "decode_rows data_length dec stack =
     fold_opt (\<lambda>row (first_iteration_failure, stack). do {
         (ok, b) \<leftarrow> dec (stack ! row);
         Some (first_iteration_failure \<or> \<not> ok, stack[row := b])
       }) [0..<data_length] (False, stack)"

text \<open>The columns; what the decoder makes of the block is not copied back.\<close>

definition decode_columns :: "nat \<Rightarrow> nat \<Rightarrow> block_fun \<Rightarrow> rsblock list \<Rightarrow> rsblock \<Rightarrow> rsblock option" where
  "decode_columns n data_length dec stack vertical_block =
     fold_opt (\<lambda>col vertical_block. map_option snd
         (dec (fold (\<lambda>row. set_sym row (data (stack ! row) ! col)) [0..<data_length] vertical_block))) [0..<n] vertical_block"

definition decode_proxy :: "nat \<Rightarrow> nat \<Rightarrow> block_fun \<Rightarrow> field_symbol list \<Rightarrow> rsblock list \<Rightarrow> rsblock list option" where
  "decode_proxy n k dec mem stack = do {
     (first_iteration_failure, stack) \<leftarrow> decode_rows (n - k) dec stack;
     if \<not> first_iteration_failure then Some stack
     else map_option (\<lambda>vertical_block. stack) (decode_columns n (n - k) dec stack (block_ctor mem))
   }"

definition product_decode :: "nat \<Rightarrow> nat \<Rightarrow> block_fun \<Rightarrow> field_symbol list \<Rightarrow> bytes \<Rightarrow> rsblock list \<Rightarrow> rsblock list option" where
  "product_decode n k dec mem d stack = do {
     stack \<leftarrow> copy_proxy n d stack;
     decode_proxy n k dec mem stack
   }"

definition product_deinterleave_and_decode ::
  "nat \<Rightarrow> nat \<Rightarrow> block_fun \<Rightarrow> field_symbol list \<Rightarrow> bytes \<Rightarrow> rsblock list \<Rightarrow> rsblock list option" where
  "product_deinterleave_and_decode n k dec mem d stack = do {
     stack \<leftarrow> copy_proxy n d stack;
     stack \<leftarrow> interleave_blocks n stack;
     decode_proxy n k dec mem stack
   }"

definition product_decoder_output :: "nat \<Rightarrow> nat \<Rightarrow> rsblock list \<Rightarrow> bytes \<Rightarrow> bytes option" where
  "product_decoder_output n k = output_rows (n - k) (n - k)"

section \<open>The loops\<close>

definition byte_of_symbol :: "field_symbol \<Rightarrow> byte" where
  "byte_of_symbol v = word_of_int (v AND 255)"

lemma byte_of_symbol_eq: "byte_of_symbol v = byte_of_symbol w \<longleftrightarrow> v AND 255 = w AND 255"
  by (simp add: byte_of_symbol_def word_of_int_eq_iff symbol_and_255 take_bit_eq_mod)

lemma byte_of_symbol_uint [simp]: "byte_of_symbol (uint x) = x"
  by (simp add: byte_of_symbol_def mask_uint)

lemma fold_modify:
  assumes "m + l \<le> length xs"
  shows "fold (\<lambda>i xs. xs[m + i := h i (xs ! (m + i))]) [0..<l] xs = take m xs @ map (\<lambda>i. h i (xs ! (m + i))) [0..<l] @ drop (m + l) xs"
  using assms
proof (induction l)
  case (Suc l)
  let ?a = "take m xs @ map (\<lambda>i. h i (xs ! (m + i))) [0..<l]"
  have "drop (m + l) xs = xs ! (m + l) # drop (m + Suc l) xs" using Suc.prems by (simp add: Cons_nth_drop_Suc)
  moreover have "length ?a = m + l" using Suc.prems by simp
  ultimately have "(?a @ drop (m + l) xs)[m + l := v] = ?a @ v # drop (m + Suc l) xs" "(?a @ drop (m + l) xs) ! (m + l) = xs ! (m + l)" for v
    by (simp_all add: list_update_append nth_append)
  then show ?case using Suc by simp
qed simp

lemma output_rows_eq:
  assumes "\<And>i. i < rows \<Longrightarrow> l \<le> length (data (stack ! i))" and "rows * l \<le> length out"
  shows "output_rows rows l stack out =
     Some (concat (map (\<lambda>i. map byte_of_symbol (take l (data (stack ! i)))) [0..<rows]) @ drop (rows * l) out)"
  using assms
proof (induction rows)
  case (Suc rows)
  let ?o = "concat (map (\<lambda>i. map byte_of_symbol (take l (data (stack ! i)))) [0..<rows])"
  have lo: "length ?o = rows * l"
    using Suc.prems(1) by (subst length_concat_const [where l = l]) simp_all
  have IH: "output_rows rows l stack out = Some (?o @ drop (rows * l) out)" using Suc by simp
  have "convert_symbol_to_data8 (data (stack ! rows)) (drop (rows * l) out) l =
      Some (map byte_of_symbol (take l (data (stack ! rows))) @ drop (Suc rows * l) out)"
    using Suc.prems symbol_to_data8_eq [of l "drop (rows * l) out" "data (stack ! rows)"]
    by (simp add: byte_of_symbol_def [abs_def] add.commute)
  then show ?case using IH lo unfolding output_rows_def by (simp add: fold_opt_append)
qed (simp add: output_rows_def)

lemma copy_proxy_eq:
  assumes "square n stack" and "length d = n * n"
  shows "copy_proxy n d stack = Some (map (\<lambda>i. (stack ! i)\<lparr>data := map uint (take n (drop (i * n) d))\<rparr>) [0..<n])"
proof -
  let ?f = "\<lambda>row stack. map_option (\<lambda>s. stack[row := (stack ! row)\<lparr>data := s\<rparr>]) (convert_data_to_symbol8 (drop (row * n) d) n (data (stack ! row)))"
  let ?r = "\<lambda>i. (stack ! i)\<lparr>data := map uint (take n (drop (i * n) d))\<rparr>"
  have "fold_opt ?f [0..<m] stack = Some (map ?r [0..<m] @ drop m stack)" if "m \<le> n" for m
    using that
  proof (induction m)
    case (Suc m)
    have st: "length stack = n" "length (data (stack ! m)) = n" using assms(1) Suc.prems by (auto simp: square_def)
    have d: "drop m stack = stack ! m # drop (Suc m) stack" using st(1) Suc.prems by (simp add: Cons_nth_drop_Suc)
    have "Suc m * n \<le> n * n" using Suc.prems by (intro mult_le_mono1)
    then have "n \<le> length (drop (m * n) d)" using assms(2) by simp
    then show ?case using Suc d st data_to_symbol8_eq [of n "drop (m * n) d" "data (stack ! m)"]
      by (simp add: fold_opt_append nth_append list_update_append)
  qed simp
  from this [of n] show ?thesis using assms(1) by (simp add: copy_proxy_def square_def)
qed

lemma encode_rows_append:
  "encode_rows dl enc d (xs @ ys) stack =
     Option.bind (encode_rows dl enc d xs stack) (\<lambda>(ok, stack). if ok then encode_rows dl enc d ys stack else Some (False, stack))"
  by (induction xs arbitrary: stack) (simp_all add: Let_def split: Option.bind_split prod.split)

lemma encode_rows_all:
  assumes "m \<le> length stack" and "\<And>i. i < m \<Longrightarrow> \<exists>c. enc (copy_uchars (drop (i * dl) d) dl (stack ! i)) = Some (True, c)"
  shows "\<exists>cs. encode_rows dl enc d [0..<m] stack = Some (True, cs @ drop m stack) \<and> length cs = m \<and>
     (\<forall>i<m. enc (copy_uchars (drop (i * dl) d) dl (stack ! i)) = Some (True, cs ! i))"
  using assms
proof (induction m)
  case (Suc m)
  then obtain cs c where cs: "encode_rows dl enc d [0..<m] stack = Some (True, cs @ drop m stack)" "length cs = m"
    "\<forall>i<m. enc (copy_uchars (drop (i * dl) d) dl (stack ! i)) = Some (True, cs ! i)"
    and c: "enc (copy_uchars (drop (m * dl) d) dl (stack ! m)) = Some (True, c)" by (meson Suc_leD less_Suc_eq lessI)
  have "drop m stack = stack ! m # drop (Suc m) stack" using Suc.prems by (simp add: Cons_nth_drop_Suc)
  then have "encode_rows dl enc d [0..<Suc m] stack = Some (True, (cs @ [c]) @ drop (Suc m) stack)"
    using cs(1,2) c by (simp add: encode_rows_append list_update_append nth_append)
  then show ?case using cs(2,3) c by (intro exI [of _ "cs @ [c]"]) (auto simp: nth_append less_Suc_eq)
qed simp

lemma decode_rows_all:
  assumes "m \<le> length stack" and "\<And>i. i < m \<Longrightarrow> \<exists>c. dec (stack ! i) = Some (True, c) \<and> P i c"
  shows "\<exists>cs. decode_rows m dec stack = Some (False, cs @ drop m stack) \<and> length cs = m \<and> (\<forall>i<m. P i (cs ! i))"
  using assms
proof (induction m)
  case 0
  then show ?case by (simp add: decode_rows_def)
next
  case (Suc m)
  then obtain cs c where cs: "decode_rows m dec stack = Some (False, cs @ drop m stack)" "length cs = m" "\<forall>i<m. P i (cs ! i)"
    and c: "dec (stack ! m) = Some (True, c)" "P m c" by (meson Suc_leD less_Suc_eq lessI)
  have "drop m stack = stack ! m # drop (Suc m) stack" using Suc.prems by (simp add: Cons_nth_drop_Suc)
  then have "decode_rows (Suc m) dec stack = Some (False, (cs @ [c]) @ drop (Suc m) stack)"
    using cs(1,2) c(1) unfolding decode_rows_def by (simp add: fold_opt_append list_update_append nth_append)
  then show ?case using cs(2,3) c by (intro exI [of _ "cs @ [c]"]) (auto simp: nth_append less_Suc_eq)
qed

text \<open>The parity symbols of the columns: of the lower rows only the diagonal of the parity part is written.\<close>

lemma encode_columns_all:
  assumes "k \<le> n" and "square n stack" and "length (data vb) = n"
    and "\<And>b. length (data b) = n \<Longrightarrow> \<exists>c. enc b = Some (True, c) \<and> length (data c) = n"
  shows "\<exists>st. encode_columns n k enc cols vb stack = Some (True, st) \<and> square n st \<and> take (n - k) st = take (n - k) stack \<and>
     (\<forall>i<k. \<forall>p. p \<noteq> n - k + i \<longrightarrow> data (st ! (n - k + i)) ! p = data (stack ! (n - k + i)) ! p)"
  using assms(2,3)
proof (induction cols arbitrary: vb stack)
  case (Cons col cols)
  let ?vb = "fold (\<lambda>row. set_sym row (data (stack ! row) ! col)) [0..<n - k] vb"
  have "length (data ?vb) = n" using Cons.prems(2) by (simp add: fold_set_sym fold_update_prefix assms(1))
  then obtain c where c: "enc ?vb = Some (True, c)" "length (data c) = n" using assms(4) by blast
  let ?h = "\<lambda>i b. set_fec n k i (fec n k c i) b"
  let ?st = "fold (\<lambda>i st. st[n - k + i := ?h i (st ! (n - k + i))]) [0..<k] stack"
  have len: "length stack = n" using Cons.prems(1) by (simp add: square_def)
  have st: "?st = take (n - k) stack @ map (\<lambda>i. ?h i (stack ! (n - k + i))) [0..<k]"
    using fold_modify [of "n - k" k stack ?h] len assms(1) by simp
  have low: "?st ! (n - k + i) = ?h i (stack ! (n - k + i))" if "i < k" for i
    unfolding st using that len assms(1) by (simp add: nth_append)
  have up: "take (n - k) ?st = take (n - k) stack" unfolding st using len assms(1) by simp
  have sq: "square n ?st" unfolding square_def
  proof (intro conjI allI impI)
    show "length ?st = n" unfolding st using len assms(1) by simp
    fix j assume j: "j < n"
    show "length (data (?st ! j)) = n"
    proof (cases "j < n - k")
      case True
      then have "?st ! j = stack ! j" using arg_cong [OF up, of "\<lambda>l. l ! j"] by (simp only: nth_take)
      then show ?thesis using Cons.prems(1) j by (simp add: square_def)
    next
      case False
      define i where "i = j - (n - k)"
      have i: "j = n - k + i" "i < k" using False j by (simp_all add: i_def)
      have "length (data (stack ! (n - k + i))) = n" using Cons.prems(1) j unfolding i(1) by (simp add: square_def)
      then show ?thesis unfolding i(1) low [OF i(2)] by (simp add: set_fec_def set_sym_def)
    qed
  qed
  from Cons.IH [OF sq c(2)] obtain st' where st': "encode_columns n k enc cols c ?st = Some (True, st')" "square n st'"
    "take (n - k) st' = take (n - k) ?st" "\<forall>i<k. \<forall>p. p \<noteq> n - k + i \<longrightarrow> data (st' ! (n - k + i)) ! p = data (?st ! (n - k + i)) ! p" by blast
  have "data (st' ! (n - k + i)) ! p = data (stack ! (n - k + i)) ! p" if "i < k" "p \<noteq> n - k + i" for i p
    using st'(4) that low [OF that(1)] by (simp add: set_fec_def set_sym_def)
  then show ?case using st'(1-3) c(1) up by simp
qed simp

section \<open>The round trip\<close>

lemma data_copy_uchars:
  assumes "l \<le> length (data b)" and "l \<le> length d"
  shows "data (copy_uchars d l b) = map uint (take l d) @ drop l (data b)"
proof -
  have "map (\<lambda>i. uint (d ! i)) [0..<l] = map uint (take l d)" using assms(2) by (intro nth_equalityI) simp_all
  then show ?thesis using assms(1) by (simp add: copy_uchars_def fold_set_sym fold_update_prefix)
qed

lemma concat_rows:
  assumes "length d = m * l"
  shows "concat (map (\<lambda>i. take l (drop (i * l) d)) [0..<m]) = d"
proof -
  have "i \<le> m \<Longrightarrow> concat (map (\<lambda>i. take l (drop (i * l) d)) [0..<i]) = take (i * l) d" for i
  proof (induction i)
    case (Suc i)
    then show ?case by (simp add: take_add add.commute [of l])
  qed simp
  from this [of m] show ?thesis using assms by simp
qed

context erasure_code
begin

lemma product_encoded:
  assumes ok and "k \<le> n" and st: "square n stack" and "length mem = n" and d: "length d = (n - k) * (n - k)"
  obtains st' where "product_encode n k enc mem d stack = Some (True, st')" and "square n st'"
    and "\<And>i. i < n - k \<Longrightarrow> \<exists>b. length (data b) = n \<and> enc b = Some (True, st' ! i) \<and>
      take (n - k) (data (st' ! i)) = map uint (take (n - k) (drop (i * (n - k)) d))"
    and "\<forall>i<k. \<forall>p. p \<noteq> n - k + i \<longrightarrow> data (st' ! (n - k + i)) ! p = data (stack ! (n - k + i)) ! p"
proof -
  let ?dl = "n - k"
  let ?b = "\<lambda>i. copy_uchars (drop (i * ?dl) d) ?dl (stack ! i)"
  have b: "data (?b i) = map uint (take ?dl (drop (i * ?dl) d)) @ drop ?dl (data (stack ! i))" "length (data (?b i)) = n" if "i < ?dl" for i
  proof -
    have "Suc i * ?dl \<le> ?dl * ?dl" using that by (intro mult_le_mono1) simp
    then have "?dl \<le> length (drop (i * ?dl) d)" using d by (simp add: add_le_imp_le_diff)
    moreover have "length (data (stack ! i)) = n" using st that by (simp add: square_def)
    ultimately show "data (?b i) = map uint (take ?dl (drop (i * ?dl) d)) @ drop ?dl (data (stack ! i))" "length (data (?b i)) = n"
      using data_copy_uchars [of ?dl "stack ! i" "drop (i * ?dl) d"] \<open>k \<le> n\<close> by simp_all
  qed
  have enc1: "\<exists>c. enc (?b i) = Some (True, c) \<and> length (data c) = n \<and> take ?dl (data c) = take ?dl (data (?b i))" if "i < ?dl" for i
    using encodes [OF \<open>ok\<close> b(2) [OF that]] .
  then obtain cs where cs: "encode_rows ?dl enc d [0..<?dl] stack = Some (True, cs @ drop ?dl stack)" "length cs = ?dl"
    "\<forall>i<?dl. enc (?b i) = Some (True, cs ! i)"
    using encode_rows_all [of ?dl stack enc ?dl d] st by (force simp: square_def)
  have len: "length (data (cs ! i)) = n" "take ?dl (data (cs ! i)) = take ?dl (data (?b i))" if "i < ?dl" for i
    using enc1 [OF that] cs(3) that by auto
  have sq: "square n (cs @ drop ?dl stack)" using st cs(2) len(1) by (auto simp: square_def nth_append)
  obtain st' where st': "encode_columns n k enc [0..<n] (block_ctor mem) (cs @ drop ?dl stack) = Some (True, st')" "square n st'"
    "take ?dl st' = take ?dl (cs @ drop ?dl stack)"
    "\<forall>i<k. \<forall>p. p \<noteq> ?dl + i \<longrightarrow> data (st' ! (?dl + i)) ! p = data ((cs @ drop ?dl stack) ! (?dl + i)) ! p"
    using encode_columns_all [OF \<open>k \<le> n\<close> sq, of "block_ctor mem" enc "[0..<n]"] encodes [OF \<open>ok\<close>] \<open>length mem = n\<close>
    by (force simp: block_ctor_def)
  have row: "st' ! i = cs ! i" if "i < ?dl" for i using st'(3) cs(2) that by (metis nth_take nth_append)
  show thesis
  proof (rule that)
    show "product_encode n k enc mem d stack = Some (True, st')" using cs(1) st'(1) by (simp add: product_encode_def)
    show "square n st'" by (rule st'(2))
    show "\<exists>b. length (data b) = n \<and> enc b = Some (True, st' ! i) \<and> take ?dl (data (st' ! i)) = map uint (take ?dl (drop (i * ?dl) d))"
      if "i < ?dl" for i
    proof (intro exI conjI)
      show "length (data (?b i)) = n" "enc (?b i) = Some (True, st' ! i)" using b(2) cs(3) row that by simp_all
      have "length (take ?dl (drop (i * ?dl) d)) = ?dl"
        using b [OF that] st that by (simp add: square_def)
      then show "take ?dl (data (st' ! i)) = map uint (take ?dl (drop (i * ?dl) d))"
        using len(2) [OF that] b(1) [OF that] row [OF that] by simp
    qed
    show "\<forall>i<k. \<forall>p. p \<noteq> ?dl + i \<longrightarrow> data (st' ! (?dl + i)) ! p = data (stack ! (?dl + i)) ! p"
      using st'(4) cs(2) st by (simp add: nth_append square_def)
  qed
qed

text \<open>Rows that are damaged no more than the code allows are restored, whatever happened to the parity rows.\<close>

lemma rows_restored:
  assumes ok and "m = 255" and "k \<le> n" and d: "length d = (n - k) * (n - k)" and rs: "square n rs"
    and cs: "\<And>i. i < n - k \<Longrightarrow> \<exists>b. length (data b) = n \<and> enc b = Some (True, cs ! i) \<and>
      take (n - k) (data (cs ! i)) = map uint (take (n - k) (drop (i * (n - k)) d))"
    and few: "\<And>i. i < n - k \<Longrightarrow> 2 * card {p. p < n \<and> data (rs ! i) ! p AND 255 \<noteq> data (cs ! i) ! p AND 255} \<le> k"
    and out: "length out = (n - k) * (n - k)"
  shows "Option.bind (decode_proxy n k (dec []) mem rs) (\<lambda>st. product_decoder_output n k st out) = Some d"
proof -
  let ?dl = "n - k"
  have "\<exists>c. dec [] (rs ! i) = Some (True, c) \<and> length (data c) = n \<and> (\<forall>p<n. data c ! p AND 255 = data (cs ! i) ! p AND 255)" if i: "i < ?dl" for i
  proof -
    obtain b where b: "length (data b) = n" "enc b = Some (True, cs ! i)" using cs [OF i] by blast
    show ?thesis using repairs [OF \<open>ok\<close> b, of "rs ! i" "[]"] few [OF i] rs i \<open>m = 255\<close> by (simp add: square_def)
  qed
  then obtain ds where ds: "decode_rows ?dl (dec []) rs = Some (False, ds @ drop ?dl rs)" "length ds = ?dl"
    "\<forall>i<?dl. length (data (ds ! i)) = n \<and> (\<forall>p<n. data (ds ! i) ! p AND 255 = data (cs ! i) ! p AND 255)"
    using decode_rows_all [of ?dl rs "dec []" "\<lambda>i c. length (data c) = n \<and> (\<forall>p<n. data c ! p AND 255 = data (cs ! i) ! p AND 255)"]
      rs by (auto simp: square_def)
  let ?st = "ds @ drop ?dl rs"
  have row: "map byte_of_symbol (take ?dl (data (?st ! i))) = take ?dl (drop (i * ?dl) d)" if i: "i < ?dl" for i
  proof -
    have l: "length (data (?st ! i)) = n" using ds(2,3) i by (simp add: nth_append)
    obtain b where b: "enc b = Some (True, cs ! i)" "length (data b) = n"
      and t: "take ?dl (data (cs ! i)) = map uint (take ?dl (drop (i * ?dl) d))" using cs [OF i] by blast
    have lc: "length (data (cs ! i)) = n" using encodes [OF \<open>ok\<close> b(2)] b(1) by auto
    have "map byte_of_symbol (take ?dl (data (?st ! i))) = map byte_of_symbol (take ?dl (data (cs ! i)))"
      using ds(2,3) i l lc by (intro nth_equalityI) (simp_all add: nth_append byte_of_symbol_eq)
    then show ?thesis unfolding t by (simp add: comp_def)
  qed
  have "product_decoder_output n k ?st out = Some (concat (map (\<lambda>i. map byte_of_symbol (take ?dl (data (?st ! i)))) [0..<?dl]))"
    unfolding product_decoder_output_def using output_rows_eq [of ?dl ?dl ?st out] ds(2,3) out by (simp add: nth_append)
  also have "map (\<lambda>i. map byte_of_symbol (take ?dl (data (?st ! i)))) [0..<?dl] = map (\<lambda>i. take ?dl (drop (i * ?dl) d)) [0..<?dl]"
    using row by simp
  also have "concat (map (\<lambda>i. take ?dl (drop (i * ?dl) d)) [0..<?dl]) = d" by (rule concat_rows [OF d])
  finally show ?thesis using ds(1) by (simp add: decode_proxy_def)
qed

end

text \<open>The bytes of a square stack, and the stack of the received bytes.\<close>

lemma output_square:
  assumes "square n st" and "length out = n * n"
  obtains sent where "product_encoder_output n st out = Some sent" and "length sent = n * n"
    and "\<And>i p. i < n \<Longrightarrow> p < n \<Longrightarrow> sent ! (i * n + p) = byte_of_symbol (data (st ! i) ! p)"
proof -
  let ?r = "\<lambda>i. map byte_of_symbol (take n (data (st ! i)))"
  let ?sent = "concat (map ?r [0..<n])"
  have l: "length (?r i) = n" if "i < n" for i using assms(1) that by (simp add: square_def)
  have "product_encoder_output n st out = Some ?sent"
    unfolding product_encoder_output_def using output_rows_eq [of n n st out] assms by (simp add: square_def)
  moreover have "length ?sent = n * n" using l by (subst length_concat_const [where l = n]) simp_all
  moreover have "?sent ! (i * n + p) = byte_of_symbol (data (st ! i) ! p)" if "i < n" "p < n" for i p
  proof -
    have "[0..<n] = [0..<i] @ i # [Suc i..<n]"
      using upt_add_eq_append [of 0 i "n - i"] upt_conv_Cons [OF that(1)] that(1) by simp
    then have "?sent = concat (map ?r [0..<i]) @ ?r i @ concat (map ?r [Suc i..<n])" by simp
    moreover have "length (concat (map ?r [0..<i])) = i * n" using l that(1) by (subst length_concat_const [where l = n]) simp_all
    moreover have "?r i ! p = byte_of_symbol (data (st ! i) ! p)" using l [OF that(1)] that(2) by simp
    ultimately show ?thesis using l [OF that(1)] that(2) by (simp add: nth_append)
  qed
  ultimately show thesis by (rule that)
qed

lemma received_rows:
  assumes "square n stack" and "length r = n * n"
  obtains rs where "copy_proxy n r stack = Some rs" and "square n rs"
    and "\<And>i p. i < n \<Longrightarrow> p < n \<Longrightarrow> data (rs ! i) ! p = uint (r ! (i * n + p))"
proof -
  let ?rs = "map (\<lambda>i. (stack ! i)\<lparr>data := map uint (take n (drop (i * n) r))\<rparr>) [0..<n]"
  have l: "n \<le> length (drop (i * n) r)" if "i < n" for i
  proof -
    have "Suc i * n \<le> n * n" using that by (intro mult_le_mono1) simp
    then show ?thesis using assms(2) by (simp add: add_le_imp_le_diff)
  qed
  show thesis
  proof (rule that)
    show "copy_proxy n r stack = Some ?rs" by (rule copy_proxy_eq [OF assms])
    show "square n ?rs" using l by (simp add: square_def)
    show "data (?rs ! i) ! p = uint (r ! (i * n + p))" if "i < n" "p < n" for i p
    proof -
      have "p < length (drop (i * n) r)" "i * n \<le> length r" using l [OF that(1)] that(2) by simp_all
      then show ?thesis using that by simp
    qed
  qed
qed

lemma byte_damage: "uint x AND 255 \<noteq> v AND 255 \<longleftrightarrow> x \<noteq> byte_of_symbol v"
  using byte_of_symbol_eq [of "uint x" v] by simp

context erasure_code
begin

lemma product_round_trip:
  assumes ok and "m = 255" and "k \<le> n" and st: "square n stack" "square n stack'" and "length mem = n"
    and d: "length d = (n - k) * (n - k)" and out: "length out = n * n" "length out' = (n - k) * (n - k)"
  shows "\<exists>st sent. product_encode n k enc mem d stack = Some (True, st) \<and> product_encoder_output n st out = Some sent \<and> length sent = n * n \<and>
     (\<forall>r. length r = n * n \<longrightarrow> (\<forall>i<n - k. 2 * card {p. p < n \<and> r ! (i * n + p) \<noteq> sent ! (i * n + p)} \<le> k) \<longrightarrow>
        Option.bind (product_decode n k (dec []) mem' r stack') (\<lambda>st. product_decoder_output n k st out') = Some d)"
proof -
  obtain cs where cs: "product_encode n k enc mem d stack = Some (True, cs)" "square n cs"
    "\<And>i. i < n - k \<Longrightarrow> \<exists>b. length (data b) = n \<and> enc b = Some (True, cs ! i) \<and>
      take (n - k) (data (cs ! i)) = map uint (take (n - k) (drop (i * (n - k)) d))"
    using product_encoded [OF assms(1,3) st(1) assms(6) d] by metis
  obtain sent where sent: "product_encoder_output n cs out = Some sent" "length sent = n * n"
    "\<And>i p. i < n \<Longrightarrow> p < n \<Longrightarrow> sent ! (i * n + p) = byte_of_symbol (data (cs ! i) ! p)"
    using output_square [OF cs(2) out(1)] by metis
  have "Option.bind (product_decode n k (dec []) mem' r stack') (\<lambda>st. product_decoder_output n k st out') = Some d"
    if r: "length r = n * n" and few: "\<forall>i<n - k. 2 * card {p. p < n \<and> r ! (i * n + p) \<noteq> sent ! (i * n + p)} \<le> k" for r
  proof -
    obtain rs where rs: "copy_proxy n r stack' = Some rs" "square n rs" "\<And>i p. i < n \<Longrightarrow> p < n \<Longrightarrow> data (rs ! i) ! p = uint (r ! (i * n + p))"
      using received_rows [OF st(2) r] by metis
    have "{p. p < n \<and> data (rs ! i) ! p AND 255 \<noteq> data (cs ! i) ! p AND 255} = {p. p < n \<and> r ! (i * n + p) \<noteq> sent ! (i * n + p)}" if "i < n - k" for i
      using that rs(3) sent(3) byte_damage by auto
    then have "Option.bind (decode_proxy n k (dec []) mem' rs) (\<lambda>st. product_decoder_output n k st out') = Some d"
      using few by (intro rows_restored [OF assms(1-3) d rs(2) cs(3) _ out(2)]) simp_all
    then show ?thesis using rs(1) by (simp add: product_decode_def)
  qed
  then show ?thesis using cs(1) sent(1,2) by blast
qed

text \<open>Interleaved, it is the columns of the array that may be damaged.\<close>

lemma product_interleaved_round_trip:
  assumes ok and "m = 255" and "k \<le> n" and st: "square n stack" "square n stack'" and "length mem = n"
    and d: "length d = (n - k) * (n - k)" and out: "length out = n * n" "length out' = (n - k) * (n - k)"
  shows "\<exists>st sent. product_encode_and_interleave n k enc mem d stack = Some (True, st) \<and> product_encoder_output n st out = Some sent \<and>
     length sent = n * n \<and>
     (\<forall>r. length r = n * n \<longrightarrow> (\<forall>i<n - k. 2 * card {p. p < n \<and> r ! (p * n + i) \<noteq> sent ! (p * n + i)} \<le> k) \<longrightarrow>
        Option.bind (product_deinterleave_and_decode n k (dec []) mem' r stack') (\<lambda>st. product_decoder_output n k st out') = Some d)"
proof -
  obtain cs where cs: "product_encode n k enc mem d stack = Some (True, cs)" "square n cs"
    "\<And>i. i < n - k \<Longrightarrow> \<exists>b. length (data b) = n \<and> enc b = Some (True, cs ! i) \<and>
      take (n - k) (data (cs ! i)) = map uint (take (n - k) (drop (i * (n - k)) d))"
    using product_encoded [OF assms(1,3) st(1) assms(6) d] by metis
  obtain ts where ts: "interleave_blocks n cs = Some ts" "square n ts" "\<forall>i<n. \<forall>j<n. data (ts ! i) ! j = data (cs ! j) ! i"
    using interleave_blocks_square [OF cs(2)] by blast
  obtain sent where sent: "product_encoder_output n ts out = Some sent" "length sent = n * n"
    "\<And>i p. i < n \<Longrightarrow> p < n \<Longrightarrow> sent ! (i * n + p) = byte_of_symbol (data (ts ! i) ! p)"
    using output_square [OF ts(2) out(1)] by metis
  have "Option.bind (product_deinterleave_and_decode n k (dec []) mem' r stack') (\<lambda>st. product_decoder_output n k st out') = Some d"
    if r: "length r = n * n" and few: "\<forall>i<n - k. 2 * card {p. p < n \<and> r ! (p * n + i) \<noteq> sent ! (p * n + i)} \<le> k" for r
  proof -
    obtain rs where rs: "copy_proxy n r stack' = Some rs" "square n rs" "\<And>i p. i < n \<Longrightarrow> p < n \<Longrightarrow> data (rs ! i) ! p = uint (r ! (i * n + p))"
      using received_rows [OF st(2) r] by metis
    obtain ds where ds: "interleave_blocks n rs = Some ds" "square n ds" "\<forall>i<n. \<forall>j<n. data (ds ! i) ! j = data (rs ! j) ! i"
      using interleave_blocks_square [OF rs(2)] by blast
    have "{p. p < n \<and> data (ds ! i) ! p AND 255 \<noteq> data (cs ! i) ! p AND 255} = {p. p < n \<and> r ! (p * n + i) \<noteq> sent ! (p * n + i)}" if "i < n - k" for i
      using that rs(3) ds(3) ts(3) sent(3) byte_damage by auto
    then have "Option.bind (decode_proxy n k (dec []) mem' ds) (\<lambda>st. product_decoder_output n k st out') = Some d"
      using few by (intro rows_restored [OF assms(1-3) d ds(2) cs(3) _ out(2)]) simp_all
    then show ?thesis using rs(1) ds(1) by (simp add: product_deinterleave_and_decode_def)
  qed
  then show ?thesis using cs(1) ts(1) sent(1,2) by (auto simp: product_encode_and_interleave_def)
qed

end

text \<open>
  The parity of the columns is lost: whatever is encoded, a row below the data keeps what its memory held, but for one
  symbol. The rows are not code words, and the decoder cannot use them.
\<close>

lemma parity_rows_uninitialised:
  assumes "rs_setup k a f g" and "square 255 stack" and "length mem = 255" and "length d = (255 - k) * (255 - k)"
    and "i < k" and "p \<noteq> 255 - k + i"
  shows "\<exists>st. product_encode 255 k (encode 255 k (encoder_ctor 255 f g)) mem d stack = Some (True, st) \<and>
     data (st ! (255 - k + i)) ! p = data (stack ! (255 - k + i)) ! p"
proof -
  have "k \<le> 255" using assms(1) by (simp add: rs_setup_def)
  then show ?thesis by (rule rsc.product_encoded [OF assms(1) _ assms(2-4)]) (use assms(5,6) in blast)
qed

text \<open>Nor does the decoder use the columns: it gives back the decoded rows.\<close>

lemma decode_proxy_rows_only:
  assumes "decode_proxy n k dec mem stack = Some st"
  shows "\<exists>failure. decode_rows (n - k) dec stack = Some (failure, st)"
proof (cases "decode_rows (n - k) dec stack")
  case None
  then show ?thesis using assms by (simp add: decode_proxy_def)
next
  case (Some r)
  obtain failure st' where r: "r = (failure, st')" by (cases r)
  have "st' = st" using assms Some r by (cases failure) (auto simp: decode_proxy_def)
  then show ?thesis using Some r by simp
qed

text \<open>
  C16: the product code gives back the data. A square of data is encoded and output; whatever happens to the parity
  rows, if in each other row of the received bytes at most half as many bytes are damaged as there are
  parity symbols, decoding and output give the data. With interleaving the same holds for the columns of the
  received bytes, so that a burst is spread over all rows.
\<close>

theorem product_code_restores_data:
  assumes "rs_setup k a f g" and "square 255 stack" and "square 255 stack'" and "length mem = 255"
    and "length d = (255 - k) * (255 - k)" and "length out = 255 * 255" and "length out' = (255 - k) * (255 - k)"
    and "enc = encode 255 k (encoder_ctor 255 f g)" and "dec = decode 255 k (decoder_ctor 255 k f a)"
  shows "(\<exists>st sent. product_encode 255 k enc mem d stack = Some (True, st) \<and> product_encoder_output 255 st out = Some sent \<and>
       length sent = 255 * 255 \<and>
       (\<forall>r. length r = 255 * 255 \<longrightarrow> (\<forall>i<255 - k. 2 * card {p. p < 255 \<and> r ! (i * 255 + p) \<noteq> sent ! (i * 255 + p)} \<le> k) \<longrightarrow>
          Option.bind (product_decode 255 k dec mem' r stack') (\<lambda>st. product_decoder_output 255 k st out') = Some d)) \<and>
     (\<exists>st sent. product_encode_and_interleave 255 k enc mem d stack = Some (True, st) \<and> product_encoder_output 255 st out = Some sent \<and>
       length sent = 255 * 255 \<and>
       (\<forall>r. length r = 255 * 255 \<longrightarrow> (\<forall>i<255 - k. 2 * card {p. p < 255 \<and> r ! (p * 255 + i) \<noteq> sent ! (p * 255 + i)} \<le> k) \<longrightarrow>
          Option.bind (product_deinterleave_and_decode 255 k dec mem' r stack') (\<lambda>st. product_decoder_output 255 k st out') = Some d))"
proof -
  have k: "k \<le> 255" using assms(1) by (simp add: rs_setup_def)
  have dec: "dec = decode_erasures 255 k (decoder_ctor 255 k f a) []" unfolding assms(9) by (rule ext) (simp add: decode_def)
  show ?thesis unfolding dec assms(8)
    by (rule conjI [OF rsc.product_round_trip [OF assms(1) refl k assms(2-7)] rsc.product_interleaved_round_trip [OF assms(1) refl k assms(2-7)]])
qed

theorem product_code_restores_data_witness:
  "\<exists>f g. let stack = replicate 255 (block_ctor (replicate 255 7)); d = replicate 48841 65; enc = encode 255 34 (encoder_ctor 255 f g);
       dec = decode 255 34 (decoder_ctor 255 34 f 120) in
     \<exists>st sent. product_encode 255 34 enc (replicate 255 0) d stack = Some (True, st) \<and>
       product_encoder_output 255 st (replicate 65025 0) = Some sent \<and>
       Option.bind (product_decode 255 34 dec (replicate 255 3) sent stack) (\<lambda>st. product_decoder_output 255 34 st (replicate 48841 1)) = Some d"
proof -
  let ?f = "rs_field (\<lambda>_. 0) (\<lambda>_. 1) 2"
  obtain g where s: "rs_setup 34 120 ?f g"
    using make_generator_ok [OF rs_field_ok [of "\<lambda>_. 0" "\<lambda>_. 1" 2], of 120 34] by (auto simp: rs_setup_def)
  define stack mem mem' d out out' where "stack = replicate 255 (block_ctor (replicate 255 7))" and "mem = replicate 255 (0 :: int)"
    and "mem' = replicate 255 (3 :: int)" and "d = replicate 48841 (65 :: byte)" and "out = replicate 65025 (0 :: byte)" and "out' = replicate 48841 (1 :: byte)"
  note def = stack_def mem_def mem'_def d_def out_def out'_def
  have "data (block_ctor r) = r" for r by (simp add: block_ctor_def)
  then have stack: "square 255 stack" unfolding square_def stack_def by (intro conjI allI impI) (simp_all only: length_replicate nth_replicate)
  have l: "length mem = 255" "length d = (255 - 34) * (255 - 34)" "length out = 255 * 255" "length out' = (255 - 34) * (255 - 34)"
    unfolding def length_replicate by simp_all
  obtain st sent where q: "product_encode 255 34 (encode 255 34 (encoder_ctor 255 ?f g)) mem d stack = Some (True, st)"
    "product_encoder_output 255 st out = Some sent" "length sent = 255 * 255"
    "\<forall>r. length r = 255 * 255 \<longrightarrow> (\<forall>i<255 - 34. 2 * card {p. p < 255 \<and> r ! (i * 255 + p) \<noteq> sent ! (i * 255 + p)} \<le> 34) \<longrightarrow>
        Option.bind (product_decode 255 34 (decode 255 34 (decoder_ctor 255 34 ?f 120)) mem' r stack)
          (\<lambda>st. product_decoder_output 255 34 st out') = Some d"
    using product_code_restores_data [OF s stack stack l refl refl] by blast
  from q(4) [rule_format, OF q(3)] have "Option.bind (product_decode 255 34 (decode 255 34 (decoder_ctor 255 34 ?f 120)) mem' sent stack)
          (\<lambda>st. product_decoder_output 255 34 st out') = Some d" by simp
  with q(1,2) show ?thesis unfolding def Let_def by blast
qed

end
