(* ===== verification/ErrorProcesses.thy ===== *)
theory ErrorProcesses
  imports RSDecode FileIO "HOL-Library.Multiset"
begin

text \<open>
  \<^verbatim>\<open>schifra_error_processes.hpp\<close>: the functions with which the codec is tested. They invert symbols of a block
  at computed positions and collect the positions of those that count as erasures. The values of \<^verbatim>\<open>rand\<close> are
  an argument; what the functions print is not modelled.
\<close>

section \<open>The operations\<close>

definition add_erasure_error :: "nat \<Rightarrow> rsblock \<Rightarrow> rsblock" where
  "add_erasure_error position b = set_sym position (NOT (data b ! position) AND 255) b"

definition add_error :: "nat \<Rightarrow> rsblock \<Rightarrow> rsblock" where
  "add_error position b = set_sym position (NOT (data b ! position) AND 255) b"

definition add_error_4bit_symbol :: "nat \<Rightarrow> rsblock \<Rightarrow> rsblock" where
  "add_error_4bit_symbol position b = set_sym position (NOT (data b ! position) AND 15) b"

definition corrupt_message_all_errors00 :: "nat \<Rightarrow> nat \<Rightarrow> nat \<Rightarrow> nat \<Rightarrow> rsblock \<Rightarrow> rsblock" where
  "corrupt_message_all_errors00 n k start_position scale b =
     fold (\<lambda>i. add_error ((start_position + scale * i) mod n)) [0..<k div 2] b"

definition corrupt_message_all_errors_wth_mask :: "nat \<Rightarrow> nat \<Rightarrow> nat \<Rightarrow> int \<Rightarrow> nat \<Rightarrow> rsblock \<Rightarrow> rsblock" where
  "corrupt_message_all_errors_wth_mask n k start_position m scale b =
     fold (\<lambda>i b. let position = (start_position + scale * i) mod n in set_sym position (NOT (data b ! position) AND m) b)
       [0..<k div 2] b"

definition corrupt_message_all_errors :: "nat \<Rightarrow> nat \<Rightarrow> nat \<Rightarrow> nat \<Rightarrow> rsblock \<Rightarrow> rsblock" where
  "corrupt_message_all_errors n error_count start_position scale b =
     fold (\<lambda>i. add_error ((start_position + scale * i) mod n)) [0..<error_count] b"

text \<open>The flags of the erasures, and the list made from them.\<close>

definition erase :: "nat \<Rightarrow> rsblock \<times> nat list \<Rightarrow> rsblock \<times> nat list" where
  "erase error_position st = (add_erasure_error error_position (fst st), (snd st)[error_position := 1])"

definition collect :: "nat \<Rightarrow> nat list \<Rightarrow> nat list \<Rightarrow> nat list" where
  "collect n erasures erasure_list = fold (\<lambda>i l. if erasures ! i = 1 then l @ [i] else l) [0..<n] erasure_list"

definition corrupt_message_all_erasures :: "nat \<Rightarrow> nat \<Rightarrow> nat \<Rightarrow> nat \<Rightarrow> rsblock \<times> nat list \<Rightarrow> rsblock \<times> nat list" where
  "corrupt_message_all_erasures n erasure_count start_position scale st =
     (let (b, erasures) = fold (\<lambda>i. erase ((start_position + scale * i) mod n)) [0..<erasure_count] (fst st, replicate n 0)
      in (b, collect n erasures (snd st)))"

definition corrupt_message_all_erasures00 :: "nat \<Rightarrow> nat \<Rightarrow> nat \<Rightarrow> nat \<Rightarrow> rsblock \<times> nat list \<Rightarrow> rsblock \<times> nat list" where
  "corrupt_message_all_erasures00 n k start_position scale st =
     (let (b, erasures) = fold (\<lambda>i. erase ((start_position + scale * i) mod n)) [0..<k] (fst st, replicate n 0)
      in (b, collect n erasures (snd st)))"

datatype error_mode = errors_erasures | erasures_errors

text \<open>The number of errors is computed in unsigned arithmetic, also when there are too many erasures.\<close>

definition error_count_for :: "nat \<Rightarrow> nat \<Rightarrow> nat" where
  "error_count_for k erasure_count = nat ((int k - int erasure_count) mod 2 ^ 64) div 2"

definition too_many :: "nat \<Rightarrow> nat \<Rightarrow> nat \<Rightarrow> bool" where
  "too_many k error_count erasure_count \<longleftrightarrow> k < (2 * error_count + erasure_count) mod 2 ^ 64"

definition corrupt_message_errors_erasures ::
  "nat \<Rightarrow> nat \<Rightarrow> error_mode \<Rightarrow> nat \<Rightarrow> nat \<Rightarrow> nat \<Rightarrow> rsblock \<times> nat list \<Rightarrow> rsblock \<times> nat list" where
  "corrupt_message_errors_erasures n k mode start_position erasure_count between_space st =
     (let error_count = error_count_for k erasure_count in
      if too_many k error_count erasure_count then st
      else
        let s = (fst st, replicate n 0);
            (b, erasures) =
              (case mode of
                 erasures_errors \<Rightarrow>
                   fold (\<lambda>i. apfst (add_error ((start_position + erasure_count + between_space + i) mod n))) [0..<error_count]
                     (fold (\<lambda>i. erase ((start_position + i) mod n)) [0..<erasure_count] s)
               | errors_erasures \<Rightarrow>
                   fold (\<lambda>i. erase ((start_position + error_count + between_space + i) mod n)) [0..<erasure_count]
                     (fold (\<lambda>i. apfst (add_error ((start_position + i) mod n))) [0..<error_count] s))
        in (b, collect n erasures (snd st)))"

text \<open>Erasures at even and errors at odd offsets, until both are used up.\<close>

function alternate :: "nat \<Rightarrow> nat \<Rightarrow> nat \<Rightarrow> nat \<Rightarrow> nat \<Rightarrow> nat \<Rightarrow> nat \<Rightarrow> rsblock \<times> nat list \<Rightarrow> nat \<times> rsblock \<times> nat list" where
  "alternate n start_position error_count erasure_count e s i st =
     (if e < error_count \<or> s < erasure_count \<or> i < error_count + erasure_count then
        let error_position = (start_position + i) mod n in
        if even i \<and> s < erasure_count then
          alternate n start_position error_count erasure_count e (s + 1) (i + 1) (erase error_position st)
        else if odd i \<and> e < error_count then
          alternate n start_position error_count erasure_count (e + 1) s (i + 1) (apfst (add_error error_position) st)
        else alternate n start_position error_count erasure_count e s (i + 1) st
      else (e, st))"
  by pat_completeness auto
termination
  by (relation "measures [\<lambda>(n, p, ec, sc, e, s, i, st). (ec - e) + (sc - s), \<lambda>(n, p, ec, sc, e, s, i, st). ec + sc - i,
      \<lambda>(n, p, ec, sc, e, s, i, st). if even i \<and> sc \<le> s \<or> odd i \<and> ec \<le> e then 1 else 0]") auto

declare alternate.simps [simp del]

definition corrupt_message_interleaved_errors_erasures ::
  "nat \<Rightarrow> nat \<Rightarrow> nat \<Rightarrow> nat \<Rightarrow> rsblock \<times> nat list \<Rightarrow> rsblock \<times> nat list" where
  "corrupt_message_interleaved_errors_erasures n k start_position erasure_count st =
     (let error_count = error_count_for k erasure_count in
      if too_many k error_count erasure_count then st
      else
        let (e, b, erasures) = alternate n start_position error_count erasure_count 0 0 0 (fst st, replicate n 0)
        in (b, collect n erasures (snd st)))"

definition corrupt_message_all_errors_segmented :: "nat \<Rightarrow> nat \<Rightarrow> nat \<Rightarrow> nat \<Rightarrow> rsblock \<Rightarrow> rsblock" where
  "corrupt_message_all_errors_segmented n k start_position distance_between_blocks b =
     (if k > 2 then
        let block_1_error_count = k div 4;
            block_2_error_count = k div 2 - block_1_error_count;
            b = fold (\<lambda>i. add_error ((start_position + i) mod n)) [0..<block_1_error_count] b;
            new_start_position = start_position + block_1_error_count + distance_between_blocks
        in fold (\<lambda>i. add_error ((new_start_position + i) mod n)) [0..<block_2_error_count] b
      else b)"

text \<open>The name is misleading: the result is true when there are no duplicates.\<close>

definition check_for_duplicate_erasures :: "int list \<Rightarrow> bool" where
  "check_for_duplicate_erasures erasure_list \<longleftrightarrow>
     list_all (\<lambda>i. list_all (\<lambda>j. erasure_list ! i \<noteq> erasure_list ! j) [i + 1..<length erasure_list]) [0..<length erasure_list]"

definition is_block_equivelent :: "nat \<Rightarrow> nat \<Rightarrow> rsblock \<Rightarrow> bytes \<Rightarrow> bool" where
  "is_block_equivelent n k b d \<longleftrightarrow> list_all (\<lambda>i. char_of_symbol (data b ! i AND 255) = d ! i) [0..<n - k]"

definition are_blocks_equivelent :: "nat \<Rightarrow> rsblock \<Rightarrow> rsblock \<Rightarrow> bool" where
  "are_blocks_equivelent span b1 b2 \<longleftrightarrow> list_all (\<lambda>i. data b1 ! i = data b2 ! i) [0..<span]"

definition block_stacks_equivelent :: "nat \<Rightarrow> nat \<Rightarrow> rsblock list \<Rightarrow> rsblock list \<Rightarrow> bool" where
  "block_stacks_equivelent n stack_size s1 s2 \<longleftrightarrow> list_all (\<lambda>i. are_blocks_equivelent n (s1 ! i) (s2 ! i)) [0..<stack_size]"

text \<open>
  Inverting bytes of a file. A negative start makes both seeks fail; a negative length is refused by the
  constructor of the vector (\<^term>\<open>None\<close>).
\<close>

definition corrupt_file_with_burst_errors :: "(string \<Rightarrow> bool) \<Rightarrow> string \<Rightarrow> int \<Rightarrow> int \<Rightarrow> fs \<Rightarrow> fs option" where
  "corrupt_file_with_burst_errors writable file_name start_position burst_length fs =
     (if \<not> file_exists fs file_name then Some fs
      else if (start_position + burst_length) mod 2 ^ 64 \<ge> int (file_size (fs file_name)) then Some fs
      else if burst_length < 0 then None
      else if start_position < 0 \<or> \<not> writable file_name then Some fs
      else
        let c = the (fs file_name); p = nat start_position; l = nat burst_length;
            d = map (\<lambda>x. NOT x) (take l (drop p c))
        in Some (fs(file_name \<mapsto> take p c @ d @ drop (p + l) c)))"

definition global_random_error_index :: "nat list" where
  "global_random_error_index =
     [13, 170, 148, 66, 228, 208, 182, 92, 4, 137, 97, 99, 237, 151, 15, 0, 119, 243, 41, 222,
      33, 211, 188, 5, 44, 30, 210, 111, 54, 79, 61, 223, 239, 149, 73, 115, 201, 234, 194, 62,
      147, 70, 19, 49, 72, 52, 164, 29, 102, 225, 203, 153, 18, 205, 40, 217, 165, 177, 166, 134,
      236, 68, 231, 154, 116, 136, 47, 240, 46, 89, 120, 183, 242, 28, 161, 226, 241, 230, 10, 131,
      207, 132, 83, 171, 202, 195, 227, 206, 112, 88, 90, 146, 117, 180, 26, 78, 118, 254, 107, 110,
      220, 7, 192, 187, 31, 175, 127, 209, 32, 12, 84, 128, 190, 156, 95, 105, 104, 246, 91, 215,
      219, 142, 36, 186, 247, 233, 167, 133, 160, 16, 140, 169, 23, 96, 155, 235, 179, 76, 253, 103,
      238, 67, 35, 121, 100, 27, 213, 58, 77, 248, 174, 39, 214, 56, 42, 200, 106, 21, 129, 114,
      252, 113, 168, 53, 25, 216, 64, 232, 81, 75, 2, 224, 250, 60, 135, 204, 48, 196, 94, 63,
      244, 191, 93, 126, 138, 159, 9, 85, 249, 34, 185, 163, 17, 65, 184, 82, 109, 172, 108, 69,
      150, 3, 20, 221, 162, 212, 152, 59, 198, 74, 229, 55, 87, 178, 141, 199, 57, 130, 80, 173,
      101, 122, 144, 51, 139, 11, 8, 125, 158, 124, 123, 37, 14, 24, 22, 43, 197, 50, 98, 6,
      176, 251, 86, 218, 193, 71, 145, 1, 45, 38, 189, 143, 245, 157, 181]"

definition error_index_size :: nat where
  "error_index_size = length global_random_error_index"

definition corrupt_message_all_errors_at_index :: "nat \<Rightarrow> nat \<Rightarrow> nat \<Rightarrow> nat list \<Rightarrow> rsblock \<Rightarrow> rsblock" where
  "corrupt_message_all_errors_at_index n error_count error_index_start_position random_error_index b =
     fold (\<lambda>i. add_error ((random_error_index ! ((error_index_start_position + i) mod length random_error_index)) mod n))
       [0..<error_count] b"

definition corrupt_message_all_errors_at_global_index :: "nat \<Rightarrow> nat \<Rightarrow> nat \<Rightarrow> rsblock \<Rightarrow> rsblock" where
  "corrupt_message_all_errors_at_global_index n error_count error_index_start_position b =
     fold (\<lambda>i. add_error ((global_random_error_index ! ((error_index_start_position + i) mod error_index_size)) mod n))
       [0..<error_count] b"

text \<open>The calls of \<^verbatim>\<open>rand\<close> are numbered; drawing an element removes it from the list.\<close>

function draw :: "(nat \<Rightarrow> nat) \<Rightarrow> nat \<Rightarrow> nat list \<Rightarrow> nat list \<Rightarrow> nat list" where
  "draw rand call index_list random_error_index =
     (if index_list = [] then random_error_index
      else let ix = rand call mod length index_list in
           draw rand (call + 1) (take ix index_list @ drop (ix + 1) index_list) (random_error_index @ [index_list ! ix]))"
  by pat_completeness auto
termination
proof (relation "measure (\<lambda>(r, c, l, x). length l)")
  fix rand :: "nat \<Rightarrow> nat" and call ix :: nat and l x :: "nat list"
  assume "l \<noteq> []" and ix: "ix = rand call mod length l"
  then have "ix < length l" by simp
  then show "((rand, call + 1, take ix l @ drop (ix + 1) l, x @ [l ! ix]), rand, call, l, x) \<in> measure (\<lambda>(r, c, l, x). length l)"
    by simp
qed simp

declare draw.simps [simp del]

definition generate_error_index :: "(nat \<Rightarrow> nat \<Rightarrow> nat) \<Rightarrow> nat \<Rightarrow> nat \<Rightarrow> nat list" where
  "generate_error_index srand index_size seed =
     (let seed = (if seed = 0 then 0xA5A5A5A5 else seed) in draw (srand (seed mod 2 ^ 32)) 0 [0..<index_size] [])"

section \<open>What they do to a block\<close>

text \<open>Distinct positions are inverted once each: exactly those symbols are damaged.\<close>

lemma erasure_error_eq: "add_erasure_error = add_error"
  by (rule ext, rule ext) (simp add: add_erasure_error_def add_error_def)

lemma fold_errors_map: "fold (\<lambda>i. add_error (f i)) is b = fold add_error (map f is) b"
  by (simp add: fold_map comp_def)

lemma add_errors_data:
  assumes "distinct ps" and "list_all (\<lambda>p. p < length (data b)) ps"
  shows "fold add_error ps b = b\<lparr>data := map (\<lambda>p. if p \<in> set ps then NOT (data b ! p) AND 255 else data b ! p) [0..<length (data b)]\<rparr>"
  using assms
proof (induction ps arbitrary: b)
  case Nil
  then show ?case by (simp add: map_nth)
next
  case (Cons q ps)
  let ?b = "add_error q b"
  have d: "data ?b = (data b)[q := NOT (data b ! q) AND 255]" by (simp add: add_error_def set_sym_def)
  have "fold add_error (q # ps) b = fold add_error ps ?b" by simp
  also have "\<dots> = ?b\<lparr>data := map (\<lambda>p. if p \<in> set ps then NOT (data ?b ! p) AND 255 else data ?b ! p) [0..<length (data ?b)]\<rparr>"
    using Cons.prems by (intro Cons.IH) (simp_all add: d)
  also have "map (\<lambda>p. if p \<in> set ps then NOT (data ?b ! p) AND 255 else data ?b ! p) [0..<length (data ?b)] =
      map (\<lambda>p. if p \<in> set (q # ps) then NOT (data b ! p) AND 255 else data b ! p) [0..<length (data b)]"
    unfolding d using Cons.prems by (intro nth_equalityI) (auto simp: nth_list_update)
  finally show ?case unfolding add_error_def [of q b] set_sym_def by simp
qed

lemma inverted_symbol: "(NOT x AND 255) AND 255 \<noteq> (x :: int) AND 255"
proof
  assume "(NOT x AND 255) AND 255 = x AND 255"
  then have "bit ((NOT x AND 255) AND 255) 0 = bit (x AND 255) 0" by simp
  then show False by (simp add: bit_simps)
qed

definition damage :: "nat \<Rightarrow> rsblock \<Rightarrow> rsblock \<Rightarrow> nat set" where
  "damage n b c = {p. p < n \<and> data b ! p AND 255 \<noteq> data c ! p AND 255}"

lemma damaged_by_errors:
  assumes "distinct ps" and "list_all (\<lambda>p. p < n) ps" and "length (data c) = n"
  shows "damage n (fold add_error ps c) c = set ps"
proof -
  have d: "data (fold add_error ps c) = map (\<lambda>p. if p \<in> set ps then NOT (data c ! p) AND 255 else data c ! p) [0..<n]"
    using add_errors_data [of ps c] assms by simp
  have "data (fold add_error ps c) ! p = (if p \<in> set ps then NOT (data c ! p) AND 255 else data c ! p)" if "p < n" for p
    unfolding d using that by simp
  then show ?thesis
    using assms(2) inverted_symbol by (auto simp: damage_def list_all_iff split: if_splits)
qed

lemma length_errors: "length (data (fold add_error ps c)) = length (data c)"
  by (induction ps arbitrary: c) (simp_all add: add_error_def set_sym_def)

text \<open>Positions that are hit more than once are at most those that are named.\<close>

lemma damage_errors_subset: "damage n (fold add_error ps c) c \<subseteq> set ps"
proof (rule subsetI, rule ccontr)
  fix p
  assume "p \<in> damage n (fold add_error ps c) c" "p \<notin> set ps"
  moreover from this(2) have "data (fold add_error ps c) ! p = data c ! p"
    by (induction ps arbitrary: c) (simp_all add: add_error_def set_sym_def)
  ultimately show False by (simp add: damage_def)
qed

text \<open>The erasure list is the increasing list of the erased positions.\<close>

lemma collect_filter: "collect n erasures l = l @ filter (\<lambda>i. erasures ! i = 1) [0..<n]"
  unfolding collect_def by (induction n) auto

lemma erase_fold:
  "fold erase ps (b, es) = (fold add_error ps b, fold (\<lambda>p es. es[p := 1]) ps es)"
  by (induction ps arbitrary: b es) (simp_all add: erase_def erasure_error_eq)

lemma flags_set:
  assumes "list_all (\<lambda>p. p < length es) ps" and "i < length es"
  shows "fold (\<lambda>p es. es[p := 1]) ps es ! i = 1 \<longleftrightarrow> i \<in> set ps \<or> es ! i = (1 :: nat)"
  using assms by (induction ps arbitrary: es) (auto simp: nth_list_update)

lemma length_flags [simp]: "length (fold (\<lambda>p es. es[p := 1]) ps es) = length es"
  by (induction ps arbitrary: es) simp_all

lemma collect_flags:
  assumes "list_all (\<lambda>p. p < n) ps"
  shows "collect n (fold (\<lambda>p es. es[p := 1]) ps (replicate n 0)) [] = filter (\<lambda>i. i \<in> set ps) [0..<n]"
  unfolding collect_filter append_Nil
  by (rule filter_cong [OF refl]) (use flags_set [of "replicate n 0" ps] assms in auto)

text \<open>Positions counted from a start and wrapped around.\<close>

lemma mod_shift_inj:
  assumes "x < (n :: nat)" "y < n" "(s + x) mod n = (s + y) mod n" "x \<le> y"
  shows "x = y"
proof -
  have "n dvd (s + y) - (s + x)" using assms(3,4) by (intro iffD1 [OF mod_eq_dvd_iff_nat]) simp_all
  then have "n dvd y - x" by simp
  then show ?thesis using assms by (auto dest: dvd_imp_le)
qed

lemma wrapped_distinct:
  assumes "0 < (n :: nat)" and "distinct xs" and "list_all (\<lambda>x. x < n) xs"
  shows "distinct (map (\<lambda>x. (s + x) mod n) xs)" and "list_all (\<lambda>p. p < n) (map (\<lambda>x. (s + x) mod n) xs)"
proof -
  have "x = y" if "x \<in> set xs" "y \<in> set xs" "(s + x) mod n = (s + y) mod n" for x y
  proof -
    have "x < n" "y < n" using that assms(3) by (auto simp: list_all_iff)
    then show ?thesis using that(3) mod_shift_inj [of x n y s] mod_shift_inj [of y n x s] by (cases "x \<le> y") auto
  qed
  then have "inj_on (\<lambda>x. (s + x) mod n) (set xs)" by (rule inj_onI)
  then show "distinct (map (\<lambda>x. (s + x) mod n) xs)" using assms(2) by (simp add: distinct_map)
  show "list_all (\<lambda>p. p < n) (map (\<lambda>x. (s + x) mod n) xs)" using assms(1) by (simp add: list_all_iff)
qed

section \<open>Closed forms\<close>

lemma all_errors_fold:
  "corrupt_message_all_errors n m s scale c = fold add_error (map (\<lambda>i. (s + scale * i) mod n) [0..<m]) c"
  unfolding corrupt_message_all_errors_def by (rule fold_errors_map)

lemma all_erasures_fold:
  assumes "0 < n"
  shows "corrupt_message_all_erasures n m s scale (c, []) =
     (let ps = map (\<lambda>i. (s + scale * i) mod n) [0..<m] in (fold add_error ps c, filter (\<lambda>i. i \<in> set ps) [0..<n]))"
proof -
  let ?ps = "map (\<lambda>i. (s + scale * i) mod n) [0..<m]"
  have "fold (\<lambda>i. erase ((s + scale * i) mod n)) [0..<m] (c, replicate n 0) =
      (fold add_error ?ps c, fold (\<lambda>p es. es[p := 1]) ?ps (replicate n 0))"
    unfolding erase_fold [symmetric] by (simp add: fold_map comp_def)
  moreover have "list_all (\<lambda>p. p < n) ?ps" using assms by (simp add: list_all_iff)
  ultimately show ?thesis using collect_flags [of n ?ps] by (simp add: corrupt_message_all_erasures_def Let_def)
qed

lemma fold_apfst: "fold (\<lambda>i. apfst (add_error (f i))) is (b, es) = (fold add_error (map f is) b, es)"
  by (induction "is" arbitrary: b) simp_all

lemma error_count_small:
  assumes "erasure_count \<le> k" and "k < 2 ^ 64"
  shows "error_count_for k erasure_count = (k - erasure_count) div 2" and "\<not> too_many k ((k - erasure_count) div 2) erasure_count"
proof -
  have "(int k - int erasure_count) mod 2 ^ 64 = int (k - erasure_count)" using assms by (simp add: of_nat_diff)
  then show "error_count_for k erasure_count = (k - erasure_count) div 2" by (simp add: error_count_for_def)
  have "2 * ((k - erasure_count) div 2) + erasure_count \<le> k" using assms(1) by linarith
  then show "\<not> too_many k ((k - erasure_count) div 2) erasure_count"
    unfolding too_many_def using le_trans [OF mod_less_eq_dividend] by (simp add: not_less)
qed

text \<open>
  The check for too many erasures never holds: when the difference wraps around, so does the sum it is compared
  by, and the loop over the errors would run about \<open>2 ^ 63\<close> times.
\<close>

lemma too_many_never:
  assumes "0 < k" "k < 2 ^ 63" and "erasure_count < 2 ^ 63"
  shows "\<not> too_many k (error_count_for k erasure_count) erasure_count"
proof (cases "erasure_count \<le> k")
  case True
  then show ?thesis using error_count_small [OF True] assms(2) by simp
next
  case False
  define d where "d = erasure_count - k"
  have d: "erasure_count = k + d" "0 < d" "d < 2 ^ 63" using False assms by (simp_all add: d_def)
  have "(int k - int erasure_count) mod 2 ^ 64 = (2 ^ 64 - int d) mod 2 ^ 64" by (simp add: d(1))
  also have "\<dots> = 2 ^ 64 - int d" by (rule mod_pos_pos_trivial) (use d in auto)
  also have "\<dots> = int (2 ^ 64 - d)" using d(3) by (simp add: of_nat_diff)
  finally have e: "error_count_for k erasure_count = (2 ^ 64 - d) div 2" unfolding error_count_for_def by simp
  have "2 * ((2 ^ 64 - d) div 2) + erasure_count = 2 ^ 64 + (k - d mod 2)"
    using d assms(1) by (cases "even d") (auto elim!: evenE oddE)
  moreover have "(2 ^ 64 + (k - d mod 2)) mod 2 ^ 64 = k - d mod 2" using assms(2) by simp
  ultimately show ?thesis unfolding e too_many_def by (simp only: not_less diff_le_self)
qed

text \<open>Erasures and errors in one of the two orders, with a gap between them.\<close>

definition erased_positions :: "nat \<Rightarrow> error_mode \<Rightarrow> nat \<Rightarrow> nat \<Rightarrow> nat \<Rightarrow> nat \<Rightarrow> nat list" where
  "erased_positions n mode s errors erasures gap =
     map (\<lambda>x. (s + x) mod n)
       (case mode of erasures_errors \<Rightarrow> [0..<erasures] | errors_erasures \<Rightarrow> [errors + gap..<errors + gap + erasures])"

definition error_positions :: "nat \<Rightarrow> error_mode \<Rightarrow> nat \<Rightarrow> nat \<Rightarrow> nat \<Rightarrow> nat \<Rightarrow> nat list" where
  "error_positions n mode s errors erasures gap =
     map (\<lambda>x. (s + x) mod n)
       (case mode of erasures_errors \<Rightarrow> [erasures + gap..<erasures + gap + errors] | errors_erasures \<Rightarrow> [0..<errors])"

lemma map_wrapped_shift: "map (\<lambda>i. (s + a + g + i) mod n) [0..<m] = map (\<lambda>x. (s + x) mod n) [a + g..<a + g + m]"
  by (rule nth_equalityI) (simp_all add: add.assoc)

lemma errors_erasures_fold:
  assumes n: "0 < n" and k: "erasure_count \<le> k" "k < 2 ^ 64"
  defines "errors \<equiv> (k - erasure_count) div 2"
  shows "corrupt_message_errors_erasures n k mode s erasure_count gap (c, []) =
     (let es = erased_positions n mode s errors erasure_count gap; ps = error_positions n mode s errors erasure_count gap in
      (fold add_error (case mode of erasures_errors \<Rightarrow> es @ ps | errors_erasures \<Rightarrow> ps @ es) c, filter (\<lambda>i. i \<in> set es) [0..<n]))"
proof -
  note ec = error_count_small [OF k, folded errors_def]
  have f: "fold (\<lambda>i. erase (f i)) xs st = fold erase (map f xs) st" for f :: "nat \<Rightarrow> nat" and xs st by (simp add: fold_map comp_def)
  have "list_all (\<lambda>p. p < n) (erased_positions n mode s errors erasure_count gap)"
    using n by (simp add: erased_positions_def list_all_iff)
  note cf = collect_flags [OF this]
  show ?thesis
  proof (cases mode)
    case errors_erasures
    then show ?thesis using cf map_wrapped_shift [of s errors gap n erasure_count] unfolding corrupt_message_errors_erasures_def Let_def ec(1) if_not_P [OF ec(2)]
      by (simp add: f [of "\<lambda>i. (s + errors + gap + i) mod n"] fold_apfst erase_fold erased_positions_def error_positions_def)
  next
    case erasures_errors
    then show ?thesis using cf map_wrapped_shift [of s erasure_count gap n errors] unfolding corrupt_message_errors_erasures_def Let_def ec(1) if_not_P [OF ec(2)]
      by (simp add: f [of "\<lambda>i. (s + i) mod n"] fold_apfst erase_fold erased_positions_def error_positions_def)
  qed
qed

text \<open>The alternating loop: erasures at the even offsets, errors at the odd ones.\<close>

definition hit :: "nat \<Rightarrow> nat \<Rightarrow> nat \<Rightarrow> bool" where
  "hit errors erasures i \<longleftrightarrow> i div 2 < (if even i then erasures else errors)"

definition last_hit :: "nat \<Rightarrow> nat \<Rightarrow> nat" where
  "last_hit errors erasures = max (2 * errors) (max (2 * erasures - 1) (errors + erasures))"

lemma last_hit_bounds: "2 * ec \<le> last_hit ec sc" "2 * sc \<le> last_hit ec sc + 1" "ec + sc \<le> last_hit ec sc"
proof -
  have "2 * sc - 1 \<le> last_hit ec sc" by (simp add: last_hit_def)
  then show "2 * sc \<le> last_hit ec sc + 1" by linarith
qed (simp_all add: last_hit_def)

lemma hit_even: "even i \<Longrightarrow> hit ec sc i \<longleftrightarrow> i div 2 < sc"
  by (simp add: hit_def)

lemma hit_odd: "odd i \<Longrightarrow> hit ec sc i \<longleftrightarrow> i div 2 < ec"
  by (simp add: hit_def)

lemma alternate_erase:
  "even i \<Longrightarrow> s < sc \<Longrightarrow> alternate n p ec sc e s i st = alternate n p ec sc e (s + 1) (Suc i) (erase ((p + i) mod n) st)"
  by (subst alternate.simps) (simp only: Let_def simp_thms if_True Suc_eq_plus1)

lemma alternate_error:
  "odd i \<Longrightarrow> e < ec \<Longrightarrow> alternate n p ec sc e s i st = alternate n p ec sc (e + 1) s (Suc i) (apfst (add_error ((p + i) mod n)) st)"
  by (subst alternate.simps) (simp only: Let_def simp_thms if_True if_False Suc_eq_plus1)

lemma alternate_skip:
  "e < ec \<or> s < sc \<or> i < ec + sc \<Longrightarrow> \<not> (even i \<and> s < sc) \<Longrightarrow> \<not> (odd i \<and> e < ec) \<Longrightarrow>
     alternate n p ec sc e s i st = alternate n p ec sc e s (Suc i) st"
  by (subst alternate.simps) (simp only: Let_def if_True if_False Suc_eq_plus1)

lemma alternate_end: "\<not> (e < ec \<or> s < sc \<or> i < ec + sc) \<Longrightarrow> alternate n p ec sc e s i st = (e, st)"
  by (subst alternate.simps) (simp only: if_False)

lemma alternate_fold:
  assumes "i \<le> last_hit ec sc" and "e = min ec (i div 2)" and "s = min sc ((i + 1) div 2)"
  shows "alternate n p ec sc e s i (b, es) =
     (ec, fold add_error (map (\<lambda>x. (p + x) mod n) (filter (hit ec sc) [i..<last_hit ec sc])) b,
      fold (\<lambda>q es. es[q := 1]) (map (\<lambda>x. (p + x) mod n) (filter (\<lambda>x. even x \<and> hit ec sc x) [i..<last_hit ec sc])) es)"
  using assms
proof (induction "last_hit ec sc - i" arbitrary: i e s b es)
  case 0
  then have i: "i = last_hit ec sc" by simp
  have "2 * ec \<le> i" "2 * sc \<le> i + 1" and "ec + sc \<le> i" unfolding i by (rule last_hit_bounds)+
  then have "ec \<le> i div 2" "sc \<le> (i + 1) div 2" "ec + sc \<le> i" by simp_all
  then have "e = ec" "s = sc" "\<not> (e < ec \<or> s < sc \<or> i < ec + sc)" using "0.prems" by simp_all
  then show ?case by (simp add: i alternate_end)
next
  case (Suc x)
  then have i: "i < last_hit ec sc" "[i..<last_hit ec sc] = i # [Suc i..<last_hit ec sc]" by (simp_all add: upt_conv_Cons)
  then have "i < 2 * ec \<or> i < 2 * sc - 1 \<or> i < ec + sc" by (simp add: last_hit_def less_max_iff_disj)
  moreover have "i < 2 * ec \<Longrightarrow> i div 2 < ec" "i < 2 * sc - 1 \<Longrightarrow> (i + 1) div 2 < sc" by linarith+
  ultimately have "i div 2 < ec \<or> (i + 1) div 2 < sc \<or> i < ec + sc" by blast
  then have go: "e < ec \<or> s < sc \<or> i < ec + sc" using Suc.prems by (simp add: min_less_iff_disj)
  have IH: "alternate n p ec sc (min ec (Suc i div 2)) (min sc ((Suc i + 1) div 2)) (Suc i) (b', es') =
     (ec, fold add_error (map (\<lambda>x. (p + x) mod n) (filter (hit ec sc) [Suc i..<last_hit ec sc])) b',
      fold (\<lambda>q es. es[q := 1]) (map (\<lambda>x. (p + x) mod n) (filter (\<lambda>x. even x \<and> hit ec sc x) [Suc i..<last_hit ec sc])) es')"
    for b' es' using Suc.hyps(1) [of "Suc i" _ _ b' es'] Suc.hyps(2) i(1) by simp
  show ?case
  proof (cases "even i")
    case True
    then have d: "(i + 1) div 2 = i div 2" "(Suc i + 1) div 2 = Suc (i div 2)" "Suc i div 2 = i div 2" by simp_all
    have es: "e = min ec (i div 2)" "s = min sc (i div 2)" using Suc.prems d by simp_all
    note IH' = IH [unfolded d]
    show ?thesis
    proof (cases "i div 2 < sc")
      case hit: True
      then have "s < sc" "s + 1 = min sc (Suc (i div 2))" using es by simp_all
      then have "alternate n p ec sc e s i (b, es) =
          alternate n p ec sc (min ec (i div 2)) (min sc (Suc (i div 2))) (Suc i) (erase ((p + i) mod n) (b, es))"
        using alternate_erase [OF True] es(1) by simp
      also have "erase ((p + i) mod n) (b, es) = (add_error ((p + i) mod n) b, es[(p + i) mod n := 1])"
        by (simp add: erase_def erasure_error_eq)
      finally show ?thesis using hit_even [OF True] hit True unfolding IH' i(2) by simp
    next
      case miss: False
      then have "\<not> s < sc" "s = min sc (Suc (i div 2))" using es by simp_all
      then have "alternate n p ec sc e s i (b, es) = alternate n p ec sc (min ec (i div 2)) (min sc (Suc (i div 2))) (Suc i) (b, es)"
        using alternate_skip [OF go] True es(1) by simp
      then show ?thesis using hit_even [OF True] miss unfolding IH' i(2) by simp
    qed
  next
    case False
    then have d: "Suc i div 2 = Suc (i div 2)" "(i + 1) div 2 = Suc (i div 2)" "(Suc i + 1) div 2 = Suc (i div 2)" by (auto elim: oddE)
    have es: "e = min ec (i div 2)" "s = min sc (Suc (i div 2))" using Suc.prems d by simp_all
    note IH' = IH [unfolded d]
    show ?thesis
    proof (cases "i div 2 < ec")
      case hit: True
      then have "e < ec" "e + 1 = min ec (Suc (i div 2))" using es by simp_all
      then have "alternate n p ec sc e s i (b, es) =
          alternate n p ec sc (min ec (Suc (i div 2))) (min sc (Suc (i div 2))) (Suc i) (add_error ((p + i) mod n) b, es)"
        using alternate_error [OF False] es(2) by simp
      then show ?thesis using hit_odd [OF False] hit False unfolding IH' i(2) by simp
    next
      case miss: False
      then have "\<not> e < ec" "e = min ec (Suc (i div 2))" using es by simp_all
      then have "alternate n p ec sc e s i (b, es) = alternate n p ec sc (min ec (Suc (i div 2))) (min sc (Suc (i div 2))) (Suc i) (b, es)"
        using alternate_skip [OF go] False es(2) by simp
      then show ?thesis using hit_odd [OF False] miss unfolding IH' i(2) by simp
    qed
  qed
qed

text \<open>So the interleaved pattern is an initial segment of the block with gaps, wrapped around.\<close>

lemma set_hits:
  "set (filter (hit ec sc) [0..<last_hit ec sc]) = (\<lambda>i. 2 * i) ` {..<sc} \<union> (\<lambda>i. 2 * i + 1) ` {..<ec}" (is "_ = ?R")
proof (rule set_eqI)
  fix i
  have "i \<in> ?R \<longleftrightarrow> hit ec sc i"
    by (cases "even i") (auto simp: hit_def image_iff elim!: evenE oddE, presburger+)
  moreover have "i < last_hit ec sc" if "hit ec sc i"
  proof -
    have "i < 2 * ec \<or> i + 1 < 2 * sc" using that by (auto simp: hit_def elim!: evenE oddE split: if_splits)
    then show ?thesis using last_hit_bounds [where ec = ec and sc = sc] by linarith
  qed
  ultimately show "i \<in> set (filter (hit ec sc) [0..<last_hit ec sc]) \<longleftrightarrow> i \<in> ?R" by auto
qed

definition mixed_positions :: "nat \<Rightarrow> nat \<Rightarrow> nat \<Rightarrow> nat \<Rightarrow> nat list" where
  "mixed_positions n p ec sc = map (\<lambda>x. (p + x) mod n) (filter (hit ec sc) [0..<last_hit ec sc])"

definition mixed_erasures :: "nat \<Rightarrow> nat \<Rightarrow> nat \<Rightarrow> nat \<Rightarrow> nat list" where
  "mixed_erasures n p ec sc = map (\<lambda>x. (p + x) mod n) (filter (\<lambda>x. even x \<and> hit ec sc x) [0..<last_hit ec sc])"

lemma interleaved_fold:
  assumes n: "0 < n" and k: "sc \<le> k" "k < 2 ^ 64"
  shows "corrupt_message_interleaved_errors_erasures n k p sc (c, []) =
     (fold add_error (mixed_positions n p ((k - sc) div 2) sc) c,
      filter (\<lambda>i. i \<in> set (mixed_erasures n p ((k - sc) div 2) sc)) [0..<n])"
proof -
  let ?ec = "(k - sc) div 2"
  note ec = error_count_small [OF k]
  have "list_all (\<lambda>q. q < n) (mixed_erasures n p ?ec sc)"
    using n by (simp add: mixed_erasures_def list_all_iff)
  then show ?thesis
    unfolding corrupt_message_interleaved_errors_erasures_def Let_def ec(1) if_not_P [OF ec(2)]
    using alternate_fold [of 0 ?ec sc 0 0 n p c "replicate n 0"] collect_flags [of n "mixed_erasures n p ?ec sc"]
    by (simp add: mixed_positions_def mixed_erasures_def)
qed

lemma segmented_fold:
  "corrupt_message_all_errors_segmented n k s d c =
     fold add_error (if k > 2 then map (\<lambda>x. (s + x) mod n)
       ([0..<k div 4] @ [k div 4 + d..<k div 2 + d]) else []) c"
proof -
  have "k div 2 - k div 4 + (k div 4 + d) = k div 2 + d" by linarith
  then have m: "[k div 4 + d..<k div 2 + d] = map (\<lambda>i. i + (k div 4 + d)) [0..<k div 2 - k div 4]"
    using map_add_upt [of "k div 4 + d" "k div 2 - k div 4"] by simp
  have e: "s + k div 4 + d + i = s + (i + (k div 4 + d))" for i by simp
  have "map (\<lambda>i. (s + k div 4 + d + i) mod n) [0..<k div 2 - k div 4] = map (\<lambda>x. (s + x) mod n) [k div 4 + d..<k div 2 + d]"
    unfolding m map_map comp_def e ..
  then show ?thesis
    using fold_errors_map [of "\<lambda>i. (s + i) mod n" "[0..<k div 4]" c]
      fold_errors_map [of "\<lambda>i. (s + k div 4 + d + i) mod n" "[0..<k div 2 - k div 4]"]
    unfolding corrupt_message_all_errors_segmented_def Let_def by simp
qed

lemma at_index_fold:
  "corrupt_message_all_errors_at_index n m s ix c =
     fold add_error (map (\<lambda>i. ix ! ((s + i) mod length ix) mod n) [0..<m]) c"
  unfolding corrupt_message_all_errors_at_index_def by (rule fold_errors_map)

section \<open>Random positions\<close>

lemma mset_remove_nth: "i < length l \<Longrightarrow> mset (take i l @ drop (i + 1) l) + {#l ! i#} = mset l"
  by (subst (4) id_take_nth_drop [of i l]) simp_all

lemma mset_draw: "mset (draw rand call l x) = mset l + mset x"
proof (induction rand call l x rule: draw.induct)
  case (1 rand call l x)
  show ?case
  proof (cases "l = []")
    case False
    let ?i = "rand call mod length l"
    have "?i < length l" using False by simp
    then have "mset (take ?i l @ drop (?i + 1) l) + {#l ! ?i#} = mset l" by (rule mset_remove_nth)
    then show ?thesis using 1 [OF False refl] False by (subst draw.simps) (simp add: Let_def add.assoc)
  qed (simp add: draw.simps)
qed

lemma generate_error_index_perm: "mset (generate_error_index srand m seed) = mset [0..<m]"
  by (simp add: generate_error_index_def mset_draw Let_def)

lemma generate_error_index_facts:
  "distinct (generate_error_index srand m seed)" "set (generate_error_index srand m seed) = {..<m}"
  "length (generate_error_index srand m seed) = m"
proof -
  note p = generate_error_index_perm [of srand m seed]
  show "distinct (generate_error_index srand m seed)" using mset_eq_imp_distinct_iff [OF p] by simp
  show "set (generate_error_index srand m seed) = {..<m}" using mset_eq_setD [OF p] by (simp add: lessThan_atLeast0)
  show "length (generate_error_index srand m seed) = m" using mset_eq_length [OF p] by simp
qed

lemma error_index_size_eq: "error_index_size = 255"
  by (simp add: error_index_size_def global_random_error_index_def)

lemma duplicate_erasures_iff: "check_for_duplicate_erasures l \<longleftrightarrow> distinct l"
proof -
  have "check_for_duplicate_erasures l \<longleftrightarrow> (\<forall>i<length l. \<forall>j<length l. i < j \<longrightarrow> l ! i \<noteq> l ! j)"
    by (auto simp: check_for_duplicate_erasures_def list_all_iff Suc_le_eq)
  also have "\<dots> \<longleftrightarrow> distinct l" by (auto simp: distinct_conv_nth) (metis nat_neq_iff)
  finally show ?thesis .
qed

end
