(* ===== verification/CodecValidator.thy ===== *)
theory CodecValidator
  imports ErrorProcesses
begin

text \<open>
  \<^verbatim>\<open>schifra_reed_solomon_codec_validator.hpp\<close>: a message is encoded, the block is damaged in all the ways of
  \<^verbatim>\<open>schifra_error_processes.hpp\<close>, decoded, and compared with the message. The validator is a template over the
  encoder and the decoder class; both are arguments here. The counters are \<^verbatim>\<open>unsigned int\<close>. What is printed and the
  measurement of time are not modelled.
\<close>

section \<open>The validator\<close>

type_synonym decode_op = "nat list \<Rightarrow> rsblock \<Rightarrow> (bool \<times> rsblock) option"

text \<open>The decoder is a pointer, null when there is no generator polynomial.\<close>

record validator =
  v_decoder :: "decode_op option"
  rs_block_original :: rsblock
  v_message :: bytes
  blocks_processed :: uint32
  block_failures :: uint32

definition codec_validator_ctor ::
  "(gfield \<Rightarrow> fpoly \<Rightarrow> bytes \<Rightarrow> rsblock \<Rightarrow> (bool \<times> rsblock) option) \<Rightarrow> (gfield \<Rightarrow> nat \<Rightarrow> decode_op) \<Rightarrow> nat \<Rightarrow>
     field_symbol list \<Rightarrow> gfield \<Rightarrow> nat \<Rightarrow> bytes \<Rightarrow> validator option" where
  "codec_validator_ctor enc dec k raw field gpii msg =
     (let v = \<lparr>v_decoder = None, rs_block_original = block_ctor raw, v_message = msg, blocks_processed = 0, block_failures = 0\<rparr>
      in case make_sequential_root_generator_polynomial field gpii k of
           None \<Rightarrow> Some v
         | Some g \<Rightarrow> do {
             (ok, b) \<leftarrow> enc field g msg (rs_block_original v);
             Some (v\<lparr>v_decoder := Some (dec field gpii), rs_block_original := b\<rparr>)
           })"

definition v_decode :: "validator \<Rightarrow> nat list \<Rightarrow> rsblock \<Rightarrow> (bool \<times> rsblock) option" where
  "v_decode v erasure_list b = do {
     dec \<leftarrow> v_decoder v;
     dec erasure_list b
   }"

text \<open>The end of each test: a failure is counted if one of the conditions of the chain holds.\<close>

definition judge :: "bool \<Rightarrow> validator \<Rightarrow> validator" where
  "judge failure v = v\<lparr>block_failures := block_failures v + (if failure then 1 else 0), blocks_processed := blocks_processed v + 1\<rparr>"

definition stage_result :: "validator \<Rightarrow> validator \<Rightarrow> (bool \<times> validator) option" where
  "stage_result v v' = Some (block_failures v' = block_failures v, v')"

text \<open>The list of erasures is empty before each test: it is cleared after each.\<close>

definition stage1 :: "nat \<Rightarrow> nat \<Rightarrow> validator \<Rightarrow> (bool \<times> validator) option" where
  "stage1 n k v =
     Option.bind (fold_opt (\<lambda>error_count. fold_opt (\<lambda>start_position v. do {
         (ok, b) \<leftarrow> v_decode v [] (corrupt_message_all_errors n error_count start_position 1 (rs_block_original v));
         Some (judge (\<not> ok \<or> \<not> is_block_equivelent n k b (v_message v) \<or> errors_detected b \<noteq> errors_corrected b \<or>
           errors_detected b \<noteq> error_count \<or> errors_corrected b \<noteq> error_count) v)
       }) [0..<n]) [1..<k div 2 + 1] v) (stage_result v)"

definition stage2 :: "nat \<Rightarrow> nat \<Rightarrow> validator \<Rightarrow> (bool \<times> validator) option" where
  "stage2 n k v =
     Option.bind (fold_opt (\<lambda>erasure_count. fold_opt (\<lambda>start_position v. do {
         let (b, erasure_list) = corrupt_message_all_erasures n erasure_count start_position 1 (rs_block_original v, []);
         (ok, b) \<leftarrow> v_decode v erasure_list b;
         Some (judge (\<not> ok \<or> \<not> is_block_equivelent n k b (v_message v) \<or> errors_detected b \<noteq> errors_corrected b \<or>
           errors_detected b \<noteq> erasure_count \<or> errors_corrected b \<noteq> erasure_count) v)
       }) [0..<n]) [1..<k + 1] v) (stage_result v)"

definition stage3 :: "nat \<Rightarrow> nat \<Rightarrow> validator \<Rightarrow> (bool \<times> validator) option" where
  "stage3 n k v =
     Option.bind (fold_opt (\<lambda>erasure_count. fold_opt (\<lambda>start_position v. do {
         let (b, erasure_list) = corrupt_message_errors_erasures n k erasures_errors start_position erasure_count 0 (rs_block_original v, []);
         (ok, b) \<leftarrow> v_decode v erasure_list b;
         Some (judge (\<not> ok \<or> \<not> is_block_equivelent n k b (v_message v) \<or> errors_detected b \<noteq> errors_corrected b) v)
       }) [0..<n]) [1..<k + 1] v) (stage_result v)"

definition stage4 :: "nat \<Rightarrow> nat \<Rightarrow> validator \<Rightarrow> (bool \<times> validator) option" where
  "stage4 n k v =
     Option.bind (fold_opt (\<lambda>erasure_count. fold_opt (\<lambda>start_position v. do {
         let (b, erasure_list) = corrupt_message_errors_erasures n k errors_erasures start_position erasure_count 0 (rs_block_original v, []);
         (ok, b) \<leftarrow> v_decode v erasure_list b;
         Some (judge (\<not> ok \<or> \<not> is_block_equivelent n k b (v_message v) \<or> errors_detected b \<noteq> errors_corrected b) v)
       }) [0..<n]) [1..<k + 1] v) (stage_result v)"

definition stage5 :: "nat \<Rightarrow> nat \<Rightarrow> validator \<Rightarrow> (bool \<times> validator) option" where
  "stage5 n k v =
     Option.bind (fold_opt (\<lambda>between_distance. fold_opt (\<lambda>erasure_count. fold_opt (\<lambda>start_position v. do {
         let (b, erasure_list) =
           corrupt_message_errors_erasures n k erasures_errors start_position erasure_count between_distance (rs_block_original v, []);
         (ok, b) \<leftarrow> v_decode v erasure_list b;
         Some (judge (\<not> ok \<or> \<not> is_block_equivelent n k b (v_message v) \<or> errors_detected b \<noteq> errors_corrected b) v)
       }) [0..<n]) [1..<k + 1]) [1..<11] v) (stage_result v)"

definition stage6 :: "nat \<Rightarrow> nat \<Rightarrow> validator \<Rightarrow> (bool \<times> validator) option" where
  "stage6 n k v =
     Option.bind (fold_opt (\<lambda>between_distance. fold_opt (\<lambda>erasure_count. fold_opt (\<lambda>start_position v. do {
         let (b, erasure_list) =
           corrupt_message_errors_erasures n k errors_erasures start_position erasure_count between_distance (rs_block_original v, []);
         (ok, b) \<leftarrow> v_decode v erasure_list b;
         Some (judge (\<not> ok \<or> \<not> is_block_equivelent n k b (v_message v) \<or> errors_detected b \<noteq> errors_corrected b) v)
       }) [0..<n]) [1..<k + 1]) [1..<11] v) (stage_result v)"

definition stage7 :: "nat \<Rightarrow> nat \<Rightarrow> validator \<Rightarrow> (bool \<times> validator) option" where
  "stage7 n k v =
     Option.bind (fold_opt (\<lambda>error_count. fold_opt (\<lambda>start_position. fold_opt (\<lambda>scale v. do {
         (ok, b) \<leftarrow> v_decode v [] (corrupt_message_all_errors n error_count start_position scale (rs_block_original v));
         Some (judge (\<not> ok \<or> \<not> is_block_equivelent n k b (v_message v) \<or> errors_detected b \<noteq> errors_corrected b \<or>
           errors_detected b \<noteq> error_count \<or> errors_corrected b \<noteq> error_count) v)
       }) [1..<5]) [0..<n]) [1..<k div 2] v) (stage_result v)"

definition stage8 :: "nat \<Rightarrow> nat \<Rightarrow> validator \<Rightarrow> (bool \<times> validator) option" where
  "stage8 n k v =
     Option.bind (fold_opt (\<lambda>erasure_count. fold_opt (\<lambda>start_position. fold_opt (\<lambda>scale v. do {
         let (b, erasure_list) = corrupt_message_all_erasures n erasure_count start_position scale (rs_block_original v, []);
         (ok, b) \<leftarrow> v_decode v erasure_list b;
         Some (judge (\<not> ok \<or> \<not> is_block_equivelent n k b (v_message v) \<or>
           errors_detected b \<noteq> errors_corrected b + zero_numerators b \<or>
           errors_detected b > erasure_count \<or> errors_corrected b > erasure_count) v)
       }) [4..<5]) [0..<n]) [1..<k + 1] v) (stage_result v)"

definition stage9 :: "nat \<Rightarrow> nat \<Rightarrow> validator \<Rightarrow> (bool \<times> validator) option" where
  "stage9 n k v =
     Option.bind (fold_opt (\<lambda>erasure_count. fold_opt (\<lambda>start_position v. do {
         let (b, erasure_list) = corrupt_message_interleaved_errors_erasures n k start_position erasure_count (rs_block_original v, []);
         (ok, b) \<leftarrow> v_decode v erasure_list b;
         Some (judge (\<not> ok \<or> \<not> is_block_equivelent n k b (v_message v) \<or> errors_detected b \<noteq> errors_corrected b) v)
       }) [0..<n]) [1..<k + 1] v) (stage_result v)"

definition stage10 :: "nat \<Rightarrow> nat \<Rightarrow> validator \<Rightarrow> (bool \<times> validator) option" where
  "stage10 n k v =
     Option.bind (fold_opt (\<lambda>start_position. fold_opt (\<lambda>distance_between_blocks v. do {
         (ok, b) \<leftarrow> v_decode v [] (corrupt_message_all_errors_segmented n k start_position distance_between_blocks (rs_block_original v));
         Some (judge (\<not> ok \<or> \<not> is_block_equivelent n k b (v_message v) \<or> errors_detected b \<noteq> errors_corrected b) v)
       }) [0..<5]) [0..<n] v) (stage_result v)"

definition stage11 :: "nat \<Rightarrow> nat \<Rightarrow> validator \<Rightarrow> (bool \<times> validator) option" where
  "stage11 n k v = do {
     (ok, b) \<leftarrow> v_decode v [] (rs_block_original v);
     stage_result v (judge (\<not> ok \<or> \<not> is_block_equivelent n k b (v_message v) \<or> errors_detected b \<noteq> 0 \<or>
       errors_corrected b \<noteq> 0 \<or> unrecoverable b) v)
   }"

definition stage12 :: "(nat \<Rightarrow> nat \<Rightarrow> nat) \<Rightarrow> nat \<Rightarrow> nat \<Rightarrow> validator \<Rightarrow> (bool \<times> validator) option" where
  "stage12 srand n k v =
     (let random_error_index = generate_error_index srand (k div 2) 0xA5A5A5A5 in
      Option.bind (fold_opt (\<lambda>error_count. fold_opt (\<lambda>error_index v. do {
         (ok, b) \<leftarrow> v_decode v [] (corrupt_message_all_errors_at_index n error_count error_index random_error_index (rs_block_original v));
         Some (judge (\<not> ok \<or> \<not> is_block_equivelent n k b (v_message v) \<or> errors_detected b \<noteq> errors_corrected b \<or>
           errors_detected b \<noteq> error_count \<or> errors_corrected b \<noteq> error_count) v)
       }) [0..<error_index_size]) [1..<k div 2 + 1] v) (stage_result v))"

primrec run_stages :: "(validator \<Rightarrow> (bool \<times> validator) option) list \<Rightarrow> validator \<Rightarrow> (bool \<times> validator) option" where
  "run_stages [] v = Some (True, v)"
| "run_stages (s # ss) v = do {
     (ok, v) \<leftarrow> s v;
     if ok then run_stages ss v else Some (False, v)
   }"

definition execute :: "(nat \<Rightarrow> nat \<Rightarrow> nat) \<Rightarrow> nat \<Rightarrow> nat \<Rightarrow> validator \<Rightarrow> (bool \<times> validator) option" where
  "execute srand n k =
     run_stages [stage1 n k, stage2 n k, stage3 n k, stage4 n k, stage5 n k, stage6 n k, stage7 n k, stage8 n k,
       stage9 n k, stage10 n k, stage11 n k, stage12 srand n k]"

section \<open>The test program\<close>

text \<open>Each of the strings is overwritten from end to end, or begins as a constant one.\<close>

definition create_messages :: "nat \<Rightarrow> bool \<Rightarrow> bytes list" where
  "create_messages data_length full_test_set =
     map (replicate data_length)
       (if full_test_set then map word_of_nat [0..<256]
        else [0x00, 0xAA, 0xA5, 0xAC, 0xCA, 0x5A, 0xCC, 0xF0, 0x0F, 0xFF, 0x92, 0x6D, 0x77, 0x7A, 0xA7, 0xE5, 0xEB]) @
     [map word_of_nat [0..<data_length], map word_of_nat [0..<data_length],
      map (\<lambda>i. if odd i then word_of_nat i else 0) [0..<data_length],
      map (\<lambda>i. if even i then word_of_nat i else 0) [0..<data_length],
      map (\<lambda>i. if odd i then word_of_nat i else 0) [0..<data_length],
      map (\<lambda>i. if even i then word_of_nat i else 0) [0..<data_length],
      map (\<lambda>i. if i < data_length div 2 then 0xFF else 0) [0..<data_length],
      map (\<lambda>i. if i < data_length div 2 then 0 else 0xFF) [0..<data_length]]"

text \<open>One validator for each message; \<open>raw\<close> is the memory of its block.\<close>

definition validate_messages ::
  "(gfield \<Rightarrow> fpoly \<Rightarrow> bytes \<Rightarrow> rsblock \<Rightarrow> (bool \<times> rsblock) option) \<Rightarrow> (gfield \<Rightarrow> nat \<Rightarrow> decode_op) \<Rightarrow>
     (nat \<Rightarrow> nat \<Rightarrow> nat) \<Rightarrow> nat \<Rightarrow> nat \<Rightarrow> (nat \<Rightarrow> nat \<Rightarrow> int) \<Rightarrow> gfield \<Rightarrow> nat \<Rightarrow> bytes list \<Rightarrow> bool option" where
  "validate_messages enc dec srand n k raw field gen_poly_index message_list =
     all_opt (\<lambda>i. do {
         validator \<leftarrow> codec_validator_ctor enc dec k (alloc n (raw i)) field gen_poly_index (message_list ! i);
         (ok, validator) \<leftarrow> execute srand n k validator;
         Some ok
       }) [0..<length message_list]"

text \<open>The memory a test finds: that of the two arrays of the field, of the blocks, and of the padded blocks.\<close>

record test_memory =
  mem_alpha :: "nat \<Rightarrow> int"
  mem_index :: "nat \<Rightarrow> int"
  mem_beyond :: uint32
  mem_block :: "nat \<Rightarrow> nat \<Rightarrow> int"
  mem_padded :: "nat \<Rightarrow> int"

definition codec_validation_test ::
  "(nat \<Rightarrow> nat \<Rightarrow> nat) \<Rightarrow> test_memory \<Rightarrow> nat \<Rightarrow> nat \<Rightarrow> nat \<Rightarrow> nat \<Rightarrow> nat \<Rightarrow> uint32 list \<Rightarrow> bool option" where
  "codec_validation_test srand mem field_descriptor gen_poly_index n k prim_poly_size poly =
     validate_messages (\<lambda>f g. encode_string n k (encoder_ctor n f g)) (\<lambda>f i. decode_erasures n k (decoder_ctor n k f i))
       srand n k (mem_block mem)
       (field_ctor (mem_alpha mem) (mem_index mem) field_descriptor prim_poly_size (poly @ [mem_beyond mem]))
       gen_poly_index (create_messages (n - k) False)"

definition shortened_codec_validation_test ::
  "(nat \<Rightarrow> nat \<Rightarrow> nat) \<Rightarrow> test_memory \<Rightarrow> nat \<Rightarrow> nat \<Rightarrow> nat \<Rightarrow> nat \<Rightarrow> nat \<Rightarrow> uint32 list \<Rightarrow> bool option" where
  "shortened_codec_validation_test srand mem field_descriptor gen_poly_index n k prim_poly_size poly =
     validate_messages
       (\<lambda>f g. shortened_encode_string 255 n k (encoder_ctor 255 f g) (alloc 255 (mem_padded mem)))
       (\<lambda>f i. shortened_decode 255 n k (decoder_ctor 255 k f i) (alloc 255 (mem_padded mem)))
       srand n k (mem_block mem)
       (field_ctor (mem_alpha mem) (mem_index mem) field_descriptor prim_poly_size (poly @ [mem_beyond mem]))
       gen_poly_index (create_messages (n - k) False)"

definition codec_validation_test00 :: "(nat \<Rightarrow> nat \<Rightarrow> nat) \<Rightarrow> (nat \<Rightarrow> test_memory) \<Rightarrow> bool option" where
  "codec_validation_test00 srand mem =
     all_opt (\<lambda>k. codec_validation_test srand (mem k) 8 120 255 k primitive_polynomial_size06 primitive_polynomial06)
       [2, 4, 6, 10, 12, 14, 16, 18, 20, 22, 24, 32, 64, 80, 96, 128]"

text \<open>Three of the shortened codes use another polynomial.\<close>

definition primitive_polynomial05 :: "uint32 list" where
  "primitive_polynomial05 = [1, 0, 1, 1, 1, 0, 0, 0, 1]"

definition primitive_polynomial_size05 :: nat where
  "primitive_polynomial_size05 = 9"

definition codec_validation_test01 :: "(nat \<Rightarrow> nat \<Rightarrow> nat) \<Rightarrow> (nat \<Rightarrow> test_memory) \<Rightarrow> bool option" where
  "codec_validation_test01 srand mem =
     all_opt (\<lambda>(i, gen_poly_index, n, k, prim_poly_size, poly).
         shortened_codec_validation_test srand (mem i) 8 gen_poly_index n k prim_poly_size poly)
       [(1, 120, 126, 14, primitive_polynomial_size06, primitive_polynomial06),
        (2, 120, 194, 16, primitive_polynomial_size06, primitive_polynomial06),
        (3, 120, 219, 18, primitive_polynomial_size06, primitive_polynomial06),
        (4, 120, 225, 20, primitive_polynomial_size06, primitive_polynomial06),
        (5, 1, 204, 16, primitive_polynomial_size05, primitive_polynomial05),
        (6, 1, 104, 27, primitive_polynomial_size05, primitive_polynomial05),
        (7, 1, 204, 12, primitive_polynomial_size05, primitive_polynomial05),
        (8, 120, 72, 10, primitive_polynomial_size06, primitive_polynomial06)]"

section \<open>Loops whose tests all pass\<close>

definition ready :: "decode_op \<Rightarrow> rsblock \<Rightarrow> bytes \<Rightarrow> validator \<Rightarrow> bool" where
  "ready dec c msg v \<longleftrightarrow> v_decoder v = Some dec \<and> rs_block_original v = c \<and> v_message v = msg"

definition processed :: "nat \<Rightarrow> validator \<Rightarrow> validator" where
  "processed m v = v\<lparr>blocks_processed := blocks_processed v + word_of_nat m\<rparr>"

lemma ready_processed [simp]: "ready dec c msg (processed m v) = ready dec c msg v"
  by (simp add: ready_def processed_def)

lemma processed_0 [simp]: "processed 0 v = v"
  by (simp add: processed_def)

lemma processed_add: "processed a (processed b v) = processed (a + b) v"
  by (simp add: processed_def algebra_simps)

lemma judge_passed: "judge False v = processed 1 v"
  by (simp add: judge_def processed_def)

lemma loop_passes:
  assumes "\<And>i w. i \<in> set xs \<Longrightarrow> ready dec c msg w \<Longrightarrow> f i w = Some (processed m w)" and "ready dec c msg v" and "t = length xs * m"
  shows "fold_opt f xs v = Some (processed t v)"
  unfolding assms(3) using assms(1,2) by (induction xs arbitrary: v) (simp_all add: processed_add algebra_simps)

lemma stage_loop:
  assumes "ready dec c msg v" and "\<And>i w. i \<in> set xs \<Longrightarrow> ready dec c msg w \<Longrightarrow> f i w = Some (processed m w)" and "t = length xs * m"
  shows "Option.bind (fold_opt f xs v) (stage_result v) = Some (True, processed t v)"
  by (simp add: loop_passes [OF assms(2,1,3)] stage_result_def) (simp add: processed_def)

text \<open>The erasure list of a set of positions.\<close>

lemma erasure_list_of:
  assumes "distinct es" and "list_all (\<lambda>p. p < n) es"
  shows "set (filter (\<lambda>i. i \<in> set es) [0..<n]) = set es" and "length (filter (\<lambda>i. i \<in> set es) [0..<n]) = length es"
proof -
  show s: "set (filter (\<lambda>i. i \<in> set es) [0..<n]) = set es" using assms(2) by (auto simp: list_all_iff)
  show "length (filter (\<lambda>i. i \<in> set es) [0..<n]) = length es"
    using distinct_card [of "filter (\<lambda>i. i \<in> set es) [0..<n]"] distinct_card [OF assms(1)] s by simp
qed

section \<open>Codecs under test\<close>

text \<open>
  What the stages need of a codec: its block holds the message, and damage within the bounds of the code is
  corrected and counted.
\<close>

locale tested_codec =
  fixes n k :: nat and ok :: bool and dec :: decode_op and c :: rsblock and msg :: bytes
  assumes shape: "ok \<Longrightarrow> length (data c) = n \<and> k + 10 \<le> n \<and> 2 * k \<le> n + 1 \<and> n < 2 ^ 64"
    and stores: "ok \<Longrightarrow> p < n - k \<Longrightarrow> char_of_symbol (data c ! p AND 255) = msg ! p"
    and corrects: "ok \<Longrightarrow> length (data b) = n \<Longrightarrow> distinct el \<Longrightarrow> set el \<subseteq> {..<n} \<Longrightarrow>
      2 * card (damage n b c - set el) + length el \<le> k \<Longrightarrow>
      \<exists>b'. dec el b = Some (True, b') \<and> (\<forall>p<n. data b' ! p AND 255 = data c ! p AND 255) \<and>
        errors_detected b' = (if damage n b c = {} then 0 else card (damage n b c \<union> set el)) \<and>
        errors_corrected b' = card (damage n b c) \<and>
        zero_numerators b' = (if damage n b c = {} then 0 else card (set el - damage n b c)) \<and>
        (damage n b c = {} \<longrightarrow> \<not> unrecoverable b')"
begin

lemma corrected_message:
  assumes ok and "\<forall>p<n. data b ! p AND 255 = data c ! p AND 255"
  shows "is_block_equivelent n k b msg"
  using assms stores by (simp add: is_block_equivelent_def list_all_iff)

lemma decoded:
  assumes ok and ps: "distinct ps" "list_all (\<lambda>p. p < n) ps" and es: "distinct es" "set es \<subseteq> set ps"
    and few: "2 * length ps \<le> k + length es"
  shows "\<exists>b. dec (filter (\<lambda>i. i \<in> set es) [0..<n]) (fold add_error ps c) = Some (True, b) \<and> is_block_equivelent n k b msg \<and>
     errors_detected b = length ps \<and> errors_corrected b = length ps"
proof -
  let ?el = "filter (\<lambda>i. i \<in> set es) [0..<n]"
  have l: "length (data c) = n" using shape \<open>ok\<close> by simp
  have d: "damage n (fold add_error ps c) c = set ps" by (rule damaged_by_errors [OF ps l])
  have "list_all (\<lambda>p. p < n) es" using es(2) ps(2) by (auto simp: list_all_iff)
  note el = erasure_list_of [OF es(1) this]
  have "card (set ps - set es) = length ps - length es"
    using card_Diff_subset [OF _ es(2)] distinct_card [OF ps(1)] distinct_card [OF es(1)] by simp
  moreover have "length es \<le> length ps" using card_mono [OF _ es(2)] distinct_card [OF ps(1)] distinct_card [OF es(1)] by simp
  ultimately have small: "2 * card (set ps - set ?el) + length ?el \<le> k"
    unfolding el using few by linarith
  have len: "length (data (fold add_error ps c)) = n" using l length_errors [of ps c] by simp
  have dis: "distinct ?el" "set ?el \<subseteq> {..<n}" by auto
  obtain b where b: "dec ?el (fold add_error ps c) = Some (True, b)" "\<forall>p<n. data b ! p AND 255 = data c ! p AND 255"
    "errors_detected b = (if set ps = {} then 0 else card (set ps \<union> set ?el))" "errors_corrected b = card (set ps)"
    using corrects [OF \<open>ok\<close> len dis, unfolded d, OF small] by blast
  have "set ps \<union> set ?el = set ps" unfolding el using es(2) by blast
  then show ?thesis using b corrected_message [OF \<open>ok\<close> b(2)] distinct_card [OF ps(1)] by (auto split: if_splits)
qed

lemma test_passes:
  assumes ok and w: "ready dec c msg w" and ps: "distinct ps" "list_all (\<lambda>p. p < n) ps" and es: "distinct es" "set es \<subseteq> set ps"
    and few: "2 * length ps \<le> k + length es"
    and F: "\<And>b. errors_detected b = length ps \<Longrightarrow> errors_corrected b = length ps \<Longrightarrow> \<not> F b"
  shows "Option.bind (v_decode w (filter (\<lambda>i. i \<in> set es) [0..<n]) (fold add_error ps (rs_block_original w)))
     (\<lambda>(ok, b). Some (judge (\<not> ok \<or> \<not> is_block_equivelent n k b (v_message w) \<or> F b) w)) = Some (processed 1 w)"
  using decoded [OF \<open>ok\<close> ps es few] w F judge_passed by (auto simp: v_decode_def ready_def)

lemma errors_pass:
  assumes ok and w: "ready dec c msg w" and ps: "distinct ps" "list_all (\<lambda>p. p < n) ps" and few: "2 * length ps \<le> k"
    and F: "\<And>b. errors_detected b = length ps \<Longrightarrow> errors_corrected b = length ps \<Longrightarrow> \<not> F b"
  shows "Option.bind (v_decode w [] (fold add_error ps (rs_block_original w)))
     (\<lambda>(ok, b). Some (judge (\<not> ok \<or> \<not> is_block_equivelent n k b (v_message w) \<or> F b) w)) = Some (processed 1 w)"
  using test_passes [OF \<open>ok\<close> w ps, of "[]" F] few F by simp

lemma bounds:
  assumes ok
  shows "k + 10 \<le> n" "2 * k \<le> n + 1" "0 < n" "k < 2 ^ 64"
  using shape [OF assms] by simp_all

lemma wrapped:
  assumes ok and "distinct xs" and "list_all (\<lambda>x. x < n) xs"
  shows "distinct (map (\<lambda>x. (p + x) mod n) xs)" and "list_all (\<lambda>p. p < n) (map (\<lambda>x. (p + x) mod n) xs)"
  using wrapped_distinct [OF _ assms(2,3), of p] shape [OF \<open>ok\<close>] by simp_all

lemma run_positions:
  assumes ok and "0 < scale" and "\<And>i. i < m \<Longrightarrow> scale * i < n"
  shows "distinct (map (\<lambda>i. (p + scale * i) mod n) [0..<m])" and "list_all (\<lambda>p. p < n) (map (\<lambda>i. (p + scale * i) mod n) [0..<m])"
proof -
  let ?xs = "map (\<lambda>i. scale * i) [0..<m]"
  have "distinct ?xs" using assms(2) by (simp add: distinct_map inj_on_def)
  moreover have "list_all (\<lambda>x. x < n) ?xs" using assms(3) by (simp add: list_all_iff)
  ultimately show "distinct (map (\<lambda>i. (p + scale * i) mod n) [0..<m])"
    "list_all (\<lambda>p. p < n) (map (\<lambda>i. (p + scale * i) mod n) [0..<m])"
    using wrapped [OF \<open>ok\<close>, of ?xs p] by (simp_all add: comp_def)
qed

lemmas burst_positions = run_positions [where scale = 1, simplified]

text \<open>The stages without erasures.\<close>

lemma stage1_passes:
  assumes ok and "ready dec c msg v"
  shows "stage1 n k v = Some (True, processed (k div 2 * n) v)"
  unfolding stage1_def all_errors_fold
  by (rule stage_loop [OF assms(2)], rule loop_passes, rule errors_pass [OF \<open>ok\<close>], assumption)
    (use bounds [OF \<open>ok\<close>] in \<open>auto intro!: burst_positions [OF \<open>ok\<close>]\<close>)

lemma scaled_bound:
  assumes ok and "scale < 5" and "i < m" and "m < k div 2"
  shows "scale * i < n"
proof -
  have "scale * i \<le> 4 * i" using assms(2) by (intro mult_le_mono1) simp
  then show ?thesis using assms(3,4) bounds(1,2) [OF \<open>ok\<close>] by linarith
qed

lemma stage7_passes:
  assumes ok and "ready dec c msg v"
  shows "stage7 n k v = Some (True, processed ((k div 2 - 1) * (n * 4)) v)"
  unfolding stage7_def all_errors_fold
  by (rule stage_loop [OF assms(2)], rule loop_passes, rule loop_passes, rule errors_pass [OF \<open>ok\<close>], assumption)
    (use bounds [OF \<open>ok\<close>] in \<open>auto intro!: run_positions [OF \<open>ok\<close>] intro: scaled_bound [OF \<open>ok\<close>]\<close>)

lemma segment_positions:
  assumes ok and "d < 5"
  defines "xs \<equiv> [0..<k div 4] @ [k div 4 + d..<k div 2 + d]"
  shows "distinct (map (\<lambda>x. (p + x) mod n) xs)" and "list_all (\<lambda>p. p < n) (map (\<lambda>x. (p + x) mod n) xs)" and "2 * length xs \<le> k"
proof -
  have "distinct xs" by (auto simp: xs_def)
  moreover have "k div 4 < n" "k div 2 + d < n" using bounds(1) [OF \<open>ok\<close>] assms(2) by linarith+
  then have "list_all (\<lambda>x. x < n) xs" by (auto simp: xs_def list_all_iff)
  ultimately show "distinct (map (\<lambda>x. (p + x) mod n) xs)" "list_all (\<lambda>p. p < n) (map (\<lambda>x. (p + x) mod n) xs)"
    using wrapped [OF \<open>ok\<close>] by blast+
  have "k div 4 + (k div 2 - k div 4) \<le> k div 2" by linarith
  then show "2 * length xs \<le> k" by (simp add: xs_def)
qed

lemma stage10_passes:
  assumes ok and "ready dec c msg v"
  shows "stage10 n k v = Some (True, processed (n * 5) v)"
  unfolding stage10_def segmented_fold
proof (rule stage_loop [OF assms(2)], rule loop_passes, rule errors_pass [OF \<open>ok\<close>], assumption)
  fix p d assume "d \<in> set [0..<5]"
  then have d: "d < 5" by auto
  let ?ps = "if 2 < k then map (\<lambda>x. (p + x) mod n) ([0..<k div 4] @ [k div 4 + d..<k div 2 + d]) else []"
  show "distinct ?ps" "list_all (\<lambda>p. p < n) ?ps" "2 * length ?ps \<le> k"
    using segment_positions(1,2) [OF \<open>ok\<close> d, of p] segment_positions(3) [OF \<open>ok\<close> d]
    by (cases "2 < k"; simp)+
qed (assumption | auto)+

lemma stage11_passes:
  assumes ok and "ready dec c msg v"
  shows "stage11 n k v = Some (True, processed 1 v)"
proof -
  have "damage n c c = {}" by (simp add: damage_def)
  then obtain b where "dec [] c = Some (True, b)" "\<forall>p<n. data b ! p AND 255 = data c ! p AND 255"
    "errors_detected b = 0" "errors_corrected b = 0" "\<not> unrecoverable b"
    using corrects [OF \<open>ok\<close>, of c "[]"] shape [OF \<open>ok\<close>] by auto
  then show ?thesis
    using assms corrected_message [OF \<open>ok\<close>, of b] judge_passed [of v]
    by (simp add: stage11_def v_decode_def ready_def stage_result_def) (simp add: processed_def)
qed

lemma stage12_passes:
  assumes ok and "ready dec c msg v"
  shows "stage12 srand n k v = Some (True, processed (k div 2 * 255) v)"
proof -
  let ?ix = "generate_error_index srand (k div 2) 0xA5A5A5A5"
  note ix = generate_error_index_facts [of srand "k div 2" "0xA5A5A5A5"]
  have b: "k div 2 < n" using bounds(1) [OF \<open>ok\<close>] by linarith
  have v: "?ix ! j < n" if "j < k div 2" for j using nth_mem [of j ?ix] that ix b by simp
  have pos: "distinct (map (\<lambda>i. ?ix ! ((p + i) mod length ?ix) mod n) [0..<m])"
    "list_all (\<lambda>p. p < n) (map (\<lambda>i. ?ix ! ((p + i) mod length ?ix) mod n) [0..<m])" if m: "m \<in> set [1..<k div 2 + 1]" for p m
  proof -
    let ?js = "map (\<lambda>i. (p + i) mod (k div 2)) [0..<m]"
    have m': "0 < k div 2" "m \<le> k div 2" using m by auto
    have js: "distinct ?js" "list_all (\<lambda>j. j < k div 2) ?js"
      using wrapped_distinct [OF m'(1), of "[0..<m]" p] m'(2) by (auto simp: list_all_iff)
    then have "map (\<lambda>j. ?ix ! j mod n) ?js = map (\<lambda>j. ?ix ! j) ?js" using v by (auto simp: list_all_iff)
    moreover have "distinct (map (\<lambda>j. ?ix ! j) ?js)"
      using js ix by (auto simp: distinct_map inj_on_def list_all_iff nth_eq_iff_index_eq)
    ultimately have "distinct (map (\<lambda>j. ?ix ! j mod n) ?js)" by (simp only:)
    then show "distinct (map (\<lambda>i. ?ix ! ((p + i) mod length ?ix) mod n) [0..<m])" by (simp only: map_map comp_def ix)
    show "list_all (\<lambda>p. p < n) (map (\<lambda>i. ?ix ! ((p + i) mod length ?ix) mod n) [0..<m])" using b by (simp add: list_all_iff)
  qed
  show ?thesis unfolding stage12_def Let_def at_index_fold error_index_size_eq
    by (rule stage_loop [OF assms(2)], rule loop_passes, rule errors_pass [OF \<open>ok\<close>], assumption, rule pos, assumption, rule pos) auto
qed

text \<open>The stages with erasures.\<close>

lemma stage2_passes:
  assumes ok and "ready dec c msg v"
  shows "stage2 n k v = Some (True, processed (k * n) v)"
  unfolding stage2_def all_erasures_fold [OF bounds(3) [OF \<open>ok\<close>]] Let_def prod.case
  by (rule stage_loop [OF assms(2)], rule loop_passes, rule test_passes [OF \<open>ok\<close>], assumption)
    (use bounds(1) [OF \<open>ok\<close>] in \<open>auto intro!: burst_positions [OF \<open>ok\<close>]\<close>)

text \<open>With a scale, a position may be hit twice; then the decoder finds it undamaged.\<close>

lemma erasures_pass:
  assumes ok and w: "ready dec c msg w" and ps: "list_all (\<lambda>p. p < n) ps" "length ps \<le> k"
  shows "Option.bind (v_decode w (filter (\<lambda>i. i \<in> set ps) [0..<n]) (fold add_error ps (rs_block_original w)))
     (\<lambda>(ok, b). Some (judge (\<not> ok \<or> \<not> is_block_equivelent n k b (v_message w) \<or>
        errors_detected b \<noteq> errors_corrected b + zero_numerators b \<or>
        length ps < errors_detected b \<or> length ps < errors_corrected b) w)) = Some (processed 1 w)"
proof -
  let ?el = "filter (\<lambda>i. i \<in> set ps) [0..<n]" and ?D = "damage n (fold add_error ps c) c"
  have el: "set ?el = set ps" using ps(1) by (auto simp: list_all_iff)
  then have lel: "length ?el \<le> length ps" using distinct_card [of ?el] card_length [of ps] by simp
  have D: "?D \<subseteq> set ps" by (rule damage_errors_subset)
  then have "?D - set ?el = {}" using el by blast
  then have small: "2 * card (?D - set ?el) + length ?el \<le> k" using lel ps(2) by (simp only: card.empty)
  have len: "length (data (fold add_error ps c)) = n" using shape [OF \<open>ok\<close>] length_errors [of ps c] by simp
  have dis: "distinct ?el" "set ?el \<subseteq> {..<n}" by auto
  obtain b where b: "dec ?el (fold add_error ps c) = Some (True, b)" "\<forall>p<n. data b ! p AND 255 = data c ! p AND 255"
    "errors_detected b = (if ?D = {} then 0 else card (?D \<union> set ?el))" "errors_corrected b = card ?D"
    "zero_numerators b = (if ?D = {} then 0 else card (set ?el - ?D))"
    using corrects [OF \<open>ok\<close> len dis small] by blast
  have "?D \<union> set ?el = set ps" using D el by blast
  moreover have "card (set ps) = card ?D + card (set ps - ?D)"
    using card_Diff_subset [OF finite_subset [OF D] D] card_mono [OF _ D] by simp
  moreover have "card ?D \<le> length ps" using card_mono [OF _ D] card_length [of ps] by simp
  ultimately have "errors_detected b = errors_corrected b + zero_numerators b" "errors_detected b \<le> length ps" "errors_corrected b \<le> length ps"
    using b(3-5) el card_length [of ps] by (simp_all split: if_splits)
  then show ?thesis using b(1) corrected_message [OF \<open>ok\<close> b(2)] w judge_passed [of w] by (simp add: v_decode_def ready_def)
qed

lemma stage8_passes:
  assumes ok and "ready dec c msg v"
  shows "stage8 n k v = Some (True, processed (k * n) v)"
proof -
  have "Option.bind (v_decode w (filter (\<lambda>i. i \<in> set (map (\<lambda>i. (p + s * i) mod n) [0..<m])) [0..<n])
       (fold add_error (map (\<lambda>i. (p + s * i) mod n) [0..<m]) (rs_block_original w)))
     (\<lambda>(ok, b). Some (judge (\<not> ok \<or> \<not> is_block_equivelent n k b (v_message w) \<or>
        errors_detected b \<noteq> errors_corrected b + zero_numerators b \<or> m < errors_detected b \<or> m < errors_corrected b) w)) =
     Some (processed 1 w)" if "m \<in> set [1..<k + 1]" "ready dec c msg w" for m p s w
    using erasures_pass [OF \<open>ok\<close> that(2), of "map (\<lambda>i. (p + s * i) mod n) [0..<m]"] that(1) bounds(3) [OF \<open>ok\<close>]
    by (auto simp: list_all_iff)
  then show ?thesis unfolding stage8_def all_erasures_fold [OF bounds(3) [OF \<open>ok\<close>]] Let_def prod.case
    by (intro stage_loop [OF assms(2)] loop_passes) (assumption | simp)+
qed

lemma two_bursts:
  fixes mode :: error_mode and p m gap :: nat
  assumes ok and "m \<in> set [1..<k + 1]" and "gap \<le> 10"
  defines "es \<equiv> erased_positions n mode p ((k - m) div 2) m gap" and "qs \<equiv> error_positions n mode p ((k - m) div 2) m gap"
  defines "ps \<equiv> case mode of erasures_errors \<Rightarrow> es @ qs | errors_erasures \<Rightarrow> qs @ es"
  shows "distinct ps" "list_all (\<lambda>p. p < n) ps" "distinct es" "set es \<subseteq> set ps" "2 * length ps \<le> k + length es"
proof -
  let ?e = "(k - m) div 2" and ?w = "map (\<lambda>x. (p + x) mod n)"
  define xs where "xs = (case mode of erasures_errors \<Rightarrow> [0..<m] @ [m + gap..<m + gap + ?e] | errors_erasures \<Rightarrow> [0..<?e] @ [?e + gap..<?e + gap + m])"
  have ps: "ps = ?w xs" by (simp add: xs_def ps_def es_def qs_def erased_positions_def error_positions_def split: error_mode.split)
  have m: "m \<le> k" "0 < m" using assms(2) by auto
  have l: "length xs = m + ?e" "length es = m" "2 * ?e + m \<le> k"
    using m by (simp_all add: xs_def es_def erased_positions_def split: error_mode.split)
  have e: "m + ?e \<le> k" using l(3) by linarith
  show "2 * length ps \<le> k + length es" unfolding ps length_map l
    using add_right_mono [OF l(3), of m] by (simp only: add_mult_distrib2 mult_2 ac_simps)
  show "set es \<subseteq> set ps" by (auto simp: ps_def split: error_mode.split)
  have "distinct xs" by (auto simp: xs_def split: error_mode.split)
  moreover have "list_all (\<lambda>x. x < n) xs"
    using bounds(1) [OF \<open>ok\<close>] assms(3) e by (auto simp: xs_def list_all_iff split: error_mode.split)
  ultimately show d: "distinct ps" and "list_all (\<lambda>p. p < n) ps" unfolding ps by (rule wrapped [OF \<open>ok\<close>])+
  show "distinct es" using d by (auto simp: ps_def split: error_mode.splits)
qed

lemma bursts_pass:
  assumes ok and "m \<in> set [1..<k + 1]" and "gap \<le> 10" and "ready dec c msg w"
  shows "(case corrupt_message_errors_erasures n k mode p m gap (rs_block_original w, []) of (b, erasure_list) \<Rightarrow>
     Option.bind (v_decode w erasure_list b)
       (\<lambda>(ok, b). Some (judge (\<not> ok \<or> \<not> is_block_equivelent n k b (v_message w) \<or> errors_detected b \<noteq> errors_corrected b) w))) =
     Some (processed 1 w)"
proof -
  have m: "m \<le> k" using assms(2) by auto
  show ?thesis
    unfolding errors_erasures_fold [OF bounds(3) [OF \<open>ok\<close>] m bounds(4) [OF \<open>ok\<close>]] Let_def prod.case
    by (rule test_passes [OF \<open>ok\<close> assms(4) two_bursts [OF \<open>ok\<close> assms(2,3)]]) simp
qed

lemma stage3_passes:
  assumes ok and "ready dec c msg v"
  shows "stage3 n k v = Some (True, processed (k * n) v)"
  unfolding stage3_def Let_def
  by (rule stage_loop [OF assms(2)], rule loop_passes, rule bursts_pass [OF \<open>ok\<close>]) (assumption | simp)+

lemma stage4_passes:
  assumes ok and "ready dec c msg v"
  shows "stage4 n k v = Some (True, processed (k * n) v)"
  unfolding stage4_def Let_def
  by (rule stage_loop [OF assms(2)], rule loop_passes, rule bursts_pass [OF \<open>ok\<close>]) (assumption | simp)+

lemma stage5_passes:
  assumes ok and "ready dec c msg v"
  shows "stage5 n k v = Some (True, processed (10 * (k * n)) v)"
  unfolding stage5_def Let_def
  by (rule stage_loop [OF assms(2)], rule loop_passes, rule loop_passes, rule bursts_pass [OF \<open>ok\<close>]) (assumption | simp)+

lemma stage6_passes:
  assumes ok and "ready dec c msg v"
  shows "stage6 n k v = Some (True, processed (10 * (k * n)) v)"
  unfolding stage6_def Let_def
  by (rule stage_loop [OF assms(2)], rule loop_passes, rule loop_passes, rule bursts_pass [OF \<open>ok\<close>]) (assumption | simp)+

lemma mixed_bursts:
  fixes p m :: nat
  assumes ok and m: "m \<le> k" "0 < m"
  defines "e \<equiv> (k - m) div 2"
  defines "ps \<equiv> mixed_positions n p e m" and "es \<equiv> mixed_erasures n p e m"
  shows "distinct ps" "list_all (\<lambda>p. p < n) ps" "distinct es" "set es \<subseteq> set ps" "2 * length ps \<le> k + length es"
proof -
  let ?w = "map (\<lambda>x. (p + x) mod n)"
  define xs ys where "xs = filter (hit e m) [0..<last_hit e m]" and "ys = filter (\<lambda>x. even x \<and> hit e m x) [0..<last_hit e m]"
  have w: "ps = ?w xs" "es = ?w ys" by (simp_all add: ps_def es_def xs_def ys_def mixed_positions_def mixed_erasures_def)
  have e: "2 * e + m \<le> k" unfolding e_def using m(1) by linarith
  have sx: "set xs = (\<lambda>i. 2 * i) ` {..<m} \<union> (\<lambda>i. 2 * i + 1) ` {..<e}" unfolding xs_def by (rule set_hits)
  have "set ys = {x \<in> set xs. even x}" by (auto simp: xs_def ys_def)
  then have sy: "set ys = (\<lambda>i. 2 * i) ` {..<m}" unfolding sx by auto
  have d: "distinct xs" "distinct ys" by (simp_all add: xs_def ys_def)
  have "card (set xs) = card ((\<lambda>i. 2 * i) ` {..<m}) + card ((\<lambda>i. 2 * i + 1) ` {..<e})"
    unfolding sx by (rule card_Un_disjoint) (auto, presburger)
  then have l: "length xs = m + e" "length ys = m"
    using distinct_card [OF d(1)] distinct_card [OF d(2)] by (simp_all add: sy card_image inj_on_def)
  have "last_hit e m \<le> n" unfolding last_hit_def using bounds(1,2) [OF \<open>ok\<close>] e m by (intro max.boundedI) linarith+
  then have b: "list_all (\<lambda>x. x < n) xs" "list_all (\<lambda>x. x < n) ys" by (auto simp: xs_def ys_def list_all_iff)
  show "distinct ps" "list_all (\<lambda>p. p < n) ps" "distinct es" unfolding w by (rule wrapped [OF \<open>ok\<close> d(1) b(1)] wrapped [OF \<open>ok\<close> d(2) b(2)])+
  show "set es \<subseteq> set ps" unfolding w set_map sx sy by blast
  show "2 * length ps \<le> k + length es" unfolding w length_map l using e by simp
qed

lemma stage9_passes:
  assumes ok and "ready dec c msg v"
  shows "stage9 n k v = Some (True, processed (k * n) v)"
proof -
  have "(case corrupt_message_interleaved_errors_erasures n k p m (rs_block_original w, []) of (b, erasure_list) \<Rightarrow>
     Option.bind (v_decode w erasure_list b)
       (\<lambda>(ok, b). Some (judge (\<not> ok \<or> \<not> is_block_equivelent n k b (v_message w) \<or> errors_detected b \<noteq> errors_corrected b) w))) =
     Some (processed 1 w)" if "m \<in> set [1..<k + 1]" "ready dec c msg w" for m p w
  proof -
    have m: "m \<le> k" "0 < m" using that(1) by auto
    show ?thesis
      unfolding interleaved_fold [OF bounds(3) [OF \<open>ok\<close>] m(1) bounds(4) [OF \<open>ok\<close>]] prod.case
      by (rule test_passes [OF \<open>ok\<close> that(2) mixed_bursts [OF \<open>ok\<close> m]]) simp
  qed
  note pass = this
  show ?thesis unfolding stage9_def Let_def
    by (rule stage_loop [OF assms(2)], rule loop_passes, rule pass) (assumption | simp)+
qed

text \<open>All stages pass, and each block is counted.\<close>

lemma execute_passes:
  assumes ok and "ready dec c msg v"
  shows "execute srand n k v =
     Some (True, processed (n * (25 * k + k div 2 + 4 * (k div 2 - 1) + 5) + 255 * (k div 2) + 1) v)"
  using stage1_passes [OF \<open>ok\<close>] stage2_passes [OF \<open>ok\<close>] stage3_passes [OF \<open>ok\<close>] stage4_passes [OF \<open>ok\<close>]
    stage5_passes [OF \<open>ok\<close>] stage6_passes [OF \<open>ok\<close>] stage7_passes [OF \<open>ok\<close>] stage8_passes [OF \<open>ok\<close>]
    stage9_passes [OF \<open>ok\<close>] stage10_passes [OF \<open>ok\<close>] stage11_passes [OF \<open>ok\<close>] stage12_passes [OF \<open>ok\<close>] assms(2)
  by (simp add: execute_def processed_add) (simp add: algebra_simps)

end

section \<open>The Reed-Solomon codec\<close>

lemma set_syms:
  assumes "m + l \<le> length (data b)"
  shows "fold (\<lambda>i. set_sym (m + i) (v i)) [0..<l] b = b\<lparr>data := take m (data b) @ map v [0..<l] @ drop (m + l) (data b)\<rparr>"
  unfolding fold_set_sym fold_update_offset [OF assms] ..

lemma map_nth_shift: "length xs = m + l \<Longrightarrow> map (\<lambda>i. xs ! (m + i)) [0..<l] = drop m xs"
  by (rule nth_equalityI) simp_all

lemma plain_block:
  assumes s: "rs_setup k a f g" and "length raw = 255"
  obtains c where "encode_string 255 k (encoder_ctor 255 f g) msg (block_ctor raw) = Some (True, c)" "length (data c) = 255"
    "codeword 255 k (decoder_ctor 255 k f a) a c" "\<forall>p<255 - k. data c ! p = symbol_of_char (msg ! p) AND 255" "symbols (data c)"
proof -
  have k: "k \<le> 255" and d: "dec_ok k a (decoder_ctor 255 k f a)" and f: "field_size f = 255"
    using s rs_setup_ok [OF s] by (auto simp: rs_setup_def dec_full_def field_ok_def)
  let ?v = "\<lambda>i. symbol_of_char (msg ! i) AND 255"
  let ?b = "block_ctor (map ?v [0..<255 - k] @ drop (255 - k) raw)"
  have b: "fold (\<lambda>i. set_sym i (?v i)) [0..<255 - k] (block_ctor raw) = ?b"
    using set_syms [of 0 "255 - k" "block_ctor raw" ?v] assms(2) by (simp add: block_ctor_def)
  have l: "length (data ?b) = 255" using assms(2) k by (simp add: block_ctor_def)
  note e = encode_ok [OF rs_setup_ok(2) [OF s] d l]
  let ?c = "?b\<lparr>data := take (255 - k) (data ?b) @ parities k (encoder_ctor 255 f g) ?b\<rparr>"
  have "encode_string 255 k (encoder_ctor 255 f g) msg (block_ctor raw) = encode 255 k (encoder_ctor 255 f g) ?b"
    using f by (simp only: encode_string_def encoder_ctor_def encoder.simps b)
  then have "encode_string 255 k (encoder_ctor 255 f g) msg (block_ctor raw) = Some (True, ?c)" using e by simp
  moreover have "length (data ?c) = 255" using e l k by simp
  moreover have "\<forall>p<255 - k. data ?c ! p = ?v p" by (simp add: block_ctor_def nth_append)
  moreover have "symbols (take (255 - k) (data ?b))" using symbol_mask by (simp add: block_ctor_def list_all_iff)
  then have "symbols (data ?c)" using e by simp
  ultimately show ?thesis using e that by blast
qed

abbreviation plain_original :: "nat \<Rightarrow> gfield \<Rightarrow> fpoly \<Rightarrow> bytes \<Rightarrow> field_symbol list \<Rightarrow> rsblock" where
  "plain_original k f g msg raw \<equiv> snd (the (encode_string 255 k (encoder_ctor 255 f g) msg (block_ctor raw)))"

lemma damage_255: "damage 255 b c = damaged_positions b c"
  by (simp add: damage_def damaged_positions_def)

interpretation plain: tested_codec 255 k "rs_setup k a f g \<and> k \<le> 128 \<and> length raw = 255"
  "decode_erasures 255 k (decoder_ctor 255 k f a)" "plain_original k f g msg raw" msg for k a f g raw msg
proof (unfold_locales, goal_cases)
  case 1
  then obtain c where "encode_string 255 k (encoder_ctor 255 f g) msg (block_ctor raw) = Some (True, c)" "length (data c) = 255"
    using plain_block [of k a f g raw msg] by metis
  then show ?case using 1 by simp
next
  case (2 p)
  then obtain c where "encode_string 255 k (encoder_ctor 255 f g) msg (block_ctor raw) = Some (True, c)"
    "\<forall>p<255 - k. data c ! p = symbol_of_char (msg ! p) AND 255"
    using plain_block [of k a f g raw msg] by metis
  then show ?case using 2(2) by (simp add: mask_symbol_of_char mask_uint)
next
  case (3 b el)
  then obtain c where "encode_string 255 k (encoder_ctor 255 f g) msg (block_ctor raw) = Some (True, c)" "length (data c) = 255"
    "codeword 255 k (decoder_ctor 255 k f a) a c"
    using plain_block [of k a f g raw msg] by metis
  moreover from this(1) have c: "plain_original k f g msg raw = c" by simp
  moreover have "dec_full k a (decoder_ctor 255 k f a)" using 3(1) rs_setup_ok(3) by blast
  ultimately show ?case using 3(2-5) decode_erasures_corrects [of k a "decoder_ctor 255 k f a" c b el] unfolding damage_255 c by blast
qed

section \<open>The shortened codec\<close>

text \<open>The block of a shortened code is the end of a block of the code that begins with zeros.\<close>

lemma shortened_block:
  assumes s: "rs_setup k a f g" and "n \<le> 255" "k \<le> n" and "length mem = 255" "length raw = n"
  obtains c C where "shortened_encode_string 255 n k (encoder_ctor 255 f g) mem msg (block_ctor raw) = Some (True, c)" "length (data c) = n"
    "codeword 255 k (decoder_ctor 255 k f a) a C" "data C = replicate (255 - n) 0 @ data c" "\<forall>p<n - k. data c ! p = symbol_of_char (msg ! p)"
proof -
  have d: "dec_ok k a (decoder_ctor 255 k f a)" using rs_setup_ok(3) [OF s] by (simp add: dec_full_def)
  let ?pad = "255 - n"
  let ?b = "block_ctor (replicate ?pad 0 @ map (\<lambda>i. symbol_of_char (msg ! i)) [0..<n - k] @ drop (?pad + (n - k)) mem)"
  have pad: "255 - (n - k) - k = ?pad" using assms(3) by simp
  have p0: "fold (\<lambda>i. set_sym i 0) [0..<?pad] (block_ctor mem) = block_ctor (replicate ?pad 0 @ drop ?pad mem)"
    using set_syms [of 0 ?pad "block_ctor mem" "\<lambda>_. 0"] assms(4) by (simp add: block_ctor_def map_replicate_const)
  have p1: "fold (\<lambda>i. set_sym (?pad + i) (symbol_of_char (msg ! i))) [0..<n - k] (block_ctor (replicate ?pad 0 @ drop ?pad mem)) = ?b"
    using set_syms [of ?pad "n - k" "block_ctor (replicate ?pad 0 @ drop ?pad mem)"] assms(2-4) by (simp add: block_ctor_def add.commute)
  have l: "length (data ?b) = 255" using assms(2-4) by (simp add: block_ctor_def)
  note e = encode_ok [OF rs_setup_ok(2) [OF s] d l]
  define ps where "ps = parities k (encoder_ctor 255 f g) ?b"
  define C where "C = ?b\<lparr>data := take (255 - k) (data ?b) @ ps\<rparr>"
  have C: "encode 255 k (encoder_ctor 255 f g) ?b = Some (True, C)" "codeword 255 k (decoder_ctor 255 k f a) a C" "length ps = k"
    using e by (simp_all add: C_def ps_def)
  have dC: "data C = replicate ?pad 0 @ map (\<lambda>i. symbol_of_char (msg ! i)) [0..<n - k] @ ps"
    using assms(2,3) by (simp add: C_def block_ctor_def)
  let ?c = "(block_ctor raw)\<lparr>data := drop ?pad (data C)\<rparr>"
  have "map (\<lambda>i. data C ! (?pad + i)) [0..<n] = drop ?pad (data C)"
    using assms(2,3) C(3) by (intro map_nth_shift) (simp add: dC)
  then have "fold (\<lambda>i. set_sym i (data C ! (?pad + i))) [0..<n] (block_ctor raw) = ?c"
    using set_syms [of 0 n "block_ctor raw" "\<lambda>i. data C ! (?pad + i)"] assms(5) by (simp add: block_ctor_def)
  then have "shortened_encode_string 255 n k (encoder_ctor 255 f g) mem msg (block_ctor raw) = Some (True, ?c)"
    by (simp only: shortened_encode_string_def Let_def pad p0 p1 C(1) bind.bind_lunit prod.case if_True)
  moreover have "length (data ?c) = n" "data C = replicate ?pad 0 @ data ?c" "\<forall>p<n - k. data ?c ! p = symbol_of_char (msg ! p)"
    using assms(2,3) C(3) by (simp_all add: dC nth_append)
  ultimately show ?thesis using C(2) that by blast
qed

lemma shortened_decode_eq:
  assumes "n \<le> 255" "k \<le> n" "length mem = 255" "length (data b) = n"
    and "decode_erasures 255 k dec (map (\<lambda>e. e + (255 - n)) el) (block_ctor (replicate (255 - n) 0 @ data b)) = Some (True, B)"
    and "length (data B) = 255"
  shows "shortened_decode 255 n k dec mem el b = Some (True, copy_state B (b\<lparr>data := drop (255 - n) (data B)\<rparr>))"
proof -
  let ?pad = "255 - n"
  have pad: "255 - (n - k) - k = ?pad" using assms(2) by simp
  have p0: "fold (\<lambda>i. set_sym i 0) [0..<?pad] (block_ctor mem) = block_ctor (replicate ?pad 0 @ drop ?pad mem)"
    using set_syms [of 0 ?pad "block_ctor mem" "\<lambda>_. 0"] assms(3) by (simp add: block_ctor_def map_replicate_const)
  have "map (\<lambda>i. data b ! i) [0..<n] = data b" using map_nth [of "data b"] assms(4) by simp
  then have p1: "fold (\<lambda>i. set_sym (?pad + i) (data b ! i)) [0..<n] (block_ctor (replicate ?pad 0 @ drop ?pad mem)) = block_ctor (replicate ?pad 0 @ data b)"
    using set_syms [of ?pad n "block_ctor (replicate ?pad 0 @ drop ?pad mem)"] assms(1-3) by (simp add: block_ctor_def)
  have "map (\<lambda>i. data B ! (?pad + i)) [0..<n] = drop ?pad (data B)"
    using assms(1,6) by (intro map_nth_shift) simp
  then have p2: "fold (\<lambda>i. set_sym i (data B ! (?pad + i))) [0..<n] b = b\<lparr>data := drop ?pad (data B)\<rparr>"
    using set_syms [of 0 n b "\<lambda>i. data B ! (?pad + i)"] assms(4) by simp
  show ?thesis by (simp only: shortened_decode_def Let_def pad p0 p1 p2 assms(5) bind.bind_lunit prod.case if_True)
qed

lemma damage_shift:
  assumes "n \<le> 255" "length (data b) = n" "length (data c) = n" "data C = replicate (255 - n) 0 @ data c"
  shows "damaged_positions (block_ctor (replicate (255 - n) 0 @ data b)) C = (\<lambda>p. p + (255 - n)) ` damage n b c"
    (is "?L = ?R")
proof (rule set_eqI)
  fix q
  have "q \<in> ?L \<longleftrightarrow> 255 - n \<le> q \<and> q < 255 \<and> data b ! (q - (255 - n)) AND 255 \<noteq> data c ! (q - (255 - n)) AND 255"
    by (auto simp: damaged_positions_def block_ctor_def assms(4) nth_append not_less)
  also have "\<dots> \<longleftrightarrow> q \<in> ?R" using assms(1) by (auto simp: damage_def image_iff intro!: exI [of _ "q - (255 - n)"])
  finally show "q \<in> ?L \<longleftrightarrow> q \<in> ?R" .
qed

lemma card_shift: "card ((\<lambda>p. p + d) ` A) = card (A :: nat set)"
  by (rule card_image) (simp add: inj_on_def)

lemma shortened_corrects:
  assumes dec: "dec_full k a dec" and C: "codeword 255 k dec a C" "data C = replicate (255 - n) 0 @ data c"
    and n: "n \<le> 255" "k \<le> n" "length mem = 255" "length (data c) = n" "length (data b) = n"
    and el: "distinct el" "set el \<subseteq> {..<n}" and few: "2 * card (damage n b c - set el) + length el \<le> k"
  shows "\<exists>b'. shortened_decode 255 n k dec mem el b = Some (True, b') \<and> (\<forall>p<n. data b' ! p AND 255 = data c ! p AND 255) \<and>
     errors_detected b' = (if damage n b c = {} then 0 else card (damage n b c \<union> set el)) \<and>
     errors_corrected b' = card (damage n b c) \<and>
     zero_numerators b' = (if damage n b c = {} then 0 else card (set el - damage n b c)) \<and>
     (damage n b c = {} \<longrightarrow> \<not> unrecoverable b')"
proof -
  let ?sh = "\<lambda>p. p + (255 - n)" and ?B = "block_ctor (replicate (255 - n) 0 @ data b)"
  have D: "damaged_positions ?B C = ?sh ` damage n b c" using damage_shift [OF n(1,5,4) C(2)] .
  have inj: "inj ?sh" by (rule injI) simp
  have "damaged_positions ?B C - set (map ?sh el) = ?sh ` (damage n b c - set el)"
    unfolding D set_map image_set_diff [OF inj] ..
  then have few': "2 * card (damaged_positions ?B C - set (map ?sh el)) + length (map ?sh el) \<le> k"
    using few by (simp only: card_shift length_map)
  have l: "length (data C) = 255" "length (data ?B) = 255" using C(2) n by (simp_all add: block_ctor_def)
  have el': "distinct (map ?sh el)" "set (map ?sh el) \<subseteq> {..<255}"
    using el n(1) by (auto simp: distinct_map inj_on_def)
  obtain B where B: "decode_erasures 255 k dec (map ?sh el) ?B = Some (True, B)" "length (data B) = 255"
    "\<forall>p<255. data B ! p AND 255 = data C ! p AND 255"
    "errors_detected B = (if ?sh ` damage n b c = {} then 0 else card (?sh ` (damage n b c \<union> set el)))"
    "errors_corrected B = card (?sh ` damage n b c)"
    "zero_numerators B = (if ?sh ` damage n b c = {} then 0 else card (?sh ` (set el - damage n b c)))"
    "?sh ` damage n b c = {} \<longrightarrow> \<not> unrecoverable B"
    using decode_erasures_corrects [OF dec C(1) l el' few'] unfolding D set_map image_Un [symmetric] image_set_diff [OF inj, symmetric] by blast
  have "drop (255 - n) (data B) ! p AND 255 = data c ! p AND 255" if "p < n" for p
  proof -
    have "data B ! (255 - n + p) AND 255 = data C ! (255 - n + p) AND 255" using B(3) that n(1) by simp
    moreover have "data C ! (255 - n + p) = data c ! p" unfolding C(2)
      using nth_append_length_plus [of "replicate (255 - n) 0" "data c" p] by (simp only: length_replicate)
    ultimately show ?thesis using B(2) by (simp only: nth_drop diff_le_self)
  qed
  then show ?thesis
    using shortened_decode_eq [OF n(1-3,5) B(1,2)] B(4-7) by (simp add: copy_state_def card_shift)
qed

abbreviation shortened_original :: "nat \<Rightarrow> nat \<Rightarrow> gfield \<Rightarrow> fpoly \<Rightarrow> bytes \<Rightarrow> field_symbol list \<Rightarrow> field_symbol list \<Rightarrow> rsblock" where
  "shortened_original n k f g msg mem raw \<equiv> snd (the (shortened_encode_string 255 n k (encoder_ctor 255 f g) mem msg (block_ctor raw)))"

interpretation shortened: tested_codec n k
  "rs_setup k a f g \<and> n \<le> 255 \<and> k + 10 \<le> n \<and> 2 * k \<le> n + 1 \<and> length mem = 255 \<and> length raw = n"
  "shortened_decode 255 n k (decoder_ctor 255 k f a) mem" "shortened_original n k f g msg mem raw" msg for n k a f g mem raw msg
proof (unfold_locales, goal_cases)
  case 1
  moreover from this have "k \<le> n" by simp
  ultimately obtain c where "shortened_encode_string 255 n k (encoder_ctor 255 f g) mem msg (block_ctor raw) = Some (True, c)" "length (data c) = n"
    using shortened_block [of k a f g n mem raw msg] by metis
  then show ?case using 1 by simp
next
  case (2 p)
  moreover from this have "k \<le> n" by simp
  ultimately obtain c where "shortened_encode_string 255 n k (encoder_ctor 255 f g) mem msg (block_ctor raw) = Some (True, c)"
    "\<forall>p<n - k. data c ! p = symbol_of_char (msg ! p)"
    using shortened_block [of k a f g n mem raw msg] by metis
  then show ?case using 2(2) by (simp add: mask_symbol_of_char)
next
  case (3 b el)
  then have k: "k \<le> n" "n \<le> 255" "length mem = 255" by simp_all
  with 3 obtain c C where c: "shortened_encode_string 255 n k (encoder_ctor 255 f g) mem msg (block_ctor raw) = Some (True, c)" "length (data c) = n"
    "codeword 255 k (decoder_ctor 255 k f a) a C" "data C = replicate (255 - n) 0 @ data c"
    using shortened_block [of k a f g n mem raw msg] by metis
  then have e: "shortened_original n k f g msg mem raw = c" by simp
  have "dec_full k a (decoder_ctor 255 k f a)" using 3(1) rs_setup_ok(3) by blast
  then show ?case using shortened_corrects [OF _ c(3,4) k(2,1,3) c(2) 3(2-4)] 3(5) unfolding e by blast
qed

section \<open>The validation succeeds\<close>

lemma validate_passes:
  assumes "make_sequential_root_generator_polynomial f a k = Some g"
    and "\<And>i. i < length ms \<Longrightarrow> \<exists>b. enc f g (ms ! i) (block_ctor (alloc n (raw i))) = Some b"
    and "\<And>i v. i < length ms \<Longrightarrow>
       ready (dec f a) (snd (the (enc f g (ms ! i) (block_ctor (alloc n (raw i)))))) (ms ! i) v \<Longrightarrow>
       \<exists>v'. execute srand n k v = Some (True, v')"
  shows "validate_messages enc dec srand n k raw f a ms = Some True"
  unfolding validate_messages_def
proof (rule all_opt_True, unfold list_all_iff, rule ballI)
  fix i assume "i \<in> set [0..<length ms]"
  then have i: "i < length ms" by simp
  from assms(2) [OF this] obtain r c where e: "enc f g (ms ! i) (block_ctor (alloc n (raw i))) = Some (r, c)" by fastforce
  let ?v = "\<lparr>v_decoder = Some (dec f a), rs_block_original = c, v_message = ms ! i, blocks_processed = 0, block_failures = 0\<rparr>"
  have "codec_validator_ctor enc dec k (alloc n (raw i)) f a (ms ! i) = Some ?v"
    using e by (simp add: codec_validator_ctor_def assms(1))
  moreover have "ready (dec f a) (snd (the (enc f g (ms ! i) (block_ctor (alloc n (raw i)))))) (ms ! i) ?v"
    using e by (simp add: ready_def)
  then obtain v' where "execute srand n k ?v = Some (True, v')" using assms(3) [OF i] by blast
  ultimately show "Option.bind (codec_validator_ctor enc dec k (alloc n (raw i)) f a (ms ! i))
      (\<lambda>validator. Option.bind (execute srand n k validator) (\<lambda>(ok, validator). Some ok)) = Some True" by simp
qed

lemma rs_field_setup:
  assumes "0 < k" "a + k \<le> 255"
  obtains g where "rs_setup k a (rs_field al ix beyond) g"
  using make_generator_ok [OF rs_field_ok [of al ix beyond], of a k] assms by (auto simp: rs_setup_def)

lemma plain_validation:
  assumes "0 < k" "k \<le> 128" "a + k \<le> 255"
  shows "codec_validation_test srand mem 8 a 255 k primitive_polynomial_size06 primitive_polynomial06 = Some True"
proof -
  let ?f = "rs_field (mem_alpha mem) (mem_index mem) (mem_beyond mem)"
  obtain g where s: "rs_setup k a ?f g" using rs_field_setup [OF assms(1,3)] .
  show ?thesis unfolding codec_validation_test_def rs_field_def [symmetric]
  proof (rule validate_passes)
    show "make_sequential_root_generator_polynomial ?f a k = Some g" using s by (simp add: rs_setup_def)
    show "\<exists>b. encode_string 255 k (encoder_ctor 255 ?f g) (ms ! i) (block_ctor (alloc 255 (mem_block mem i))) = Some b" for ms i
      using plain_block [OF s, of "alloc 255 (mem_block mem i)" "ms ! i"] by (simp add: alloc_def) blast
    show "\<exists>v'. execute srand 255 k v = Some (True, v')"
      if "ready (decode_erasures 255 k (decoder_ctor 255 k ?f a)) (plain_original k ?f g (ms ! i) (alloc 255 (mem_block mem i))) (ms ! i) v" for ms i v
      using plain.execute_passes [OF _ that] s assms(2) by (simp add: alloc_def)
  qed
qed

lemma shortened_validation:
  assumes "0 < k" "a + k \<le> 255" "n \<le> 255" "k + 10 \<le> n" "2 * k \<le> n + 1"
  shows "shortened_codec_validation_test srand mem 8 a n k primitive_polynomial_size06 primitive_polynomial06 = Some True"
proof -
  let ?f = "rs_field (mem_alpha mem) (mem_index mem) (mem_beyond mem)" and ?m = "alloc 255 (mem_padded mem)"
  obtain g where s: "rs_setup k a ?f g" using rs_field_setup [OF assms(1,2)] .
  have k: "k \<le> n" and l: "length ?m = 255" "length (alloc n r) = n" for r using assms(4) by (simp_all add: alloc_def)
  show ?thesis unfolding shortened_codec_validation_test_def rs_field_def [symmetric]
  proof (rule validate_passes)
    show "make_sequential_root_generator_polynomial ?f a k = Some g" using s by (simp add: rs_setup_def)
    show "\<exists>b. shortened_encode_string 255 n k (encoder_ctor 255 ?f g) ?m (ms ! i) (block_ctor (alloc n (mem_block mem i))) = Some b" for ms i
      using shortened_block [OF s assms(3) k l(1) l(2) [of "mem_block mem i"], of "ms ! i"] by blast
    show "\<exists>v'. execute srand n k v = Some (True, v')"
      if "ready (shortened_decode 255 n k (decoder_ctor 255 k ?f a) ?m)
        (shortened_original n k ?f g (ms ! i) ?m (alloc n (mem_block mem i))) (ms ! i) v" for ms i v
      using shortened.execute_passes [OF _ that] s assms l by blast
  qed
qed

text \<open>
  C11: the validation of the codec succeeds. For all numbers of parity symbols that \<^verbatim>\<open>codec_validation_test00\<close> tries,
  all its messages and all its patterns of errors and erasures (bursts, bursts with gaps, spaced, alternating and random
  positions), the block is decoded, the message comes back and the errors are counted correctly, whatever memory the
  objects are built in and whatever the random numbers are.
\<close>

theorem codec_validation_succeeds: "codec_validation_test00 srand mem = Some True"
  unfolding codec_validation_test00_def by (rule all_opt_True) (simp add: plain_validation)

text \<open>
  C39: the same holds for every shortened code over the field of the program with enough room for the patterns:
  \<^verbatim>\<open>shortened_codec_validation_test\<close> returns true.
\<close>

theorem shortened_validation_succeeds:
  assumes "0 < k" and "a + k \<le> 255" and "n \<le> 255" and "k + 10 \<le> n" and "2 * k \<le> n + 1"
  shows "shortened_codec_validation_test srand mem 8 a n k primitive_polynomial_size06 primitive_polynomial06 = Some True"
  using assms by (rule shortened_validation)

theorem shortened_validation_succeeds_witness:
  "shortened_codec_validation_test (\<lambda>s i. s * i) \<lparr>mem_alpha = \<lambda>_. 0, mem_index = \<lambda>_. 1, mem_beyond = 2, mem_block = \<lambda>_ _. 3, mem_padded = \<lambda>_. 4\<rparr>
     8 120 126 14 primitive_polynomial_size06 primitive_polynomial06 = Some True"
  by (rule shortened_validation_succeeds) simp_all

text \<open>So the second test program depends on its three codes over the other polynomial only.\<close>

lemma codec_validation_test01_eq:
  "codec_validation_test01 srand mem =
     all_opt (\<lambda>(i, n, k). shortened_codec_validation_test srand (mem i) 8 1 n k primitive_polynomial_size05 primitive_polynomial05)
       [(5, 204, 16), (6, 104, 27), (7, 204, 12)]"
  by (simp add: codec_validation_test01_def shortened_validation cong: if_cong)

end
