(* ===== verification/SpeedEvaluator.thy ===== *)
theory SpeedEvaluator
  imports CodecValidator
begin

text \<open>
  \<^verbatim>\<open>schifra_reed_solomon_speed_evaluator.hpp\<close>: the speed tests decode lists of damaged blocks a hundred times and count
  successes and failures. The result of a test is the pair of its counters, or nothing when there is no generator
  polynomial; time and output are not modelled. The messages are those of the codec validator.
\<close>

section \<open>The tests\<close>

definition create_blocks ::
  "(bytes \<Rightarrow> rsblock \<Rightarrow> (bool \<times> rsblock) option) \<Rightarrow> nat \<Rightarrow> nat \<Rightarrow> (nat \<Rightarrow> nat \<Rightarrow> int) \<Rightarrow> bool \<Rightarrow> rsblock list option" where
  "create_blocks enc n k raw full_test_set =
     (let message_list = create_messages (n - k) full_test_set in
      fold_opt (\<lambda>i original_block_list. do {
          (ok, current_block) \<leftarrow> enc (message_list ! i) (block_ctor (alloc n (raw i)));
          Some (original_block_list @ [current_block])
        }) [0..<length message_list] [])"

text \<open>A block to decode, with the number of its original and its erasures.\<close>

type_synonym speed_case = "nat \<times> nat list \<times> rsblock"

definition error_cases :: "nat \<Rightarrow> nat \<Rightarrow> rsblock list \<Rightarrow> speed_case list" where
  "error_cases n k original_block =
     concat (map (\<lambda>block_index. concat (map (\<lambda>error_count. map (\<lambda>start_position.
         (block_index, [], corrupt_message_all_errors n error_count start_position 1 (original_block ! block_index)))
       [0..<n]) [1..<k div 2 + 1])) [0..<length original_block])"

definition erasure_cases :: "nat \<Rightarrow> nat \<Rightarrow> rsblock list \<Rightarrow> speed_case list" where
  "erasure_cases n k original_block =
     concat (map (\<lambda>block_index. concat (map (\<lambda>erasure_count. map (\<lambda>start_position.
         let (block, erasures) = corrupt_message_all_erasures n erasure_count start_position 1 (original_block ! block_index, [])
         in (block_index, erasures, block))
       [0..<n]) [1..<k + 1])) [0..<length original_block])"

text \<open>The blocks are decoded in place; the state holds them and the two counters.\<close>

definition speed_step ::
  "nat \<Rightarrow> decode_op \<Rightarrow> rsblock list \<Rightarrow> speed_case list \<Rightarrow> nat \<Rightarrow> rsblock list \<times> nat \<times> nat \<Rightarrow> (rsblock list \<times> nat \<times> nat) option" where
  "speed_step n dec original_block cases i st =
     (case st of (rs_block, decoded, failed) \<Rightarrow> do {
        (ok, b) \<leftarrow> dec (fst (snd (cases ! i))) (rs_block ! i);
        let rs_block = rs_block[i := b];
        Some (if \<not> ok then (rs_block, decoded, failed + 1)
              else if \<not> are_blocks_equivelent n b (original_block ! fst (cases ! i)) then (rs_block, decoded, failed + 1)
              else (rs_block, decoded + 1, failed))
      })"

definition max_iterations :: nat where "max_iterations = 100"

definition speed_loop :: "nat \<Rightarrow> decode_op \<Rightarrow> rsblock list \<Rightarrow> speed_case list \<Rightarrow> (nat \<times> nat) option" where
  "speed_loop n dec original_block cases =
     map_option snd (fold_opt (\<lambda>j. fold_opt (speed_step n dec original_block cases) [0..<length cases]) [0..<max_iterations]
       (map (\<lambda>c. snd (snd c)) cases, 0, 0))"

definition decoder_speed_test ::
  "(nat \<Rightarrow> nat \<Rightarrow> rsblock list \<Rightarrow> speed_case list) \<Rightarrow> test_memory \<Rightarrow> nat \<Rightarrow> nat \<Rightarrow> nat \<Rightarrow> nat \<Rightarrow> nat \<Rightarrow> uint32 list \<Rightarrow> (nat \<times> nat) option option" where
  "decoder_speed_test cases mem field_descriptor gen_poly_index n k prim_poly_size poly =
     (let field = field_ctor (mem_alpha mem) (mem_index mem) field_descriptor prim_poly_size (poly @ [mem_beyond mem])
      in case make_sequential_root_generator_polynomial field gen_poly_index k of
           None \<Rightarrow> Some None
         | Some g \<Rightarrow> do {
             original_block \<leftarrow> create_blocks (encode_string n k (encoder_ctor n field g)) n k (mem_block mem) False;
             r \<leftarrow> speed_loop n (decode_erasures n k (decoder_ctor n k field gen_poly_index)) original_block (cases n k original_block);
             Some (Some r)
           })"

definition all_errors_decoder_speed_test ::
  "test_memory \<Rightarrow> nat \<Rightarrow> nat \<Rightarrow> nat \<Rightarrow> nat \<Rightarrow> nat \<Rightarrow> uint32 list \<Rightarrow> (nat \<times> nat) option option" where
  "all_errors_decoder_speed_test = decoder_speed_test error_cases"

definition all_erasures_decoder_speed_test ::
  "test_memory \<Rightarrow> nat \<Rightarrow> nat \<Rightarrow> nat \<Rightarrow> nat \<Rightarrow> nat \<Rightarrow> uint32 list \<Rightarrow> (nat \<times> nat) option option" where
  "all_erasures_decoder_speed_test = decoder_speed_test erasure_cases"

definition speed_fec_lengths :: "nat list" where
  "speed_fec_lengths = [2, 4, 6, 8, 10, 12, 14, 16, 18, 20, 32, 48, 64, 80, 96, 128]"

definition speed_test_00 :: "(nat \<Rightarrow> test_memory) \<Rightarrow> (nat \<times> nat) option option list" where
  "speed_test_00 mem =
     map (\<lambda>k. all_errors_decoder_speed_test (mem k) 8 120 255 k primitive_polynomial_size06 primitive_polynomial06) speed_fec_lengths"

definition speed_test_01 :: "(nat \<Rightarrow> test_memory) \<Rightarrow> (nat \<times> nat) option option list" where
  "speed_test_01 mem =
     map (\<lambda>k. all_erasures_decoder_speed_test (mem k) 8 120 255 k primitive_polynomial_size06 primitive_polynomial06) speed_fec_lengths"

section \<open>Blocks of symbols are restored exactly\<close>

lemma exact_decode:
  assumes dec: "dec_full k a dec" and c: "codeword 255 k dec a c" "length (data c) = 255" "symbols (data c)"
    and b: "length (data b) = 255" "symbols (data b)" and el: "distinct el" "set el \<subseteq> {..<255}"
    and few: "2 * card (damaged_positions b c - set el) + length el \<le> k"
  shows "\<exists>b'. decode_erasures 255 k dec el b = Some (True, b') \<and> data b' = data c"
proof -
  obtain b' where b': "decode_erasures 255 k dec el b = Some (True, b')" "length (data b') = 255"
    "\<forall>p<255. data b' ! p AND 255 = data c ! p AND 255" "\<forall>p<255. symbol (data b ! p) \<longrightarrow> symbol (data b' ! p)"
    using decode_erasures_corrects [OF dec c(1,2) b(1) el few] by blast
  have "data b' ! p = data c ! p" if "p < 255" for p
    using b'(3,4) that mask_symbol symbols_nth [OF c(3)] symbols_nth [OF b(2)] b(1) c(2) by metis
  then show ?thesis using b'(1,2) c(2) by (auto intro: nth_equalityI)
qed

lemma symbols_errors: "symbols (data c) \<Longrightarrow> symbols (data (fold add_error ps c))"
proof (induction ps arbitrary: c)
  case (Cons p ps)
  have "symbols (data (add_error p c))"
    using Cons.prems symbol_mask [of "NOT (data c ! p)"] set_update_subset_insert [of "data c" p "NOT (data c ! p) AND 255"]
    by (auto simp: add_error_def set_sym_def list_all_iff)
  then show ?case using Cons.IH by simp
qed simp

section \<open>The loop\<close>

lemma counting_loop:
  assumes "\<And>i s d. i \<in> set xs \<Longrightarrow> I s \<Longrightarrow> \<exists>s'. f i (s, d, e) = Some (s', d + m, e) \<and> I s'" and "I s" and "l = length xs * m"
  shows "\<exists>s'. fold_opt f xs (s, d :: nat, e) = Some (s', d + l, e) \<and> I s'"
  unfolding assms(3) using assms(1,2)
proof (induction xs arbitrary: s d)
  case (Cons x xs)
  from Cons.prems(1) [of x s d] Cons.prems(2) obtain s' where "f x (s, d, e) = Some (s', d + m, e)" "I s'" by auto
  moreover from this Cons.IH [OF Cons.prems(1), of s' "d + m"] obtain s''
    where "fold_opt f xs (s', d + m, e) = Some (s'', d + m + length xs * m, e)" "I s''" by auto
  ultimately show ?case by (auto simp: add.assoc)
qed simp

text \<open>What a block to decode has to fulfil, and its own result fulfils again.\<close>

definition decodable :: "nat \<Rightarrow> rsblock list \<Rightarrow> speed_case \<Rightarrow> rsblock \<Rightarrow> bool" where
  "decodable k cs t b \<longleftrightarrow> fst t < length cs \<and> distinct (fst (snd t)) \<and> set (fst (snd t)) \<subseteq> {..<255} \<and> length (data b) = 255 \<and>
     symbols (data b) \<and> 2 * card (damaged_positions b (cs ! fst t) - set (fst (snd t))) + length (fst (snd t)) \<le> k"

lemma speed_loop_counts:
  assumes dec: "dec_full k a dec"
    and cs: "\<And>i. i < length cs \<Longrightarrow> codeword 255 k dec a (cs ! i) \<and> length (data (cs ! i)) = 255 \<and> symbols (data (cs ! i))"
    and ts: "\<And>t. t \<in> set ts \<Longrightarrow> decodable k cs t (snd (snd t))"
  shows "speed_loop 255 (decode_erasures 255 k dec) cs ts = Some (100 * length ts, 0)"
proof -
  let ?I = "\<lambda>bs. length bs = length ts \<and> (\<forall>j<length ts. decodable k cs (ts ! j) (bs ! j))"
  have step: "\<exists>bs'. speed_step 255 (decode_erasures 255 k dec) cs ts i (bs, d, 0) = Some (bs', d + 1, 0) \<and> ?I bs'"
    if i: "i \<in> set [0..<length ts]" and I: "?I bs" for i bs d
  proof -
    have i': "i < length ts" using i by simp
    have g: "decodable k cs (ts ! i) (bs ! i)" using I i' by blast
    note c = cs [of "fst (ts ! i)"]
    obtain b where b: "decode_erasures 255 k dec (fst (snd (ts ! i))) (bs ! i) = Some (True, b)" "data b = data (cs ! fst (ts ! i))"
      using exact_decode [OF dec, of "cs ! fst (ts ! i)" "bs ! i" "fst (snd (ts ! i))"] g c by (auto simp: decodable_def)
    have "damaged_positions b (cs ! fst (ts ! i)) = {}" using b(2) by (simp add: damaged_positions_def)
    then have "decodable k cs (ts ! i) b" using g c b(2) by (simp add: decodable_def)
    then have "decodable k cs (ts ! j) (bs[i := b] ! j)" if "j < length ts" for j
      using I that by (cases "j = i") simp_all
    then have "?I (bs[i := b])" using I by simp
    moreover have "are_blocks_equivelent 255 b (cs ! fst (ts ! i))" using b(2) by (simp add: are_blocks_equivelent_def list_all_iff)
    ultimately show ?thesis using b(1) by (simp add: speed_step_def)
  qed
  let ?F = "speed_step 255 (decode_erasures 255 k dec) cs ts"
  have pass: "\<exists>bs'. fold_opt ?F [0..<length ts] (bs, d, 0) = Some (bs', d + length ts, 0) \<and> ?I bs'" if "?I bs" for bs d
    by (rule counting_loop [where I = ?I and m = 1], rule step) (use that in simp_all)
  have start: "?I (map (\<lambda>t. snd (snd t)) ts)" using ts by simp
  have "\<exists>bs'. fold_opt (\<lambda>j. fold_opt ?F [0..<length ts]) [0..<max_iterations] (map (\<lambda>t. snd (snd t)) ts, 0, 0) =
      Some (bs', 0 + 100 * length ts, 0) \<and> ?I bs'"
    by (rule counting_loop [where I = ?I], rule pass, assumption, rule start) (simp add: max_iterations_def del: upt_rec_numeral)
  then obtain bs' where "fold_opt (\<lambda>j. fold_opt ?F [0..<length ts]) [0..<max_iterations] (map (\<lambda>t. snd (snd t)) ts, 0, 0) =
      Some (bs', 0 + 100 * length ts, 0)" by blast
  then show ?thesis unfolding speed_loop_def by simp
qed

section \<open>The cases\<close>

lemma burst_decodable:
  assumes c: "length (data (cs ! i)) = 255" "symbols (data (cs ! i))" "i < length cs"
    and el: "distinct el" "2 * card (set ps - set el) + length el \<le> k" "set el \<subseteq> {..<255}"
  shows "decodable k cs (i, el, fold add_error ps (cs ! i)) (fold add_error ps (cs ! i))"
proof -
  have "damaged_positions (fold add_error ps (cs ! i)) (cs ! i) \<subseteq> set ps"
    unfolding damage_255 [symmetric] by (rule damage_errors_subset)
  then have "card (damaged_positions (fold add_error ps (cs ! i)) (cs ! i) - set el) \<le> card (set ps - set el)"
    by (intro card_mono) auto
  then show ?thesis using assms symbols_errors [of "cs ! i" ps] by (simp add: decodable_def length_errors)
qed

lemma burst_few: "card ((\<lambda>i. (p + i) mod n) ` {0..<m}) \<le> m"
  using card_image_le [of "{0..<m}" "\<lambda>i. (p + i) mod n"] by simp

lemma error_cases_decodable:
  assumes cs: "\<And>i. i < length cs \<Longrightarrow> length (data (cs ! i)) = 255 \<and> symbols (data (cs ! i))"
    and t: "t \<in> set (error_cases 255 k cs)"
  shows "decodable k cs t (snd (snd t))"
proof -
  from t obtain i m p where t: "t = (i, [], fold add_error (map (\<lambda>i. (p + 1 * i) mod 255) [0..<m]) (cs ! i))"
    "i < length cs" "m \<le> k div 2"
    by (auto simp: error_cases_def all_errors_fold simp del: upt_rec_numeral)
  have "2 * card ((\<lambda>i. (p + i) mod 255) ` {0..<m}) \<le> k" using burst_few [of p 255 m] t(3) by linarith
  then show ?thesis unfolding t(1) snd_conv
    using cs [OF t(2)] t(2) by (intro burst_decodable) simp_all
qed

lemma erasure_cases_decodable:
  assumes cs: "\<And>i. i < length cs \<Longrightarrow> length (data (cs ! i)) = 255 \<and> symbols (data (cs ! i))"
    and t: "t \<in> set (erasure_cases 255 k cs)"
  shows "decodable k cs t (snd (snd t))"
proof -
  from t obtain i m p where t: "t = (let ps = map (\<lambda>i. (p + 1 * i) mod 255) [0..<m] in
      (i, filter (\<lambda>i. i \<in> set ps) [0..<255], fold add_error ps (cs ! i)))"
    "i < length cs" "m \<le> k"
    by (auto simp: erasure_cases_def all_erasures_fold Let_def simp del: upt_rec_numeral)
  define ps where "ps = map (\<lambda>i. (p + 1 * i) mod 255) [0..<m]"
  define el where "el = filter (\<lambda>i. i \<in> set ps) [0..<255]"
  have e: "set el = set ps" "distinct el" unfolding el_def ps_def by (auto simp del: upt_rec_numeral)
  then have "length el \<le> k" using burst_few [of p 255 m] t(3) distinct_card [OF e(2)] by (simp add: ps_def)
  moreover have "set el \<subseteq> {..<255}" unfolding e ps_def by auto
  ultimately show ?thesis unfolding t(1) Let_def ps_def [symmetric] el_def [symmetric] snd_conv
    using cs [OF t(2)] t(2) e by (intro burst_decodable) simp_all
qed

lemma length_error_cases: "length (error_cases n k cs) = length cs * (k div 2 * n)"
  by (simp add: error_cases_def length_concat_const [where l = "k div 2 * n"] length_concat_const [where l = n])

lemma length_erasure_cases: "length (erasure_cases n k cs) = length cs * (k * n)"
  by (simp add: erasure_cases_def length_concat_const [where l = "k * n"] length_concat_const [where l = n])

section \<open>Every block is decoded\<close>

lemma collect_blocks:
  assumes "\<And>i. i \<in> set xs \<Longrightarrow> f i = Some (True, c i)"
  shows "fold_opt (\<lambda>i l. do { (ok, b) \<leftarrow> f i; Some (l @ [b]) }) xs l = Some (l @ map c xs)"
  using assms by (induction xs arbitrary: l) simp_all

lemma length_messages [simp]: "length (create_messages n False) = 25"
  by (simp add: create_messages_def)

lemma original_blocks:
  assumes s: "rs_setup k a f g"
  obtains cs where "create_blocks (encode_string 255 k (encoder_ctor 255 f g)) 255 k raw False = Some cs" "length cs = 25"
    "\<And>i. i < length cs \<Longrightarrow> codeword 255 k (decoder_ctor 255 k f a) a (cs ! i) \<and> length (data (cs ! i)) = 255 \<and> symbols (data (cs ! i))"
proof -
  let ?e = "\<lambda>i. encode_string 255 k (encoder_ctor 255 f g) (create_messages (255 - k) False ! i) (block_ctor (alloc 255 (raw i)))"
  let ?c = "\<lambda>i. snd (the (?e i))"
  have c: "?e i = Some (True, ?c i) \<and> codeword 255 k (decoder_ctor 255 k f a) a (?c i) \<and> length (data (?c i)) = 255 \<and> symbols (data (?c i))" for i
    using plain_block [OF s, of "alloc 255 (raw i)" "create_messages (255 - k) False ! i"] by (simp add: alloc_def del: upt_rec_numeral) fastforce
  have "create_blocks (encode_string 255 k (encoder_ctor 255 f g)) 255 k raw False = Some (map ?c [0..<25])"
    using collect_blocks [of "[0..<25]" ?e ?c "[]"] c unfolding create_blocks_def Let_def length_messages by (simp del: upt_rec_numeral)
  then show ?thesis using c by (intro that [of "map ?c [0..<25]"]) (simp_all del: upt_rec_numeral)
qed

lemma speed_test_decodes:
  assumes k: "0 < k" "a + k \<le> 255"
    and cases: "\<And>cs t. (\<And>i. i < length cs \<Longrightarrow> length (data (cs ! i)) = 255 \<and> symbols (data (cs ! i))) \<Longrightarrow>
        t \<in> set (cases 255 k cs) \<Longrightarrow> decodable k cs t (snd (snd t))"
    and len: "\<And>cs. length (cases 255 k cs) = length cs * m"
  shows "decoder_speed_test cases mem 8 a 255 k primitive_polynomial_size06 primitive_polynomial06 = Some (Some (100 * (25 * m), 0))"
proof -
  let ?f = "rs_field (mem_alpha mem) (mem_index mem) (mem_beyond mem)"
  obtain g where s: "rs_setup k a ?f g" using rs_field_setup [OF k] .
  obtain cs where cs: "create_blocks (encode_string 255 k (encoder_ctor 255 ?f g)) 255 k (mem_block mem) False = Some cs" "length cs = 25"
    "\<And>i. i < length cs \<Longrightarrow> codeword 255 k (decoder_ctor 255 k ?f a) a (cs ! i) \<and> length (data (cs ! i)) = 255 \<and> symbols (data (cs ! i))"
    using original_blocks [OF s] by blast
  have "speed_loop 255 (decode_erasures 255 k (decoder_ctor 255 k ?f a)) cs (cases 255 k cs) = Some (100 * length (cases 255 k cs), 0)"
    using speed_loop_counts [OF rs_setup_ok(3) [OF s] cs(3)] cases cs(3) by blast
  moreover have "make_sequential_root_generator_polynomial ?f a k = Some g" using s by (simp add: rs_setup_def)
  ultimately show ?thesis unfolding decoder_speed_test_def rs_field_def [symmetric] Let_def
    using cs(1,2) len by simp
qed

text \<open>Decoding does not disturb what it has restored: all hundred rounds succeed on every block.\<close>

lemma errors_speed_test:
  assumes "0 < k" "a + k \<le> 255"
  shows "all_errors_decoder_speed_test mem 8 a 255 k primitive_polynomial_size06 primitive_polynomial06 =
     Some (Some (100 * (25 * (k div 2 * 255)), 0))"
  unfolding all_errors_decoder_speed_test_def
  by (rule speed_test_decodes [OF assms]) (use error_cases_decodable length_error_cases in blast)+

lemma erasures_speed_test:
  assumes "0 < k" "a + k \<le> 255"
  shows "all_erasures_decoder_speed_test mem 8 a 255 k primitive_polynomial_size06 primitive_polynomial06 =
     Some (Some (100 * (25 * (k * 255)), 0))"
  unfolding all_erasures_decoder_speed_test_def
  by (rule speed_test_decodes [OF assms]) (use erasure_cases_decodable length_erasure_cases in blast)+

text \<open>
  The decoder speed tests never fail. Each of the runs of \<^verbatim>\<open>speed_test_00\<close> and \<^verbatim>\<open>speed_test_01\<close> has a
  generator polynomial, decodes every burst of errors or erasures the code can correct in each of 25 blocks, from every
  start, in place and a hundred times over, and counts only successes, whatever the memory held before.
\<close>

lemma speed_tests_succeed:
  "speed_test_00 mem = map (\<lambda>k. Some (Some (100 * (25 * (k div 2 * 255)), 0))) speed_fec_lengths \<and>
   speed_test_01 mem = map (\<lambda>k. Some (Some (100 * (25 * (k * 255)), 0))) speed_fec_lengths"
  unfolding speed_test_00_def speed_test_01_def
  by (intro conjI map_cong refl errors_speed_test erasures_speed_test) (auto simp: speed_fec_lengths_def)

end
