(* ===== verification/GeneralCodec.thy ===== *)
theory GeneralCodec
  imports RSDecode
begin

text \<open>
  \<^verbatim>\<open>schifra_reed_solomon_general_codec.hpp\<close>: a table of encoders and decoders, one for each of twenty numbers of
  parity symbols, kept behind \<^verbatim>\<open>void*\<close> pointers, with the static assertions of
  \<^verbatim>\<open>schifra_ecc_traits.hpp\<close> on its parameters. A pointer remembers here the class it was made from; to read one
  that was never written, to use one as another class, and to write outside the table have no result.
\<close>

section \<open>The table\<close>

definition validate_reed_solomon_code_parameters :: "nat \<Rightarrow> nat \<Rightarrow> nat \<Rightarrow> bool" where
  "validate_reed_solomon_code_parameters code_length fec_length data_length \<longleftrightarrow>
     code_length > 0 \<and> code_length > fec_length \<and> code_length > data_length \<and> code_length = fec_length + data_length"

datatype 'a slot = Unset | Null | Obj nat nat 'a

record general_codec =
  codec_encoder :: "encoder slot list"
  codec_decoder :: "decoder slot list"

definition create_encoder :: "nat \<Rightarrow> nat \<Rightarrow> gfield \<Rightarrow> nat \<Rightarrow> encoder slot" where
  "create_encoder code_length fec_length field gen_poly_index =
     (case make_sequential_root_generator_polynomial field gen_poly_index fec_length of
        None \<Rightarrow> Null
      | Some gen_polynomial \<Rightarrow> Obj code_length fec_length (encoder_ctor code_length field gen_polynomial))"

definition create_decoder :: "nat \<Rightarrow> nat \<Rightarrow> gfield \<Rightarrow> nat \<Rightarrow> decoder slot" where
  "create_decoder code_length fec_length field gen_poly_index =
     Obj code_length fec_length (decoder_ctor code_length fec_length field gen_poly_index)"

definition codec_fec_lengths :: "nat list" where
  "codec_fec_lengths = [2, 4, 6, 8, 10, 12, 14, 16, 18, 20, 22, 24, 26, 28, 30, 32, 64, 80, 96, 128]"

definition put_slot :: "(nat \<Rightarrow> 'a slot) \<Rightarrow> nat \<Rightarrow> 'a slot list \<Rightarrow> 'a slot list option" where
  "put_slot create i slots = (if i < length slots then Some (slots[i := create i]) else None)"

definition zero_slots :: "nat \<Rightarrow> 'a slot list" where
  "zero_slots max_fec_length = fold (\<lambda>i slots. slots[i := Null]) [0..<max_fec_length] (replicate (max_fec_length + 1) Unset)"

definition general_codec_ctor :: "nat \<Rightarrow> nat \<Rightarrow> gfield \<Rightarrow> nat \<Rightarrow> general_codec option" where
  "general_codec_ctor code_length max_fec_length field gen_poly_index = do {
     enc \<leftarrow> fold_opt (put_slot (\<lambda>k. create_encoder code_length k field gen_poly_index)) codec_fec_lengths (zero_slots max_fec_length);
     dec \<leftarrow> fold_opt (put_slot (\<lambda>k. create_decoder code_length k field gen_poly_index)) codec_fec_lengths (zero_slots max_fec_length);
     Some \<lparr>codec_encoder = enc, codec_decoder = dec\<rparr>
   }"

text \<open>Use of a pointer: nothing if it is not set, \<open>Null\<close>, or an object of the class \<open>(n, k)\<close>.\<close>

definition use_slot :: "nat \<Rightarrow> nat \<Rightarrow> 'a slot \<Rightarrow> 'b \<Rightarrow> ('a \<Rightarrow> 'b option) \<Rightarrow> 'b option" where
  "use_slot n k s none use =
     (case s of Unset \<Rightarrow> None | Null \<Rightarrow> Some none | Obj n' k' x \<Rightarrow> if n' = n \<and> k' = k then use x else None)"

text \<open>The block is of the class \<open>(n, k)\<close>; a longer parity than the table has does not compile.\<close>

definition codec_encode :: "nat \<Rightarrow> nat \<Rightarrow> general_codec \<Rightarrow> rsblock \<Rightarrow> (bool \<times> rsblock) option" where
  "codec_encode n k codec b =
     (if k < length (codec_encoder codec)
      then use_slot n k (codec_encoder codec ! k) (False, b) (\<lambda>enc. encode n k enc b) else None)"

definition codec_decode :: "nat \<Rightarrow> nat \<Rightarrow> general_codec \<Rightarrow> rsblock \<Rightarrow> (bool \<times> rsblock) option" where
  "codec_decode n k codec b =
     (if k < length (codec_decoder codec)
      then use_slot n k (codec_decoder codec ! k) (False, b) (\<lambda>dec. decode n k dec b) else None)"

text \<open>The destructor; its result is the list of the objects it deletes.\<close>

definition delete_slot :: "nat \<Rightarrow> 'a slot list \<Rightarrow> nat \<Rightarrow> 'a list \<Rightarrow> 'a list option" where
  "delete_slot code_length slots k deleted = use_slot code_length k (slots ! k) deleted (\<lambda>x. Some (deleted @ [x]))"

definition general_codec_dtor :: "nat \<Rightarrow> general_codec \<Rightarrow> (encoder list \<times> decoder list) option" where
  "general_codec_dtor code_length codec = do {
     encoders \<leftarrow> fold_opt (delete_slot code_length (codec_encoder codec)) codec_fec_lengths [];
     decoders \<leftarrow> fold_opt (delete_slot code_length (codec_decoder codec)) codec_fec_lengths [];
     Some (encoders, decoders)
   }"

section \<open>The table after construction\<close>

lemma put_slots:
  assumes "list_all (\<lambda>i. i < length slots) is"
  shows "fold_opt (put_slot create) is slots = Some (fold (\<lambda>i slots. slots[i := create i]) is slots)"
  using assms by (induction "is" arbitrary: slots) (simp_all add: put_slot_def)

lemma put_slot_outside:
  assumes "i \<in> set is" "length slots \<le> i"
  shows "fold_opt (put_slot create) is slots = None"
  using assms by (induction "is" arbitrary: slots) (auto simp: put_slot_def)

lemma length_puts [simp]: "length (fold (\<lambda>i slots. slots[i := create i]) is slots) = length slots"
  by (induction "is" arbitrary: slots) simp_all

lemma nth_puts:
  assumes "j < length slots"
  shows "fold (\<lambda>i slots. slots[i := create i]) is slots ! j = (if j \<in> set is then create j else slots ! j)"
  using assms by (induction "is" arbitrary: slots) auto

definition table :: "nat \<Rightarrow> (nat \<Rightarrow> 'a slot) \<Rightarrow> 'a slot list" where
  "table m create = map (\<lambda>i. if i \<in> set codec_fec_lengths then create i else if i < m then Null else Unset) [0..<m + 1]"

lemma table_eq:
  fixes create :: "nat \<Rightarrow> 'a slot"
  assumes "128 \<le> m"
  shows "fold_opt (put_slot create) codec_fec_lengths (zero_slots m) = Some (table m create)"
proof -
  have l: "length (zero_slots m :: 'a slot list) = m + 1" by (simp add: zero_slots_def)
  have "list_all (\<lambda>i. i < length (zero_slots m :: 'a slot list)) codec_fec_lengths" using assms unfolding l by (simp add: codec_fec_lengths_def)
  moreover have "(zero_slots m :: 'a slot list) ! i = (if i < m then Null else Unset)" if "i \<le> m" for i
    using that by (simp add: zero_slots_def nth_puts nth_replicate less_Suc_eq_le del: replicate_Suc)
  then have "fold (\<lambda>i slots. slots[i := create i]) codec_fec_lengths (zero_slots m) = table m create"
    by (intro nth_equalityI) (auto simp: l table_def nth_puts less_Suc_eq_le simp del: upt_Suc)
  ultimately show ?thesis by (simp only: put_slots)
qed

lemma general_codec_table:
  assumes "128 \<le> m"
  shows "general_codec_ctor n m f a =
    Some \<lparr>codec_encoder = table m (\<lambda>k. create_encoder n k f a), codec_decoder = table m (\<lambda>k. create_decoder n k f a)\<rparr>"
  using assms by (simp add: general_codec_ctor_def table_eq)

lemma length_table [simp]: "length (table m create) = m + 1"
  by (simp add: table_def)

lemma nth_table:
  assumes "j \<le> m"
  shows "table m create ! j = (if j \<in> set codec_fec_lengths then create j else if j < m then Null else Unset)"
  using assms by (simp add: table_def less_Suc_eq_le del: upt_Suc)

text \<open>The table has to have room for the greatest number, and its last place is not set to zero.\<close>

lemma small_table_overflows:
  assumes "m < 128"
  shows "general_codec_ctor n m f a = None"
  using assms by (simp add: general_codec_ctor_def put_slot_outside [of 128] codec_fec_lengths_def zero_slots_def del: fold_opt.simps)

lemma last_slot_unset:
  assumes "128 < m"
  shows "\<exists>codec. general_codec_ctor n m f a = Some codec \<and> codec_encode n m codec b = None"
  using assms general_codec_table [of m n f a] by (simp add: codec_encode_def nth_table use_slot_def codec_fec_lengths_def)

text \<open>The destructor deletes every object of the table once.\<close>

primrec slot_objects :: "'a slot \<Rightarrow> 'a list" where
  "slot_objects Unset = []"
| "slot_objects Null = []"
| "slot_objects (Obj n k x) = [x]"

lemma delete_slots:
  assumes "\<And>k. k \<in> set ks \<Longrightarrow> slots ! k = Null \<or> (\<exists>x. slots ! k = Obj n k x)"
  shows "fold_opt (delete_slot n slots) ks deleted = Some (deleted @ concat (map (\<lambda>k. slot_objects (slots ! k)) ks))"
  using assms by (induction ks arbitrary: deleted) (fastforce simp: delete_slot_def use_slot_def)+

lemma concat_filter:
  assumes "\<And>x. x \<in> set xs \<Longrightarrow> \<not> P x \<Longrightarrow> f x = []"
  shows "concat (map f xs) = concat (map f (filter P xs))"
  using assms by (induction xs) auto

lemma table_objects:
  assumes "128 \<le> m"
  shows "concat (map slot_objects (table m create)) = concat (map (\<lambda>k. slot_objects (table m create ! k)) codec_fec_lengths)"
proof -
  let ?f = "\<lambda>k. slot_objects (table m create ! k)"
  have s: "set (filter (\<lambda>k. k \<in> set codec_fec_lengths) [0..<m + 1]) = set codec_fec_lengths"
    using assms by (auto simp: codec_fec_lengths_def)
  have "filter (\<lambda>k. k \<in> set codec_fec_lengths) [0..<m + 1] = codec_fec_lengths"
    by (rule sorted_distinct_set_unique [OF _ _ _ _ s]) (simp_all add: sorted_wrt_filter codec_fec_lengths_def del: upt_Suc)
  moreover have "concat (map ?f [0..<m + 1]) = concat (map ?f (filter (\<lambda>k. k \<in> set codec_fec_lengths) [0..<m + 1]))"
    by (rule concat_filter) (simp add: nth_table less_Suc_eq_le del: upt_Suc)
  moreover have "map slot_objects (table m create) = map ?f [0..<m + 1]"
    by (rule nth_equalityI) (simp_all del: upt_Suc)
  ultimately show ?thesis by (simp only:)
qed

lemma destructor_deletes_all:
  assumes "128 \<le> m"
  shows "\<exists>codec. general_codec_ctor n m f a = Some codec \<and>
     general_codec_dtor n codec = Some (concat (map slot_objects (codec_encoder codec)), concat (map slot_objects (codec_decoder codec)))"
proof -
  let ?e = "table m (\<lambda>k. create_encoder n k f a)" and ?d = "table m (\<lambda>k. create_decoder n k f a)"
  have le: "k \<in> set codec_fec_lengths \<Longrightarrow> k \<le> m" for k using assms by (auto simp: codec_fec_lengths_def)
  have "fold_opt (delete_slot n ?e) codec_fec_lengths [] = Some ([] @ concat (map (\<lambda>k. slot_objects (?e ! k)) codec_fec_lengths))"
    by (rule delete_slots) (simp add: nth_table le create_encoder_def split: option.split)
  moreover have "fold_opt (delete_slot n ?d) codec_fec_lengths [] = Some ([] @ concat (map (\<lambda>k. slot_objects (?d ! k)) codec_fec_lengths))"
    by (rule delete_slots) (simp add: nth_table le create_decoder_def)
  ultimately show ?thesis by (simp add: general_codec_table [OF assms] general_codec_dtor_def table_objects [OF assms])
qed

section \<open>The codec\<close>

lemma codec_table:
  assumes "general_codec_ctor n 128 f a = Some codec"
  shows "codec = \<lparr>codec_encoder = table 128 (\<lambda>k. create_encoder n k f a), codec_decoder = table 128 (\<lambda>k. create_decoder n k f a)\<rparr>"
  using assms general_codec_table [of 128 n f a] by simp

lemma unsupported:
  assumes "k \<notin> set codec_fec_lengths" "k < 128" "general_codec_ctor n 128 f a = Some codec"
  shows "codec_encode n k codec b = Some (False, b)" "codec_decode n k codec b = Some (False, b)"
proof -
  note codec_table [OF assms(3)]
  then show "codec_encode n k codec b = Some (False, b)" "codec_decode n k codec b = Some (False, b)"
    using assms(1,2) by (simp_all add: codec_encode_def codec_decode_def nth_table use_slot_def)
qed

text \<open>Without a generator polynomial nothing is encoded, but the decoder is made all the same.\<close>

lemma supported:
  assumes "k \<in> set codec_fec_lengths" "general_codec_ctor n 128 f a = Some codec"
  shows "codec_encode n k codec b = (case make_sequential_root_generator_polynomial f a k of
      None \<Rightarrow> Some (False, b) | Some g \<Rightarrow> encode n k (encoder_ctor n f g) b)"
    "codec_decode n k codec b = decode n k (decoder_ctor n k f a) b"
proof -
  have "k \<le> 128" using assms(1) by (auto simp: codec_fec_lengths_def)
  then show "codec_encode n k codec b = (case make_sequential_root_generator_polynomial f a k of
      None \<Rightarrow> Some (False, b) | Some g \<Rightarrow> encode n k (encoder_ctor n f g) b)"
    "codec_decode n k codec b = decode n k (decoder_ctor n k f a) b"
    unfolding codec_table [OF assms(2)] using assms(1)
    by (simp_all add: codec_encode_def codec_decode_def nth_table use_slot_def create_encoder_def create_decoder_def split: option.split)
qed

lemma codec_parameters:
  "list_all (\<lambda>k. validate_reed_solomon_code_parameters n k (n - k)) codec_fec_lengths \<longleftrightarrow> 128 < n"
  by (auto simp: validate_reed_solomon_code_parameters_def codec_fec_lengths_def)

lemma supported_corrects:
  assumes a: "a + 128 \<le> 255" and b: "length (data b) = 255" and k: "k \<in> set codec_fec_lengths"
    and codec: "general_codec_ctor 255 128 (rs_field al ix beyond) a = Some codec"
  shows "\<exists>c. codec_encode 255 k codec b = Some (True, c) \<and> take (255 - k) (data c) = take (255 - k) (data b) \<and>
    (\<forall>r. length (data r) = 255 \<longrightarrow> 2 * card (damaged_positions r c) \<le> k \<longrightarrow>
      (\<exists>r'. codec_decode 255 k codec r = Some (True, r') \<and> errors_corrected r' = card (damaged_positions r c) \<and>
         (\<forall>p<255. data r' ! p AND 255 = data c ! p AND 255)))"
proof -
  let ?f = "rs_field al ix beyond"
  have k': "0 < k" "a + k \<le> 255" using k a by (auto simp: codec_fec_lengths_def)
  then obtain g where g: "make_sequential_root_generator_polynomial ?f a k = Some g"
    using make_generator_ok [OF rs_field_ok [of al ix beyond], of a k] by auto
  then have s: "rs_setup k a ?f g" using k' by (auto simp: rs_setup_def)
  have d: "dec_ok k a (decoder_ctor 255 k ?f a)" using rs_setup_ok(3) [OF s] by (simp add: dec_full_def)
  let ?c = "b\<lparr>data := take (255 - k) (data b) @ parities k (encoder_ctor 255 ?f g) b\<rparr>"
  have e: "codec_encode 255 k codec b = Some (True, ?c)" "codeword 255 k (decoder_ctor 255 k ?f a) a ?c"
    "length (data ?c) = 255"
    using encode_ok [OF rs_setup_ok(2) [OF s] d b] supported(1) [OF k codec, of b] g b k' by auto
  moreover have "take (255 - k) (data ?c) = take (255 - k) (data b)" using b by simp
  moreover have "\<exists>r'. codec_decode 255 k codec r = Some (True, r') \<and> errors_corrected r' = card (damaged_positions r ?c) \<and>
      (\<forall>p<255. data r' ! p AND 255 = data ?c ! p AND 255)"
    if "length (data r) = 255" "2 * card (damaged_positions r ?c) \<le> k" for r
    using decode_corrects [OF rs_setup_ok(3) [OF s] e(2,3) that] supported(2) [OF k codec, of r] by auto
  ultimately show ?thesis by blast
qed

text \<open>
  C15: the general codec of code length 255 over the field of the program. It is built for every number of the table,
  encodes a block of each of these classes to a code word that keeps the data, and restores the code word from every
  received block with at most half as many wrong symbols as parities; a block of another class is refused and not
  changed; and the destructor deletes all the encoders and decoders that the constructor made, each of them once.
\<close>

theorem general_codec_corrects:
  assumes "a + 128 \<le> 255" and "length (data b) = 255" and "k < 129"
  shows "\<exists>codec. general_codec_ctor 255 128 (rs_field al ix beyond) a = Some codec \<and>
     (if k \<in> set codec_fec_lengths
      then \<exists>c. codec_encode 255 k codec b = Some (True, c) \<and> take (255 - k) (data c) = take (255 - k) (data b) \<and>
        (\<forall>r. length (data r) = 255 \<longrightarrow> 2 * card (damaged_positions r c) \<le> k \<longrightarrow>
          (\<exists>r'. codec_decode 255 k codec r = Some (True, r') \<and> errors_corrected r' = card (damaged_positions r c) \<and>
             (\<forall>p<255. data r' ! p AND 255 = data c ! p AND 255)))
      else codec_encode 255 k codec b = Some (False, b) \<and> codec_decode 255 k codec b = Some (False, b)) \<and>
     general_codec_dtor 255 codec =
       Some (concat (map slot_objects (codec_encoder codec)), concat (map slot_objects (codec_decoder codec)))"
proof -
  let ?f = "rs_field al ix beyond"
  obtain codec where codec: "general_codec_ctor 255 128 ?f a = Some codec" and dtor: "general_codec_dtor 255 codec =
      Some (concat (map slot_objects (codec_encoder codec)), concat (map slot_objects (codec_decoder codec)))"
    using destructor_deletes_all [of 128 255 ?f a] by auto
  have "k < 128" if "k \<notin> set codec_fec_lengths" using that assms(3) by (cases "k = 128") (auto simp: codec_fec_lengths_def)
  then show ?thesis using codec dtor supported_corrects [OF assms(1,2) _ codec, of k] unsupported [OF _ _ codec, of k b] by simp
qed

theorem general_codec_corrects_witness:
  "\<exists>codec. general_codec_ctor 255 128 (rs_field (\<lambda>_. 7) (\<lambda>_. - 2) 1) 120 = Some codec \<and>
     (\<exists>c. codec_encode 255 32 codec (block_ctor (replicate 255 5)) = Some (True, c) \<and> take 223 (data c) = take 223 (replicate 255 5))"
  using general_codec_corrects [of 120 "block_ctor (replicate 255 5)" 32 "\<lambda>_. 7" "\<lambda>_. - 2" 1]
  by (auto simp: block_ctor_def codec_fec_lengths_def)

end
