(* ===== verification/GaloisUtilities.thy ===== *)
theory GaloisUtilities
  imports FieldPolynomial "HOL-Library.List_Lexorder"
begin

text \<open>
  \<^verbatim>\<open>schifra_galois_utilities.hpp\<close>: numbers as text, the table of a field, and polynomials in terms of powers of the
  primitive element. What is written to a stream is the result.
\<close>

section \<open>The functions\<close>

text \<open>\<^verbatim>\<open>setw\<close> with \<^verbatim>\<open>setfill('0')\<close>: zeros in front, also in front of a sign.\<close>

definition fill :: "nat \<Rightarrow> bytes \<Rightarrow> bytes" where
  "fill width text = replicate (width - length text) 48 @ text"

definition convert_to_string_unsigned :: "uint32 \<Rightarrow> nat \<Rightarrow> bytes" where
  "convert_to_string_unsigned v width = fill width (decimal (unat v))"

definition convert_to_string :: "int \<Rightarrow> nat \<Rightarrow> bytes" where
  "convert_to_string v width = fill width (if v < 0 then 45 # decimal (nat (- v)) else decimal (nat v))"

definition convert_to_bin :: "uint32 \<Rightarrow> nat \<Rightarrow> bytes" where
  "convert_to_bin v field_descriptor =
     map (\<lambda>i. if drop_bit (field_descriptor - 1 - i) v AND 1 = 1 then 49 else 48) [0..<field_descriptor]"

definition alpha_row :: "gfield \<Rightarrow> nat \<Rightarrow> bytes" where
  "alpha_row f i = chars ''alpha^'' @ convert_to_string (index f (int i)) 2 @ [9] @
     convert_to_bin (word_of_nat i) (gf_power f) @ [9] @ convert_to_string (alpha f (int i)) 2"

definition alpha_table :: "gfield \<Rightarrow> bytes" where
  "alpha_table f =
     (let str_list = map (alpha_row f) [0..<nat (field_size f + 1)]
      in concat (map (\<lambda>s. s @ [10]) (sort str_list)))"

definition polynomial_alpha_form :: "gfield \<Rightarrow> fpoly \<Rightarrow> bytes" where
  "polynomial_alpha_form f polynomial =
     concat (map (\<lambda>i. let alpha_power = index f (polynomial ! i) in
         (if alpha_power \<noteq> 0 then [224] @ chars ''^'' @ convert_to_string alpha_power 2 else chars ''1'') @
         chars '' * x^'' @ decimal i @ (if int i \<noteq> deg polynomial then chars '' + '' else []))
       [0..<nat (deg polynomial + 1)])"

definition polynomial_alpha_form_line :: "gfield \<Rightarrow> bytes \<Rightarrow> fpoly \<Rightarrow> bytes" where
  "polynomial_alpha_form_line f prepend polynomial = prepend @ polynomial_alpha_form f polynomial @ [10]"

section \<open>Binary text\<close>

text \<open>The number a text of binary digits stands for.\<close>

definition bin_value :: "bytes \<Rightarrow> nat" where
  "bin_value = foldl (\<lambda>v c. 2 * v + (if c = 49 then 1 else 0)) 0"

lemma bit_text: "drop_bit j v AND 1 = (1 :: uint32) \<longleftrightarrow> bit v j"
  by (simp add: and_one_eq odd_iff_mod_2_eq_one [symmetric] bit_iff_odd_drop_bit)

lemma bin_value_snoc: "bin_value (xs @ [c]) = 2 * bin_value xs + (if c = 49 then 1 else 0)"
  by (simp add: bin_value_def)

lemma bin_value_drop:
  assumes "m \<le> n"
  shows "bin_value (map (\<lambda>i. if bit x (n - 1 - i) then 49 else 48) [0..<m]) = x div 2 ^ (n - m) mod 2 ^ m"
  using assms
proof (induction m)
  case (Suc m)
  define y where "y = x div 2 ^ (n - Suc m)"
  have "n - m = Suc (n - Suc m)" using Suc.prems by simp
  then have "x div 2 ^ (n - m) = y div 2" by (simp add: y_def div_mult2_eq [symmetric] mult.commute)
  moreover have "bit x (n - 1 - m) \<longleftrightarrow> odd y" using Suc.prems by (simp add: y_def bit_iff_odd)
  ultimately have "bin_value (map (\<lambda>i. if bit x (n - 1 - i) then 49 else 48) [0..<Suc m]) = 2 * (y div 2 mod 2 ^ m) + y mod 2"
    using Suc by (simp add: bin_value_snoc mod_2_eq_odd)
  also have "\<dots> = y mod 2 ^ Suc m" using mod_mult2_eq [of y 2 "2 ^ m"] by simp
  finally show ?case unfolding y_def .
qed (simp add: bin_value_def)

lemma convert_to_bin_value: "bin_value (convert_to_bin v n) = unat v mod 2 ^ n" "length (convert_to_bin v n) = n"
proof -
  have "convert_to_bin v n = map (\<lambda>i. if bit (unat v) (n - 1 - i) then 49 else 48) [0..<n]"
    unfolding convert_to_bin_def bit_text by (simp add: bit_unsigned_iff)
  then show "bin_value (convert_to_bin v n) = unat v mod 2 ^ n" using bin_value_drop [of n n "unat v"] by simp
qed (simp add: convert_to_bin_def)

text \<open>The table has a line for every element, and each element can be read from its line.\<close>

lemma alpha_table_lines:
  assumes "field_ok f"
  shows "\<exists>rows. alpha_table f = concat (map (\<lambda>s. s @ [10]) rows) \<and> sorted rows \<and> length rows = 256 \<and>
     set rows = alpha_row f ` {0..<256}"
  using assms by (intro exI [of _ "sort (map (alpha_row f) [0..<256])"]) (simp add: alpha_table_def field_ok_def del: upt_rec_numeral)

text \<open>
  The lines are sorted as text, so that the powers do not come in their order; zero, which is no power, is shown as
  the power \<open>-1\<close>; and the last column holds the power \<open>i\<close>, not the element the other two describe.
\<close>

lemma text_order: "chars ''alpha^'' @ convert_to_string 100 2 @ [9] < chars ''alpha^'' @ convert_to_string 11 2 @ [9]"
  by (simp add: convert_to_string_def fill_def decimal.simps)

lemma zero_symbol:
  assumes "field_ok f"
  shows "index f 0 = - 1" "alpha f 0 = 1" "gf_power f = 8"
  using assms alpha_ok [OF assms, of 0] by (simp_all add: field_ok_def logs_ok_def index_def at_def)

lemma short_numbers: "convert_to_string (- 1) 2 = [45, 49]" "convert_to_string 1 2 = [48, 49]" "decimal 0 = [48]"
  by (simp_all add: convert_to_string_def fill_def decimal.simps)

lemma zero_row: "field_ok f \<Longrightarrow> alpha_row f 0 = chars ''alpha^-1'' @ [9] @ chars ''00000000'' @ [9] @ chars ''01''"
  by (simp add: alpha_row_def zero_symbol short_numbers convert_to_bin_def upt_rec)

lemma zero_coefficient:
  "field_ok f \<Longrightarrow> polynomial_alpha_form f [0] = [224] @ chars ''^-1 * x^0''"
  by (simp add: polynomial_alpha_form_def deg_def zero_symbol short_numbers)

text \<open>The line of any other element: a power of the primitive element that is it, and its bits.\<close>

lemma element_row:
  assumes f: "field_ok f" and v: "0 < v" "v < 256"
  shows "\<exists>j bits. j < 255 \<and> alpha f (int j) = int v \<and> length bits = 8 \<and> bin_value bits = v \<and>
     alpha_row f v = chars ''alpha^'' @ fill 2 (decimal j) @ [9] @ bits @ [9] @ convert_to_string (alpha f (int v)) 2"
proof -
  have j: "index f (int v) = int (dlog (int v))" using index_ok [OF f, of "int v"] v by simp
  have d: "dlog (int v) < 255" "aseq (dlog (int v)) = int v" using aseq_dlog [of "int v"] v by auto
  then have "alpha f (int (dlog (int v))) = int v" using alpha_ok [OF f, of "int (dlog (int v))"] by simp
  moreover have "unat (word_of_nat v :: uint32) = v" using v by (simp add: unat_of_nat take_bit_eq_mod)
  then have "bin_value (convert_to_bin (word_of_nat v) 8) = v" using v convert_to_bin_value(1) [of "word_of_nat v" 8] by simp
  ultimately show ?thesis using d(1) zero_symbol(3) [OF f] convert_to_bin_value(2)
    by (intro exI [of _ "dlog (int v)"] exI [of _ "convert_to_bin (word_of_nat v) 8"]) (simp add: alpha_row_def j convert_to_string_def)
qed

end
