(* ===== verification/LibraryDecoder.thy ===== *)
theory LibraryDecoder
  imports FileCodec "HOL-Library.Sublist"
begin

text \<open>
  \<^verbatim>\<open>schifra_reed_solomon_file_decoder.hpp\<close>: the file decoder of the library, of which \<^verbatim>\<open>fileDecoder.cpp\<close> is a copy
  changed to report a status. It does its work in its constructor, says on the screen which blocks could not be
  decoded, and goes on with the next block. The program's copy is compared with it.
\<close>

section \<open>The constructor\<close>

record ldec =
  ld_block :: rsblock
  ld_index :: nat
  ld_buffer :: bytes
  ld_in :: bytes
  ld_out :: bytes

definition lib_complete_block :: "nat \<Rightarrow> nat \<Rightarrow> block_op \<Rightarrow> ldec \<Rightarrow> ldec option" where
  "lib_complete_block n k dec st = do {
     let (buf, rest) = stream_read n (ld_in st) (ld_buffer st);
     (ok, blk) \<leftarrow> dec (copy_chars buf n (ld_block st));
     let st = st\<lparr>ld_block := blk, ld_buffer := buf, ld_in := rest\<rparr>;
     if \<not> ok then Some st
     else do {
       let buf = map (\<lambda>i. char_of_symbol (data blk ! i)) [0..<n - k] @ drop (n - k) buf;
       Some (st\<lparr>ld_buffer := buf, ld_out := ld_out st @ take (n - k) buf\<rparr>)
     }
   }"

definition lib_partial_block :: "nat \<Rightarrow> nat \<Rightarrow> block_op \<Rightarrow> nat \<Rightarrow> ldec \<Rightarrow> ldec option" where
  "lib_partial_block n k dec read_amount st =
     (if read_amount \<le> k then Some st
      else do {
        let m = read_amount - k;
        let (buf, rest) = stream_read read_amount (ld_in st) (ld_buffer st);
        let blk = fold (\<lambda>i. set_sym i (symbol_of_char (buf ! i))) [0..<m] (ld_block st);
        let blk = (if m < n - k then fold (\<lambda>i. set_sym i 0) [m..<n - k] blk else blk);
        let blk = fold (\<lambda>i. set_fec n k i (symbol_of_char (buf ! (m + i)))) [0..<k] blk;
        (ok, blk) \<leftarrow> dec blk;
        let st = st\<lparr>ld_block := blk, ld_buffer := buf, ld_in := rest\<rparr>;
        if \<not> ok then Some st
        else do {
          let buf = map (\<lambda>i. char_of_symbol (data blk ! i)) [0..<m] @ drop m buf;
          Some (st\<lparr>ld_buffer := buf, ld_out := ld_out st @ take m buf\<rparr>)
        }
      })"

text \<open>The loop of \<^verbatim>\<open>FileIO\<close> over the blocks and the rest, with the index advanced after each complete block.\<close>

definition lib_step :: "nat \<Rightarrow> nat \<Rightarrow> block_op \<Rightarrow> nat \<Rightarrow> ldec \<Rightarrow> ldec option" where
  "lib_step n k dec amount st =
     (if amount = n then do {
        st \<leftarrow> lib_complete_block n k dec st;
        Some (st\<lparr>ld_index := ld_index st + 1\<rparr>)
      } else lib_partial_block n k dec amount st)"

text \<open>
  The block and the buffer of the new object hold what was in memory. The inner \<^term>\<open>None\<close> is the return before the
  output file is created.
\<close>

definition lib_file_decoder ::
  "nat \<Rightarrow> nat \<Rightarrow> block_op \<Rightarrow> field_symbol list \<Rightarrow> bytes \<Rightarrow> bool \<Rightarrow> bytes option \<Rightarrow> bytes option option" where
  "lib_file_decoder n k dec raw buffer can_create input =
     (if file_size input = 0 then Some None
      else case input of
        None \<Rightarrow> Some None
      | Some c \<Rightarrow>
          if \<not> can_create then Some None
          else do {
            st \<leftarrow> blocks n (lib_step n k dec) (file_size input)
              \<lparr>ld_block = block_ctor raw, ld_index = 0, ld_buffer = buffer, ld_in = c, ld_out = []\<rparr>;
            Some (Some (ld_out st))
          })"

section \<open>The program's copy does the same steps\<close>

definition as_library :: "fdec \<Rightarrow> ldec" where
  "as_library st = \<lparr>ld_block = fd_block st, ld_index = current_block_index st, ld_buffer = fd_buffer st, ld_in = fd_in st, ld_out = fd_out st\<rparr>"

lemma as_library_simps [simp]:
  "ld_block (as_library st) = fd_block st" "ld_index (as_library st) = current_block_index st" "ld_buffer (as_library st) = fd_buffer st"
  "ld_in (as_library st) = fd_in st" "ld_out (as_library st) = fd_out st"
  by (simp_all add: as_library_def)

lemma complete_block_same:
  "lib_complete_block n k dec (as_library st) = map_option (\<lambda>(rc, st). as_library st) (process_complete_block n k dec st)"
  by (simp add: lib_complete_block_def process_complete_block_def stream_read_def Let_def as_library_def split: Option.bind_split)

lemma partial_block_same:
  "lib_partial_block n k dec m (as_library st) = map_option (\<lambda>(rc, st). as_library st) (process_partial_block n k dec m st)"
  by (simp add: lib_partial_block_def process_partial_block_def stream_read_def Let_def as_library_def split: Option.bind_split)

text \<open>The output only grows.\<close>

lemma complete_block_grows: "lib_complete_block n k dec st = Some st' \<Longrightarrow> prefix (ld_out st) (ld_out st')"
  by (auto simp: lib_complete_block_def Let_def split: prod.splits bind_splits if_splits)

lemma partial_block_grows: "lib_partial_block n k dec m st = Some st' \<Longrightarrow> prefix (ld_out st) (ld_out st')"
  by (auto simp: lib_partial_block_def Let_def split: prod.splits bind_splits if_splits)

lemma step_grows: "lib_step n k dec m st = Some st' \<Longrightarrow> prefix (ld_out st) (ld_out st')"
  by (auto simp: lib_step_def dest!: complete_block_grows partial_block_grows split: bind_splits if_splits)

lemma blocks_grow: "blocks n (lib_step n k dec) m st = Some st' \<Longrightarrow> prefix (ld_out st) (ld_out st')"
proof (induction m arbitrary: st rule: less_induct)
  case (less m)
  show ?case
  proof (cases "n \<le> m")
    case True
    then obtain st1 where "0 < n" "lib_step n k dec n st = Some st1" "blocks n (lib_step n k dec) (m - n) st1 = Some st'"
      using less.prems by (subst (asm) blocks.simps) (auto split: if_splits bind_splits)
    then show ?thesis using less.IH [of "m - n" st1] True step_grows [of n k dec n st st1] by (auto intro: prefix_order.trans)
  next
    case False
    then show ?thesis using less.prems step_grows [of n k dec m st st'] by (subst (asm) blocks.simps) (auto split: if_splits)
  qed
qed

lemma blocks_defined:
  assumes "0 < n" and "\<And>b. dec b \<noteq> None"
  shows "\<exists>st'. blocks n (lib_step n k dec) m st = Some st'"
proof -
  have d: "lib_step n k dec i st \<noteq> None" for i st
    using assms(2) by (auto simp: lib_step_def lib_complete_block_def lib_partial_block_def Let_def
        simp del: not_None_eq split: prod.splits bind_splits)
  show ?thesis
  proof (induction m arbitrary: st rule: less_induct)
    case (less m)
    obtain st1 st2 where "lib_step n k dec n st = Some st1" "lib_step n k dec m st = Some st2" using d by blast
    then show ?case using less [of "m - n" st1] assms(1) by (subst blocks.simps) auto
  qed
qed

text \<open>The program's loop goes through the same states as long as it goes.\<close>

definition finish :: "nat \<Rightarrow> nat \<Rightarrow> block_op \<Rightarrow> return_type \<times> nat \<times> fdec \<Rightarrow> (return_type \<times> fdec) option" where
  "finish n k dec r =
     (case r of (rc, remaining_bytes, st) \<Rightarrow>
        if rc \<noteq> SUCCESS then Some (ERR_DECODE, st)
        else if remaining_bytes > 0 then process_partial_block n k dec remaining_bytes st else Some (SUCCESS, st))"

lemma finish_same:
  assumes "0 < n" and "\<And>b. dec b \<noteq> None" and "Option.bind (dec_loop n k dec m st) (finish n k dec) = Some (rc, st')"
  shows "\<exists>l. blocks n (lib_step n k dec) m (as_library st) = Some l \<and> prefix (fd_out st') (ld_out l) \<and>
     (rc = SUCCESS \<longrightarrow> l = as_library st')"
  using assms(3)
proof (induction m arbitrary: st rule: less_induct)
  case (less m)
  show ?case
  proof (cases "n \<le> m")
    case False
    then have "dec_loop n k dec m st = Some (SUCCESS, m, st)" using assms(1) by (subst dec_loop.simps) simp
    then have f: "finish n k dec (SUCCESS, m, st) = Some (rc, st')" using less.prems by simp
    have "blocks n (lib_step n k dec) m (as_library st) = Some (as_library st')"
      using f False assms(1) by (subst blocks.simps) (auto simp: finish_def lib_step_def partial_block_same split: if_splits)
    then show ?thesis by simp
  next
    case True
    then obtain rc1 st1 where p: "process_complete_block n k dec st = Some (rc1, st1)"
      using less.prems assms(1) by (subst (asm) dec_loop.simps) (auto split: bind_splits)
    let ?l = "\<lambda>st. st\<lparr>current_block_index := current_block_index st + 1\<rparr>"
    have "lib_step n k dec n (as_library st) = Some (as_library (?l st1))"
      using complete_block_same [of n k dec st] p by (simp add: lib_step_def)
    then have b: "blocks n (lib_step n k dec) m (as_library st) = blocks n (lib_step n k dec) (m - n) (as_library (?l st1))"
      using True assms(1) by (subst blocks.simps) simp
    show ?thesis
    proof (cases "rc1 = SUCCESS")
      case True': True
      then have "dec_loop n k dec m st = dec_loop n k dec (m - n) (?l st1)"
        using True p assms(1) by (subst dec_loop.simps) simp
      then show ?thesis using less.IH [of "m - n" "?l st1"] less.prems b True assms(1) by simp
    next
      case False
      then have "dec_loop n k dec m st = Some (ERR_DECODE, m, st1)" using True p assms(1) by (subst dec_loop.simps) simp
      then have "rc = ERR_DECODE" "st' = st1" using less.prems by (auto simp: finish_def)
      moreover obtain l where "blocks n (lib_step n k dec) (m - n) (as_library (?l st1)) = Some l"
        using blocks_defined [where dec = dec, OF assms(1,2)] by blast
      ultimately show ?thesis using b blocks_grow by fastforce
    qed
  qed
qed

section \<open>The memory of the new object\<close>

lemma copy_chars_memory:
  assumes "length raw = n" "length raw' = n"
  shows "copy_chars src n (block_ctor raw) = copy_chars src n (block_ctor raw')"
  unfolding copy_chars_def fold_set_sym using assms fold_update_upt [of n raw _ 0] fold_update_upt [of n raw' _ 0]
  by (simp add: block_ctor_def)

lemma partial_memory:
  assumes "length raw = n" "length raw' = n" "m \<le> n - k" "k \<le> n" "\<And>i. i < m + k \<Longrightarrow> buf ! i = buf' ! i"
  shows "fold (\<lambda>i. set_fec n k i (symbol_of_char (buf ! (m + i)))) [0..<k]
       (fold (\<lambda>i. set_sym i 0) [m..<n - k] (fold (\<lambda>i. set_sym i (symbol_of_char (buf ! i))) [0..<m] (block_ctor raw))) =
     fold (\<lambda>i. set_fec n k i (symbol_of_char (buf' ! (m + i)))) [0..<k]
       (fold (\<lambda>i. set_sym i 0) [m..<n - k] (fold (\<lambda>i. set_sym i (symbol_of_char (buf' ! i))) [0..<m] (block_ctor raw')))"
proof -
  have "fold (\<lambda>i xs. xs[n - k + i := symbol_of_char (buf ! (m + i))]) [0..<k] (fold (\<lambda>i xs. xs[i := 0]) [m..<n - k]
      (fold (\<lambda>i xs. xs[i := symbol_of_char (buf ! i)]) [0..<m] raw)) =
    map (\<lambda>j. if j < m then symbol_of_char (buf ! j) else 0) [0..<n - k] @ map (\<lambda>i. symbol_of_char (buf ! (m + i))) [0..<k]"
    (is "fold ?fec _ ?xs = ?ys @ ?zs") if "length raw = n" for raw and buf :: bytes
  proof -
    have l: "length ?xs = n" using that assms(3) by (simp add: fold_update_upt)
    then have "fold ?fec [0..<k] ?xs = take (n - k) ?xs @ ?zs" using fold_update_offset [of "n - k" k ?xs] assms(4) by simp
    moreover have "take (n - k) ?xs = ?ys" using that assms(3) by (intro nth_equalityI) (auto simp: fold_update_upt)
    ultimately show ?thesis by simp
  qed
  note w = this [OF assms(1), of buf] this [OF assms(2), of buf']
  have "map (\<lambda>j. if j < m then symbol_of_char (buf ! j) else 0) [0..<n - k] @ map (\<lambda>i. symbol_of_char (buf ! (m + i))) [0..<k] =
    map (\<lambda>j. if j < m then symbol_of_char (buf' ! j) else 0) [0..<n - k] @ map (\<lambda>i. symbol_of_char (buf' ! (m + i))) [0..<k]"
    using assms(5) by simp
  then show ?thesis unfolding set_fec_eq fold_set_sym by (simp only: block_ctor_def rsblock.simps w)
qed

text \<open>The first block overwrites all of it that is used.\<close>

abbreviation fresh :: "field_symbol list \<Rightarrow> bytes \<Rightarrow> bytes \<Rightarrow> ldec" where
  "fresh raw buffer c \<equiv> \<lparr>ld_block = block_ctor raw, ld_index = 0, ld_buffer = buffer, ld_in = c, ld_out = []\<rparr>"

lemma complete_memory:
  assumes "length raw = n" "length raw' = n" "length buffer = n" "length buffer' = n" "n \<le> length c"
  shows "lib_complete_block n k dec (fresh raw buffer c) = lib_complete_block n k dec (fresh raw' buffer' c)"
  using assms copy_chars_memory [OF assms(1,2)] by (simp add: lib_complete_block_def stream_read_full)

lemma partial_block_memory:
  assumes "length raw = n" "length raw' = n" "length buffer = n" "length buffer' = n" "length c < n"
  shows "map_option ld_out (lib_partial_block n k dec (length c) (fresh raw buffer c)) =
     map_option ld_out (lib_partial_block n k dec (length c) (fresh raw' buffer' c))"
proof (cases "length c \<le> k")
  case False
  define m where "m = length c - k"
  have m: "length c = m + k" "m < n - k" "0 < m" using assms(5) False by (simp_all add: m_def)
  let ?b = "c @ drop (m + k) buffer" and ?b' = "c @ drop (m + k) buffer'"
  let ?f = "\<lambda>buf raw. fold (\<lambda>i. set_fec n k i (symbol_of_char (buf ! (m + i)))) [0..<k]
       (fold (\<lambda>i. set_sym i 0) [m..<n - k] (fold (\<lambda>i. set_sym i (symbol_of_char (buf ! i))) [0..<m] (block_ctor raw)))"
  have "?f ?b raw = ?f ?b' raw'" using assms m by (intro partial_memory) (simp_all add: nth_append)
  moreover have "map_option ld_out (lib_partial_block n k dec (length c) (fresh raw buffer c)) =
    map_option (\<lambda>(ok, blk). if ok then map (\<lambda>i. char_of_symbol (data blk ! i)) [0..<m] else []) (dec (?f (c @ drop (m + k) buffer) raw))"
    if "length raw = n" for raw buffer
    using m by (auto simp: lib_partial_block_def stream_read_def Let_def split: Option.bind_split)
  ultimately show ?thesis using assms(1,2) by (simp only:)
qed (simp add: lib_partial_block_def)

lemma memory_irrelevant:
  assumes "length raw = n" "length raw' = n" "length buffer = n" "length buffer' = n"
  shows "map_option ld_out (blocks n (lib_step n k dec) (length c) (fresh raw buffer c)) =
     map_option ld_out (blocks n (lib_step n k dec) (length c) (fresh raw' buffer' c))"
proof (cases "n \<le> length c")
  case True
  then have "lib_step n k dec n (fresh raw buffer c) = lib_step n k dec n (fresh raw' buffer' c)"
    using complete_memory [OF assms] by (simp add: lib_step_def)
  then show ?thesis using True by (subst (1 2) blocks.simps) simp
next
  case False
  then show ?thesis using partial_block_memory [OF assms, of c k dec] by (subst (1 2) blocks.simps) (simp add: lib_step_def)
qed

section \<open>The copy and the original\<close>

lemma decode_file_finish:
  assumes "decode_file n k dec True (Some c) = Some (rc, Some out)"
  shows "\<exists>st'. Option.bind (dec_loop n k dec (length c) \<lparr>fd_block = block_ctor (replicate n 0), fd_buffer = replicate n 0, total_detected = 0,
      total_corrected = 0, current_block_index = 0, fd_in = c, fd_out = []\<rparr>) (finish n k dec) = Some (rc, st') \<and> fd_out st' = out"
  using assms by (auto simp: decode_file_def finish_def file_size_def Let_def split: bind_splits if_splits)

lemma decoders_agree:
  assumes "0 < n" and "\<And>b. dec b \<noteq> None" and "length raw = n" and "length buffer = n"
  shows "\<exists>rc out out'. decode_file n k dec can_create input = Some (rc, out) \<and>
     lib_file_decoder n k dec raw buffer can_create input = Some out' \<and>
     (rc = SUCCESS \<longrightarrow> out \<noteq> None \<and> out' = out) \<and> (out = None \<longleftrightarrow> out' = None) \<and>
     (\<forall>xs. out = Some xs \<longrightarrow> prefix xs (the out'))"
proof -
  obtain rc out where d: "decode_file n k dec can_create input = Some (rc, out)"
    using decode_file_defined [where dec = dec, OF assms(1,2), of k can_create input] by auto
  show ?thesis
  proof (cases "file_size input = 0 \<or> \<not> can_create")
    case True
    then show ?thesis using d by (cases input) (auto simp: decode_file_def lib_file_decoder_def)
  next
    case False
    then obtain c where c: "input = Some c" "c \<noteq> []" "can_create" by (cases input) (auto simp: file_size_def)
    obtain xs where xs: "out = Some xs" using d c by (auto simp: decode_file_def file_size_def Let_def split: bind_splits if_splits)
    let ?st = "\<lparr>fd_block = block_ctor (replicate n 0), fd_buffer = replicate n 0, total_detected = 0,
      total_corrected = 0, current_block_index = 0, fd_in = c, fd_out = []\<rparr>"
    obtain st' where st': "Option.bind (dec_loop n k dec (length c) ?st) (finish n k dec) = Some (rc, st')" "fd_out st' = xs"
      using decode_file_finish [of n k dec c rc xs] d xs c by auto
    obtain l where l: "blocks n (lib_step n k dec) (length c) (as_library ?st) = Some l" "prefix (fd_out st') (ld_out l)"
      "rc = SUCCESS \<longrightarrow> l = as_library st'"
      using finish_same [where dec = dec, OF assms(1,2) st'(1)] by blast
    have "as_library ?st = fresh (replicate n 0) (replicate n 0) c" by (simp add: as_library_def)
    with l(1) obtain l' where "blocks n (lib_step n k dec) (length c) (fresh raw buffer c) = Some l'" "ld_out l' = ld_out l"
      using memory_irrelevant [of raw n "replicate n 0" buffer "replicate n 0" k dec c] assms(3,4) by auto
    then have "lib_file_decoder n k dec raw buffer can_create input = Some (Some (ld_out l))"
      using c by (simp add: lib_file_decoder_def file_size_def)
    then show ?thesis using d xs st'(2) l(2,3) by auto
  qed
qed

lemma library_decodes:
  assumes "0 < n" and "\<And>b. dec b \<noteq> None" and "length raw = n" and "length buffer = n"
    and "decode_file n k dec can_create input = Some (SUCCESS, Some xs)"
  shows "lib_file_decoder n k dec raw buffer can_create input = Some (Some xs)"
  using decoders_agree [where dec = dec and k = k and can_create = can_create and input = input, OF assms(1-4)] assms(5) by auto

text \<open>
  C14: the program's file decoder and the one of the library it was made from. Whatever the block decoder does, as long
  as it answers, and whatever is in the memory of the library's object: both decline the same inputs; when the program
  reports success the library writes the same file; when the program stops at a block that cannot be decoded, what it
  has written so far is the beginning of what the library writes, which goes on without that block.
\<close>

theorem program_decoder_refines_library:
  assumes "0 < n" and "\<And>b. dec b \<noteq> None" and "length raw = n" and "length buffer = n"
  shows "\<exists>rc out out'. decode_file n k dec can_create input = Some (rc, out) \<and>
     lib_file_decoder n k dec raw buffer can_create input = Some out' \<and>
     (rc = SUCCESS \<longrightarrow> out \<noteq> None \<and> out' = out) \<and> (out = None \<longleftrightarrow> out' = None) \<and>
     (\<forall>xs. out = Some xs \<longrightarrow> prefix xs (the out'))"
  using assms by (rule decoders_agree)

theorem program_decoder_refines_library_witness:
  "\<exists>out'. decode_file 4 2 (\<lambda>b. Some (data b ! 0 \<noteq> 0, b)) True (Some [1, 2, 3, 4, 0, 6, 7, 8, 9, 5, 5]) = Some (ERR_DECODE, Some [1, 2]) \<and>
     lib_file_decoder 4 2 (\<lambda>b. Some (data b ! 0 \<noteq> 0, b)) [7, 7, 7, 7] [3, 3, 3, 3] True (Some [1, 2, 3, 4, 0, 6, 7, 8, 9, 5, 5]) = Some (Some out') \<and>
     prefix [1, 2] out'"
proof -
  let ?dec = "\<lambda>b. Some (data b ! 0 \<noteq> 0, b)" and ?c = "[1, 2, 3, 4, 0, 6, 7, 8, 9, 5, 5] :: bytes"
  have "decode_file 4 2 ?dec True (Some ?c) = Some (ERR_DECODE, Some [1, 2])"
    by code_simp
  then show ?thesis using program_decoder_refines_library [of 4 ?dec "[7, 7, 7, 7]" "[3, 3, 3, 3]" 2 True "Some ?c"] by auto
qed

end
