(* ===== verification/FileInterleaver.thy ===== *)
theory FileInterleaver
  imports Interleaver FileIO
begin

text \<open>
  \<^verbatim>\<open>schifra_reed_solomon_file_interleaver.hpp\<close>: files interleaved and deinterleaved stack by stack, with an
  incomplete stack at the end. The members \<^verbatim>\<open>block_stack_\<close> keep what an earlier stack left in them, at first
  what the memory contains. The output file is assumed to be creatable.
\<close>

section \<open>The operations\<close>

record finter =
  block_stack :: "byte stack"
  in_stream :: bytes
  out_stream :: bytes

definition read_row :: "nat \<Rightarrow> nat \<Rightarrow> finter \<Rightarrow> finter" where
  "read_row i amount st =
     (let (row, rest) = stream_read amount (in_stream st) (block_stack st ! i)
      in st\<lparr>block_stack := (block_stack st)[i := row], in_stream := rest\<rparr>)"

definition write_row :: "nat \<Rightarrow> nat \<Rightarrow> finter \<Rightarrow> finter" where
  "write_row i amount st = st\<lparr>out_stream := out_stream st @ take amount (block_stack st ! i)\<rparr>"

definition on_stack :: "(byte stack \<Rightarrow> byte stack option) \<Rightarrow> finter \<Rightarrow> finter option" where
  "on_stack f st = map_option (\<lambda>s. st\<lparr>block_stack := s\<rparr>) (f (block_stack st))"

definition process_block :: "nat \<Rightarrow> nat \<Rightarrow> byte stack \<Rightarrow> finter \<Rightarrow> finter option" where
  "process_block n stack_size aux st = do {
     st \<leftarrow> on_stack (interleave n stack_size aux) (fold (\<lambda>i. read_row i n) [0..<stack_size] st);
     Some (fold (\<lambda>i. write_row i n) [0..<stack_size] st)
   }"

text \<open>
  The version of \<^verbatim>\<open>interleave\<close> for an array and a number takes the number as the length of the last row, and
  works on the whole array.
\<close>

definition interleave_array :: "nat \<Rightarrow> nat \<Rightarrow> nat \<Rightarrow> 'a stack \<Rightarrow> 'a stack \<Rightarrow> 'a stack option" where
  "interleave_array n rows part aux s = (if part = n then interleave n rows aux s else interleave_partial n rows part aux s)"

definition process_incomplete_block :: "nat \<Rightarrow> nat \<Rightarrow> byte stack \<Rightarrow> nat \<Rightarrow> finter \<Rightarrow> finter option" where
  "process_incomplete_block n stack_size aux amount st = do {
     let complete_row_count = amount div n;
     let remainder = amount mod n;
     let st = fold (\<lambda>i. read_row i n) [0..<complete_row_count] st;
     let st = (if remainder \<noteq> 0 then read_row complete_row_count remainder st else st);
     st \<leftarrow> (if remainder = 0 then on_stack (interleave_array n stack_size complete_row_count aux) st
           else on_stack (interleave_partial n (complete_row_count + 1) remainder (take (complete_row_count + 1) aux)) st);
     let st = fold (\<lambda>i. write_row i n) [0..<complete_row_count] st;
     Some (if remainder \<noteq> 0 then write_row complete_row_count remainder st else st)
   }"

text \<open>
  The inner \<^term>\<open>None\<close> is a return before the output file is created, or because it cannot be. The
  input and the output are different files.
\<close>

definition file_interleaver :: "nat \<Rightarrow> nat \<Rightarrow> byte stack \<Rightarrow> byte stack \<Rightarrow> bool \<Rightarrow> bytes option \<Rightarrow> bytes option option" where
  "file_interleaver n stack_size aux mem can_create input =
     (if file_size input = 0 then Some None
      else if \<not> can_create then Some None
      else do {
        st \<leftarrow> blocks (n * stack_size)
          (\<lambda>amount. if amount = n * stack_size then process_block n stack_size aux else process_incomplete_block n stack_size aux amount)
          (file_size input) \<lparr>block_stack = mem, in_stream = the input, out_stream = []\<rparr>;
        Some (Some (out_stream st))
      })"

definition deprocess_block :: "nat \<Rightarrow> nat \<Rightarrow> byte stack \<Rightarrow> finter \<Rightarrow> finter option" where
  "deprocess_block n stack_size aux st = do {
     st \<leftarrow> on_stack (deinterleave n stack_size aux) (fold (\<lambda>i. read_row i n) [0..<stack_size] st);
     Some (fold (\<lambda>i. write_row i n) [0..<stack_size] st)
   }"

definition deprocess_incomplete_block :: "nat \<Rightarrow> nat \<Rightarrow> byte stack \<Rightarrow> nat \<Rightarrow> finter \<Rightarrow> finter option" where
  "deprocess_incomplete_block n stack_size aux amount st = do {
     let complete_row_count = amount div n;
     let remainder = amount mod n;
     let st = fold (\<lambda>i. read_row i n) [0..<complete_row_count] st;
     let st = (if remainder \<noteq> 0 then read_row complete_row_count remainder st else st);
     st \<leftarrow> (if remainder = 0 then on_stack (deinterleave n complete_row_count (take complete_row_count aux)) st
           else on_stack (deinterleave_partial n (complete_row_count + 1) remainder (take (complete_row_count + 1) aux)) st);
     let st = fold (\<lambda>i. write_row i n) [0..<complete_row_count] st;
     Some (if remainder \<noteq> 0 then write_row complete_row_count remainder st else st)
   }"

definition file_deinterleaver :: "nat \<Rightarrow> nat \<Rightarrow> byte stack \<Rightarrow> byte stack \<Rightarrow> bool \<Rightarrow> bytes option \<Rightarrow> bytes option option" where
  "file_deinterleaver n stack_size aux mem can_create input =
     (let input_file_size = file_size input in
      if input_file_size = 0 then Some None
      else if \<not> can_create then Some None
      else if n * stack_size = 0 then None
      else do {
        st \<leftarrow> fold_opt (\<lambda>_. deprocess_block n stack_size aux) [0..<input_file_size div (n * stack_size)]
          \<lparr>block_stack = mem, in_stream = the input, out_stream = []\<rparr>;
        st \<leftarrow> (if input_file_size mod (n * stack_size) \<noteq> 0
              then deprocess_incomplete_block n stack_size aux (input_file_size mod (n * stack_size)) st else Some st);
        Some (Some (out_stream st))
      })"

section \<open>Bytes and cells\<close>

text \<open>What a stack holds, read row by row.\<close>

definition held :: "nat \<Rightarrow> nat \<Rightarrow> 'a stack \<Rightarrow> 'a list" where
  "held n amount s = map (cell_at s) (flat n amount)"

lemma length_held [simp]: "length (held n amount s) = amount"
  by (simp add: held_def flat_def)

lemma held_rows:
  assumes "0 < n" "box n rows s" "k \<le> rows"
  shows "held n (k * n) s = concat (map (\<lambda>i. s ! i) [0..<k])"
proof -
  have row: "map (\<lambda>j. s ! i ! j) [0..<n] = s ! i" if "i < k" for i
    using assms(2,3) that map_nth [of "s ! i"] by (simp add: box_def list_all_length)
  have "held n (k * n) s = concat (map (\<lambda>i. map (\<lambda>j. s ! i ! j) [0..<n]) [0..<k])"
    unfolding held_def rows_of_flat [OF assms(1), symmetric] rows_of_def by (simp add: map_concat comp_def cell_at_def)
  also have "\<dots> = concat (map (\<lambda>i. s ! i) [0..<k])"
    by (intro arg_cong [where f = concat] map_cong refl row) simp
  finally show ?thesis .
qed

lemma held_rest:
  assumes "0 < n" "box n rows s" "k < rows" "m \<le> n"
  shows "held n (k * n + m) s = held n (k * n) s @ take m (s ! k)"
proof -
  have "flat n (k * n + m) = flat n (k * n) @ map (\<lambda>i. (k, i)) [0..<m]"
    using partial_flat [of "Suc k" n m] assms by (simp add: rows_of_flat)
  moreover have "map (\<lambda>i. s ! k ! i) [0..<m] = take m (s ! k)"
    using assms by (intro nth_equalityI) (auto simp: box_def list_all_length)
  ultimately show ?thesis by (simp add: held_def comp_def cell_at_def)
qed

lemma box_update: "box n rows s \<Longrightarrow> length r = n \<Longrightarrow> box n rows (s[k := r])"
  by (auto simp: box_def list_all_iff dest: set_update_subset_insert [THEN subsetD])

lemma held_update: "0 < n \<Longrightarrow> held n (k * n) (s[k := r]) = held n (k * n) s"
proof (unfold held_def, rule map_cong [OF refl])
  fix p assume "0 < n" "p \<in> set (flat n (k * n))"
  then have "fst p \<noteq> k" by (auto simp: flat_def dest: less_mult_imp_div_less)
  then show "cell_at (s[k := r]) p = cell_at s p" by (simp add: cell_at_def)
qed

text \<open>Reading fills the stack with the input, writing puts out what it holds.\<close>

lemma read_rows_ok:
  assumes n: "0 < n" and b: "box n rows (block_stack st)"
  shows "k \<le> rows \<Longrightarrow> k * n \<le> length (in_stream st) \<Longrightarrow>
     (let st' = fold (\<lambda>i. read_row i n) [0..<k] st in
      box n rows (block_stack st') \<and> in_stream st' = drop (k * n) (in_stream st) \<and> out_stream st' = out_stream st \<and>
      held n (k * n) (block_stack st') = take (k * n) (in_stream st))"
proof (induction k)
  case (Suc k)
  let ?st = "fold (\<lambda>i. read_row i n) [0..<k] st" and ?row = "take n (drop (k * n) (in_stream st))"
  have k: "k \<le> rows" "k * n \<le> length (in_stream st)" "n \<le> length (drop (k * n) (in_stream st))" "k < rows"
    using Suc.prems by auto
  have IH: "box n rows (block_stack ?st)" "in_stream ?st = drop (k * n) (in_stream st)" "out_stream ?st = out_stream st"
    "held n (k * n) (block_stack ?st) = take (k * n) (in_stream st)"
    using Suc.IH [OF k(1,2)] by (simp_all add: Let_def)
  have len: "length (block_stack ?st) = rows" "length (block_stack ?st ! k) = n" "length ?row = n"
    using IH(1) k by (auto simp: box_def list_all_length)
  let ?s = "(block_stack ?st)[k := ?row]"
  have step: "fold (\<lambda>i. read_row i n) [0..<Suc k] st = ?st\<lparr>block_stack := ?s, in_stream := drop (Suc k * n) (in_stream st)\<rparr>"
    using k(3) len by (simp add: read_row_def stream_read_full IH(2) add.commute)
  have box': "box n rows ?s" by (rule box_update [OF IH(1) len(3)])
  have "held n (k * n) ?s = take (k * n) (in_stream st)"
    using IH(4) by (simp add: held_update [OF n])
  then have "held n (k * n + n) ?s = take (k * n + n) (in_stream st)"
    unfolding take_add using held_rest [OF n box' k(4) order_refl] len k(4) by simp
  then show ?case using step box' IH(3) by (simp add: add.commute)
qed (use b in \<open>simp add: held_def flat_def\<close>)

text \<open>The same with a part of the next row: everything the two classes read before they interleave.\<close>

definition load_rows :: "nat \<Rightarrow> nat \<Rightarrow> finter \<Rightarrow> finter" where
  "load_rows n amount st =
     (let st = fold (\<lambda>i. read_row i n) [0..<amount div n] st
      in if amount mod n \<noteq> 0 then read_row (amount div n) (amount mod n) st else st)"

definition store_rows :: "nat \<Rightarrow> nat \<Rightarrow> finter \<Rightarrow> finter" where
  "store_rows n amount st =
     (let st = fold (\<lambda>i. write_row i n) [0..<amount div n] st
      in if amount mod n \<noteq> 0 then write_row (amount div n) (amount mod n) st else st)"

lemma load_rows_ok:
  assumes n: "0 < n" and b: "box n rows (block_stack st)" and a: "amount \<le> n * rows" "amount \<le> length (in_stream st)"
  defines "st' \<equiv> load_rows n amount st"
  shows "box n rows (block_stack st') \<and> in_stream st' = drop amount (in_stream st) \<and> out_stream st' = out_stream st \<and>
     held n amount (block_stack st') = take amount (in_stream st)"
proof -
  let ?k = "amount div n" and ?m = "amount mod n"
  let ?st = "fold (\<lambda>i. read_row i n) [0..<?k] st"
  have am: "amount = ?k * n + ?m" by simp
  have k: "?k \<le> rows" "?k * n \<le> length (in_stream st)"
    using a n div_le_mono [of amount "n * rows" n] order_trans [OF div_times_less_eq_dividend a(2)] by simp_all
  have R: "box n rows (block_stack ?st)" "in_stream ?st = drop (?k * n) (in_stream st)" "out_stream ?st = out_stream st"
    "held n (?k * n) (block_stack ?st) = take (?k * n) (in_stream st)"
    using read_rows_ok [OF n b k] by (simp_all add: Let_def)
  show ?thesis
  proof (cases "?m = 0")
    case True
    then have "amount = ?k * n" using am by linarith
    then show ?thesis using R True by (simp add: st'_def load_rows_def)
  next
    case False
    let ?row = "take ?m (drop (?k * n) (in_stream st)) @ drop ?m (block_stack ?st ! ?k)"
    let ?s = "(block_stack ?st)[?k := ?row]"
    have "?k * n < n * rows" using am a(1) False by linarith
    then have kr: "?k < rows" using n by (simp add: mult.commute)
    have m: "?m \<le> n" "?m \<le> length (drop (?k * n) (in_stream st))" using n am a(2) unfolding length_drop by (simp add: less_imp_le, linarith)
    have len: "length (block_stack ?st ! ?k) = n" "length (block_stack ?st) = rows" using R(1) kr by (auto simp: box_def list_all_length)
    have "drop ?m (drop (?k * n) (in_stream st)) = drop amount (in_stream st)" using am by (metis add.commute drop_drop)
    then have st': "st' = ?st\<lparr>block_stack := ?s, in_stream := drop amount (in_stream st)\<rparr>"
      using False m(2) by (simp add: st'_def load_rows_def read_row_def stream_read_full R(2) Let_def)
    have box': "box n rows ?s" by (rule box_update [OF R(1)]) (use m len in simp)
    have "held n (?k * n) ?s = take (?k * n) (in_stream st)"
      using R(4) by (simp add: held_update [OF n])
    moreover have "take ?m (?s ! ?k) = take ?m (drop (?k * n) (in_stream st))" using kr len m by simp
    ultimately have "held n (?k * n + ?m) ?s = take (?k * n + ?m) (in_stream st)"
      unfolding take_add using held_rest [OF n box' kr m(1)] by simp
    then have "held n amount ?s = take amount (in_stream st)" by (simp only: am [symmetric])
    then show ?thesis using st' box' R(3) by simp
  qed
qed

lemma write_rows_ok:
  assumes "0 < n" "box n rows (block_stack st)"
  shows "k \<le> rows \<Longrightarrow> fold (\<lambda>i. write_row i n) [0..<k] st = st\<lparr>out_stream := out_stream st @ held n (k * n) (block_stack st)\<rparr>"
proof (induction k)
  case (Suc k)
  then have "take n (block_stack st ! k) = block_stack st ! k" using assms(2) by (simp add: box_def list_all_length)
  moreover have "held n (k * n + n) (block_stack st) = held n (k * n) (block_stack st) @ take n (block_stack st ! k)"
    using held_rest [OF assms, of k n] Suc.prems by simp
  ultimately show ?case using Suc by (simp add: write_row_def add.commute)
qed (simp add: held_def flat_def)

lemma store_rows_ok:
  assumes n: "0 < n" and b: "box n rows (block_stack st)" and a: "amount \<le> n * rows"
  shows "store_rows n amount st = st\<lparr>out_stream := out_stream st @ held n amount (block_stack st)\<rparr>"
proof -
  let ?k = "amount div n" and ?m = "amount mod n"
  have am: "amount = ?k * n + ?m" by simp
  have k: "?k \<le> rows" using a n div_le_mono [of amount "n * rows" n] by simp
  show ?thesis
  proof (cases "?m = 0")
    case True
    then have "amount = ?k * n" using am by linarith
    then show ?thesis using write_rows_ok [OF n b k] True by (simp add: store_rows_def)
  next
    case False
    have "?k * n < n * rows" using am a False by linarith
    then have kr: "?k < rows" using n by (simp add: mult.commute)
    have "held n amount (block_stack st) = held n (?k * n) (block_stack st) @ take ?m (block_stack st ! ?k)"
      using held_rest [OF n b kr, of ?m] n am by (simp add: less_imp_le)
    then show ?thesis using write_rows_ok [OF n b k] False by (simp add: store_rows_def write_row_def)
  qed
qed

section \<open>The order of the bytes\<close>

text \<open>
  A stack that holds \<open>c\<close> has as many rows as it needs, the last one used up to \<open>last_part\<close>. Interleaving puts
  the bytes in the order \<open>shuffled\<close>, deinterleaving undoes it.
\<close>

definition full_rows :: "nat \<Rightarrow> nat \<Rightarrow> nat" where
  "full_rows n amount = (if amount mod n = 0 then amount div n - 1 else amount div n)"

definition last_part :: "nat \<Rightarrow> nat \<Rightarrow> nat" where
  "last_part n amount = (if amount mod n = 0 then n else amount mod n)"

definition visit :: "nat \<Rightarrow> nat \<Rightarrow> cell list" where
  "visit n amount = spread n (Suc (full_rows n amount)) (last_part n amount)"

definition shuffled :: "nat \<Rightarrow> 'a list \<Rightarrow> 'a list" where
  "shuffled n c = map (\<lambda>(i, j). c ! (i * n + j)) (visit n (length c))"

definition unshuffled :: "nat \<Rightarrow> 'a list \<Rightarrow> 'a list" where
  "unshuffled n c = map (\<lambda>p. the (map_of (zip (visit n (length c)) c) p)) (flat n (length c))"

lemma rows_and_part:
  assumes "0 < n" "0 < amount"
  shows "full_rows n amount * n + last_part n amount = amount" "last_part n amount \<le> n"
proof -
  have "(amount div n - 1) * n + n = amount" if "amount mod n = 0"
  proof -
    have "0 < amount div n" using that assms by (auto simp: div_greater_zero_iff dvd_imp_le)
    then have "(amount div n - 1) * n + n = amount div n * n" by (cases "amount div n") simp_all
    then show ?thesis using that by (simp add: mod_0_imp_dvd)
  qed
  then show "full_rows n amount * n + last_part n amount = amount" by (simp add: full_rows_def last_part_def)
  show "last_part n amount \<le> n" using assms(1) by (simp add: last_part_def less_imp_le)
qed

lemma visit_ok:
  assumes "0 < n" "0 < amount"
  shows "length (visit n amount) = amount" "distinct (visit n amount)" "set (visit n amount) = set (flat n amount)"
  using spread_ok [OF assms(1) rows_and_part(2) [OF assms], of "full_rows n amount"] rows_and_part(1) [OF assms]
  by (simp_all add: visit_def)

lemma nth_held: "0 < n \<Longrightarrow> p \<in> set (flat n amount) \<Longrightarrow> cell_at s p = held n amount s ! (fst p * n + snd p)"
  by (auto simp: held_def flat_def)

lemma shuffled_held:
  assumes "0 < n" "0 < amount" and "placed s (visit n amount) (flat n amount) s d"
  shows "held n amount d = shuffled n (held n amount s)"
proof (rule nth_equalityI)
  show "length (held n amount d) = length (shuffled n (held n amount s))" using visit_ok(1) [OF assms(1,2)] by (simp add: shuffled_def)
  fix i assume "i < length (held n amount d)"
  then have i: "i < amount" by simp
  have v: "visit n amount ! i \<in> set (flat n amount)" using visit_ok [OF assms(1,2)] i nth_mem by metis
  have "held n amount d ! i = cell_at d (flat n amount ! i)" using i by (simp add: held_def flat_def)
  also have "\<dots> = cell_at s (visit n amount ! i)" using assms(3) i visit_ok(1) [OF assms(1,2)] by (simp add: placed_def)
  also have "\<dots> = shuffled n (held n amount s) ! i"
    using nth_held [OF assms(1) v, of s] i visit_ok(1) [OF assms(1,2)] by (simp add: shuffled_def split_beta)
  finally show "held n amount d ! i = shuffled n (held n amount s) ! i" .
qed

lemma unshuffled_held:
  assumes "0 < n" "0 < amount" and "placed s (flat n amount) (visit n amount) s d"
  shows "held n amount d = unshuffled n (held n amount s)"
proof -
  note v = visit_ok [OF assms(1,2)]
  have "cell_at d p = the (map_of (zip (visit n amount) (held n amount s)) p)" if "p \<in> set (flat n amount)" for p
  proof -
    have "p \<in> set (visit n amount)" using that v(3) by simp
    then obtain i where i: "i < amount" "visit n amount ! i = p" unfolding in_set_conv_nth v(1) by blast
    then have "cell_at d p = cell_at s (flat n amount ! i)" using assms(3) by (auto simp: placed_def flat_def)
    also have "\<dots> = held n amount s ! i" using i(1) by (simp add: held_def flat_def)
    finally show ?thesis using map_of_zip_nth [OF _ v(2), of "held n amount s" i] v(1) i by simp
  qed
  then show ?thesis unfolding held_def [of n amount d] unshuffled_def by simp
qed

lemma unshuffled_shuffled:
  assumes "0 < n" "c \<noteq> []"
  shows "unshuffled n (shuffled n c) = c"
proof (rule nth_equalityI)
  have l: "0 < length c" using assms(2) by simp
  note v = visit_ok [OF assms(1) l]
  have ls: "length (shuffled n c) = length c" using v(1) by (simp add: shuffled_def)
  show "length (unshuffled n (shuffled n c)) = length c" by (simp add: unshuffled_def ls flat_def)
  fix x assume "x < length (unshuffled n (shuffled n c))"
  then have x: "x < length c" by (simp add: unshuffled_def ls flat_def)
  let ?p = "(x div n, x mod n)"
  have "?p \<in> set (visit n (length c))" using x unfolding v(3) by (auto simp: flat_def)
  then obtain i where i: "i < length c" "visit n (length c) ! i = ?p" using v(1) by (metis in_set_conv_nth)
  then have "the (map_of (zip (visit n (length c)) (shuffled n c)) ?p) = shuffled n c ! i"
    using map_of_zip_nth [OF _ v(2), of "shuffled n c" i] v(1) ls by simp
  also have "\<dots> = c ! x" using i v(1) by (simp add: shuffled_def)
  finally show "unshuffled n (shuffled n c) ! x = c ! x" using x by (simp add: unshuffled_def ls flat_def)
qed

text \<open>The three functions on a stack that may be larger than what they work on.\<close>

lemma interleave_partial_shuffles:
  assumes n: "0 < n" "0 < amount" and r: "rows = Suc (full_rows n amount)" "part = last_part n amount"
    and b: "box n rows aux" "box n whole s" "rows \<le> whole"
  shows "\<exists>d. interleave_partial n rows part aux s = Some d \<and> box n whole d \<and> held n amount d = shuffled n (held n amount s)"
proof -
  from interleave_partial_spec_holds [of n "full_rows n amount" aux s part] b box_holds [OF b(2,3)] n rows_and_part [OF n]
  obtain d where d: "interleave_partial n rows part aux s = Some d" "placed s (visit n amount) (flat n amount) s d"
    unfolding r visit_def by auto
  moreover have "box n whole d" using d(2) b(2) box_cong by (metis placed_def)
  ultimately show ?thesis using shuffled_held [OF n d(2)] by blast
qed

lemma deinterleave_partial_unshuffles:
  assumes n: "0 < n" "0 < amount" and r: "rows = Suc (full_rows n amount)" "part = last_part n amount"
    and b: "box n rows aux" "box n whole s" "rows \<le> whole"
  shows "\<exists>d. deinterleave_partial n rows part aux s = Some d \<and> box n whole d \<and> held n amount d = unshuffled n (held n amount s)"
proof -
  have "\<exists>d. deinterleave_partial n rows part aux s = Some d \<and> placed s (flat n amount) (visit n amount) s d"
  proof (cases "full_rows n amount")
    case 0
    then have "visit n amount = flat n amount"
      using spread_one_row [OF n(1) rows_and_part(2) [OF n]] rows_and_part(1) [OF n] by (simp add: visit_def)
    then show ?thesis using 0 by (simp add: r deinterleave_partial_def placed_def)
  next
    case (Suc q)
    then show ?thesis
      using deinterleave_partial_spec_holds [of n q aux s part] b box_holds [OF b(2,3)] n rows_and_part [OF n]
      unfolding r visit_def Suc by auto
  qed
  then obtain d where d: "deinterleave_partial n rows part aux s = Some d" "placed s (flat n amount) (visit n amount) s d" by blast
  moreover have "box n whole d" using d(2) b(2) box_cong by (metis placed_def)
  ultimately show ?thesis using unshuffled_held [OF n d(2)] by blast
qed

lemma deinterleave_unshuffles:
  assumes n: "0 < n" "0 < rows" and b: "box n rows aux" "box n whole s" "rows \<le> whole"
  shows "\<exists>d. deinterleave n rows aux s = Some d \<and> box n whole d \<and> held n (rows * n) d = unshuffled n (held n (rows * n) s)"
proof -
  obtain r where r: "rows = Suc r" using n(2) by (cases rows) auto
  have a: "0 < rows * n" using n by simp
  have "visit n (rows * n) = columns 0 n rows" using n by (simp add: visit_def full_rows_def last_part_def spread_def r columns_def)
  moreover from deinterleave_spec_holds [of n r aux s] b(1) box_holds [OF b(2,3)] n(1) obtain d where
    d: "deinterleave n rows aux s = Some d" "placed s (flat n (rows * n)) (columns 0 n rows) s d" unfolding r by blast
  moreover have "box n whole d" using d(2) b(2) box_cong by (metis placed_def)
  ultimately show ?thesis using unshuffled_held [OF n(1) a] by auto
qed

section \<open>One stack\<close>

lemma stage_ok:
  assumes n: "0 < n" and b: "box n rows (block_stack st)" and a: "amount \<le> n * rows" "amount \<le> length (in_stream st)"
    and f: "\<And>s. box n rows s \<Longrightarrow> \<exists>d. f s = Some d \<and> box n rows d \<and> held n amount d = g (held n amount s)"
  shows "\<exists>st'. Option.bind (on_stack f (load_rows n amount st)) (\<lambda>st. Some (store_rows n amount st)) = Some st' \<and>
     box n rows (block_stack st') \<and> in_stream st' = drop amount (in_stream st) \<and>
     out_stream st' = out_stream st @ g (take amount (in_stream st))"
proof -
  let ?l = "load_rows n amount st"
  have l: "box n rows (block_stack ?l)" "in_stream ?l = drop amount (in_stream st)" "out_stream ?l = out_stream st"
    "held n amount (block_stack ?l) = take amount (in_stream st)"
    using load_rows_ok [OF n b a] by blast+
  from f [OF l(1)] obtain d where d: "f (block_stack ?l) = Some d" "box n rows d" "held n amount d = g (held n amount (block_stack ?l))" by blast
  have "store_rows n amount (?l\<lparr>block_stack := d\<rparr>) = ?l\<lparr>block_stack := d, out_stream := out_stream ?l @ held n amount d\<rparr>"
    using store_rows_ok [OF n _ a(1), of "?l\<lparr>block_stack := d\<rparr>"] d(2) by simp
  then show ?thesis using d l by (simp add: on_stack_def)
qed

text \<open>The four ways to process a stack are such stages.\<close>

lemma complete_stage:
  assumes "0 < n"
  shows "process_block n rows aux st =
      Option.bind (on_stack (interleave n rows aux) (load_rows n (n * rows) st)) (\<lambda>st. Some (store_rows n (n * rows) st))"
    and "deprocess_block n rows aux st =
      Option.bind (on_stack (deinterleave n rows aux) (load_rows n (n * rows) st)) (\<lambda>st. Some (store_rows n (n * rows) st))"
  using assms by (simp_all add: process_block_def deprocess_block_def load_rows_def store_rows_def)

lemma incomplete_stage:
  "process_incomplete_block n whole aux amount st = Option.bind (on_stack
      (if amount mod n = 0 then interleave_array n whole (amount div n) aux
       else interleave_partial n (amount div n + 1) (amount mod n) (take (amount div n + 1) aux)) (load_rows n amount st))
     (\<lambda>st. Some (store_rows n amount st))"
  "deprocess_incomplete_block n whole aux amount st = Option.bind (on_stack
      (if amount mod n = 0 then deinterleave n (amount div n) (take (amount div n) aux)
       else deinterleave_partial n (amount div n + 1) (amount mod n) (take (amount div n + 1) aux)) (load_rows n amount st))
     (\<lambda>st. Some (store_rows n amount st))"
  by (simp_all add: process_incomplete_block_def deprocess_incomplete_block_def load_rows_def store_rows_def Let_def)

lemma box_take: "box n rows s \<Longrightarrow> k \<le> rows \<Longrightarrow> box n k (take k s)"
  by (auto simp: box_def list_all_length)

lemma rows_below: "0 < n \<Longrightarrow> amount < n * rows \<Longrightarrow> amount div n < (rows :: nat)"
  by (rule less_mult_imp_div_less) (simp only: mult.commute)

lemma full_stack: "0 < n \<Longrightarrow> 0 < rows \<Longrightarrow> Suc (full_rows n (n * rows)) = rows \<and> last_part n (n * rows) = n"
  by (simp add: full_rows_def last_part_def)

lemma interleaving_step:
  assumes n: "0 < n" "0 < rows" and b: "box n rows aux" "box n rows (block_stack st)"
    and a: "0 < amount" "amount \<le> n * rows" "amount \<le> length (in_stream st)" and good: "amount = n * rows \<or> amount mod n \<noteq> 0"
  shows "\<exists>st'. (if amount = n * rows then process_block n rows aux else process_incomplete_block n rows aux amount) st = Some st' \<and>
     box n rows (block_stack st') \<and> in_stream st' = drop amount (in_stream st) \<and>
     out_stream st' = out_stream st @ shuffled n (take amount (in_stream st))"
proof (cases "amount = n * rows")
  case True
  have "\<exists>d. interleave n rows aux s = Some d \<and> box n rows d \<and> held n amount d = shuffled n (held n amount s)" if "box n rows s" for s
    using interleave_partial_shuffles [OF n(1) a(1), of rows n aux rows s] full_stack [OF n] b(1) that
    unfolding interleave_full [OF n(2)] True by simp
  from stage_ok [where g = "shuffled n", OF n(1) b(2) a(2,3) this] show ?thesis using complete_stage(1) [OF n(1)] True by simp
next
  case False
  then have m: "amount mod n \<noteq> 0" "amount < n * rows" using good a(2) by auto
  have k: "amount div n + 1 \<le> rows" using rows_below [OF n(1) m(2)] by simp
  have "\<exists>d. interleave_partial n (amount div n + 1) (amount mod n) (take (amount div n + 1) aux) s = Some d \<and>
      box n rows d \<and> held n amount d = shuffled n (held n amount s)" if "box n rows s" for s
    using m(1) box_take [OF b(1) k] k that by (intro interleave_partial_shuffles [OF n(1) a(1)]) (auto simp: full_rows_def last_part_def)
  from stage_ok [where g = "shuffled n", OF n(1) b(2) a(2,3) this] show ?thesis using False m by (simp add: incomplete_stage)
qed

lemma deinterleaving_step:
  assumes n: "0 < n" "0 < rows" and b: "box n rows aux" "box n rows (block_stack st)"
    and a: "0 < amount" "amount \<le> n * rows" "amount \<le> length (in_stream st)"
  shows "\<exists>st'. (if amount = n * rows then deprocess_block n rows aux else deprocess_incomplete_block n rows aux amount) st = Some st' \<and>
     box n rows (block_stack st') \<and> in_stream st' = drop amount (in_stream st) \<and>
     out_stream st' = out_stream st @ unshuffled n (take amount (in_stream st))"
proof -
  have whole: "\<exists>d. deinterleave n k (take k aux) s = Some d \<and> box n rows d \<and> held n (n * k) d = unshuffled n (held n (n * k) s)"
    if "box n rows s" "0 < k" "k \<le> rows" for s k
    using deinterleave_unshuffles [OF n(1) that(2) box_take [OF b(1) that(3)] that(1,3)] by (simp add: mult.commute)
  show ?thesis
  proof (cases "amount = n * rows")
    case True
    have t: "take rows aux = aux" using b(1) by (simp add: box_def)
    have "\<exists>d. deinterleave n rows aux s = Some d \<and> box n rows d \<and> held n amount d = unshuffled n (held n amount s)"
      if "box n rows s" for s using whole [OF that n(2) order_refl] by (simp add: t True)
    from stage_ok [where g = "unshuffled n", OF n(1) b(2) a(2,3) this] show ?thesis using complete_stage(2) [OF n(1)] True by simp
  next
    case False
    then have m: "amount < n * rows" using a(2) by simp
    note k = rows_below [OF n(1) m]
    show ?thesis
    proof (cases "amount mod n = 0")
      case True
      then have am: "amount = n * (amount div n)" by (simp add: mod_0_imp_dvd)
      then have "0 < amount div n" using a(1) by (metis gr0I mult_0_right)
      then have "\<exists>d. deinterleave n (amount div n) (take (amount div n) aux) s = Some d \<and> box n rows d \<and>
          held n amount d = unshuffled n (held n amount s)" if "box n rows s" for s
        using whole [OF that, of "amount div n"] k am by simp
      from stage_ok [where g = "unshuffled n", OF n(1) b(2) a(2,3) this] show ?thesis using False True by (simp add: incomplete_stage)
    next
      case m0: False
      have "\<exists>d. deinterleave_partial n (amount div n + 1) (amount mod n) (take (amount div n + 1) aux) s = Some d \<and>
          box n rows d \<and> held n amount d = unshuffled n (held n amount s)" if "box n rows s" for s
        using m0 box_take [OF b(1), of "amount div n + 1"] k that
        by (intro deinterleave_partial_unshuffles [OF n(1) a(1)]) (auto simp: full_rows_def last_part_def)
      from stage_ok [where g = "unshuffled n", OF n(1) b(2) a(2,3) this] show ?thesis using False m0 by (simp add: incomplete_stage)
    qed
  qed
qed

section \<open>Files\<close>

text \<open>A file whose last stack is complete, or incomplete with an incomplete last row.\<close>

definition regular :: "nat \<Rightarrow> nat \<Rightarrow> nat \<Rightarrow> bool" where
  "regular n rows sz \<longleftrightarrow> sz mod (n * rows) = 0 \<or> sz mod n \<noteq> 0"

lemma regular_step:
  assumes "0 < n" "0 < rows" "regular n rows sz" "0 < sz"
  shows "let amount = min (n * rows) sz in (amount = n * rows \<or> amount mod n \<noteq> 0) \<and> regular n rows (sz - amount)"
proof (cases "n * rows \<le> sz")
  case True
  then have "(sz - n * rows) mod (n * rows) = sz mod (n * rows)" by (simp add: le_mod_geq)
  moreover have "(sz - n * rows) mod n = sz mod n"
    using True mod_mult_self2 [of "sz - n * rows" n rows] by simp
  ultimately show ?thesis using True assms by (simp add: regular_def min_def)
next
  case False
  then show ?thesis using assms by (auto simp: regular_def min_def)
qed

interpretation interleaving: block_reader "n * rows"
  "\<lambda>amount. if amount = n * rows then process_block n rows aux else process_incomplete_block n rows aux amount"
  "\<lambda>st. 0 < n \<and> 0 < rows \<and> box n rows aux \<and> box n rows (block_stack st) \<and> regular n rows (length (in_stream st))"
  in_stream out_stream "\<lambda>c out. Some (out @ shuffled n c)" for n rows aux
proof (unfold_locales, goal_cases)
  case (1 st amount)
  then have o: "0 < n" "0 < rows" "box n rows aux" "box n rows (block_stack st)"
    and a: "0 < amount" "amount \<le> n * rows" "amount \<le> length (in_stream st)" "amount = n * rows \<or> amount mod n \<noteq> 0"
      "regular n rows (length (in_stream st) - amount)"
    using regular_step [of n rows "length (in_stream st)"] by (simp_all add: Let_def)
  from interleaving_step [OF o a(1-4)] obtain st' where
    "(if amount = n * rows then process_block n rows aux else process_incomplete_block n rows aux amount) st = Some st'"
    "box n rows (block_stack st')" "in_stream st' = drop amount (in_stream st)"
    "out_stream st' = out_stream st @ shuffled n (take amount (in_stream st))" by blast
  then show ?case using o a(5) by simp
qed

interpretation deinterleaving: block_reader "n * rows"
  "\<lambda>amount. if amount = n * rows then deprocess_block n rows aux else deprocess_incomplete_block n rows aux amount"
  "\<lambda>st. 0 < n \<and> 0 < rows \<and> box n rows aux \<and> box n rows (block_stack st)"
  in_stream out_stream "\<lambda>c out. Some (out @ unshuffled n c)" for n rows aux
proof (unfold_locales, goal_cases)
  case (1 st amount)
  then have o: "0 < n" "0 < rows" "box n rows aux" "box n rows (block_stack st)"
    and a: "0 < amount" "amount \<le> n * rows" "amount \<le> length (in_stream st)" by simp_all
  from deinterleaving_step [OF o a] show ?case using o by auto
qed

lemma fold_map_append: "fold_opt (\<lambda>c out. Some (out @ g c)) cs out = Some (out @ concat (map g cs))"
  by (induction cs arbitrary: out) simp_all

lemma file_interleaver_result:
  assumes "0 < n" "0 < rows" "box n rows aux" "box n rows mem" "c \<noteq> []" "regular n rows (length c)"
  shows "file_interleaver n rows aux mem True (Some c) = Some (Some (concat (map (shuffled n) (chunks (n * rows) c))))"
  using interleaving.blocks_Some [of n rows aux "\<lparr>block_stack = mem, in_stream = c, out_stream = []\<rparr>"] assms
  by (auto simp: file_interleaver_def file_size_def fold_map_append)

lemma file_deinterleaver_result:
  assumes "0 < n" "0 < rows" "box n rows aux" "box n rows mem" "c \<noteq> []"
  shows "file_deinterleaver n rows aux mem True (Some c) = Some (Some (concat (map (unshuffled n) (chunks (n * rows) c))))"
proof -
  let ?st = "\<lparr>block_stack = mem, in_stream = c, out_stream = []\<rparr>" and ?m = "n * rows"
  let ?step = "\<lambda>amount. if amount = ?m then deprocess_block n rows aux else deprocess_incomplete_block n rows aux amount"
  have m: "0 < ?m" using assms by simp
  obtain st where st: "blocks ?m ?step (length c) ?st = Some st" "out_stream st = concat (map (unshuffled n) (chunks ?m c))"
    using deinterleaving.blocks_Some [of n rows aux ?st] assms by (auto simp: fold_map_append)
  have "length c mod ?m \<noteq> ?m" using mod_less_divisor [OF m, of "length c"] by simp
  then have "?step (length c mod ?m) = deprocess_incomplete_block n rows aux (length c mod ?m)" by (rule if_not_P)
  then have "Option.bind (fold_opt (\<lambda>_. deprocess_block n rows aux) [0..<length c div ?m] ?st)
      (\<lambda>st. if length c mod ?m \<noteq> 0 then deprocess_incomplete_block n rows aux (length c mod ?m) st else Some st) = Some st"
    using st(1) unfolding blocks_counted [OF m] by (simp only: if_True simp_thms)
  then show ?thesis using st(2) assms m by (auto simp: file_deinterleaver_def file_size_def Let_def bind_eq_Some_conv)
qed

lemma chunks_shuffled:
  assumes "0 < n" "0 < m"
  shows "chunks m (concat (map (shuffled n) (chunks m c))) = map (shuffled n) (chunks m c)"
proof (induction m c rule: chunks.induct)
  case (1 m c)
  show ?case
  proof (cases "m = 0 \<or> c = []")
    case False
    let ?rest = "concat (map (shuffled n) (chunks m (drop m c)))"
    have l: "length (shuffled n (take m c)) = min (length c) m"
      using visit_ok(1) [OF assms(1), of "length (take m c)"] False by (simp add: shuffled_def)
    have "0 < length (shuffled n (take m c))" unfolding l using False by simp
    then have "shuffled n (take m c) \<noteq> []" by simp
    moreover have "take m (shuffled n (take m c) @ ?rest) = shuffled n (take m c) \<and> drop m (shuffled n (take m c) @ ?rest) = ?rest"
      using l by (cases "m \<le> length c") (auto simp: min_def)
    ultimately show ?thesis using False 1 by (simp add: chunks_step)
  qed (auto simp: chunks.simps)
qed

lemma length_shuffled_chunks: "0 < n \<Longrightarrow> 0 < m \<Longrightarrow> length (concat (map (shuffled n) (chunks m c))) = length c"
proof -
  assume n: "0 < n" "0 < m"
  have "length (shuffled n x) = length x" if "x \<in> set (chunks m c)" for x
    using chunks_length [OF that] visit_ok(1) [OF n(1), of "length x"] by (simp add: shuffled_def)
  then have "sum_list (map (\<lambda>x. length (shuffled n x)) (chunks m c)) = sum_list (map length (chunks m c))"
    by (intro arg_cong [where f = sum_list] map_cong refl)
  then have "length (concat (map (shuffled n) (chunks m c))) = length (concat (chunks m c))" by (simp add: length_concat comp_def)
  then show ?thesis using concat_chunks [OF n(2), of c] by simp
qed

text \<open>
  With complete rows only, but fewer than the stack has, the interleaver mixes the rows that were read with
  those it did not read: the second byte of this file is replaced by one of the memory.
\<close>

lemma interleaver_loses_bytes:
  "file_interleaver 2 2 [[0, 0], [0, 0]] [[5, 5], [x, 6]] True (Some [1, 2]) = Some (Some [1, x])"
  by (simp add: file_interleaver_def file_size_def blocks.simps process_incomplete_block_def interleave_array_def
      interleave_partial_def read_row_def write_row_def stream_read_def on_stack_def columns_def rows_of_def gather_def move_def
      copy_back_def in_stack_def cell_at_def set_cell_def next_index_def upt_rec Let_def)

section \<open>Properties\<close>

text \<open>
  C40: a file that is interleaved and deinterleaved again is the same, whatever the buffers contain, if its
  size is a multiple of the stack size in bytes or not a multiple of the row length. All accesses stay inside the
  stacks, and the interleaved file has the size of the original. The output files can be created.
\<close>

theorem file_interleaver_roundtrip:
  assumes "0 < n" and "0 < rows" and "box n rows aux" and "box n rows mem" and "box n rows aux'" and "box n rows mem'"
    and "c \<noteq> []" and "length c mod (n * rows) = 0 \<or> length c mod n \<noteq> 0"
  shows "\<exists>out. file_interleaver n rows aux mem True (Some c) = Some (Some out) \<and> length out = length c \<and>
     file_deinterleaver n rows aux' mem' True (Some out) = Some (Some c)"
proof -
  let ?out = "concat (map (shuffled n) (chunks (n * rows) c))"
  have m: "0 < n * rows" using assms(1,2) by simp
  have l: "length ?out = length c" by (rule length_shuffled_chunks [OF assms(1) m])
  then have "?out \<noteq> []" using assms(7) by (metis length_0_conv)
  from file_deinterleaver_result [OF assms(1,2,5,6) this] have
    d: "file_deinterleaver n rows aux' mem' True (Some ?out) = Some (Some (concat (map (unshuffled n \<circ> shuffled n) (chunks (n * rows) c))))"
    by (simp add: chunks_shuffled [OF assms(1) m])
  have "(unshuffled n \<circ> shuffled n) x = x" if "x \<in> set (chunks (n * rows) c)" for x
    using chunks_length [OF that] unshuffled_shuffled [OF assms(1), of x] by auto
  then have "map (unshuffled n \<circ> shuffled n) (chunks (n * rows) c) = chunks (n * rows) c" by (simp add: map_idI)
  then have "file_deinterleaver n rows aux' mem' True (Some ?out) = Some (Some c)" using d concat_chunks [OF m, of c] by simp
  moreover have "file_interleaver n rows aux mem True (Some c) = Some (Some ?out)"
    using assms(8) by (intro file_interleaver_result assms) (simp add: regular_def)
  ultimately show ?thesis using l by blast
qed

theorem file_interleaver_roundtrip_witness:
  "\<exists>out. file_interleaver 3 2 [[0, 0, 0], [0, 0, 0]] [[9, 9, 9], [9, 9, 9]] True (Some [1, 2, 3, 4, 5, 6, 7, 8, 9, 10]) = Some (Some out) \<and>
     file_deinterleaver 3 2 [[4, 4, 4], [4, 4, 4]] [[2, 2, 2], [2, 2, 2]] True (Some out) = Some (Some [1, 2, 3, 4, 5, 6, 7, 8, 9, 10])"
  using file_interleaver_roundtrip [of 3 2 "[[0, 0, 0], [0, 0, 0]]" "[[9, 9, 9], [9, 9, 9]]" "[[4, 4, 4], [4, 4, 4]]" "[[2, 2, 2], [2, 2, 2]]"
      "[1, 2, 3, 4, 5, 6, 7, 8, 9, 10]"]
  by (auto simp: box_def)

end
