(* ===== verification/BurstRecovery.thy ===== *)
theory BurstRecovery
  imports LibraryDecoder FileInterleaver ErrorProcesses
begin

text \<open>
  \<^verbatim>\<open>schifra_reed_solomon_file_interleaving_example.cpp\<close>, the program of the library that puts its parts together: a
  file is encoded and interleaved, damaged by a burst, deinterleaved, decoded and compared. What it shows is proved
  for every file and every burst first: interleaving turns a burst into few errors of each block.
\<close>

section \<open>The example program\<close>

text \<open>What the objects of a run find in memory: the arrays of the field, the blocks, stacks and buffers.\<close>

record example_memory =
  ex_alpha :: "nat \<Rightarrow> int"
  ex_index :: "nat \<Rightarrow> int"
  ex_beyond :: uint32
  ex_enc_block :: "nat \<Rightarrow> int"
  ex_stacks :: "byte stack \<times> byte stack"
  ex_destacks :: "byte stack \<times> byte stack"
  ex_dec_block :: "field_symbol list"
  ex_dec_buffer :: bytes
  ex_buffers :: "bytes \<times> bytes"

definition create_file :: "(string \<Rightarrow> bool) \<Rightarrow> string \<Rightarrow> nat \<Rightarrow> fs \<Rightarrow> fs" where
  "create_file writable file_name len fs =
     write_file writable file_name (map (\<lambda>i. word_of_nat (i AND 0xFF)) [0..<len]) fs"

text \<open>The output of a stage, which is not written if the stage returned before.\<close>

definition output_file :: "string \<Rightarrow> bytes option \<Rightarrow> fs \<Rightarrow> fs" where
  "output_file file_name out fs = (case out of None \<Rightarrow> fs | Some c \<Rightarrow> fs(file_name \<mapsto> c))"

definition file_interleaving_example :: "(string \<Rightarrow> bool) \<Rightarrow> example_memory \<Rightarrow> fs \<Rightarrow> (int \<times> fs) option" where
  "file_interleaving_example writable mem fs =
     (let code_length = 255; fec_length = 2; data_length = code_length - fec_length; gen_poly_index = 120; stack_size = 255;
          field = field_ctor (ex_alpha mem) (ex_index mem) 8 primitive_polynomial_size06 (primitive_polynomial06 @ [ex_beyond mem])
      in case make_sequential_root_generator_polynomial field gen_poly_index fec_length of
           None \<Rightarrow> Some (1, fs)
         | Some generator_polynomial \<Rightarrow> do {
             let encoder = encoder_ctor code_length field generator_polynomial;
             let decoder = decoder_ctor code_length fec_length field gen_poly_index;
             let fs = create_file writable ''input.dat'' (data_length * stack_size - 3) fs;
             out \<leftarrow> file_encoder code_length fec_length (encode code_length fec_length encoder) (ex_enc_block mem)
               (writable ''output.rsenc'') (fs ''input.dat'');
             let fs = output_file ''output.rsenc'' out fs;
             out \<leftarrow> file_interleaver code_length stack_size (fst (ex_stacks mem)) (snd (ex_stacks mem))
               (writable ''output.intr'') (fs ''output.rsenc'');
             let fs = output_file ''output.intr'' out fs;
             fs \<leftarrow> corrupt_file_with_burst_errors writable ''output.intr'' 10 (int (code_length * (fec_length div 2))) fs;
             out \<leftarrow> file_deinterleaver code_length stack_size (fst (ex_destacks mem)) (snd (ex_destacks mem))
               (writable ''output.deintr'') (fs ''output.intr'');
             let fs = output_file ''output.deintr'' out fs;
             out \<leftarrow> lib_file_decoder code_length fec_length (decode code_length fec_length decoder) (ex_dec_block mem) (ex_dec_buffer mem)
               (writable ''output.rsdec'') (fs ''output.deintr'');
             let fs = output_file ''output.rsdec'' out fs;
             Some (if files_identical (fst (ex_buffers mem)) (snd (ex_buffers mem)) fs ''input.dat'' ''output.rsdec'' then 0 else 1, fs)
           })"

section \<open>A burst in an interleaved file\<close>

text \<open>Two files of the same length that agree outside \<open>w\<close> bytes from \<open>p\<close>.\<close>

definition burst_damage :: "nat \<Rightarrow> nat \<Rightarrow> 'a list \<Rightarrow> 'a list \<Rightarrow> bool" where
  "burst_damage p w c d \<longleftrightarrow> length d = length c \<and> (\<forall>i<length c. i \<notin> {p..<p + w} \<longrightarrow> d ! i = c ! i)"

lemma nth_visit:
  assumes "0 < n" "0 < amount" "q < last_part n amount * Suc (full_rows n amount)"
  shows "visit n amount ! q = (q mod Suc (full_rows n amount), q div Suc (full_rows n amount))"
proof -
  let ?r = "Suc (full_rows n amount)"
  have "q div ?r < last_part n amount" using assms(3) by (simp only: less_mult_imp_div_less)
  then have "columns 0 (last_part n amount) ?r ! (q div ?r * ?r + q mod ?r) = (q mod ?r, q div ?r)"
    by (intro nth_columns) simp_all
  then show ?thesis using assms(3) by (simp add: visit_def spread_def nth_append length_columns div_mult_mod_eq del: mult_Suc_right)
qed

lemma nth_unshuffled:
  assumes "0 < n" "x < length c"
  obtains q where "q < length c" "visit n (length c) ! q = (x div n, x mod n)"
    "\<And>d. length d = length c \<Longrightarrow> unshuffled n d ! x = d ! q"
proof -
  have l: "0 < length c" using assms(2) by (rule le_less_trans [OF le0])
  note v = visit_ok [OF assms(1) l]
  have "(x div n, x mod n) \<in> set (visit n (length c))" using assms(2) unfolding v(3) by (auto simp: flat_def)
  then obtain q where q: "q < length c" "visit n (length c) ! q = (x div n, x mod n)" using v(1) by (metis in_set_conv_nth)
  have "unshuffled n d ! x = d ! q" if "length d = length c" for d
    using map_of_zip_nth [OF _ v(2), of d q] v(1) that q assms(2) by (simp add: unshuffled_def flat_def)
  then show ?thesis using q that by blast
qed

lemma length_shuffled: "0 < n \<Longrightarrow> c \<noteq> [] \<Longrightarrow> length (shuffled n c) = length c"
  using visit_ok(1) [of n "length c"] by (simp add: shuffled_def)

lemma burst_spread:
  assumes n: "0 < n" "c \<noteq> []" and d: "burst_damage p w (shuffled n c) d"
    and w: "w \<le> t * Suc (full_rows n (length c))" "p + w \<le> last_part n (length c) * Suc (full_rows n (length c))"
  shows "survivable n t c (unshuffled n d)"
proof -
  let ?R = "Suc (full_rows n (length c))" and ?u = "unshuffled n d"
  have ls: "length (shuffled n c) = length c" by (rule length_shuffled [OF n])
  then have ld: "length d = length c" using d by (simp add: burst_damage_def)
  have lu: "length ?u = length c" by (simp add: unshuffled_def flat_def ld)
  have hit: "p \<le> j * ?R + i \<and> j * ?R + i < p + w" if ij: "i * n + j < length c" "j < n" "c ! (i * n + j) \<noteq> ?u ! (i * n + j)" for i j
  proof -
    let ?x = "i * n + j"
    obtain q where q: "q < length c" "visit n (length c) ! q = (?x div n, ?x mod n)"
      "\<And>d :: bytes. length d = length c \<Longrightarrow> unshuffled n d ! ?x = d ! q" using nth_unshuffled [OF n(1) ij(1)] by blast
    have "shuffled n c ! q \<noteq> d ! q" using ij(3) q(3) [OF ld] q(3) [OF ls] unshuffled_shuffled [OF n] by simp
    then have pw: "q \<in> {p..<p + w}" using d q(1) ls by (auto simp: burst_damage_def)
    then have "q < last_part n (length c) * ?R" using w(2) by auto
    then have "visit n (length c) ! q = (q mod ?R, q div ?R)" using n by (intro nth_visit) simp_all
    then have "q mod ?R = i" "q div ?R = j" using q(2) ij(2) by simp_all
    then have "q = j * ?R + i" by (metis div_mult_mod_eq)
    then show ?thesis using pw by simp
  qed
  have "hamming (window c (i * n) n) (window ?u (i * n) n) \<le> t" for i
  proof -
    have "hamming (window c (i * n) n) (window ?u (i * n) n) =
        card {j. j < length (window c (i * n) n) \<and> window c (i * n) n ! j \<noteq> window ?u (i * n) n ! j}"
      using lu by (intro hamming_card) simp
    also have "\<dots> \<le> card {j. j < n \<and> p \<le> j * ?R + i \<and> j * ?R + i < p + w}"
      using hit [of i] lu by (intro card_mono) (auto simp: nth_window)
    also have "\<dots> \<le> t" by (rule card_stride [OF _ w(1)]) simp
    finally show ?thesis .
  qed
  then show ?thesis using lu by (simp add: survivable_def)
qed

section \<open>Coding and interleaving together\<close>

lemma chunks_single:
  assumes "c \<noteq> []" "length c \<le> m"
  shows "chunks m c = [c]"
  using assms chunks_step [of m c] by (cases m) (auto simp: chunks.simps)

context correcting_code
begin

lemma burst_recovered:
  assumes xs: "xs \<noteq> []" and rows: "0 < rows" and b: "box n rows aux" "box n rows mem" "box n rows aux'" "box n rows mem'"
  defines "c \<equiv> coded n k par xs"
  assumes l: "length c \<le> n * rows" "length c = n * rows \<or> length c mod n \<noteq> 0"
    and d: "burst_damage p w (shuffled n c) d" and w: "w \<le> t * Suc (full_rows n (length c))"
      "p + w \<le> last_part n (length c) * Suc (full_rows n (length c))"
  shows "file_encoder n k enc m True (Some xs) = Some (Some c) \<and> file_interleaver n rows aux mem True (Some c) = Some (Some (shuffled n c)) \<and>
    file_deinterleaver n rows aux' mem' True (Some d) = Some (Some (unshuffled n d)) \<and>
    decode_file n k dec True (Some (unshuffled n d)) = Some (SUCCESS, Some xs)"
proof (intro conjI)
  have n: "0 < n" using lengths by simp
  have c: "c \<noteq> []" unfolding c_def by (rule coded_nonempty [OF xs])
  have ld: "length d = length c" using d length_shuffled [OF n c] by (simp add: burst_damage_def)
  then have dn: "d \<noteq> []" using c by auto
  show "file_encoder n k enc m True (Some xs) = Some (Some c)" unfolding c_def by (rule file_encoder_ok [OF xs])
  show "file_interleaver n rows aux mem True (Some c) = Some (Some (shuffled n c))"
    using file_interleaver_result [OF n rows b(1,2) c] l chunks_single [OF c l(1)] by (auto simp: regular_def)
  show "file_deinterleaver n rows aux' mem' True (Some d) = Some (Some (unshuffled n d))"
    using file_deinterleaver_result [OF n rows b(3,4) dn] chunks_single [OF dn] l(1) ld by simp
  show "decode_file n k dec True (Some (unshuffled n d)) = Some (SUCCESS, Some xs)"
    using burst_spread [OF n c d w] unfolding c_def by (rule decode_file_ok [OF xs])
qed

end

lemma rs_burst_recovered:
  fixes al ix :: "nat \<Rightarrow> int" and beyond :: uint32
  assumes code: "rs_code k a" and xs: "xs \<noteq> []" and rows: "0 < rows"
    and b: "box 255 rows aux" "box 255 rows mem" "box 255 rows aux'" "box 255 rows mem'" "length raw = 255" "length buffer = 255"
  defines "c \<equiv> coded 255 k (rs_parity k a al ix beyond) xs"
  assumes l: "length c \<le> 255 * rows" "length c = 255 * rows \<or> length c mod 255 \<noteq> 0"
    and d: "burst_damage p w (shuffled 255 c) d" and w: "w \<le> k div 2 * Suc (full_rows 255 (length c))"
      "p + w \<le> last_part 255 (length c) * Suc (full_rows 255 (length c))"
  shows "file_encoder 255 k (encode 255 k (rs_encoder k a al ix beyond)) m True (Some xs) = Some (Some c) \<and>
    file_interleaver 255 rows aux mem True (Some c) = Some (Some (shuffled 255 c)) \<and>
    file_deinterleaver 255 rows aux' mem' True (Some d) = Some (Some (unshuffled 255 d)) \<and>
    lib_file_decoder 255 k (decode 255 k (rs_decoder k a al' ix' beyond')) raw buffer True (Some (unshuffled 255 d)) = Some (Some xs)"
proof -
  note r = correcting_code.burst_recovered [OF rs_correcting [OF code, of al ix beyond al' ix' beyond'] xs rows b(1-4), folded c_def,
      OF l d w, of m]
  have "lib_file_decoder 255 k (decode 255 k (rs_decoder k a al' ix' beyond')) raw buffer True (Some (unshuffled 255 d)) = Some (Some xs)"
    using r decode_defined [OF rs_decoder_ok [OF code]] by (intro library_decodes b(5,6)) auto
  then show ?thesis using r by blast
qed

lemma length_rs_coded:
  "rs_code k a \<Longrightarrow> length (coded 255 k (rs_parity k a al ix beyond) xs) = length xs + k * ((length xs + (255 - k) - 1) div (255 - k))"
  by (rule systematic_code.length_coded, rule correcting_code.axioms(1), rule rs_correcting)

section \<open>The example succeeds\<close>

lemma NOT_differs: "NOT x \<noteq> (x :: byte)"
proof
  assume "NOT x = x"
  then have "bit (NOT x) 0 = bit x 0" by simp
  then show False by (simp add: bit_simps)
qed

lemma burst_of_errors:
  assumes "p + l < length c"
  shows "burst_damage p l c (take p c @ map (\<lambda>x. NOT x) (take l (drop p c)) @ drop (p + l) c)"
  using assms by (auto simp: burst_damage_def nth_append)

definition example_input :: bytes where
  "example_input = map (\<lambda>i. word_of_nat (i AND 0xFF)) [0..<64512]"

lemma example_code: "rs_code 2 120"
  by (simp add: rs_code_def)

lemma example_coded:
  "length (coded 255 2 (rs_parity 2 120 al ix beyond) example_input) = 65022"
  by (simp add: length_rs_coded [OF example_code] example_input_def del: upt_rec_numeral)

lemma example_columns: "full_rows 255 65022 = 254" "last_part 255 65022 = 252"
  by (simp_all add: full_rows_def last_part_def)

lemma example_stages:
  fixes al ix beyond
  assumes b: "box 255 255 aux" "box 255 255 mem" "box 255 255 aux'" "box 255 255 mem'" "length raw = 255" "length buffer = 255"
  defines "c \<equiv> coded 255 2 (rs_parity 2 120 al ix beyond) example_input"
  defines "i \<equiv> shuffled 255 c"
  defines "d \<equiv> take 10 i @ map (\<lambda>x. NOT x) (take 255 (drop 10 i)) @ drop 265 i"
  shows "file_encoder 255 2 (encode 255 2 (rs_encoder 2 120 al ix beyond)) m True (Some example_input) = Some (Some c) \<and>
    file_interleaver 255 255 aux mem True (Some c) = Some (Some i) \<and> length i = 65022 \<and>
    file_deinterleaver 255 255 aux' mem' True (Some d) = Some (Some (unshuffled 255 d)) \<and>
    lib_file_decoder 255 2 (decode 255 2 (rs_decoder 2 120 al ix beyond)) raw buffer True (Some (unshuffled 255 d)) = Some (Some example_input)"
proof -
  have l: "length c = 65022" unfolding c_def by (rule example_coded)
  then have "c \<noteq> []" by auto
  then have li: "length i = 65022" using length_shuffled [of 255 c] l by (simp add: i_def)
  have ne: "example_input \<noteq> []" by (simp add: example_input_def del: upt_rec_numeral)
  have d: "burst_damage 10 255 (shuffled 255 c) d"
    using burst_of_errors [of 10 255 i] li unfolding d_def i_def by simp
  show ?thesis
    using rs_burst_recovered [OF example_code ne _ b, of al ix beyond 10 255 d m al ix beyond] d li
    unfolding c_def [symmetric] l example_columns i_def [symmetric] by simp
qed

section \<open>Properties\<close>

text \<open>
  C13: a burst in an interleaved file is recovered. A file is encoded by any of the codes. If the coded file fits one
  stack of \<open>rows\<close> blocks, and either fills it (255 * \<open>rows\<close> bytes) or does not end at a block boundary (its length is not
  a multiple of 255: for other lengths the interleaver loses bytes, see \<open>interleaver_loses_bytes\<close>), it is interleaved without
  loss; after damage to a run of bytes that is up to as many times longer than the number of used rows as a block may
  have errors, and that lies in the columns that all used rows have, it is deinterleaved and decoded by the library: the
  result is the file, for any contents of the memory of all the objects. The output files can be created.
\<close>

theorem interleaved_burst_recovered:
  assumes "0 < k" and "k < 255" and "a + k \<le> 255" and "xs \<noteq> []" and "0 < rows"
    and "box 255 rows aux" and "box 255 rows mem" and "box 255 rows aux'" and "box 255 rows mem'"
    and "length raw = 255" and "length buffer = 255"
    and "make_sequential_root_generator_polynomial (rs_field al ix beyond) a k = Some g"
  shows "\<exists>c i. file_encoder 255 k (encode 255 k (encoder_ctor 255 (rs_field al ix beyond) g)) m True (Some xs) = Some (Some c) \<and>
     length c = length xs + k * ((length xs + (255 - k) - 1) div (255 - k)) \<and>
     (length c \<le> 255 * rows \<and> (length c = 255 * rows \<or> length c mod 255 \<noteq> 0) \<longrightarrow>
        file_interleaver 255 rows aux mem True (Some c) = Some (Some i) \<and> length i = length c \<and>
        (\<forall>p w d. burst_damage p w i d \<and> w \<le> k div 2 * Suc (full_rows 255 (length c)) \<and>
            p + w \<le> last_part 255 (length c) * Suc (full_rows 255 (length c)) \<longrightarrow>
          (\<exists>e. file_deinterleaver 255 rows aux' mem' True (Some d) = Some (Some e) \<and>
             lib_file_decoder 255 k (decode 255 k (decoder_ctor 255 k (rs_field al' ix' beyond') a)) raw buffer True (Some e) = Some (Some xs))))"
proof -
  have code: "rs_code k a" using assms(1-3) by (simp add: rs_code_def)
  have e: "encoder_ctor 255 (rs_field al ix beyond) g = rs_encoder k a al ix beyond" using assms(12) by (simp add: rs_encoder_def)
  let ?c = "coded 255 k (rs_parity k a al ix beyond) xs"
  have "file_encoder 255 k (encode 255 k (rs_encoder k a al ix beyond)) m True (Some xs) = Some (Some ?c)"
    by (rule systematic_code.file_encoder_ok [OF correcting_code.axioms(1) [OF rs_correcting [OF code, where al' = al and ix' = ix and beyond' = beyond]] assms(4)])
  moreover have "file_interleaver 255 rows aux mem True (Some ?c) = Some (Some (shuffled 255 ?c))"
    if "length ?c \<le> 255 * rows" "length ?c = 255 * rows \<or> length ?c mod 255 \<noteq> 0"
    using rs_burst_recovered [OF code assms(4-11) that, of 0 0 "shuffled 255 ?c"] by (simp add: burst_damage_def)
  moreover have "file_deinterleaver 255 rows aux' mem' True (Some d) = Some (Some (unshuffled 255 d)) \<and>
      lib_file_decoder 255 k (decode 255 k (rs_decoder k a al' ix' beyond')) raw buffer True (Some (unshuffled 255 d)) = Some (Some xs)"
    if "length ?c \<le> 255 * rows" "length ?c = 255 * rows \<or> length ?c mod 255 \<noteq> 0" "burst_damage p w (shuffled 255 ?c) d"
      "w \<le> k div 2 * Suc (full_rows 255 (length ?c))" "p + w \<le> last_part 255 (length ?c) * Suc (full_rows 255 (length ?c))" for p w d
    using rs_burst_recovered [OF code assms(4-11) that] by blast
  moreover have "?c \<noteq> []" using length_rs_coded [OF code, of al ix beyond xs] assms(4) by auto
  then have "length (shuffled 255 ?c) = length ?c" by (intro length_shuffled) simp_all
  ultimately show ?thesis unfolding e rs_decoder_def [symmetric] using length_rs_coded [OF code, of al ix beyond xs] by blast
qed

theorem interleaved_burst_recovered_witness:
  "\<exists>g c i e. file_encoder 255 2 (encode 255 2 (encoder_ctor 255 (rs_field (\<lambda>_. 7) (\<lambda>_. 0) 1) g)) (\<lambda>_. 3) True (Some [1, 2, 3]) = Some (Some c) \<and>
     file_interleaver 255 1 [replicate 255 4] [replicate 255 5] True (Some c) = Some (Some i) \<and>
     file_deinterleaver 255 1 [replicate 255 6] [replicate 255 0] True (Some (i[2 := 99])) = Some (Some e) \<and>
     lib_file_decoder 255 2 (decode 255 2 (decoder_ctor 255 2 (rs_field (\<lambda>_. 0) (\<lambda>_. 9) 4) 120)) (replicate 255 8) (replicate 255 1) True (Some e) =
       Some (Some [1, 2, 3])"
proof -
  obtain g where g: "make_sequential_root_generator_polynomial (rs_field (\<lambda>_. 7) (\<lambda>_. 0) 1) 120 2 = Some g"
    using rs_generator_exists [of 2 120 "\<lambda>_. 7" "\<lambda>_. 0" 1] by (auto simp: rs_code_def)
  have box: "box 255 1 [replicate 255 x]" for x :: byte by (simp only: box_def list.pred_inject length_replicate) simp
  note ok = interleaved_burst_recovered [OF _ _ _ _ _ box [of 4] box [of 5] box [of 6] box [of 0] length_replicate length_replicate g,
      of "[1, 2, 3]" "\<lambda>_. 3" "\<lambda>_. 0" "\<lambda>_. 9" 4 8 1]
  have pre: "0 < (2 :: nat)" "2 < (255 :: nat)" "120 + 2 \<le> (255 :: nat)" "[1 :: byte, 2, 3] \<noteq> []" "0 < (1 :: nat)" by simp_all
  note ok' = ok [OF pre]
  have t: "full_rows 255 5 = 0" "last_part 255 5 = 5" "5 mod 255 \<noteq> (0 :: nat)" by (simp_all add: full_rows_def last_part_def)
  obtain c i where c: "file_encoder 255 2 (encode 255 2 (encoder_ctor 255 (rs_field (\<lambda>_. 7) (\<lambda>_. 0) 1) g)) (\<lambda>_. 3) True (Some [1, 2, 3]) = Some (Some c)"
    "length c = length [1 :: byte, 2, 3] + 2 * ((length [1 :: byte, 2, 3] + (255 - 2) - 1) div (255 - 2))"
    "length c \<le> 255 * 1 \<and> (length c = 255 * 1 \<or> length c mod 255 \<noteq> 0) \<longrightarrow>
      file_interleaver 255 1 [replicate 255 4] [replicate 255 5] True (Some c) = Some (Some i) \<and> length i = length c \<and>
      (\<forall>p w d. burst_damage p w i d \<and> w \<le> 2 div 2 * Suc (full_rows 255 (length c)) \<and>
         p + w \<le> last_part 255 (length c) * Suc (full_rows 255 (length c)) \<longrightarrow>
        (\<exists>e. file_deinterleaver 255 1 [replicate 255 6] [replicate 255 0] True (Some d) = Some (Some e) \<and>
          lib_file_decoder 255 2 (decode 255 2 (decoder_ctor 255 2 (rs_field (\<lambda>_. 0) (\<lambda>_. 9) 4) 120)) (replicate 255 8) (replicate 255 1) True (Some e) =
            Some (Some [1, 2, 3])))"
    using ok' by blast
  have l: "length c = 5" using c(2) by simp
  have "burst_damage 2 1 i (i[2 := 99])" by (auto simp: burst_damage_def nth_list_update)
  moreover have "2 + 1 \<le> (5 :: nat) * Suc 0" "1 \<le> 2 div 2 * Suc 0" "(5 :: nat) \<le> 255 * 1" by simp_all
  ultimately show ?thesis using c(1) c(3) [unfolded l t(1,2)] t(3) by blast
qed

text \<open>
  C17: the example program of the library succeeds. If its five files can be written, it ends with status 0 whatever
  the memory of its objects contains, and the file it decodes from the damaged, interleaved one is the file it created.
\<close>

theorem file_interleaving_example_succeeds:
  assumes w: "writable ''input.dat''" "writable ''output.rsenc''" "writable ''output.intr''" "writable ''output.deintr''" "writable ''output.rsdec''"
    and b: "box 255 255 (fst (ex_stacks mem))" "box 255 255 (snd (ex_stacks mem))" "box 255 255 (fst (ex_destacks mem))"
      "box 255 255 (snd (ex_destacks mem))" "length (ex_dec_block mem) = 255" "length (ex_dec_buffer mem) = 255"
      "length (fst (ex_buffers mem)) = 1024" "length (snd (ex_buffers mem)) = 1024"
  shows "\<exists>fs'. file_interleaving_example writable mem fs = Some (0, fs') \<and> fs' ''output.rsdec'' = fs' ''input.dat'' \<and>
     fs' ''input.dat'' = Some (map (\<lambda>i. word_of_nat (i AND 0xFF)) [0..<64512]) \<and> 
     file_interleaver 255 255 (fst (ex_stacks mem)) (snd (ex_stacks mem)) True (fs' ''output.rsenc'') \<noteq> Some (fs' ''output.intr'')"
proof -
  let ?al = "ex_alpha mem" and ?ix = "ex_index mem" and ?be = "ex_beyond mem"
  let ?f = "rs_field ?al ?ix ?be"
  obtain g where g: "make_sequential_root_generator_polynomial ?f 120 2 = Some g"
    using rs_generator_exists [OF example_code, of ?al ?ix ?be] by auto
  have e: "encoder_ctor 255 ?f g = rs_encoder 2 120 ?al ?ix ?be" using g by (simp add: rs_encoder_def)
  define c where "c = coded 255 2 (rs_parity 2 120 ?al ?ix ?be) example_input"
  define i where "i = shuffled 255 c"
  define d where "d = take 10 i @ map (\<lambda>x. NOT x) (take 255 (drop 10 i)) @ drop 265 i"
  note st = example_stages [OF b(1-6), where m = "ex_enc_block mem" and al = ?al and ix = ?ix and beyond = ?be, folded c_def, folded i_def, folded d_def]
  have "create_file writable ''input.dat'' 64512 fs = fs(''input.dat'' \<mapsto> example_input)"
    using w(1) by (simp only: create_file_def write_file_def example_input_def if_True)
  moreover have "d ! 10 = NOT (i ! 10)" using st by (simp add: d_def nth_append)
  then have "d \<noteq> i" using NOT_differs by metis
  ultimately show ?thesis
    unfolding file_interleaving_example_def Let_def rs_field_def [symmetric] g option.case e rs_decoder_def [symmetric]
    using st w b(7,8) by (simp add: output_file_def corrupt_file_with_burst_errors_def file_exists_def file_size_def files_identical_iff d_def [symmetric] example_input_def [symmetric] del: upt_rec_numeral)
qed

theorem file_interleaving_example_succeeds_witness:
  "\<exists>fs'. file_interleaving_example (\<lambda>_. True) \<lparr>ex_alpha = \<lambda>_. 7, ex_index = \<lambda>_. - 2, ex_beyond = 1, ex_enc_block = \<lambda>_. 3,
       ex_stacks = (replicate 255 (replicate 255 4), replicate 255 (replicate 255 5)),
       ex_destacks = (replicate 255 (replicate 255 6), replicate 255 (replicate 255 0)), ex_dec_block = replicate 255 8,
       ex_dec_buffer = replicate 255 1, ex_buffers = (replicate 1024 2, replicate 1024 9)\<rparr> (\<lambda>_. None) = Some (0, fs') \<and>
     fs' ''output.rsdec'' = fs' ''input.dat''"
proof -
  let ?mem = "\<lparr>ex_alpha = \<lambda>_. 7, ex_index = \<lambda>_. - 2, ex_beyond = 1, ex_enc_block = \<lambda>_. 3,
       ex_stacks = (replicate 255 (replicate 255 4), replicate 255 (replicate 255 5)),
       ex_destacks = (replicate 255 (replicate 255 6), replicate 255 (replicate 255 0)), ex_dec_block = replicate 255 8,
       ex_dec_buffer = replicate 255 1, ex_buffers = (replicate 1024 2, replicate 1024 9)\<rparr>"
  have box: "box 255 255 (replicate 255 (replicate 255 x))" for x :: byte by (simp only: box_def list_all_length length_replicate nth_replicate)  simp
  show ?thesis
    using file_interleaving_example_succeeds [of "\<lambda>_. True" ?mem "\<lambda>_. None"]
    unfolding example_memory.simps fst_conv snd_conv length_replicate by (simp only: box simp_thms) blast
qed

end
