(* ===== verification/Spec2Isabelle.thy ===== *)
theory Spec2Isabelle
  imports Pipeline TreeTool Generate DataCheck FieldMemory ProductCode SpeedEvaluator GeneralCodec GaloisUtilities BurstRecovery
begin

text \<open>
  Verification of the write-once file system.

  \<^bold>\<open>The program.\<close> \<^verbatim>\<open>master.cpp\<close> walks a directory with \<^verbatim>\<open>nftw\<close>, writes one image file (all headers in
  depth-first order, then the data of all files), appends keyed hashes of its blocks and, on
  request, a Reed-Solomon coded copy of the whole. \<^verbatim>\<open>mounter.c\<close> undoes the coding, checks the
  hashes and serves the image read-only through FUSE. \<^verbatim>\<open>tree.cpp\<close> prints the tree of an image,
  \<^verbatim>\<open>generate.cpp\<close> writes three small test images, \<^verbatim>\<open>DataCheck.cpp\<close> is a checksum. Coding and
  decoding rest on the vendored headers under \<^verbatim>\<open>libraries/schifra\<close>, the options of the master on
  \<^verbatim>\<open>cxxopts.hpp\<close>.

  \<^bold>\<open>Conventions.\<close> Bytes and fixed-width integers are words: unsigned arithmetic wraps, conversions
  between widths are those of the source, and the counters of the traversal, which are \<^verbatim>\<open>int\<close>s, have
  no result when they overflow; symbols of the Galois field are C++ \<^verbatim>\<open>int\<close>s modelled by \<^typ>\<open>int\<close>, none of
  the operations leaves their range. A failed assertion, an access outside an array or another
  undefined step is the result \<^term>\<open>None\<close> (in the parser of options, whose results are a sum, the value
  \<open>signed_overflow\<close>); statuses and exceptions of the source are values. Whether a file can be created,
  which file a name leads to, whether the buffer of the hash check can be allocated and how much the
  stack holds are arguments. Memory
  that is used before it is written (new arrays, buffers, the word behind an array that is read too
  far) is an argument, and the theorems hold for all its contents. A loop that may not end is a
  \<^theory_text>\<open>partial_function\<close> into options or has a fuel argument.

  \<^bold>\<open>Files and structures.\<close>
  \<^item> \<open>Prelude\<close>: slices of lists, invariants of counting loops, words in memory and their byte order,
    C strings, decimal digits.
  \<^item> \<open>CStdio\<close>: the part of \<^verbatim>\<open>stdio\<close> the program uses, a stream with contents and position.
  \<^item> \<open>OnDisk\<close>: \<^verbatim>\<open>OnDiskStructure.h\<close>, the writers of \<^verbatim>\<open>master.cpp\<close> and \<^verbatim>\<open>readFunctions.cpp\<close>.
  \<^item> \<open>ImageFormat\<close>: what it means that an image holds a tree, for a reader that follows its pointers;
    the locale \<open>image_reader\<close> states what a reader of headers promises, and is interpreted for the
    mounter and for the tree printer.

  \<^bold>\<open>The master.\<close>
  \<^item> \<open>Traversal\<close>: \<^verbatim>\<open>s_builder\<close>, the callback of \<^verbatim>\<open>nftw\<close>, on a heap of node arrays and a stack of open
    directories. It rebuilds the tree as long as the counters do not overflow; an entry it does not handle stops it, which is ignored.
  \<^item> \<open>ImageWriter\<close>: \<^verbatim>\<open>imageDFS\<close>, \<^verbatim>\<open>writeDFS\<close>, the copy loop. The written file is exactly the reference
    layout \<open>image_of\<close>, for trees of files below 2 GiB, where the \<^verbatim>\<open>int\<close> sizes of the source are exact; files of
    2 to 4 GiB are announced and not copied.
  \<^item> \<open>Hashing\<close>: \<^verbatim>\<open>hashAndAppend\<close> and \<^verbatim>\<open>checkHash\<close>. The keyed hash (the HMAC of OpenSSL) is an argument.
    What was hashed is accepted, what is accepted has the codes of its blocks, and a changed image is
    rejected when the hash does not collide on the blocks; the count of the codes is not
    protected. Without a buffer the check exits the program.

  \<^bold>\<open>The coding.\<close>
  \<^item> \<open>GaloisField\<close>, \<open>GF256\<close>: \<^verbatim>\<open>schifra_galois_field.hpp\<close>; the generated tables compute in the field with
    256 elements, which is defined as a type of the class of fields so that the algebra of the
    library applies. \<open>FieldMemory\<close>: the placement of the tables in one buffer, which is safe up to
    power 14 unless a smaller field was constructed before, and the operations without tables, which
    agree with the tables.
  \<^item> \<open>FieldPolynomial\<close>, \<open>PolyEval\<close>: elements and polynomials, the values of sum, product, shift, derivative,
    remainder and evaluation over the field, the roots of the generator polynomial; all operations
    keep the coefficients symbols. \<open>gcd\<close> has a fuel argument; it is shown that no fuel is enough.
  \<^item> \<open>RSBlock\<close>, \<open>RSCode\<close>: blocks, encoder and decoder: syndromes, the Berlekamp-Massey loop, the search of
    roots, the Forney algorithm. \<open>RSCorrect\<close>: encoding gives code words, which decoding returns.
    \<open>KeyEquation\<close>: the algebra of error locators. \<open>BerlekampMassey\<close>: the invariant of the loop; it ends with
    the locator of the errors and erasures. \<open>RSDecode\<close>: errors and erasures are corrected as long as the
    erasures plus twice the other errors are no more than the parity symbols, as many errors as parity
    symbols are detected, and decoding is always defined.
  \<^item> \<open>FileCodec\<close>: \<^verbatim>\<open>addReedSolomon\<close>, \<^verbatim>\<open>ecc.cpp\<close>, \<^verbatim>\<open>fileDecoder.cpp\<close> and the file encoder. The locales
    \<open>systematic_code\<close> and \<open>correcting_code\<close> state what the block code promises to the loops over a
    file; every code of the library with 255 symbols fulfils them, the interpretation is the one with 32 parity symbols. Up to 16 changed bytes
    in each block of 255 are repaired; decoding of any file ends with a status.

  \<^bold>\<open>The rest of the coding library\<close>, which the program does not call.
  \<^item> \<open>Crc\<close>, \<open>FileIO\<close>: \<^verbatim>\<open>schifra_crc.hpp\<close> and \<^verbatim>\<open>schifra_fileio.hpp\<close>. The locale \<open>block_reader\<close> describes the loops
    that read a file in blocks; copying, comparing and the checksum are its interpretations. The checksum
    depends on the last eight bytes only.
  \<^item> \<open>Interleaver\<close>: the interleavers, their inverses, and the repair of bursts by interleaved blocks.
    \<open>FileInterleaver\<close>: whole files, given back by the deinterleaver unless their last part consists of full rows.
  \<^item> \<open>ErasureChannel\<close>: encoded and interleaved stacks survive the loss of as many rows as there are parity symbols;
    the locale \<open>erasure_code\<close> states what is needed of the code.
  \<^item> \<open>ErrorProcesses\<close>: the patterns of errors and erasures with which the codec is tested, in closed form.
    \<open>CodecValidator\<close>: the validation of the codec. The locale \<open>tested_codec\<close> states what the twelve stages need
    of a codec; it is interpreted for the plain and for the shortened codec. The validation returns true.
    \<open>SpeedEvaluator\<close>: the speed tests decode every block in each of their hundred rounds.
  \<^item> \<open>LibraryDecoder\<close>: the file decoder that \<^verbatim>\<open>fileDecoder.cpp\<close> is a copy of. The copy writes the same file when it
    succeeds and the beginning of it when it stops. \<open>BurstRecovery\<close>: files encoded, interleaved, damaged by a burst,
    deinterleaved and decoded come back; the example program of the library that does this succeeds. The result is
    proved inside the locale \<open>correcting_code\<close>, for every code over the field.
  \<^item> \<open>ProductCode\<close>: rows and columns of blocks. Data is given back, with and without interleaving; only the code of the
    rows is used, since the parity of the columns is stored in the wrong places and never read.
    \<open>GeneralCodec\<close>: the table of encoders and decoders for twenty numbers of parity symbols.
  \<^item> \<open>BitIO\<close>: symbols of 2 to 16 bits in bytes, distances, copies between stacks, the timer. \<open>GaloisUtilities\<close>: the
    printed table of a field and polynomials as text.

  \<^bold>\<open>The mounter and the tools.\<close>
  \<^item> \<open>Mounter\<close>: \<^verbatim>\<open>find\<close> and the FUSE operations \<^verbatim>\<open>getattr\<close>, \<^verbatim>\<open>readdir\<close>, \<^verbatim>\<open>open\<close>, \<^verbatim>\<open>read\<close> on an image that holds
    a tree: every path, file, directory and attribute is served as the tree has it, every request is
    answered. The specification \<open>tree_reply\<close> gives the answer of a tree to a request without an image; every
    sequence of requests gets exactly these answers and leaves the image as it is.
  \<^item> \<open>TreeTool\<close>: \<^verbatim>\<open>tree.cpp\<close> prints the rendering of the tree. Its recursion has a fuel argument; the height
    of the tree is enough. With \<^verbatim>\<open>-v\<close> and \<^verbatim>\<open>-vc\<close> every time needs a local time, with \<^verbatim>\<open>-vc\<close> the files must
    contain a NUL, or the printer reads past its buffer, and fit on the stack.
  \<^item> \<open>Generate\<close>: the three generated images, if their files can be opened, hold the trees they spell out; a header
    is written with the bytes of the time reversed.
  \<^item> \<open>DataCheck\<close>: the checksum is that over the integers, and which changes it detects.
  \<^item> \<open>CxxOpts\<close>: \<^verbatim>\<open>cxxopts.hpp\<close>: specifications of options, the loop over the arguments, the value parsers,
    defaults, help text. A written command line is parsed to its settings; decimal numbers in
    range are read exactly, and others rejected by the types of 8 and 16 bits.
  \<^item> \<open>Pipeline\<close>: the two programs as compositions of these parts. Mastering a directory from a proper command
    line and mounting the result, also after damage within the reach of the code, serves exactly
    that directory, provided the image is not one of the files to read; the image is emptied before they
    are read. Contents replaced behind their hashes are refused unless the user insists.

  \<^bold>\<open>Not modelled.\<close> FUSE and its option parser, the kernel, \<^verbatim>\<open>nftw\<close> itself (the calls it makes are an
  argument), OpenSSL, the reading of passwords without echo (the typed text is an argument), messages on the
  standard output, \<^verbatim>\<open>localtime\<close> (an argument of the tree printer, which may give no result): code outside the
  repository. Reading a file while it is overwritten has no result. Allocations other than the one
  of \<^verbatim>\<open>checkHash\<close>, which the source does not check, succeed. Of \<^verbatim>\<open>cxxopts.hpp\<close> the parser over string streams for other types and the build with Unicode
  strings, of Schifra the conversion of 24 bit symbols, which does not compile, the clock of Windows, most of the other
  primitive polynomials, the table of \<^verbatim>\<open>LINEAR_EXP_LUT\<close> and the other example programs, which show single functions on
  fixed messages: unused by the program. The directories under \<^verbatim>\<open>final-demo\<close> are data to be mastered.
\<close>

end
